(* ===== verification/Prelude.thy ===== *)
theory Prelude
  imports Main "HOL-Library.Word"
begin

text \<open>
  The prelude of the development: the error classes of liblw and the result type of
  everything that can throw (\<open>src/lw/err/canonical.h\<close>), and the pieces of the C++
  standard library the components share: character classification in the "C" locale,
  \<open>std::to_string\<close> and \<open>std::from_chars\<close> on integers, and views of strings.

  An operation that may throw returns \<open>fault + 'a\<close>. A fault is a liblw error class
  (message texts are not modelled), one of the exceptions of the standard library, or
  \<open>Undefined_behaviour\<close> where the source steps outside of what C++ defines (\<open>top()\<close> of an
  empty \<open>std::stack\<close>, a \<open>string_view\<close> built on a null pointer, ...), or
  \<open>Does_not_return\<close> where a loop of the source runs forever, or \<open>Terminates\<close> where it
  ends in \<open>std::terminate\<close>. They are values of the model so
  that their absence is something to prove.
\<close>

named_theorems res_simps \<open>evaluation of the error monad\<close>
named_theorems char_simps \<open>evaluation of the character classes\<close>

section \<open>Faults\<close>

datatype error =
    Aborted | AlreadyExists | Cancelled | DeadlineExceeded | FailedPrecondition | Internal
  | InvalidArgument | NotFound | OutOfRange | PermissionDenied | ResourceExhausted
  | Unavailable | Unimplemented

datatype fault =
    Err error | Std_out_of_range | Std_bad_variant_access | Std_regex_error
  | Undefined_behaviour | Does_not_return | Terminates

type_synonym 'a res = "fault + 'a"

definition bind_res :: "'a res \<Rightarrow> ('a \<Rightarrow> 'b res) \<Rightarrow> 'b res" where
  "bind_res m f = (case m of Inl e \<Rightarrow> Inl e | Inr x \<Rightarrow> f x)"

lemma bind_res_Inl [simp, res_simps]: "bind_res (Inl e) f = Inl e"
  by (simp add: bind_res_def)

lemma bind_res_Inr [simp, res_simps]: "bind_res (Inr x) f = f x"
  by (simp add: bind_res_def)

lemma bind_res_eq_Inr_iff: "bind_res m f = Inr y \<longleftrightarrow> (\<exists>x. m = Inr x \<and> f x = Inr y)"
  by (cases m) auto

lemma bind_res_eq_Inl_iff:
  "bind_res m f = Inl e \<longleftrightarrow> m = Inl e \<or> (\<exists>x. m = Inr x \<and> f x = Inl e)"
  by (cases m) auto

lemma bind_res_assoc: "bind_res (bind_res m f) g = bind_res m (\<lambda>x. bind_res (f x) g)"
  by (cases m) auto

lemma bind_res_cong [fundef_cong]:
  "m = m' \<Longrightarrow> (\<And>x. m' = Inr x \<Longrightarrow> f x = g x) \<Longrightarrow> bind_res m f = bind_res m' g"
  by (cases m') auto

definition map_res :: "('a \<Rightarrow> 'b) \<Rightarrow> 'a res \<Rightarrow> 'b res" where
  "map_res f m = bind_res m (\<lambda>x. Inr (f x))"

lemma map_res_simps [simp, res_simps]:
  "map_res f (Inl e) = Inl e"
  "map_res f (Inr x) = Inr (f x)"
  by (simp_all add: map_res_def)

lemma map_res_eq_Inr_iff: "map_res f m = Inr y \<longleftrightarrow> (\<exists>x. m = Inr x \<and> y = f x)"
  by (cases m) auto

lemma map_res_eq_Inl_iff [simp]: "map_res f m = Inl e \<longleftrightarrow> m = Inl e"
  by (cases m) auto

text \<open>\<open>check b e\<close> is the guard \<open>if (!b) throw e;\<close>.\<close>

definition check :: "bool \<Rightarrow> fault \<Rightarrow> unit res" where
  "check b e = (if b then Inr () else Inl e)"

lemma check_simps [simp, res_simps]:
  "check True e = Inr ()"
  "check False e = Inl e"
  by (simp_all add: check_def)

lemma check_eq_Inr_iff [simp]: "check b e = Inr u \<longleftrightarrow> b"
  by (simp add: check_def)

lemma check_eq_Inl_iff [simp]: "check b e = Inl f \<longleftrightarrow> \<not> b \<and> f = e"
  by (auto simp: check_def)

text \<open>
  Code that changes an object and may throw half way: the outcome and the object as it is
  then. The changes made before a throw stay.
\<close>

type_synonym ('s, 'a) prog = "'s \<Rightarrow> 'a res \<times> 's"

definition ret :: "'a \<Rightarrow> ('s, 'a) prog" where
  "ret x s = (Inr x, s)"

definition lift_res :: "'a res \<Rightarrow> ('s, 'a) prog" where
  "lift_res r s = (r, s)"

definition modify :: "('s \<Rightarrow> 's) \<Rightarrow> ('s, unit) prog" where
  "modify f s = (Inr (), f s)"

definition bind_prog :: "('s, 'a) prog \<Rightarrow> ('a \<Rightarrow> ('s, 'b) prog) \<Rightarrow> ('s, 'b) prog" where
  "bind_prog m f s = (case m s of (Inl e, s') \<Rightarrow> (Inl e, s') | (Inr x, s') \<Rightarrow> f x s')"

lemma prog_simps [simp, res_simps]:
  "ret x s = (Inr x, s)"
  "lift_res r s = (r, s)"
  "modify f s = (Inr (), f s)"
  by (simp_all add: ret_def lift_res_def modify_def)

lemma bind_prog_simps [simp, res_simps]:
  "bind_prog (ret x) f s = f x s"
  "bind_prog (modify g) h s = h () (g s)"
  "bind_prog (lift_res (Inr x)) f s = f x s"
  "bind_prog (lift_res (Inl e)) f s = (Inl e, s)"
  by (simp_all add: bind_prog_def)

lemma bind_prog_eq_Inr_iff:
  "bind_prog m f s = (Inr y, s') \<longleftrightarrow> (\<exists>x s1. m s = (Inr x, s1) \<and> f x s1 = (Inr y, s'))"
  by (auto simp: bind_prog_def split: prod.splits sum.splits)

section \<open>Characters\<close>

text \<open>
  The classification functions of \<open><cctype>\<close> in the "C" locale. \<open>of_char\<close> is the byte
  value; the functions answer false for every byte above 127.
\<close>

definition code :: "char \<Rightarrow> nat" where
  "code c = of_char c"

definition isspace :: "char \<Rightarrow> bool" where
  "isspace c \<longleftrightarrow> 9 \<le> code c \<and> code c \<le> 13 \<or> code c = 32"

definition isdigit :: "char \<Rightarrow> bool" where
  "isdigit c \<longleftrightarrow> 48 \<le> code c \<and> code c \<le> 57"

definition isupper :: "char \<Rightarrow> bool" where
  "isupper c \<longleftrightarrow> 65 \<le> code c \<and> code c \<le> 90"

definition islower :: "char \<Rightarrow> bool" where
  "islower c \<longleftrightarrow> 97 \<le> code c \<and> code c \<le> 122"

definition isalnum :: "char \<Rightarrow> bool" where
  "isalnum c \<longleftrightarrow> isdigit c \<or> isupper c \<or> islower c"

definition toupper :: "char \<Rightarrow> char" where
  "toupper c = (if islower c then char_of (code c - 32) else c)"

text \<open>\<open>char\<close> is signed on the platforms the library targets (x86-64 Linux).\<close>

definition schar :: "char \<Rightarrow> int" where
  "schar c = (if code c < 128 then int (code c) else int (code c) - 256)"

lemmas char_class_defs [char_simps] =
  code_def isspace_def isdigit_def isupper_def islower_def isalnum_def toupper_def schar_def

lemma code_less_256: "code c < 256"
  by (simp add: code_def)

lemma code_inject [simp]: "code c = code d \<longleftrightarrow> c = d"
  by (simp add: code_def)

lemma code_char_of: "n < 256 \<Longrightarrow> code (char_of n) = n"
  by (simp add: code_def)

lemma code_toupper: "code (toupper c) = (if islower c then code c - 32 else code c)"
  using code_less_256 [of c] by (simp add: toupper_def code_char_of)

lemma toupper_toupper [simp]: "toupper (toupper c) = toupper c"
proof -
  have "code (toupper (toupper c)) = code (toupper c)"
    by (auto simp: code_toupper islower_def)
  then show ?thesis by simp
qed

lemma schar_inject [simp]: "schar c = schar d \<longleftrightarrow> c = d"
  using code_less_256 [of c] code_less_256 [of d]
  by (auto simp: schar_def split: if_splits simp flip: code_inject)

lemma schar_bounds: "-128 \<le> schar c" "schar c < 128"
  using code_less_256 [of c] by (auto simp: schar_def)

lemma isdigit_not_isspace [simp]: "isdigit c \<Longrightarrow> \<not> isspace c"
  by (simp add: isdigit_def isspace_def)

section \<open>Strings and views\<close>

text \<open>
  A \<open>std::string_view\<close> is the string it shows. \<open>substr s p n\<close> is \<open>s.substr(p, n)\<close>, which
  throws \<open>std::out_of_range\<close> when \<open>p\<close> is past the end and clips \<open>n\<close>.
\<close>

definition slice :: "'a list \<Rightarrow> nat \<Rightarrow> nat \<Rightarrow> 'a list" where
  "slice s b e = take (e - b) (drop b s)"

definition substr :: "string \<Rightarrow> nat \<Rightarrow> nat \<Rightarrow> string res" where
  "substr s p n = (if p \<le> length s then Inr (take n (drop p s)) else Inl Std_out_of_range)"

fun starts_with :: "'a list \<Rightarrow> 'a list \<Rightarrow> bool" where
  "starts_with s [] = True"
| "starts_with [] (p # ps) = False"
| "starts_with (c # s) (p # ps) = (c = p \<and> starts_with s ps)"

lemma starts_with_iff: "starts_with s p \<longleftrightarrow> (\<exists>r. s = p @ r)"
  by (induction s p rule: starts_with.induct) auto

lemma starts_with_append [simp]: "starts_with (p @ r) p"
  by (auto simp: starts_with_iff)

lemma slice_self [simp]: "slice s b b = []"
  by (simp add: slice_def)

lemma length_slice [simp]: "length (slice s b e) = min (e - b) (length s - b)"
  by (simp add: slice_def)

lemma slice_Suc: "b \<le> i \<Longrightarrow> i < length s \<Longrightarrow> slice s b (Suc i) = slice s b i @ [s ! i]"
  by (simp add: slice_def Suc_diff_le take_Suc_conv_app_nth)

lemma slice_first: "b < e \<Longrightarrow> b < length s \<Longrightarrow> slice s b e = s ! b # slice s (Suc b) e"
  by (simp add: slice_def Cons_nth_drop_Suc [symmetric] take_Cons')

lemma slice_eq_Nil_iff: "slice s b e = [] \<longleftrightarrow> e \<le> b \<or> length s \<le> b"
  by (simp add: slice_def)

lemma slice_append_exact: "slice (xs @ ys @ zs) (length xs) (length xs + length ys) = ys"
  by (simp add: slice_def)

lemma takeWhile_all: "list_all P xs \<Longrightarrow> takeWhile P xs = xs"
  by (induction xs) auto

lemma takeWhile_append_stop:
  "list_all P xs \<Longrightarrow> ys = [] \<or> \<not> P (hd ys) \<Longrightarrow> takeWhile P (xs @ ys) = xs"
  by (induction xs) (cases ys; auto)+

lemma dropWhile_append_stop:
  "list_all P xs \<Longrightarrow> ys = [] \<or> \<not> P (hd ys) \<Longrightarrow> dropWhile P (xs @ ys) = ys"
  by (induction xs) (cases ys; auto)+

section \<open>Integers as decimal text\<close>

definition digit_char :: "nat \<Rightarrow> char" where
  "digit_char d = char_of (48 + d)"

definition digit_value :: "char \<Rightarrow> nat" where
  "digit_value c = code c - 48"

lemma code_digit_char: "d < 10 \<Longrightarrow> code (digit_char d) = 48 + d"
  by (simp add: digit_char_def code_char_of)

lemma digit_char_digit [simp]: "d < 10 \<Longrightarrow> isdigit (digit_char d)"
  by (simp add: isdigit_def code_digit_char)

lemma digit_value_char [simp]: "d < 10 \<Longrightarrow> digit_value (digit_char d) = d"
  by (simp add: digit_value_def code_digit_char)

text \<open>\<open>std::to_string\<close>, which is also what \<open>ostream << n\<close> writes.\<close>

fun nat_to_string :: "nat \<Rightarrow> string" where
  "nat_to_string n =
     (if n < 10 then [digit_char n] else nat_to_string (n div 10) @ [digit_char (n mod 10)])"

declare nat_to_string.simps [simp del]

definition int_to_string :: "int \<Rightarrow> string" where
  "int_to_string i =
     (if i < 0 then CHR ''-'' # nat_to_string (nat (- i)) else nat_to_string (nat i))"

definition dec_value :: "string \<Rightarrow> nat" where
  "dec_value ds = foldl (\<lambda>a c. 10 * a + digit_value c) 0 ds"

lemma dec_value_append1: "dec_value (ds @ [c]) = 10 * dec_value ds + digit_value c"
  by (simp add: dec_value_def)

lemma dec_value_nat_to_string [simp]: "dec_value (nat_to_string n) = n"
proof (induction n rule: nat_to_string.induct)
  case (1 n)
  show ?case
  proof (cases "n < 10")
    case True
    then show ?thesis
      by (subst nat_to_string.simps) (simp add: dec_value_def)
  next
    case False
    with "1.IH" show ?thesis
      by (subst nat_to_string.simps) (simp add: dec_value_append1)
  qed
qed

lemma nat_to_string_digits [simp]: "list_all isdigit (nat_to_string n)"
proof (induction n rule: nat_to_string.induct)
  case (1 n)
  then show ?case by (subst nat_to_string.simps) simp
qed

lemma nat_to_string_nonempty [simp]: "nat_to_string n \<noteq> []"
  by (subst nat_to_string.simps) simp

lemma hd_nat_to_string_digit [simp]: "isdigit (hd (nat_to_string n))"
  using nat_to_string_digits [of n] nat_to_string_nonempty [of n]
  by (cases "nat_to_string n") auto

text \<open>The printed form has no leading zero: only \<open>0\<close> itself starts with the digit 0.\<close>

lemma hd_nat_to_string_zero: "hd (nat_to_string n) = CHR ''0'' \<longleftrightarrow> n = 0"
proof (induction n rule: nat_to_string.induct)
  case (1 n)
  show ?case
  proof (cases "n < 10")
    case True
    have "digit_char n = CHR ''0'' \<longleftrightarrow> code (digit_char n) = 48"
      by (simp add: code_def flip: code_inject)
    with True show ?thesis
      by (subst nat_to_string.simps) (simp add: code_digit_char)
  next
    case False
    with "1.IH" have "hd (nat_to_string (n div 10)) = CHR ''0'' \<longleftrightarrow> n div 10 = 0"
      by simp
    with False show ?thesis
      by (subst nat_to_string.simps) simp
  qed
qed

text \<open>
  \<open>std::from_chars(begin, end, out)\<close> in base 10: the longest match of an optional minus
  sign (signed types only) and at least one digit. The result is the number of characters
  matched, the error code, and the value stored to \<open>out\<close>; \<open>out\<close> is left alone
  (\<open>None\<close>) when the code is not \<open>Ok\<close>, and on a value outside of the type's range
  the whole digit string still counts as matched.
\<close>

datatype errc = Ok | Invalid_argument | Result_out_of_range

definition from_chars :: "bool \<Rightarrow> int \<Rightarrow> int \<Rightarrow> string \<Rightarrow> nat \<times> errc \<times> int option" where
  "from_chars sgned lo hi s =
     (let neg = (sgned \<and> s \<noteq> [] \<and> hd s = CHR ''-'');
          body = (if neg then tl s else s);
          ds = takeWhile isdigit body;
          v = (if neg then - int (dec_value ds) else int (dec_value ds));
          n = length ds + (if neg then 1 else 0)
      in if ds = [] then (0, Invalid_argument, None)
         else if lo \<le> v \<and> v \<le> hi then (n, Ok, Some v)
         else (n, Result_out_of_range, None))"

lemma isdigit_not_minus [simp]: "isdigit c \<Longrightarrow> c \<noteq> CHR ''-''"
  by (auto simp: char_simps)

lemma from_chars_nat:
  assumes "rest = [] \<or> \<not> isdigit (hd rest)" "lo \<le> int n" "int n \<le> hi"
  shows "from_chars sg lo hi (nat_to_string n @ rest) = (length (nat_to_string n), Ok, Some (int n))"
proof -
  have "hd (nat_to_string n @ rest) \<noteq> CHR ''-''"
    using isdigit_not_minus [OF hd_nat_to_string_digit [of n]] by simp
  moreover have "takeWhile isdigit (nat_to_string n @ rest) = nat_to_string n"
    using assms(1) by (intro takeWhile_append_stop) auto
  ultimately show ?thesis
    using assms(2,3) by (simp add: from_chars_def Let_def)
qed

lemma from_chars_int:
  assumes "rest = [] \<or> \<not> isdigit (hd rest)" "lo \<le> i" "i \<le> hi"
  shows "from_chars True lo hi (int_to_string i @ rest) = (length (int_to_string i), Ok, Some i)"
proof (cases "i < 0")
  case True
  have "takeWhile isdigit (nat_to_string (nat (- i)) @ rest) = nat_to_string (nat (- i))"
    using assms(1) by (intro takeWhile_append_stop) auto
  with True assms(2,3) show ?thesis
    by (simp add: from_chars_def int_to_string_def Let_def)
next
  case False
  with from_chars_nat [OF assms(1), of lo "nat i" hi True] assms(2,3) show ?thesis
    by (simp add: int_to_string_def)
qed

section \<open>Widths\<close>

text \<open>Subtraction of \<open>std::size_t\<close>.\<close>

definition size_minus :: "nat \<Rightarrow> nat \<Rightarrow> nat" where
  "size_minus a b = (if b \<le> a then a - b else a + 2 ^ 64 - b)"

type_synonym byte = "8 word"

abbreviation int64_min :: int where "int64_min \<equiv> - (2 ^ 63)"
abbreviation int64_max :: int where "int64_max \<equiv> 2 ^ 63 - 1"
abbreviation uint64_max :: int where "uint64_max \<equiv> 2 ^ 64 - 1"

section \<open>Running operations\<close>

text \<open>The answers to a sequence of operations and the state after them.\<close>

fun run_ops :: "('o \<Rightarrow> 's \<Rightarrow> 'r \<times> 's) \<Rightarrow> 'o list \<Rightarrow> 's \<Rightarrow> 'r list \<times> 's" where
  "run_ops f [] s = ([], s)"
| "run_ops f (x # xs) s = (let (r, s1) = f x s; (rs, s2) = run_ops f xs s1 in (r # rs, s2))"

text \<open>
  An object that implements an abstract one: under an invariant each operation gives the same
  answer on both sides and takes related states to related states.
\<close>

locale simulation =
  fixes cstep :: "'o \<Rightarrow> 'c \<Rightarrow> 'r \<times> 'c" and astep :: "'o \<Rightarrow> 'a \<Rightarrow> 'r \<times> 'a"
    and abs :: "'c \<Rightarrow> 'a" and invar :: "'c \<Rightarrow> bool"
  assumes simulates: "invar c \<Longrightarrow>
    \<exists>c'. cstep x c = (fst (astep x (abs c)), c') \<and> abs c' = snd (astep x (abs c)) \<and> invar c'"
begin

lemma run_simulates:
  "invar c \<Longrightarrow> \<exists>c'. run_ops cstep xs c = (fst (run_ops astep xs (abs c)), c') \<and>
     abs c' = snd (run_ops astep xs (abs c)) \<and> invar c'"
proof (induction xs arbitrary: c)
  case (Cons x xs)
  obtain c1 where c1: "cstep x c = (fst (astep x (abs c)), c1)" "abs c1 = snd (astep x (abs c))" "invar c1"
    using simulates [OF Cons.prems] by blast
  with Cons.IH [OF c1(3)] show ?case by (auto simp: case_prod_unfold Let_def)
qed auto

end

end
