(* ===== verification/Serializer.thy ===== *)
theory Serializer
  imports Prelude
begin

text \<open>
  The serializer (\<open>src/lw/io/serializer/serializer.h\<close>) over the abstract formatter
  interface (\<open>src/lw/io/serializer/formatter.h\<close>).

  A formatter is an object with a state \<open>'s\<close> and a table of virtual functions. A value is
  what the overloads of \<open>Serializer::write\<close> distinguish: null, booleans, characters, signed
  and unsigned integers, floating point numbers (an abstract type \<open>'d\<close>), strings, lists
  and objects. The asynchronous overloads run the same calls in the same order, suspended
  at the element writes, and are the same functions here.
\<close>

section \<open>The formatter interface\<close>

record ('s, 'd) serialization_formatter =
  op_null :: "'s \<Rightarrow> 's res"
  op_boolean :: "bool \<Rightarrow> 's \<Rightarrow> 's res"
  op_char :: "char \<Rightarrow> 's \<Rightarrow> 's res"
  op_signed_integer :: "int \<Rightarrow> 's \<Rightarrow> 's res"
  op_unsigned_integer :: "int \<Rightarrow> 's \<Rightarrow> 's res"
  op_floating_point :: "'d \<Rightarrow> 's \<Rightarrow> 's res"
  op_string :: "string \<Rightarrow> 's \<Rightarrow> 's res"
  op_start_list :: "'s \<Rightarrow> 's res"
  op_end_list :: "'s \<Rightarrow> 's res"
  op_start_object :: "'s \<Rightarrow> 's res"
  op_end_object :: "'s \<Rightarrow> 's res"
  op_start_pair_key :: "'s \<Rightarrow> 's res"
  op_end_pair_key :: "'s \<Rightarrow> 's res"
  op_end_pair :: "'s \<Rightarrow> 's res"

section \<open>Values and the serializer\<close>

datatype 'd ser_value =
    Null | Boolean bool | Character char | Signed int | Unsigned int | Floating 'd
  | String string | List "'d ser_value list" | Object "('d ser_value \<times> 'd ser_value) list"

function (sequential) serializer_write ::
    "('s, 'd) serialization_formatter \<Rightarrow> 'd ser_value \<Rightarrow> 's \<Rightarrow> 's res"
  and serialize_list ::
    "('s, 'd) serialization_formatter \<Rightarrow> 'd ser_value list \<Rightarrow> 's \<Rightarrow> 's res"
  and serialize_object ::
    "('s, 'd) serialization_formatter \<Rightarrow> ('d ser_value \<times> 'd ser_value) list \<Rightarrow> 's \<Rightarrow> 's res" where
  "serializer_write F Null s = op_null F s"
| "serializer_write F (Boolean b) s = op_boolean F b s"
| "serializer_write F (Character c) s = op_char F c s"
| "serializer_write F (Signed n) s = op_signed_integer F n s"
| "serializer_write F (Unsigned n) s = op_unsigned_integer F n s"
| "serializer_write F (Floating d) s = op_floating_point F d s"
| "serializer_write F (String str) s = op_string F str s"
| "serializer_write F (List l) s =
     bind_res (op_start_list F s) (\<lambda>s1. bind_res (serialize_list F l s1) (op_end_list F))"
| "serializer_write F (Object ps) s =
     bind_res (op_start_object F s) (\<lambda>s1. bind_res (serialize_object F ps s1) (op_end_object F))"
| "serialize_list F [] s = Inr s"
| "serialize_list F (v # l) s = bind_res (serializer_write F v s) (serialize_list F l)"
| "serialize_object F [] s = Inr s"
| "serialize_object F ((k, v) # ps) s =
     bind_res (op_start_pair_key F s) (\<lambda>s1.
     bind_res (serializer_write F k s1) (\<lambda>s2.
     bind_res (op_end_pair_key F s2) (\<lambda>s3.
     bind_res (serializer_write F v s3) (\<lambda>s4.
     bind_res (op_end_pair F s4) (serialize_object F ps)))))"
  by pat_completeness auto
termination
  by (relation "measure (case_sum (\<lambda>(F, v, s). size v)
       (case_sum (\<lambda>(F, l, s). size_list size l)
                 (\<lambda>(F, ps, s). size_list (size_prod size size) ps)))") auto

lemmas serializer_induct = serializer_write_serialize_list_serialize_object.induct

section \<open>Kinds of values\<close>

fun scalar :: "'d ser_value \<Rightarrow> bool" where
  "scalar (List _) = False"
| "scalar (Object _) = False"
| "scalar _ = True"

fun string_like :: "'d ser_value \<Rightarrow> bool" where
  "string_like (String _) = True"
| "string_like (Character _) = True"
| "string_like _ = False"

lemma string_like_scalar [simp]: "string_like v \<Longrightarrow> scalar v"
  by (cases v) auto

text \<open>Lists all the way down, and objects all the way down.\<close>

fun list_tree :: "'d ser_value \<Rightarrow> bool" where
  "list_tree (List l) = list_all list_tree l"
| "list_tree v = scalar v"

fun object_tree :: "'d ser_value \<Rightarrow> bool" where
  "object_tree (Object ps) =
     list_all (\<lambda>(k, v). string_like k \<and> object_tree v) ps"
| "object_tree v = scalar v"

lemma scalar_trees [simp]: "scalar v \<Longrightarrow> list_tree v" "scalar v \<Longrightarrow> object_tree v"
  by (cases v; simp)+

end
