(* ===== verification/Json_Formatter.thy ===== *)
theory Json_Formatter
  imports Serializer
begin

text \<open>
  \<open>JSONSerializationFormatter\<close> (\<open>src/lw/mime/json.h\<close>, \<open>src/lw/mime/json.cpp\<close>): a stack
  of states and an output stream. The head of the list is the top of the stack; \<open>top()\<close>
  of an empty \<open>std::stack\<close> is undefined behaviour. What \<open>ostream <<\<close> writes for a
  \<open>double\<close> is the parameter \<open>show_double\<close>.

  The formatter pushes a state at \<open>start_list\<close> and \<open>start_object\<close> and never pops it, so
  that after a nested container the state on top belongs to the container just closed. The
  lemmas below work out exactly what survives this: a value is written iff it is built from
  lists and scalars only, or from objects and scalars only, and then the text is the JSON
  text of the value (\<open>json_text\<close>).
\<close>

section \<open>State and operations\<close>

datatype fmt_state =
    VALUE | LIST | LIST_VALUE | OBJECT | OBJECT_VALUE | KEY_STARTED | KEY_ADDED | KEY_ENDED

record formatter =
  states :: "fmt_state list"
  outp :: string

definition json_formatter_new :: "string \<Rightarrow> formatter" where
  "json_formatter_new out = \<lparr>states = [VALUE], outp = out\<rparr>"

definition top_state :: "formatter \<Rightarrow> fmt_state res" where
  "top_state f = (case states f of [] \<Rightarrow> Inl Undefined_behaviour | s # _ \<Rightarrow> Inr s)"

definition emit :: "string \<Rightarrow> formatter \<Rightarrow> formatter" where
  "emit s f = f\<lparr>outp := outp f @ s\<rparr>"

definition push_state :: "fmt_state \<Rightarrow> formatter \<Rightarrow> formatter" where
  "push_state s f = f\<lparr>states := s # states f\<rparr>"

definition pop_state :: "formatter \<Rightarrow> formatter" where
  "pop_state f = f\<lparr>states := tl (states f)\<rparr>"

definition maybe_comma :: "formatter \<Rightarrow> formatter res" where
  "maybe_comma f = bind_res (top_state f) (\<lambda>s.
     Inr (if s = LIST_VALUE \<or> s = OBJECT_VALUE then emit '','' f else f))"

definition check_can_add_value :: "formatter \<Rightarrow> unit res" where
  "check_can_add_value f = bind_res (top_state f) (\<lambda>s.
     check (s = VALUE \<or> s = LIST \<or> s = LIST_VALUE \<or> s = KEY_ENDED) (Err InvalidArgument))"

definition check_can_add_string :: "formatter \<Rightarrow> unit res" where
  "check_can_add_string f = bind_res (top_state f) (\<lambda>s.
     check (s = VALUE \<or> s = LIST \<or> s = LIST_VALUE \<or> s = KEY_STARTED \<or> s = KEY_ENDED)
       (Err InvalidArgument))"

definition value_added :: "formatter \<Rightarrow> formatter res" where
  "value_added f = bind_res (top_state f) (\<lambda>s. case s of
       LIST \<Rightarrow> Inr (push_state LIST_VALUE (pop_state f))
     | OBJECT \<Rightarrow> Inr (push_state OBJECT_VALUE (pop_state f))
     | VALUE \<Rightarrow> Inr (pop_state f)
     | KEY_ENDED \<Rightarrow> Inr (pop_state f)
     | LIST_VALUE \<Rightarrow> Inr f
     | OBJECT_VALUE \<Rightarrow> Inr f
     | _ \<Rightarrow> Inl (Err Internal))"

definition string_added :: "formatter \<Rightarrow> formatter res" where
  "string_added f = bind_res (top_state f) (\<lambda>s.
     if s = KEY_STARTED then Inr (push_state KEY_ADDED (pop_state f)) else value_added f)"

definition escape_char :: "char \<Rightarrow> string" where
  "escape_char c =
     (if c = CHR 0x22 \<or> c = CHR 0x5C \<or> c = CHR ''/'' then [CHR 0x5C, c]
      else if c = CHR 0x08 then [CHR 0x5C, CHR ''b'']
      else if c = CHR 0x0C then [CHR 0x5C, CHR ''f'']
      else if c = CHR 0x0A then [CHR 0x5C, CHR ''n'']
      else if c = CHR 0x0D then [CHR 0x5C, CHR ''r'']
      else if c = CHR 0x09 then [CHR 0x5C, CHR ''t'']
      else [c])"

definition add_literal :: "string \<Rightarrow> formatter \<Rightarrow> formatter res" where
  "add_literal txt f =
     bind_res (check_can_add_value f) (\<lambda>_.
     bind_res (maybe_comma f) (\<lambda>f1. value_added (emit txt f1)))"

definition put_null :: "formatter \<Rightarrow> formatter res" where
  "put_null f = add_literal ''null'' f"

definition put_boolean :: "bool \<Rightarrow> formatter \<Rightarrow> formatter res" where
  "put_boolean b f = add_literal (if b then ''true'' else ''false'') f"

definition put_char :: "char \<Rightarrow> formatter \<Rightarrow> formatter res" where
  "put_char c f =
     bind_res (check_can_add_string f) (\<lambda>_.
     bind_res (maybe_comma f) (\<lambda>f1.
     string_added (emit [CHR 0x22] (emit (escape_char c) (emit [CHR 0x22] f1)))))"

definition put_signed_integer :: "int \<Rightarrow> formatter \<Rightarrow> formatter res" where
  "put_signed_integer n f =
     bind_res (check_can_add_value f) (\<lambda>_.
     bind_res (maybe_comma f) (\<lambda>f1. value_added (emit (int_to_string n) f1)))"

definition put_unsigned_integer :: "int \<Rightarrow> formatter \<Rightarrow> formatter res" where
  "put_unsigned_integer n f =
     bind_res (check_can_add_value f) (\<lambda>_.
     bind_res (maybe_comma f) (\<lambda>f1. value_added (emit (int_to_string n) f1)))"

definition put_floating_point :: "('d \<Rightarrow> string) \<Rightarrow> 'd \<Rightarrow> formatter \<Rightarrow> formatter res" where
  "put_floating_point show_double d f =
     bind_res (check_can_add_value f) (\<lambda>_.
     bind_res (maybe_comma f) (\<lambda>f1. value_added (emit (show_double d) f1)))"

definition put_string :: "string \<Rightarrow> formatter \<Rightarrow> formatter res" where
  "put_string str f =
     bind_res (check_can_add_string f) (\<lambda>_.
     bind_res (maybe_comma f) (\<lambda>f1.
     string_added
       (emit [CHR 0x22] (fold (\<lambda>c. emit (escape_char c)) str (emit [CHR 0x22] f1)))))"

definition start_list :: "formatter \<Rightarrow> formatter res" where
  "start_list f =
     bind_res (check_can_add_value f) (\<lambda>_.
     bind_res (maybe_comma f) (\<lambda>f1. Inr (push_state LIST (emit ''['' f1))))"

definition end_list :: "formatter \<Rightarrow> formatter res" where
  "end_list f = bind_res (top_state f) (\<lambda>s.
     bind_res (check (s = LIST \<or> s = LIST_VALUE) (Err FailedPrecondition)) (\<lambda>_.
     value_added (emit '']'' f)))"

definition start_object :: "formatter \<Rightarrow> formatter res" where
  "start_object f =
     bind_res (check_can_add_value f) (\<lambda>_.
     bind_res (maybe_comma f) (\<lambda>f1. Inr (push_state OBJECT (emit ''{'' f1))))"

definition end_object :: "formatter \<Rightarrow> formatter res" where
  "end_object f = bind_res (top_state f) (\<lambda>s.
     bind_res (check (s = OBJECT \<or> s = OBJECT_VALUE) (Err FailedPrecondition)) (\<lambda>_.
     value_added (emit ''}'' f)))"

definition start_pair_key :: "formatter \<Rightarrow> formatter res" where
  "start_pair_key f = bind_res (top_state f) (\<lambda>s.
     bind_res (check (s = OBJECT \<or> s = OBJECT_VALUE) (Err FailedPrecondition)) (\<lambda>_.
     bind_res (maybe_comma f) (\<lambda>f1. Inr (push_state KEY_STARTED f1))))"

definition end_pair_key :: "formatter \<Rightarrow> formatter res" where
  "end_pair_key f = bind_res (top_state f) (\<lambda>s.
     bind_res (check (s = KEY_ADDED) (Err FailedPrecondition)) (\<lambda>_.
     Inr (push_state KEY_ENDED (pop_state (emit '':'' f)))))"

definition end_pair :: "formatter \<Rightarrow> formatter res" where
  "end_pair f = bind_res (top_state f) (\<lambda>s.
     bind_res (check (s = OBJECT \<or> s = OBJECT_VALUE) (Err FailedPrecondition)) (\<lambda>_.
     value_added f))"

definition json_formatter :: "('d \<Rightarrow> string) \<Rightarrow> (formatter, 'd) serialization_formatter" where
  "json_formatter show_double =
     \<lparr>op_null = put_null, op_boolean = put_boolean, op_char = put_char,
      op_signed_integer = put_signed_integer, op_unsigned_integer = put_unsigned_integer,
      op_floating_point = put_floating_point show_double, op_string = put_string,
      op_start_list = start_list, op_end_list = end_list,
      op_start_object = start_object, op_end_object = end_object,
      op_start_pair_key = start_pair_key, op_end_pair_key = end_pair_key,
      op_end_pair = end_pair\<rparr>"

definition json_write :: "('d \<Rightarrow> string) \<Rightarrow> 'd ser_value \<Rightarrow> formatter \<Rightarrow> formatter res" where
  "json_write show_double v f = serializer_write (json_formatter show_double) v f"

section \<open>The JSON text of a value\<close>

definition quote_json :: "string \<Rightarrow> string" where
  "quote_json s = CHR 0x22 # concat (map escape_char s) @ [CHR 0x22]"

fun comma_sep :: "string list \<Rightarrow> string" where
  "comma_sep [] = []"
| "comma_sep [x] = x"
| "comma_sep (x # xs) = x @ '','' @ comma_sep xs"

function json_text :: "('d \<Rightarrow> string) \<Rightarrow> 'd ser_value \<Rightarrow> string" where
  "json_text sd Null = ''null''"
| "json_text sd (Boolean b) = (if b then ''true'' else ''false'')"
| "json_text sd (Character c) = quote_json [c]"
| "json_text sd (Signed n) = int_to_string n"
| "json_text sd (Unsigned n) = int_to_string n"
| "json_text sd (Floating d) = sd d"
| "json_text sd (String s) = quote_json s"
| "json_text sd (List l) = ''['' @ comma_sep (map (json_text sd) l) @ '']''"
| "json_text sd (Object ps) =
     ''{'' @ comma_sep (map (\<lambda>p. json_text sd (fst p) @ '':'' @ json_text sd (snd p)) ps) @ ''}''"
  by pat_completeness auto
termination
proof (relation "measure (\<lambda>(sd, v). size v)", goal_cases)
  case (2 sd l x)
  then show ?case by (simp add: size_list_estimation' less_Suc_eq_le)
next
  case (3 sd ps p)
  have "size_prod size size p < Suc (size_list (size_prod size size) ps)"
    using 3 by (simp add: size_list_estimation' less_Suc_eq_le)
  then show ?case by (cases p) simp
next
  case (4 sd ps p)
  have "size_prod size size p < Suc (size_list (size_prod size size) ps)"
    using 4 by (simp add: size_list_estimation' less_Suc_eq_le)
  then show ?case by (cases p) simp
qed simp

section \<open>How the operations move the state stack\<close>

abbreviation fmt :: "fmt_state \<Rightarrow> fmt_state list \<Rightarrow> string \<Rightarrow> formatter" where
  "fmt t r out \<equiv> \<lparr>states = t # r, outp = out\<rparr>"

definition comma :: "fmt_state \<Rightarrow> string" where
  "comma t = (if t = LIST_VALUE \<or> t = OBJECT_VALUE then '','' else [])"

definition accepting :: "fmt_state \<Rightarrow> bool" where
  "accepting t \<longleftrightarrow> t = VALUE \<or> t = LIST \<or> t = LIST_VALUE \<or> t = KEY_ENDED"

definition in_list :: "fmt_state \<Rightarrow> bool" where
  "in_list t \<longleftrightarrow> t = LIST \<or> t = LIST_VALUE"

definition in_object :: "fmt_state \<Rightarrow> bool" where
  "in_object t \<longleftrightarrow> t = OBJECT \<or> t = OBJECT_VALUE"

lemmas fmt_defs =
  top_state_def emit_def push_state_def pop_state_def maybe_comma_def check_can_add_value_def
  check_can_add_string_def value_added_def string_added_def add_literal_def
  put_null_def put_boolean_def put_char_def put_signed_integer_def put_unsigned_integer_def
  put_floating_point_def put_string_def start_list_def end_list_def start_object_def
  end_object_def start_pair_key_def end_pair_key_def end_pair_def json_write_def
  comma_def accepting_def in_list_def in_object_def

lemma json_formatter_ops [simp]:
  "op_null (json_formatter sd) = put_null" "op_boolean (json_formatter sd) = put_boolean"
  "op_char (json_formatter sd) = put_char" "op_string (json_formatter sd) = put_string"
  "op_signed_integer (json_formatter sd) = put_signed_integer"
  "op_unsigned_integer (json_formatter sd) = put_unsigned_integer"
  "op_floating_point (json_formatter sd) = put_floating_point sd"
  "op_start_list (json_formatter sd) = start_list" "op_end_list (json_formatter sd) = end_list"
  "op_start_object (json_formatter sd) = start_object"
  "op_end_object (json_formatter sd) = end_object"
  "op_start_pair_key (json_formatter sd) = start_pair_key"
  "op_end_pair_key (json_formatter sd) = end_pair_key"
  "op_end_pair (json_formatter sd) = end_pair"
  by (simp_all add: json_formatter_def)

lemma fold_emit: "fold (\<lambda>c. emit (g c)) str f = emit (concat (map g str)) f"
  by (induction str arbitrary: f) (simp_all add: emit_def)

lemma write_scalar:
  assumes "scalar v" "accepting t"
  shows "json_write sd v (fmt t r out) =
    Inr \<lparr>states = (if in_list t then LIST_VALUE # r else r),
         outp = out @ comma t @ json_text sd v\<rparr>"
  using assms by (cases v) (auto simp: fmt_defs fold_emit quote_json_def)

lemma write_key:
  "json_write sd v (fmt KEY_STARTED r out) =
    (if string_like v then Inr (fmt KEY_ADDED r (out @ json_text sd v)) else Inl (Err InvalidArgument))"
  by (cases v) (auto simp: fmt_defs fold_emit quote_json_def)

lemma write_reject:
  "\<not> accepting t \<Longrightarrow> t \<noteq> KEY_STARTED \<Longrightarrow> json_write sd v (fmt t r out) = Inl (Err InvalidArgument)"
  by (cases v) (auto simp: fmt_defs)

lemma write_List:
  "accepting t \<Longrightarrow> json_write sd (List l) (fmt t r out) =
    bind_res (serialize_list (json_formatter sd) l (fmt LIST (t # r) (out @ comma t @ ''['')))
      end_list"
  by (auto simp: fmt_defs)

lemma write_Object:
  "accepting t \<Longrightarrow> json_write sd (Object ps) (fmt t r out) =
    bind_res (serialize_object (json_formatter sd) ps (fmt OBJECT (t # r) (out @ comma t @ ''{'')))
      end_object"
  by (auto simp: fmt_defs)

lemma end_list_fmt:
  "end_list (fmt t r out) =
    (if in_list t then Inr (fmt LIST_VALUE r (out @ '']'')) else Inl (Err FailedPrecondition))"
  by (auto simp: fmt_defs)

lemma end_object_fmt:
  "end_object (fmt t r out) =
    (if in_object t then Inr (fmt OBJECT_VALUE r (out @ ''}'')) else Inl (Err FailedPrecondition))"
  by (auto simp: fmt_defs)

lemma serialize_list_Cons:
  "serialize_list (json_formatter sd) (v # l) f =
     bind_res (json_write sd v f) (serialize_list (json_formatter sd) l)"
  by (simp add: json_write_def)

lemma serialize_object_Cons:
  assumes "in_object t"
  shows "serialize_object (json_formatter sd) ((k, v) # ps) (fmt t r out) =
    (if string_like k
     then bind_res (json_write sd v (fmt KEY_ENDED (t # r) (out @ comma t @ json_text sd k @ '':'')))
       (\<lambda>f. bind_res (end_pair f) (serialize_object (json_formatter sd) ps))
     else Inl (Err InvalidArgument))"
proof -
  have key: "serializer_write (json_formatter sd) k (fmt KEY_STARTED (t # r) o') =
    (if string_like k then Inr (fmt KEY_ADDED (t # r) (o' @ json_text sd k)) else Inl (Err InvalidArgument))"
    for o' using write_key [of sd k "t # r" o'] by (simp add: json_write_def)
  have start: "start_pair_key (fmt t r out) = Inr (fmt KEY_STARTED (t # r) (out @ comma t))"
    using assms by (auto simp: fmt_defs)
  have endk: "end_pair_key (fmt KEY_ADDED (t # r) o') = Inr (fmt KEY_ENDED (t # r) (o' @ '':''))" for o'
    by (simp add: fmt_defs)
  show ?thesis
    by (auto simp: key start endk json_write_def)
qed

lemma end_pair_fmt:
  "end_pair (fmt t r out) =
    (if in_object t then Inr (fmt OBJECT_VALUE r out) else Inl (Err FailedPrecondition))"
  by (auto simp: fmt_defs)

section \<open>Which values are written, and as what\<close>

definition separated :: "fmt_state \<Rightarrow> string list \<Rightarrow> string" where
  "separated t xs = (if xs = [] then [] else comma t @ comma_sep xs)"

lemma comma_sep_Cons: "comma_sep (x # xs) = x @ separated LIST_VALUE xs"
  by (cases xs) (simp_all add: separated_def comma_def)

lemma separated_object: "separated OBJECT_VALUE = separated LIST_VALUE"
  by (rule ext) (simp add: separated_def comma_def)

lemma separated_start: "separated LIST xs = comma_sep xs" "separated OBJECT xs = comma_sep xs"
  by (simp_all add: separated_def comma_def)

lemma serialize_list_ok:
  assumes "\<And>v t r out. v \<in> set l \<Longrightarrow> in_list t \<Longrightarrow>
      \<exists>r'. json_write sd v (fmt t r out) = Inr (fmt LIST_VALUE r' (out @ comma t @ json_text sd v))"
    and "in_list t"
  shows "\<exists>t' r'. in_list t' \<and> serialize_list (json_formatter sd) l (fmt t r out) =
      Inr (fmt t' r' (out @ separated t (map (json_text sd) l)))"
  using assms
proof (induction l arbitrary: t r out)
  case Nil
  then show ?case by (simp add: separated_def)
next
  case (Cons v l)
  have "\<exists>r'. json_write sd v (fmt t r out) = Inr (fmt LIST_VALUE r' (out @ comma t @ json_text sd v))"
    using Cons.prems by simp
  then obtain r' where
    "json_write sd v (fmt t r out) = Inr (fmt LIST_VALUE r' (out @ comma t @ json_text sd v))" ..
  moreover have "\<exists>t'' r''. in_list t'' \<and>
      serialize_list (json_formatter sd) l (fmt LIST_VALUE r' (out @ comma t @ json_text sd v)) =
      Inr (fmt t'' r'' ((out @ comma t @ json_text sd v) @ separated LIST_VALUE (map (json_text sd) l)))"
    using Cons.prems(1) by (intro Cons.IH) (simp_all add: in_list_def)
  ultimately show ?case
    by (auto simp: serialize_list_Cons separated_def [of t] comma_sep_Cons
        simp del: serialize_list.simps)
qed

lemma write_list_tree:
  "list_tree v \<Longrightarrow> in_list t \<Longrightarrow>
     \<exists>r'. json_write sd v (fmt t r out) = Inr (fmt LIST_VALUE r' (out @ comma t @ json_text sd v))"
proof (induction v arbitrary: t r out)
  case (List l)
  have "\<exists>t' r'. in_list t' \<and> serialize_list (json_formatter sd) l (fmt LIST (t # r) (out @ comma t @ ''[''))
      = Inr (fmt t' r' ((out @ comma t @ ''['') @ separated LIST (map (json_text sd) l)))"
    using List by (intro serialize_list_ok) (auto simp: list_all_iff in_list_def)
  with List.prems show ?case
    by (auto simp: write_List end_list_fmt separated_start accepting_def in_list_def)
qed (auto simp: write_scalar accepting_def in_list_def)

lemma serialize_object_ok:
  assumes "\<And>k v t r out. (k, v) \<in> set ps \<Longrightarrow> in_object t \<Longrightarrow>
      string_like k \<and> (\<exists>t' r'. in_object t' \<and> json_write sd v (fmt KEY_ENDED (t # r) out) =
        Inr (fmt t' r' (out @ json_text sd v)))"
    and "in_object t"
  shows "\<exists>t' r'. in_object t' \<and> serialize_object (json_formatter sd) ps (fmt t r out) =
      Inr (fmt t' r' (out @ separated t
        (map (\<lambda>p. json_text sd (fst p) @ '':'' @ json_text sd (snd p)) ps)))"
  using assms
proof (induction ps arbitrary: t r out)
  case Nil
  then show ?case by (simp add: separated_def)
next
  case (Cons p ps)
  obtain k v where p: "p = (k, v)" by (cases p)
  let ?o = "out @ comma t @ json_text sd k @ '':''"
  have k: "string_like k" and "\<exists>t' r'. in_object t' \<and>
      json_write sd v (fmt KEY_ENDED (t # r) ?o) = Inr (fmt t' r' (?o @ json_text sd v))"
    using Cons.prems(1) [of k v t r ?o] Cons.prems(2) p by simp_all
  then obtain t' r' where v: "in_object t'"
    "json_write sd v (fmt KEY_ENDED (t # r) ?o) = Inr (fmt t' r' (?o @ json_text sd v))" by blast
  have "\<exists>t'' r''. in_object t'' \<and>
      serialize_object (json_formatter sd) ps (fmt OBJECT_VALUE r' (?o @ json_text sd v)) =
      Inr (fmt t'' r'' ((?o @ json_text sd v) @ separated OBJECT_VALUE
        (map (\<lambda>p. json_text sd (fst p) @ '':'' @ json_text sd (snd p)) ps)))"
  proof (rule Cons.IH)
    fix k v t r out
    assume "(k, v) \<in> set ps" "in_object t"
    then show "string_like k \<and> (\<exists>t' r'. in_object t' \<and>
        json_write sd v (fmt KEY_ENDED (t # r) out) = Inr (fmt t' r' (out @ json_text sd v)))"
      by (intro Cons.prems(1)) simp_all
  qed (simp add: in_object_def)
  with k v Cons.prems(2) show ?case
    by (auto simp: p serialize_object_Cons end_pair_fmt separated_def [of t] comma_sep_Cons
        separated_object simp del: serialize_object.simps)
qed

lemma write_object_tree:
  "object_tree v \<Longrightarrow> in_object t \<Longrightarrow>
     \<exists>t' r'. in_object t' \<and> json_write sd v (fmt KEY_ENDED (t # r) out) =
       Inr (fmt t' r' (out @ json_text sd v))"
proof (induction v arbitrary: t r out)
  case (Object ps)
  have "\<exists>t' r'. in_object t' \<and> serialize_object (json_formatter sd) ps
      (fmt OBJECT (KEY_ENDED # t # r) (out @ comma KEY_ENDED @ ''{'')) =
      Inr (fmt t' r' ((out @ comma KEY_ENDED @ ''{'') @ separated OBJECT
        (map (\<lambda>p. json_text sd (fst p) @ '':'' @ json_text sd (snd p)) ps)))"
  proof (intro serialize_object_ok)
    fix k v t r out
    assume kv: "(k, v) \<in> set ps" and t: "in_object t"
    with Object.prems(1) have "string_like k" "object_tree v"
      by (auto simp: list_all_iff)
    with Object.IH [OF kv _ _ t] show "string_like k \<and> (\<exists>t' r'. in_object t' \<and>
        json_write sd v (fmt KEY_ENDED (t # r) out) = Inr (fmt t' r' (out @ json_text sd v)))"
      by auto
  qed (simp add: in_object_def)
  then show ?case
    by (auto simp: write_Object end_object_fmt separated_start accepting_def in_object_def comma_def)
qed (auto simp: write_scalar accepting_def in_list_def in_object_def comma_def)

text \<open>Conversely, a write that returns tells the shape of the value.\<close>

definition written_shape :: "'d ser_value \<Rightarrow> formatter \<Rightarrow> bool" where
  "written_shape v f \<longleftrightarrow> (case v of
       List l \<Rightarrow> list_tree v \<and> (\<exists>r out. f = fmt LIST_VALUE r out)
     | Object ps \<Rightarrow> object_tree v \<and> (\<exists>r out. f = fmt OBJECT_VALUE r out)
     | _ \<Rightarrow> True)"

lemma write_empty_stack: "states f = [] \<Longrightarrow> json_write sd v f = Inl Undefined_behaviour"
  by (cases v) (simp_all add: fmt_defs)

lemma write_ok_fmt:
  assumes "json_write sd v f = Inr f'"
  obtains t r out where "f = fmt t r out" "accepting t \<or> t = KEY_STARTED"
proof (cases "states f")
  case Nil
  with assms show ?thesis by (simp add: write_empty_stack)
next
  case (Cons t r)
  then have "f = fmt t r (outp f)" by simp
  with assms show ?thesis using write_reject [of t sd v r "outp f"] that by fastforce
qed

lemma serialize_list_shape:
  assumes "\<And>v f f'. v \<in> set l \<Longrightarrow> json_write sd v f = Inr f' \<Longrightarrow> written_shape v f'"
    and "serialize_list (json_formatter sd) l (fmt t r out) = Inr (fmt t' r' out')"
    and "in_list t" "in_list t'"
  shows "list_all list_tree l"
  using assms
proof (induction l arbitrary: t r out)
  case Nil
  then show ?case by simp
next
  case (Cons v l)
  from Cons.prems(2) obtain f1 where f1: "json_write sd v (fmt t r out) = Inr f1"
    "serialize_list (json_formatter sd) l f1 = Inr (fmt t' r' out')"
    by (auto simp: serialize_list_Cons bind_res_eq_Inr_iff simp del: serialize_list.simps)
  have sh: "written_shape v f1" using Cons.prems(1) f1(1) by simp
  have v: "list_tree v"
  proof (cases v)
    case (Object ps)
    with sh obtain r1 out1 where f1': "f1 = fmt OBJECT_VALUE r1 out1"
      by (auto simp: written_shape_def)
    with f1(2) Cons.prems(4) show ?thesis
      by (cases l) (auto simp: in_list_def serialize_list_Cons write_reject accepting_def
          simp del: serialize_list.simps(2))
  qed (use sh in \<open>auto simp: written_shape_def\<close>)
  with write_list_tree [OF v Cons.prems(3), of sd r out] f1(1) obtain r1 out1
    where f1': "f1 = fmt LIST_VALUE r1 out1" by auto
  with Cons.IH [of LIST_VALUE r1 out1] Cons.prems f1(2) have "list_all list_tree l"
    by (simp add: in_list_def)
  with v show ?case by simp
qed

lemma serialize_object_shape:
  assumes "\<forall>p \<in> set ps. \<forall>f f'. json_write sd (snd p) f = Inr f' \<longrightarrow> written_shape (snd p) f'"
    and "serialize_object (json_formatter sd) ps (fmt t r out) = Inr f'"
    and "in_object t"
  shows "list_all (\<lambda>(k, v). string_like k \<and> object_tree v) ps"
  using assms
proof (induction ps arbitrary: t r out)
  case Nil
  then show ?case by simp
next
  case (Cons p ps)
  obtain k v where p: "p = (k, v)" by (cases p)
  let ?f = "fmt KEY_ENDED (t # r) (out @ comma t @ json_text sd k @ '':'')"
  from Cons.prems(2,3) p obtain f1 f2 where k: "string_like k"
    and f1: "json_write sd v ?f = Inr f1" and f2: "end_pair f1 = Inr f2"
    and rest: "serialize_object (json_formatter sd) ps f2 = Inr f'"
    by (auto simp: serialize_object_Cons bind_res_eq_Inr_iff split: if_splits
        simp del: serialize_object.simps)
  have sh: "written_shape v f1" using Cons.prems(1) f1 p by simp
  have v: "object_tree v"
  proof (cases v)
    case (List l)
    with sh f2 show ?thesis by (auto simp: written_shape_def end_pair_fmt in_object_def)
  qed (use sh in \<open>auto simp: written_shape_def\<close>)
  with write_object_tree [OF v Cons.prems(3), of sd r "out @ comma t @ json_text sd k @ '':''"] f1
  obtain t1 r1 out1 where f1': "in_object t1" "f1 = fmt t1 r1 out1" by auto
  with f2 have "f2 = fmt OBJECT_VALUE r1 out1" by (simp add: end_pair_fmt)
  with Cons.IH [of OBJECT_VALUE r1 out1] Cons.prems(1) rest
  have "list_all (\<lambda>(k, v). string_like k \<and> object_tree v) ps"
    by (simp add: in_object_def)
  with k v p show ?case by simp
qed

lemma end_list_ok:
  assumes "end_list f = Inr f'"
  obtains t r out where "f = fmt t r out" "in_list t" "f' = fmt LIST_VALUE r (out @ '']'')"
proof -
  obtain t r where "states f = t # r"
    using assms by (cases "states f") (simp_all add: end_list_def top_state_def)
  then have "f = fmt t r (outp f)" by simp
  with assms that [of t r "outp f"] end_list_fmt [of t r "outp f"] show ?thesis
    by (metis sum.inject(2) sum.distinct(1))
qed

lemma end_object_ok:
  assumes "end_object f = Inr f'"
  obtains t r out where "f = fmt t r out" "in_object t" "f' = fmt OBJECT_VALUE r (out @ ''}'')"
proof -
  obtain t r where "states f = t # r"
    using assms by (cases "states f") (simp_all add: end_object_def top_state_def)
  then have "f = fmt t r (outp f)" by simp
  with assms that [of t r "outp f"] end_object_fmt [of t r "outp f"] show ?thesis
    by (metis sum.inject(2) sum.distinct(1))
qed

lemma write_shape: "json_write sd v f = Inr f' \<Longrightarrow> written_shape v f'"
proof (induction v arbitrary: f f')
  case (List l)
  from List.prems obtain t r out where f: "f = fmt t r out" "accepting t \<or> t = KEY_STARTED"
    by (rule write_ok_fmt)
  with List.prems have "accepting t" by (auto simp: write_key)
  with List.prems f obtain f1 where f1: "end_list f1 = Inr f'"
    "serialize_list (json_formatter sd) l (fmt LIST (t # r) (out @ comma t @ ''['')) = Inr f1"
    by (auto simp: write_List bind_res_eq_Inr_iff)
  from f1(1) obtain t1 r1 out1 where e: "f1 = fmt t1 r1 out1" "in_list t1"
    "f' = fmt LIST_VALUE r1 (out1 @ '']'')" by (rule end_list_ok)
  have "list_all list_tree l"
    by (rule serialize_list_shape [OF List.IH f1(2) [unfolded e(1)] _ e(2)])
      (simp_all add: in_list_def)
  with e(3) show ?case by (simp add: written_shape_def)
next
  case (Object ps)
  from Object.prems obtain t r out where f: "f = fmt t r out" "accepting t \<or> t = KEY_STARTED"
    by (rule write_ok_fmt)
  with Object.prems have "accepting t" by (auto simp: write_key)
  with Object.prems f obtain f1 where f1: "end_object f1 = Inr f'"
    "serialize_object (json_formatter sd) ps (fmt OBJECT (t # r) (out @ comma t @ ''{'')) = Inr f1"
    by (auto simp: write_Object bind_res_eq_Inr_iff)
  from f1(1) obtain t1 r1 out1 where e: "f1 = fmt t1 r1 out1" "in_object t1"
    "f' = fmt OBJECT_VALUE r1 (out1 @ ''}'')" by (rule end_object_ok)
  have "list_all (\<lambda>(k, v). string_like k \<and> object_tree v) ps"
    by (rule serialize_object_shape [OF _ f1(2)])
      (use Object.IH in \<open>fastforce\<close>, simp add: in_object_def)
  with e(3) show ?case by (simp add: written_shape_def)
qed (simp_all add: written_shape_def)

lemma write_top_level:
  assumes "list_tree v \<or> object_tree v"
  shows "\<exists>st. json_write sd v (json_formatter_new out) =
      Inr \<lparr>states = st, outp = out @ json_text sd v\<rparr>"
proof (cases v)
  case (List l)
  with assms have l: "list_all list_tree l" by simp
  have "\<exists>t' r'. in_list t' \<and> serialize_list (json_formatter sd) l (fmt LIST [VALUE] (out @ ''['')) =
      Inr (fmt t' r' ((out @ ''['') @ separated LIST (map (json_text sd) l)))"
    using l by (intro serialize_list_ok write_list_tree) (auto simp: list_all_iff in_list_def)
  then show ?thesis
    by (auto simp: List json_formatter_new_def write_List accepting_def comma_def end_list_fmt
        separated_start)
next
  case (Object ps)
  with assms have ps: "list_all (\<lambda>(k, v). string_like k \<and> object_tree v) ps" by simp
  have "\<exists>t' r'. in_object t' \<and> serialize_object (json_formatter sd) ps (fmt OBJECT [VALUE] (out @ ''{'')) =
      Inr (fmt t' r' ((out @ ''{'') @ separated OBJECT
        (map (\<lambda>p. json_text sd (fst p) @ '':'' @ json_text sd (snd p)) ps)))"
    using ps by (intro serialize_object_ok conjI write_object_tree)
      (auto simp: list_all_iff in_object_def)
  then show ?thesis
    by (auto simp: Object json_formatter_new_def write_Object accepting_def comma_def
        end_object_fmt separated_start)
qed (simp_all add: json_formatter_new_def write_scalar accepting_def in_list_def comma_def)

subsection \<open>Errors\<close>

definition misuse :: "fault \<Rightarrow> bool" where
  "misuse e \<longleftrightarrow> e = Err InvalidArgument \<or> e = Err FailedPrecondition"

lemma write_in_list_result:
  assumes "json_write sd v (fmt t r out) = Inr f" "in_list t"
  shows "\<exists>t' r' out'. f = fmt t' r' out' \<and> (in_list t' \<or> t' = OBJECT_VALUE)"
proof (cases "scalar v")
  case True
  then show ?thesis
    using assms write_scalar [of v t sd r out] by (auto simp: accepting_def in_list_def)
next
  case False
  then show ?thesis
    using write_shape [OF assms(1)] by (cases v) (auto simp: written_shape_def in_list_def)
qed

lemma serialize_list_error:
  assumes "\<forall>v \<in> set l. \<forall>t r out e. json_write sd v (fmt t r out) = Inl e \<longrightarrow> misuse e"
    and "in_list t"
  shows "case serialize_list (json_formatter sd) l (fmt t r out) of
      Inl e \<Rightarrow> misuse e | Inr f \<Rightarrow> \<exists>t' r' out'. f = fmt t' r' out'"
  using assms
proof (induction l arbitrary: t r out)
  case Nil
  then show ?case by simp
next
  case (Cons v l)
  show ?case
  proof (cases "json_write sd v (fmt t r out)")
    case (Inl e)
    moreover from Cons.prems(1) Inl have "misuse e" by simp
    ultimately show ?thesis by (simp add: json_write_def)
  next
    case (Inr f)
    from write_in_list_result [OF this Cons.prems(2)] obtain t' r' out' where
      f: "f = fmt t' r' out'" "in_list t' \<or> t' = OBJECT_VALUE" by blast
    show ?thesis
    proof (cases "in_list t'")
      case True
      with Cons.IH [of t' r' out'] Cons.prems(1) Inr f show ?thesis
        by (simp add: serialize_list_Cons del: serialize_list.simps)
    next
      case False
      with f Inr show ?thesis
        by (cases l) (auto simp: serialize_list_Cons write_reject accepting_def misuse_def
            simp del: serialize_list.simps(2))
    qed
  qed
qed

lemma serialize_object_error:
  assumes "\<forall>p \<in> set ps. \<forall>t r out e. json_write sd (snd p) (fmt t r out) = Inl e \<longrightarrow> misuse e"
    and "in_object t"
  shows "case serialize_object (json_formatter sd) ps (fmt t r out) of
      Inl e \<Rightarrow> misuse e | Inr f \<Rightarrow> \<exists>t' r' out'. f = fmt t' r' out'"
  using assms
proof (induction ps arbitrary: t r out)
  case Nil
  then show ?case by simp
next
  case (Cons p ps)
  obtain k v where p: "p = (k, v)" by (cases p)
  let ?f = "fmt KEY_ENDED (t # r) (out @ comma t @ json_text sd k @ '':'')"
  note unfold = p serialize_object_Cons [OF Cons.prems(2)] end_pair_fmt misuse_def
  show ?case
  proof (cases "json_write sd v ?f")
    case (Inl e)
    moreover from Cons.prems(1) Inl p have "misuse e" by simp
    ultimately show ?thesis by (simp add: unfold del: serialize_object.simps)
  next
    case (Inr f)
    have "\<exists>t' r' out'. f = fmt t' r' out'"
      using Inr write_shape [OF Inr] write_scalar [of v KEY_ENDED sd "t # r"]
      by (cases v) (auto simp: written_shape_def accepting_def in_list_def)
    then obtain t' r' out' where f: "f = fmt t' r' out'" by blast
    have "case serialize_object (json_formatter sd) ps (fmt OBJECT_VALUE r' out') of
      Inl e \<Rightarrow> misuse e | Inr f \<Rightarrow> \<exists>t' r' out'. f = fmt t' r' out'"
      using Cons.prems(1) by (intro Cons.IH) (simp_all add: in_object_def)
    with Inr f show ?thesis
      by (simp add: unfold del: serialize_object.simps)
  qed
qed

lemma write_error: "json_write sd v (fmt t r out) = Inl e \<Longrightarrow> misuse e"
proof (induction v arbitrary: t r out e)
  case (List l)
  show ?case
  proof (cases "accepting t")
    case True
    have "case serialize_list (json_formatter sd) l (fmt LIST (t # r) (out @ comma t @ ''['')) of
      Inl e \<Rightarrow> misuse e | Inr f \<Rightarrow> \<exists>t' r' out'. f = fmt t' r' out'"
      by (rule serialize_list_error) (use List.IH in \<open>blast\<close>, simp add: in_list_def)
    with List.prems True show ?thesis
      by (auto simp: write_List bind_res_eq_Inl_iff end_list_fmt misuse_def split: if_splits)
  next
    case False
    with List.prems write_reject [of t sd "List l"] show ?thesis
      by (cases "t = KEY_STARTED") (auto simp: write_key misuse_def)
  qed
next
  case (Object ps)
  show ?case
  proof (cases "accepting t")
    case True
    have "case serialize_object (json_formatter sd) ps (fmt OBJECT (t # r) (out @ comma t @ ''{'')) of
      Inl e \<Rightarrow> misuse e | Inr f \<Rightarrow> \<exists>t' r' out'. f = fmt t' r' out'"
      by (rule serialize_object_error) (use Object.IH in \<open>fastforce\<close>, simp add: in_object_def)
    with Object.prems True show ?thesis
      by (auto simp: write_Object bind_res_eq_Inl_iff end_object_fmt misuse_def split: if_splits)
  next
    case False
    with Object.prems write_reject [of t sd "Object ps"] show ?thesis
      by (cases "t = KEY_STARTED") (auto simp: write_key misuse_def)
  qed
qed (metis misuse_def write_reject write_key write_scalar scalar.simps sum.distinct(1)
  sum.inject(1))+

section \<open>Properties\<close>

text \<open>
  C12: Serializing a value through a fresh JSON formatter returns if and only if the value is
  built from lists and scalars only or from objects (with string keys) and scalars only;
  it then appends exactly the JSON text of the value to the stream, separators included.
  Otherwise it throws \<open>InvalidArgument\<close> or \<open>FailedPrecondition\<close>; it never reads an empty
  state stack and never reaches the formatter's internal error.
\<close>

theorem json_write_exact:
  "case json_write sd v (json_formatter_new out) of
     Inr f \<Rightarrow> (list_tree v \<or> object_tree v) \<and> outp f = out @ json_text sd v
   | Inl e \<Rightarrow> \<not> (list_tree v \<or> object_tree v) \<and>
       (e = Err InvalidArgument \<or> e = Err FailedPrecondition)"
proof (cases "list_tree v \<or> object_tree v")
  case True
  then show ?thesis using write_top_level [of v sd out] by auto
next
  case False
  then have "\<not> written_shape v f" "\<not> scalar v" for f
    by (cases v; auto simp: written_shape_def)+
  then obtain e where e: "json_write sd v (json_formatter_new out) = Inl e"
    using write_shape [of sd v "json_formatter_new out"]
    by (cases "json_write sd v (json_formatter_new out)") auto
  then have "misuse e"
    unfolding json_formatter_new_def by (rule write_error)
  with e False show ?thesis by (simp add: misuse_def)
qed

end
