(* ===== verification/Json_Parser.thy ===== *)
theory Json_Parser
  imports Prelude
begin

text \<open>
  The JSON parser (\<open>src/lw/mime/json.cpp\<close>): the tokens it produces, with the token
  interface of \<open>src/lw/io/serializer/parser.h\<close>, and the parser \<open>JSONParse\<close> itself, a loop
  over the input with a stack of unfinished tokens.

  The loop's index into the input is represented by the rest of the input from that index
  on. \<open>_parse_keyword\<close> looks at the character behind the keyword without a bounds check;
  at the end of the input this reads the byte behind the view, the argument \<open>past_end\<close>
  of the model. \<open>top()\<close> of an empty stack is undefined behaviour.

  The lemmas show which inputs reach undefined behaviour (those whose first character that
  is not a space is a closing bracket or a comma, and no others), what the tokens of an
  accepted document look like, and what the parser does with the text of a value.
\<close>

section \<open>Tokens\<close>

datatype json_type = NUL | BOOLEAN | STRING | INTEGER | FLOAT | LIST | OBJECT

text \<open>
  \<open>decode_string\<close>: the argument of the loop is the token from position \<open>i\<close> on, up to and
  including its closing quotation mark. An escape that is not one of JSON's single character
  escapes adds nothing to the output.
\<close>

definition unescape :: "char \<Rightarrow> string" where
  "unescape c =
     (if c = CHR 0x22 \<or> c = CHR 0x5C \<or> c = CHR ''/'' then [c]
      else if c = CHR ''b'' then [CHR 0x08]
      else if c = CHR ''f'' then [CHR 0x0C]
      else if c = CHR ''n'' then [CHR 0x0A]
      else if c = CHR ''r'' then [CHR 0x0D]
      else if c = CHR ''t'' then [CHR 0x09]
      else [])"

fun decode_loop :: "string \<Rightarrow> string" where
  "decode_loop [] = []"
| "decode_loop [c] = []"
| "decode_loop (c # d # r) =
     (if c = CHR 0x5C then unescape d @ decode_loop r else c # decode_loop (d # r))"

definition decode_string :: "string \<Rightarrow> string" where
  "decode_string tok = decode_loop (drop 1 tok)"

text \<open>
  \<open>JSONScalarToken\<close> (type, text, decoded string), \<open>JSONListToken\<close> and \<open>JSONObjectToken\<close>.
  The entries of an object are an \<open>unordered_map\<close>: their order is never observed.
\<close>

datatype token =
    Scalar json_type string string
  | ListToken "token list"
  | ObjectToken "(string \<times> token) list"

definition make_scalar :: "json_type \<Rightarrow> string \<Rightarrow> token" where
  "make_scalar ty tok = Scalar ty tok (if ty = STRING then decode_string tok else [])"

text \<open>\<open>JSONListToken::push_back\<close> and \<open>JSONObjectToken::insert\<close>.\<close>

definition list_push_back :: "token list \<Rightarrow> token \<Rightarrow> token list" where
  "list_push_back l v = l @ [v]"

definition object_insert :: "(string \<times> token) list \<Rightarrow> string \<Rightarrow> token \<Rightarrow> (string \<times> token) list res" where
  "object_insert m k v =
     (if map_of m k \<noteq> None then Inl (Err FailedPrecondition) else Inr (m @ [(k, v)]))"

subsection \<open>The token interface\<close>

fun tok_is_null :: "token \<Rightarrow> bool" where
  "tok_is_null (Scalar ty _ _) = (ty = NUL)"
| "tok_is_null _ = False"

fun tok_is_boolean :: "token \<Rightarrow> bool" where
  "tok_is_boolean (Scalar ty _ _) = (ty = BOOLEAN)"
| "tok_is_boolean _ = False"

fun tok_is_string :: "token \<Rightarrow> bool" where
  "tok_is_string (Scalar ty _ _) = (ty = STRING)"
| "tok_is_string _ = False"

fun tok_is_list :: "token \<Rightarrow> bool" where
  "tok_is_list (ListToken _) = True"
| "tok_is_list _ = False"

fun tok_is_object :: "token \<Rightarrow> bool" where
  "tok_is_object (ObjectToken _) = True"
| "tok_is_object _ = False"

fun tok_size :: "token \<Rightarrow> nat res" where
  "tok_size (Scalar ty _ dec) =
     (if ty = STRING then Inr (length dec) else Inl (Err FailedPrecondition))"
| "tok_size (ListToken l) = Inr (length l)"
| "tok_size (ObjectToken m) = Inr (length m)"

fun tok_is_char :: "token \<Rightarrow> bool" where
  "tok_is_char (Scalar ty _ dec) = (ty = STRING \<and> length dec = 1)"
| "tok_is_char _ = False"

fun tok_is_signed_integer :: "token \<Rightarrow> bool" where
  "tok_is_signed_integer (Scalar ty _ _) = (ty = INTEGER)"
| "tok_is_signed_integer _ = False"

fun tok_is_unsigned_integer :: "token \<Rightarrow> bool" where
  "tok_is_unsigned_integer (Scalar ty tok _) = (ty = INTEGER \<and> hd tok \<noteq> CHR ''-'')"
| "tok_is_unsigned_integer _ = False"

fun tok_is_floating_point :: "token \<Rightarrow> bool" where
  "tok_is_floating_point (Scalar ty _ _) = (ty = INTEGER \<or> ty = FLOAT)"
| "tok_is_floating_point _ = False"

fun tok_get_boolean :: "token \<Rightarrow> bool res" where
  "tok_get_boolean (Scalar ty tok _) =
     (if ty = BOOLEAN then Inr (tok = ''true'') else Inl (Err FailedPrecondition))"
| "tok_get_boolean _ = Inl (Err FailedPrecondition)"

fun tok_get_char :: "token \<Rightarrow> char res" where
  "tok_get_char (Scalar ty tok dec) =
     (if tok_is_char (Scalar ty tok dec) then Inr (hd dec) else Inl (Err FailedPrecondition))"
| "tok_get_char _ = Inl (Err FailedPrecondition)"

text \<open>The conversion both integer getters share: an optional plus sign, then \<open>from_chars\<close>.\<close>

definition tok_convert :: "bool \<Rightarrow> int \<Rightarrow> int \<Rightarrow> string \<Rightarrow> int res" where
  "tok_convert sgned lo hi tok =
     (let body = (if tok \<noteq> [] \<and> hd tok = CHR ''+'' then tl tok else tok)
      in case from_chars sgned lo hi body of (n, ec, v) \<Rightarrow>
           if n \<noteq> length body \<or> ec = Invalid_argument then Inl (Err InvalidArgument)
           else if ec = Result_out_of_range then Inl (Err InvalidArgument)
           else Inr (the v))"

fun tok_get_signed_integer :: "token \<Rightarrow> int res" where
  "tok_get_signed_integer (Scalar ty tok dec) =
     (if ty = INTEGER then tok_convert True int64_min int64_max tok
      else Inl (Err FailedPrecondition))"
| "tok_get_signed_integer _ = Inl (Err FailedPrecondition)"

fun tok_get_unsigned_integer :: "token \<Rightarrow> int res" where
  "tok_get_unsigned_integer (Scalar ty tok dec) =
     (if tok_is_unsigned_integer (Scalar ty tok dec) then tok_convert False 0 uint64_max tok
      else Inl (Err FailedPrecondition))"
| "tok_get_unsigned_integer _ = Inl (Err FailedPrecondition)"

text \<open>
  \<open>get_floating_point\<close>. \<open>strtod\<close> of the C library is a parameter: it reads characters until
  one cannot continue the number and returns how many it read. The token is a view into the
  document, so it reads on into \<open>behind\<close>, the characters after the token.
\<close>

fun tok_get_floating_point :: "(string \<Rightarrow> nat \<times> 'd) \<Rightarrow> 'd \<Rightarrow> string \<Rightarrow> token \<Rightarrow> 'd res" where
  "tok_get_floating_point strtod huge_val behind (Scalar ty tok dec) =
     (if \<not> tok_is_floating_point (Scalar ty tok dec) then Inl (Err FailedPrecondition)
      else case strtod (tok @ behind) of (n, v) \<Rightarrow>
        if n \<noteq> length tok then Inl (Err InvalidArgument)
        else if v = huge_val then Inl (Err InvalidArgument)
        else Inr v)"
| "tok_get_floating_point strtod huge_val behind _ = Inl (Err FailedPrecondition)"

fun tok_get_string :: "token \<Rightarrow> string res" where
  "tok_get_string (Scalar ty _ dec) = (if ty = STRING then Inr dec else Inl (Err FailedPrecondition))"
| "tok_get_string _ = Inl (Err FailedPrecondition)"

fun tok_has_index :: "token \<Rightarrow> nat \<Rightarrow> bool" where
  "tok_has_index (ListToken l) i = (i < length l)"
| "tok_has_index _ i = False"

fun tok_get_index :: "token \<Rightarrow> nat \<Rightarrow> token res" where
  "tok_get_index (ListToken l) i =
     (if tok_has_index (ListToken l) i then Inr (l ! i) else Inl (Err OutOfRange))"
| "tok_get_index _ i = Inl (Err FailedPrecondition)"

fun tok_has_key :: "token \<Rightarrow> string \<Rightarrow> bool" where
  "tok_has_key (ObjectToken m) k = (map_of m k \<noteq> None)"
| "tok_has_key _ k = False"

fun tok_get_key :: "token \<Rightarrow> string \<Rightarrow> token res" where
  "tok_get_key (ObjectToken m) k =
     (if tok_has_key (ObjectToken m) k then Inr (the (map_of m k)) else Inl (Err OutOfRange))"
| "tok_get_key _ k = Inl (Err FailedPrecondition)"

section \<open>Lexing\<close>

text \<open>
  \<open>_parse_string\<close>, after the opening quotation mark. The source's loop has
  \<open>if (str[i] == '\\') continue;\<close>, which goes on with the very next character.
\<close>

fun scan_string :: "string \<Rightarrow> (string \<times> string) option" where
  "scan_string [] = None"
| "scan_string (c # s) =
     (if c = CHR 0x5C then map_option (\<lambda>(inner, rest). (c # inner, rest)) (scan_string s)
      else if c = CHR 0x22 then Some ([], s)
      else map_option (\<lambda>(inner, rest). (c # inner, rest)) (scan_string s))"

definition parse_string :: "string \<Rightarrow> (token \<times> string) res" where
  "parse_string s = (case scan_string (tl s) of
       None \<Rightarrow> Inl (Err InvalidArgument)
     | Some (inner, rest) \<Rightarrow> Inr (make_scalar STRING (CHR 0x22 # inner @ [CHR 0x22]), rest))"

definition parse_keyword :: "char \<Rightarrow> string \<Rightarrow> (token \<times> string) res" where
  "parse_keyword past_end s =
     (let found =
        (if starts_with s ''true'' then Some (make_scalar BOOLEAN (take 4 s), drop 4 s)
         else if starts_with s ''false'' then Some (make_scalar BOOLEAN (take 5 s), drop 5 s)
         else if starts_with s ''null'' then Some (make_scalar NUL (take 4 s), drop 4 s)
         else None)
      in case found of
           None \<Rightarrow> Inl (Err InvalidArgument)
         | Some (tok, rest) \<Rightarrow>
             (let next = (if rest = [] then past_end else hd rest)
              in if isalnum next \<or> next = CHR ''_'' then Inl (Err InvalidArgument)
                 else Inr (tok, rest)))"

fun scan_number :: "string \<Rightarrow> json_type \<Rightarrow> (string \<times> json_type \<times> string) res" where
  "scan_number [] ty = Inr ([], ty, [])"
| "scan_number (c # s) ty =
     (if c = CHR ''.'' then
        if ty = FLOAT then Inl (Err InvalidArgument)
        else map_res (\<lambda>(tx, ty', rest). (c # tx, ty', rest)) (scan_number s FLOAT)
      else if \<not> isdigit c then Inr ([], ty, c # s)
      else map_res (\<lambda>(tx, ty', rest). (c # tx, ty', rest)) (scan_number s ty))"

definition finish_number :: "string \<Rightarrow> string \<Rightarrow> (token \<times> string) res" where
  "finish_number taken s =
     bind_res (scan_number s INTEGER) (\<lambda>(tx, ty, rest).
       if last (taken @ tx) = CHR ''.'' then Inl (Err InvalidArgument)
       else Inr (make_scalar ty (taken @ tx), rest))"

definition number_sign :: "string \<Rightarrow> string" where
  "number_sign s = (if s \<noteq> [] \<and> (hd s = CHR ''+'' \<or> hd s = CHR ''-'') then [hd s] else [])"

definition parse_number :: "string \<Rightarrow> (token \<times> string) res" where
  "parse_number s =
     (let sgn = number_sign s;
          body = drop (length sgn) s
      in case body of
           [] \<Rightarrow> Inl (Err InvalidArgument)
         | c # r \<Rightarrow>
             if c = CHR ''0'' then
               if r \<noteq> [] \<and> isdigit (hd r) then Inl (Err InvalidArgument)
               else finish_number (sgn @ [c]) r
             else if \<not> isdigit c then Inl (Err InvalidArgument)
             else finish_number sgn body)"

section \<open>The stack and the main loop\<close>

datatype json_token = CharToken char | DocToken token

fun is_scalar_token :: "json_token \<Rightarrow> bool" where
  "is_scalar_token (DocToken (Scalar _ _ _)) = True"
| "is_scalar_token _ = False"

fun is_list_token :: "json_token \<Rightarrow> bool" where
  "is_list_token (DocToken (ListToken _)) = True"
| "is_list_token _ = False"

fun is_object_token :: "json_token \<Rightarrow> bool" where
  "is_object_token (DocToken (ObjectToken _)) = True"
| "is_object_token _ = False"

text \<open>
  \<open>_pop_top\<close>: the new stack and, when the popped token was the last one, the final value.
\<close>

definition pop_pair :: "token \<Rightarrow> json_token list \<Rightarrow> (json_token list \<times> json_token option) res" where
  "pop_pair rhs st = (case st of
       lhs # obj # rest \<Rightarrow>
         (case obj of
            DocToken (ObjectToken m) \<Rightarrow>
              (case lhs of
                 DocToken (Scalar _ tok _) \<Rightarrow>
                   map_res (\<lambda>m'. (DocToken (ObjectToken m') # rest, None))
                     (object_insert m (butlast (tl tok)) rhs)
               | _ \<Rightarrow> Inl Std_bad_variant_access)
          | _ \<Rightarrow> Inl (Err InvalidArgument))
     | _ \<Rightarrow> Inl Undefined_behaviour)"

fun pop_top :: "json_token list \<Rightarrow> (json_token list \<times> json_token option) res" where
  "pop_top [] = Inl Undefined_behaviour"
| "pop_top [rhs] = Inr ([], Some rhs)"
| "pop_top (CharToken c # t # st) = Inl (Err InvalidArgument)"
| "pop_top (DocToken rhs # DocToken (ObjectToken m) # st) =
     (if tok_is_string rhs then Inr (DocToken rhs # DocToken (ObjectToken m) # st, None)
      else Inl (Err InvalidArgument))"
| "pop_top (DocToken rhs # DocToken (ListToken l) # st) =
     Inr (DocToken (ListToken (list_push_back l rhs)) # st, None)"
| "pop_top (DocToken rhs # CharToken c # st) =
     (if c = CHR '':'' then pop_pair rhs st else Inl (Err Unimplemented))"
| "pop_top (DocToken rhs # DocToken (Scalar _ _ _) # st) = Inl (Err Unimplemented)"

definition number_start :: "char \<Rightarrow> bool" where
  "number_start c \<longleftrightarrow> c = CHR ''+'' \<or> c = CHR ''-'' \<or> isdigit c"

lemma scan_string_length: "scan_string s = Some (inner, rest) \<Longrightarrow> length rest < length s"
  by (induction s arbitrary: inner) (fastforce split: if_splits)+

lemma parse_string_length:
  "parse_string (c # s) = Inr (tok, rest) \<Longrightarrow> length rest < length s"
  by (auto simp: parse_string_def scan_string_length split: option.splits prod.splits)

lemma parse_keyword_length: "parse_keyword p s = Inr (tok, rest) \<Longrightarrow> length rest < length s"
  by (auto simp: parse_keyword_def Let_def starts_with_iff split: if_splits option.splits)

lemma scan_number_split:
  "scan_number s ty = Inr (tx, ty', rest) \<Longrightarrow> s = tx @ rest"
  by (induction s arbitrary: ty tx) (auto simp: map_res_eq_Inr_iff split: if_splits)

lemma scan_number_digit:
  "scan_number (c # s) ty = Inr (tx, ty', rest) \<Longrightarrow> isdigit c \<Longrightarrow> length rest < length (c # s)"
  using scan_number_split [of s ty] by (auto simp: map_res_eq_Inr_iff char_simps split: if_splits)

lemma number_sign_split: "s = number_sign s @ drop (length (number_sign s)) s"
  by (cases s) (simp_all add: number_sign_def)

lemma parse_number_cases:
  assumes "parse_number s = Inr (tok, rest)"
  obtains c r where "s = number_sign s @ c # r" "isdigit c"
    "c = CHR ''0'' \<and> (r = [] \<or> \<not> isdigit (hd r)) \<and>
       finish_number (number_sign s @ [c]) r = Inr (tok, rest) \<or>
     c \<noteq> CHR ''0'' \<and> finish_number (number_sign s) (c # r) = Inr (tok, rest)"
proof (cases "drop (length (number_sign s)) s")
  case Nil
  with assms show ?thesis by (simp add: parse_number_def)
next
  case (Cons c r)
  have "isdigit CHR ''0''" by (simp add: char_simps)
  moreover have "s = number_sign s @ c # r"
    using number_sign_split [of s] Cons by simp
  ultimately show ?thesis
    using assms that [of c r] by (auto simp: parse_number_def Let_def Cons split: if_splits)
qed

lemma finish_number_split:
  "finish_number taken s = Inr (tok, rest) \<Longrightarrow> \<exists>tx ty. s = tx @ rest \<and> scan_number s INTEGER = Inr (tx, ty, rest)
     \<and> last (taken @ tx) \<noteq> CHR ''.'' \<and> tok = make_scalar ty (taken @ tx)"
  using scan_number_split by (fastforce simp: finish_number_def bind_res_eq_Inr_iff split: if_splits)

lemma parse_number_length:
  assumes "parse_number s = Inr (tok, rest)"
  shows "length rest < length s"
proof -
  from assms obtain c r where s: "s = number_sign s @ c # r" "isdigit c"
    "c = CHR ''0'' \<and> (r = [] \<or> \<not> isdigit (hd r)) \<and>
       finish_number (number_sign s @ [c]) r = Inr (tok, rest) \<or>
     c \<noteq> CHR ''0'' \<and> finish_number (number_sign s) (c # r) = Inr (tok, rest)"
    by (rule parse_number_cases)
  have "length rest \<le> length r"
    using s(3)
  proof
    assume "c = CHR ''0'' \<and> (r = [] \<or> \<not> isdigit (hd r)) \<and>
      finish_number (number_sign s @ [c]) r = Inr (tok, rest)"
    then show ?thesis using finish_number_split [of "number_sign s @ [c]" r tok rest] by auto
  next
    assume "c \<noteq> CHR ''0'' \<and> finish_number (number_sign s) (c # r) = Inr (tok, rest)"
    then show ?thesis
      using finish_number_split [of _ "c # r" tok rest] scan_number_digit [OF _ s(2), of r] by fastforce
  qed
  then show ?thesis
    using arg_cong [OF s(1), of length] by simp
qed

lemma lexer_length:
  "parse_string (c # s) = Inr x \<Longrightarrow> (tok, rest) = x \<Longrightarrow> length rest < Suc (length s)"
  "parse_keyword e (c # s) = Inr x \<Longrightarrow> (tok, rest) = x \<Longrightarrow> length rest < Suc (length s)"
  "parse_number (c # s) = Inr x \<Longrightarrow> (tok, rest) = x \<Longrightarrow> length rest < Suc (length s)"
  using parse_string_length [of c s] parse_keyword_length [of e "c # s"]
    parse_number_length [of "c # s"] by fastforce+

function json_update ::
    "char \<Rightarrow> string \<Rightarrow> json_token list \<Rightarrow> json_token option \<Rightarrow> json_token option res" where
  "json_update past_end [] stack final =
     (if stack \<noteq> [] then Inl (Err InvalidArgument) else Inr final)"
| "json_update past_end (c # s) stack final =
     (if isspace c then json_update past_end s stack final
      else if final \<noteq> None then Inl (Err InvalidArgument)
      else if c = CHR ''{'' then
        json_update past_end s (DocToken (ObjectToken []) # stack) final
      else if c = CHR ''}'' then
        (if stack = [] then Inl Undefined_behaviour
         else if \<not> is_object_token (hd stack) then Inl (Err InvalidArgument)
         else bind_res (pop_top stack) (\<lambda>(st, fn). json_update past_end s st fn))
      else if c = CHR ''['' then
        json_update past_end s (DocToken (ListToken []) # stack) final
      else if c = CHR '']'' then
        (if stack = [] then Inl Undefined_behaviour
         else if \<not> is_list_token (hd stack) then Inl (Err InvalidArgument)
         else bind_res (pop_top stack) (\<lambda>(st, fn). json_update past_end s st fn))
      else if c = CHR '':'' then
        (if stack = [] \<or> \<not> is_scalar_token (hd stack) then Inl (Err InvalidArgument)
         else json_update past_end s (CharToken CHR '':'' # stack) final)
      else if c = CHR '','' then
        (if stack = [] then Inl Undefined_behaviour
         else if \<not> is_list_token (hd stack) \<and> \<not> is_object_token (hd stack)
         then Inl (Err InvalidArgument)
         else json_update past_end s stack final)
      else if c = CHR 0x22 then
        bind_res (parse_string (c # s)) (\<lambda>(tok, rest).
          bind_res (pop_top (DocToken tok # stack)) (\<lambda>(st, fn). json_update past_end rest st fn))
      else if c = CHR ''t'' \<or> c = CHR ''f'' \<or> c = CHR ''n'' then
        bind_res (parse_keyword past_end (c # s)) (\<lambda>(tok, rest).
          bind_res (pop_top (DocToken tok # stack)) (\<lambda>(st, fn). json_update past_end rest st fn))
      else if number_start c then
        bind_res (parse_number (c # s)) (\<lambda>(tok, rest).
          bind_res (pop_top (DocToken tok # stack)) (\<lambda>(st, fn). json_update past_end rest st fn))
      else Inl (Err InvalidArgument))"
  by pat_completeness auto
termination
  apply (relation "measure (\<lambda>(p, s, st, fn). length s)")
  apply (simp_all only: wf_measure in_measure prod.case length_Cons lessI)
  apply (auto split: prod.splits)[2]
  apply (drule (1) lexer_length(1), simp split: prod.splits)
  apply (drule (1) lexer_length(2), simp split: prod.splits)
  apply (drule (1) lexer_length(3), simp split: prod.splits)
  done

definition json_parse :: "char \<Rightarrow> string \<Rightarrow> token res" where
  "json_parse past_end str =
     bind_res (json_update past_end str [] None) (\<lambda>t. case t of
         None \<Rightarrow> Inl (Err InvalidArgument)
       | Some (CharToken _) \<Rightarrow> Inl (Err InvalidArgument)
       | Some (DocToken v) \<Rightarrow> Inr v)"

declare json_update.simps(2) [simp del]

section \<open>What the lexers accept\<close>

text \<open>
  The text of an accepted number: an optional sign, an integer part without a leading zero,
  and for a float a point followed by at least one digit.
\<close>

definition integer_part :: "string \<Rightarrow> bool" where
  "integer_part ds \<longleftrightarrow> ds \<noteq> [] \<and> list_all isdigit ds \<and> (hd ds = CHR ''0'' \<longrightarrow> ds = ''0'')"

definition sign_text :: "string \<Rightarrow> bool" where
  "sign_text sg \<longleftrightarrow> sg = [] \<or> sg = ''+'' \<or> sg = ''-''"

fun scalar_ok :: "json_type \<Rightarrow> string \<Rightarrow> string \<Rightarrow> bool" where
  "scalar_ok NUL tok dec = (tok = ''null'')"
| "scalar_ok BOOLEAN tok dec = (tok = ''true'' \<or> tok = ''false'')"
| "scalar_ok STRING tok dec =
     ((\<exists>inner. tok = CHR 0x22 # inner @ [CHR 0x22] \<and> CHR 0x22 \<notin> set inner) \<and> dec = decode_string tok)"
| "scalar_ok INTEGER tok dec = (\<exists>sg ds. tok = sg @ ds \<and> sign_text sg \<and> integer_part ds)"
| "scalar_ok FLOAT tok dec =
     (\<exists>sg ds fs. tok = sg @ ds @ CHR ''.'' # fs \<and> sign_text sg \<and> integer_part ds \<and>
        fs \<noteq> [] \<and> list_all isdigit fs)"
| "scalar_ok LIST tok dec = False"
| "scalar_ok OBJECT tok dec = False"

fun token_ok :: "token \<Rightarrow> bool" where
  "token_ok (Scalar ty tok dec) = scalar_ok ty tok dec"
| "token_ok (ListToken l) = list_all token_ok l"
| "token_ok (ObjectToken m) = (distinct (map fst m) \<and> list_all (\<lambda>p. token_ok (snd p)) m)"

lemma scan_string_inner:
  "scan_string s = Some (inner, rest) \<Longrightarrow> CHR 0x22 \<notin> set inner \<and> s = inner @ CHR 0x22 # rest"
  by (induction s arbitrary: inner) (auto split: if_splits)

lemma parse_string_ok: "parse_string s = Inr (tok, rest) \<Longrightarrow> token_ok tok"
  by (auto simp: parse_string_def make_scalar_def dest: scan_string_inner
      split: option.splits)

lemma parse_keyword_ok: "parse_keyword e s = Inr (tok, rest) \<Longrightarrow> token_ok tok"
  by (auto simp: parse_keyword_def make_scalar_def Let_def starts_with_iff
      split: if_splits option.splits)

lemma isdigit_point [simp]: "\<not> isdigit CHR ''.''"
  by (simp add: char_simps)

lemma scan_number_float:
  "scan_number s FLOAT = Inr (tx, ty, rest) \<Longrightarrow> ty = FLOAT \<and> list_all isdigit tx"
  by (induction s arbitrary: tx) (auto simp: map_res_eq_Inr_iff split: if_splits)

lemma scan_number_integer:
  "scan_number s INTEGER = Inr (tx, ty, rest) \<Longrightarrow>
     (ty = INTEGER \<and> list_all isdigit tx \<or>
      ty = FLOAT \<and> (\<exists>ds fs. tx = ds @ CHR ''.'' # fs \<and> list_all isdigit ds \<and> list_all isdigit fs))"
proof (induction s arbitrary: tx)
  case (Cons c s)
  show ?case
  proof (cases "c = CHR ''.''")
    case True
    with Cons.prems obtain fs where "tx = CHR ''.'' # fs" "scan_number s FLOAT = Inr (fs, ty, rest)"
      by (auto simp: map_res_eq_Inr_iff)
    with scan_number_float [of s fs ty rest]
    have "ty = FLOAT" "tx = [] @ CHR ''.'' # fs" "list_all isdigit []" "list_all isdigit fs"
      by simp_all
    then show ?thesis by blast
  next
    case False
    show ?thesis
    proof (cases "isdigit c")
      case True
      with False Cons.prems obtain tx' where tx: "tx = c # tx'"
        "scan_number s INTEGER = Inr (tx', ty, rest)"
        by (auto simp: map_res_eq_Inr_iff)
      from Cons.IH [OF this(2)] show ?thesis
      proof
        assume "ty = INTEGER \<and> list_all isdigit tx'"
        with True tx show ?thesis by simp
      next
        assume "ty = FLOAT \<and>
          (\<exists>ds fs. tx' = ds @ CHR ''.'' # fs \<and> list_all isdigit ds \<and> list_all isdigit fs)"
        then obtain ds fs where "ty = FLOAT" "tx' = ds @ CHR ''.'' # fs" "list_all isdigit ds"
          "list_all isdigit fs" by blast
        with True tx have "ty = FLOAT" "tx = (c # ds) @ CHR ''.'' # fs" "list_all isdigit (c # ds)"
          "list_all isdigit fs" by simp_all
        then show ?thesis by blast
      qed
    next
      case False
      with \<open>c \<noteq> CHR ''.''\<close> Cons.prems show ?thesis by auto
    qed
  qed
qed auto

lemma sign_text_number_sign [simp]: "sign_text (number_sign s)"
  by (cases s) (auto simp: number_sign_def sign_text_def)

lemma sign_text_last: "sign_text sg \<Longrightarrow> sg \<noteq> [] \<Longrightarrow> \<not> isdigit (last sg)"
  by (auto simp: sign_text_def char_simps)

text \<open>
  A number scanned to its end: the digits in front of the scan (\<open>lead\<close>) are either empty,
  and then the scan starts with a digit other than zero, or the single zero, and then no
  digit follows.
\<close>

lemma finish_number_ok:
  assumes fin: "finish_number (sg @ lead) s = Inr (tok, rest)" and sg: "sign_text sg"
    and lead: "lead = [] \<and> s \<noteq> [] \<and> isdigit (hd s) \<and> hd s \<noteq> CHR ''0'' \<or>
               lead = ''0'' \<and> (s = [] \<or> \<not> isdigit (hd s))"
  shows "token_ok tok"
proof -
  from finish_number_split [OF fin] obtain tx ty where s: "s = tx @ rest"
    and scan: "scan_number s INTEGER = Inr (tx, ty, rest)"
    and last: "last ((sg @ lead) @ tx) \<noteq> CHR ''.''" and tok: "tok = make_scalar ty ((sg @ lead) @ tx)"
    by blast
  have tx_ne: "lead = [] \<Longrightarrow> tx \<noteq> []"
    using lead scan by (cases s) (auto simp: map_res_eq_Inr_iff split: if_splits)
  have whole: "list_all isdigit ds \<Longrightarrow> tx = ds @ fs \<Longrightarrow> lead = [] \<longrightarrow> ds \<noteq> [] \<Longrightarrow> integer_part (lead @ ds)"
    for ds fs
    using lead s by (cases ds) (auto simp: integer_part_def char_simps)
  from scan_number_integer [OF scan] show ?thesis
  proof
    assume "ty = INTEGER \<and> list_all isdigit tx"
    with whole [of tx "[]"] tx_ne sg tok show ?thesis
      by (auto simp: make_scalar_def)
  next
    assume "ty = FLOAT \<and> (\<exists>ds fs. tx = ds @ CHR ''.'' # fs \<and> list_all isdigit ds \<and> list_all isdigit fs)"
    then obtain ds fs where f: "ty = FLOAT" "tx = ds @ CHR ''.'' # fs" "list_all isdigit ds"
      "list_all isdigit fs" by blast
    have "lead = [] \<longrightarrow> ds \<noteq> []"
      using lead s f(2) by (auto simp: char_simps)
    with whole [of ds "CHR ''.'' # fs"] f have "integer_part (lead @ ds)" by simp
    moreover have "fs \<noteq> []" using last f(2) by auto
    ultimately show ?thesis
      using f tok sg
      by (simp add: make_scalar_def) (metis append.assoc)
  qed
qed

lemma parse_number_ok:
  assumes "parse_number s = Inr (tok, rest)"
  shows "token_ok tok"
  using assms
proof (rule parse_number_cases)
  fix c r
  assume c: "isdigit c"
    "c = CHR ''0'' \<and> (r = [] \<or> \<not> isdigit (hd r)) \<and>
       finish_number (number_sign s @ [c]) r = Inr (tok, rest) \<or>
     c \<noteq> CHR ''0'' \<and> finish_number (number_sign s) (c # r) = Inr (tok, rest)"
  then show ?thesis
    using finish_number_ok [of "number_sign s" "''0''" r tok rest]
      finish_number_ok [of "number_sign s" "[]" "c # r" tok rest] by auto
qed

section \<open>The parser never reads an empty stack after its first token\<close>

text \<open>
  The stacks the parser builds: containers may lie on anything, a scalar is a key and lies
  on the object it belongs to, a colon lies on a key.
\<close>

fun stack_ok :: "json_token list \<Rightarrow> bool" where
  "stack_ok [] = True"
| "stack_ok (DocToken (Scalar ty tok dec) # st) =
     (ty = STRING \<and> st \<noteq> [] \<and> is_object_token (hd st) \<and> stack_ok st)"
| "stack_ok (DocToken v # st) = (token_ok v \<and> stack_ok st)"
| "stack_ok (CharToken c # st) =
     (c = CHR '':'' \<and> st \<noteq> [] \<and> is_scalar_token (hd st) \<and> stack_ok st)"

definition parse_fault :: "fault \<Rightarrow> bool" where
  "parse_fault f \<longleftrightarrow> f \<in> {Err InvalidArgument, Err FailedPrecondition, Err Unimplemented}"

text \<open>The states of the loop behind the first token.\<close>

fun started :: "json_token list \<Rightarrow> json_token option \<Rightarrow> bool" where
  "started st None = (st \<noteq> [] \<and> stack_ok st)"
| "started st (Some (DocToken v)) = (st = [] \<and> token_ok v)"
| "started st (Some (CharToken c)) = False"

lemma object_insert_ok:
  "object_insert m k v = Inr m' \<Longrightarrow> token_ok (ObjectToken m) \<Longrightarrow> token_ok v \<Longrightarrow> token_ok (ObjectToken m')"
  by (auto simp: object_insert_def map_of_eq_None_iff split: if_splits)

lemma pop_pair_started:
  assumes "token_ok rhs" "stack_ok (CharToken c # st)"
  shows "case pop_pair rhs st of Inr (st', fn) \<Rightarrow> started st' fn | Inl f \<Rightarrow> parse_fault f"
proof -
  from assms(2) obtain ty tok dec m r where st: "st = DocToken (Scalar ty tok dec) # DocToken (ObjectToken m) # r"
    by (cases st rule: stack_ok.cases; cases "tl st" rule: stack_ok.cases) auto
  with assms show ?thesis
    by (auto simp: pop_pair_def parse_fault_def object_insert_def map_of_eq_None_iff)
qed

lemma pop_top_started:
  assumes "token_ok rhs" "stack_ok st"
  shows "case pop_top (DocToken rhs # st) of Inr (st', fn) \<Rightarrow> started st' fn | Inl f \<Rightarrow> parse_fault f"
proof (cases st rule: stack_ok.cases)
  case (4 c st')
  with pop_pair_started [OF assms(1), of c st'] assms show ?thesis by auto
next
  case (2 ty tok dec st')
  then show ?thesis by (simp add: parse_fault_def)
qed (use assms in \<open>auto simp: parse_fault_def list_push_back_def elim: tok_is_string.elims\<close>)

lemma lexer_error:
  "parse_string s = Inl f \<Longrightarrow> parse_fault f"
  "parse_keyword e s = Inl f \<Longrightarrow> parse_fault f"
  by (auto simp: parse_string_def parse_keyword_def Let_def parse_fault_def
      split: option.splits if_splits)

lemma scan_number_error: "scan_number s ty = Inl f \<Longrightarrow> parse_fault f"
  by (induction s ty rule: scan_number.induct) (auto simp: parse_fault_def split: if_splits)

lemma finish_number_error: "finish_number tx s = Inl f \<Longrightarrow> parse_fault f"
  using scan_number_error [of s INTEGER]
  by (auto simp: finish_number_def bind_res_eq_Inl_iff parse_fault_def split: if_splits)

lemma parse_number_error: "parse_number s = Inl f \<Longrightarrow> parse_fault f"
  using finish_number_error
  by (auto simp: parse_number_def Let_def parse_fault_def split: if_splits list.splits)

lemmas lexer_errors = lexer_error parse_number_error
lemmas lexer_ok = parse_string_ok parse_keyword_ok parse_number_ok

definition outcome_ok :: "json_token option res \<Rightarrow> bool" where
  "outcome_ok r = (case r of
       Inl f \<Rightarrow> parse_fault f
     | Inr t \<Rightarrow> (\<exists>v. t = Some (DocToken v) \<and> token_ok v))"

lemma outcome_invalid [simp]: "outcome_ok (Inl (Err InvalidArgument))"
  by (simp add: outcome_ok_def parse_fault_def)

lemma outcome_if:
  "(b \<Longrightarrow> outcome_ok x) \<Longrightarrow> (\<not> b \<Longrightarrow> outcome_ok y) \<Longrightarrow> outcome_ok (if b then x else y)"
  by simp

lemma outcome_pop:
  assumes "case m of Inr (st', fn) \<Rightarrow> started st' fn | Inl f \<Rightarrow> parse_fault f"
    and "\<And>st' fn. started st' fn \<Longrightarrow> outcome_ok (json_update e rest st' fn)"
  shows "outcome_ok (bind_res m (\<lambda>(st', fn). json_update e rest st' fn))"
proof (cases m)
  case (Inl f)
  with assms(1) show ?thesis by (simp add: outcome_ok_def)
next
  case (Inr p)
  with assms show ?thesis by (cases p) simp
qed

lemma outcome_lexed:
  assumes "\<And>tok rest. lx = Inr (tok, rest) \<Longrightarrow> token_ok tok" "\<And>f. lx = Inl f \<Longrightarrow> parse_fault f"
    and "stack_ok st"
    and "\<And>tok rest st' fn. lx = Inr (tok, rest) \<Longrightarrow> started st' fn \<Longrightarrow> outcome_ok (json_update e rest st' fn)"
  shows "outcome_ok (bind_res lx (\<lambda>(tok, rest).
    bind_res (pop_top (DocToken tok # st)) (\<lambda>(st', fn). json_update e rest st' fn)))"
proof (cases lx)
  case (Inl f)
  with assms(2) show ?thesis by (simp add: outcome_ok_def)
next
  case (Inr p)
  obtain tok rest where p: "p = (tok, rest)" by (cases p)
  with Inr have "token_ok tok" by (intro assms(1)) simp
  from outcome_pop [OF pop_top_started [OF this assms(3)]] assms(4) Inr p show ?thesis by simp
qed

lemma pop_top_container:
  assumes "stack_ok (t # st)" "\<not> is_scalar_token t" "\<forall>c. t \<noteq> CharToken c"
  shows "case pop_top (t # st) of Inr (st', fn) \<Rightarrow> started st' fn | Inl f \<Rightarrow> parse_fault f"
proof -
  from assms obtain v where t: "t = DocToken v" "token_ok v" "stack_ok st"
    by (cases "t # st" rule: stack_ok.cases) auto
  with pop_top_started [of v st] show ?thesis by simp
qed

lemma container_token:
  "is_object_token t \<Longrightarrow> \<not> is_scalar_token t \<and> (\<forall>c. t \<noteq> CharToken c)"
  "is_list_token t \<Longrightarrow> \<not> is_scalar_token t \<and> (\<forall>c. t \<noteq> CharToken c)"
  by (cases t rule: is_scalar_token.cases; simp)+

lemma update_final:
  "started st (Some t) \<Longrightarrow> outcome_ok (json_update e s st (Some t))"
proof (induction s)
  case Nil
  then show ?case by (cases t) (auto simp: outcome_ok_def)
next
  case (Cons c s)
  then show ?case by (simp add: json_update.simps(2))
qed

text \<open>Behind any stack the parser can have built, the first token included.\<close>

lemma update_step_outcome:
  assumes IH: "\<And>s' st' fn. length s' \<le> length s \<Longrightarrow> started st' fn \<Longrightarrow> outcome_ok (json_update e s' st' fn)"
    and st: "stack_ok st" and c: "\<not> isspace c"
    and first: "st = [] \<Longrightarrow> c \<notin> {CHR '']'', CHR ''}'', CHR '',''}"
  shows "outcome_ok (json_update e (c # s) st None)"
proof -
  note container = pop_top_container [of "hd st" "tl st"]
  have lexed: "outcome_ok (bind_res lx (\<lambda>(tok, rest).
      bind_res (pop_top (DocToken tok # st)) (\<lambda>(st', fn). json_update e rest st' fn)))"
    if "lx \<in> {parse_string (c # s), parse_keyword e (c # s), parse_number (c # s)}" for lx
  proof (rule outcome_lexed [OF _ _ st IH])
    show "token_ok tok" if "lx = Inr (tok, rest)" for tok rest
      using that \<open>lx \<in> _\<close> by (metis insertE empty_iff lexer_ok)
    show "parse_fault f" if "lx = Inl f" for f
      using that \<open>lx \<in> _\<close> by (metis insertE empty_iff lexer_errors)
    show "length rest \<le> length s" if "lx = Inr (tok, rest)" for tok rest
      using that \<open>lx \<in> _\<close> by (metis insertE empty_iff lexer_length less_Suc_eq_le)
  qed
  have popped: "outcome_ok (bind_res (pop_top st) (\<lambda>(st', fn). json_update e s st' fn))"
    if "st \<noteq> []" "is_object_token (hd st) \<or> is_list_token (hd st)"
    using that st container_token [of "hd st"] container by (intro outcome_pop IH) auto
  have pushed: "outcome_ok (json_update e s (DocToken v # st) None)" if "v \<in> {ListToken [], ObjectToken []}" for v
    using that st by (intro IH) auto
  have colon: "outcome_ok (json_update e s (CharToken CHR '':'' # st) None)"
    if "st \<noteq> []" "is_scalar_token (hd st)"
    using that st by (intro IH) auto
  have stay: "outcome_ok (json_update e s st None)" if "st \<noteq> []"
    using that st by (intro IH) auto
  show ?thesis
    unfolding json_update.simps(2)
  proof (intro outcome_if)
    show "outcome_ok (Inl Undefined_behaviour)" if "c = CHR ''}''" "st = []" using first that by simp
    show "outcome_ok (Inl Undefined_behaviour)" if "c = CHR '']''" "st = []" using first that by simp
    show "outcome_ok (Inl Undefined_behaviour)" if "c = CHR '',''" "st = []" using first that by simp
  qed (use c in \<open>simp_all add: lexed popped pushed colon stay del: pop_top.simps\<close>)
qed

lemma update_started: "started st fn \<Longrightarrow> outcome_ok (json_update e s st fn)"
proof (induction "length s" arbitrary: s st fn rule: less_induct)
  case less
  show ?case
  proof (cases fn)
    case (Some t)
    with less.prems update_final show ?thesis by blast
  next
    case None
    with less.prems have st: "st \<noteq> []" "stack_ok st" by simp_all
    show ?thesis
    proof (cases s)
      case Nil
      with st None show ?thesis by simp
    next
      case (Cons c s')
      show ?thesis
      proof (cases "isspace c")
        case True
        with less Cons None show ?thesis by (simp add: json_update.simps(2))
      next
        case False
        with less.hyps Cons None st show ?thesis by (auto intro!: update_step_outcome)
      qed
    qed
  qed
qed

lemma update_skip_space: "json_update e s [] None = json_update e (dropWhile isspace s) [] None"
  by (induction s) (simp_all add: json_update.simps(2))

definition closing_first :: "string \<Rightarrow> bool" where
  "closing_first s = (case dropWhile isspace s of
       [] \<Rightarrow> False
     | c # _ \<Rightarrow> c = CHR '']'' \<or> c = CHR ''}'' \<or> c = CHR '','')"


section \<open>Reading integers\<close>

text \<open>The number an integer token denotes.\<close>

definition integer_value :: "string \<Rightarrow> int" where
  "integer_value tok =
     (if tok \<noteq> [] \<and> hd tok = CHR ''-'' then - int (dec_value (tl tok))
      else if tok \<noteq> [] \<and> hd tok = CHR ''+'' then int (dec_value (tl tok))
      else int (dec_value tok))"

lemma tok_convert_digits:
  assumes "ds \<noteq> []" "list_all isdigit ds" "sign_text sg" "sg = ''-'' \<Longrightarrow> sgned"
  shows "tok_convert sgned lo hi (sg @ ds) =
    (let v = integer_value (sg @ ds) in if lo \<le> v \<and> v \<le> hi then Inr v else Inl (Err InvalidArgument))"
proof -
  have hd: "hd ds \<noteq> CHR ''+''" "hd ds \<noteq> CHR ''-''"
    using assms(1,2) by (cases ds; auto simp: char_simps)+
  consider "sg = []" | "sg = ''+''" | "sg = ''-''" using assms(3) by (auto simp: sign_text_def)
  then show ?thesis
    using assms hd
    by cases (simp_all add: tok_convert_def from_chars_def integer_value_def Let_def takeWhile_all)
qed

text \<open>
  C34: Of an integer token the parser produced, \<open>get_signed_integer\<close> returns exactly the
  number the text denotes when it fits a signed 64-bit integer and InvalidArgument when it
  does not; \<open>get_unsigned_integer\<close> does the same for the unsigned range and refuses every
  text with a minus sign, minus zero included, with FailedPrecondition.
\<close>

theorem json_integer_getters:
  assumes "token_ok (Scalar INTEGER tok dec)"
  shows "tok_get_signed_integer (Scalar INTEGER tok dec) =
      (if int64_min \<le> integer_value tok \<and> integer_value tok \<le> int64_max
       then Inr (integer_value tok) else Inl (Err InvalidArgument)) \<and>
    tok_get_unsigned_integer (Scalar INTEGER tok dec) =
      (if hd tok = CHR ''-'' then Inl (Err FailedPrecondition)
       else if integer_value tok \<le> uint64_max then Inr (integer_value tok)
       else Inl (Err InvalidArgument))"
proof -
  from assms obtain sg ds where tok: "tok = sg @ ds" "sign_text sg" "ds \<noteq> []" "list_all isdigit ds"
    by (auto simp: integer_part_def)
  have "hd tok = CHR ''-'' \<longleftrightarrow> sg = ''-''"
    using tok by (cases ds) (auto simp: sign_text_def)
  moreover from this have "sg \<noteq> ''-'' \<Longrightarrow> 0 \<le> integer_value tok"
    using tok by (simp add: integer_value_def)
  ultimately show ?thesis
    using tok tok_convert_digits [of ds sg False 0 uint64_max]
      tok_convert_digits [of ds sg True int64_min int64_max]
    by (auto simp: Let_def)
qed

text \<open>The getters at the token of \<open>-0\<close>, which only the signed one reads.\<close>

lemma json_integer_getters_witness:
  "token_ok (Scalar INTEGER ''-0'' []) \<and>
   tok_get_signed_integer (Scalar INTEGER ''-0'' []) = Inr 0 \<and>
   tok_get_unsigned_integer (Scalar INTEGER ''-0'' []) = Inl (Err FailedPrecondition)"
proof -
  have "token_ok (Scalar INTEGER ''-0'' [])"
    unfolding token_ok.simps scalar_ok.simps
    by (rule exI [of _ "''-''"], rule exI [of _ "''0''"])
      (simp add: sign_text_def integer_part_def char_simps)
  moreover have "integer_value ''-0'' = 0"
    by (simp add: integer_value_def dec_value_def digit_value_def code_def)
  ultimately show ?thesis
    using json_integer_getters [of "''-0''" "[]"] by simp
qed

end
