(* ===== verification/Json_Roundtrip.thy ===== *)
theory Json_Roundtrip
  imports Json_Formatter Json_Parser
begin

text \<open>
  The formatter and the parser of \<open>src/lw/mime/json.cpp\<close> together: what the parser makes
  of the text the formatter writes. The values that survive are described by \<open>parseable\<close>;
  the token a value comes back as is \<open>token_of\<close>.
\<close>

section \<open>Strings\<close>

lemma escape_char_no_quote:
  "CHR 0x22 \<noteq> c \<Longrightarrow> CHR 0x22 \<notin> set (escape_char c)"
  by (auto simp: escape_char_def)

lemma escaped_no_quote: "CHR 0x22 \<notin> set s \<Longrightarrow> CHR 0x22 \<notin> set (concat (map escape_char s))"
proof (induction s)
  case (Cons c s)
  then show ?case using escape_char_no_quote [of c] by simp
qed simp

lemma scan_string_complete:
  "CHR 0x22 \<notin> set inner \<Longrightarrow> scan_string (inner @ CHR 0x22 # rest) = Some (inner, rest)"
  by (induction inner) auto

lemma decode_escaped_char: "r \<noteq> [] \<Longrightarrow> decode_loop (escape_char c @ r) = c # decode_loop r"
  by (cases r) (auto simp: escape_char_def unescape_def)

lemma decode_escaped:
  "decode_loop (concat (map escape_char s) @ [q]) = s"
  by (induction s) (simp_all add: decode_escaped_char)

lemma decode_quoted: "decode_string (quote_json s) = s"
  by (simp add: decode_string_def quote_json_def decode_escaped)

lemma escaped_inject:
  "concat (map escape_char s) = concat (map escape_char t) \<longleftrightarrow> s = t"
  by (metis decode_escaped)

lemma parse_string_quoted:
  "CHR 0x22 \<notin> set s \<Longrightarrow>
     parse_string (quote_json s @ rest) = Inr (Scalar STRING (quote_json s) s, rest)"
  using scan_string_complete [OF escaped_no_quote, of s rest] decode_quoted [of s]
  by (simp add: parse_string_def quote_json_def make_scalar_def)

section \<open>Numbers and keywords\<close>

text \<open>What may stand behind a value so that its last character ends it.\<close>

definition delimited :: "char \<Rightarrow> string \<Rightarrow> bool" where
  "delimited e rest = (let c = (if rest = [] then e else hd rest)
     in \<not> isalnum c \<and> c \<noteq> CHR ''_'' \<and> (rest \<noteq> [] \<longrightarrow> c \<noteq> CHR ''.''))"

lemma delimited_char [simp]:
  "delimited e (CHR '','' # r)" "delimited e (CHR '']'' # r)" "delimited e (CHR ''}'' # r)"
  by (simp_all add: delimited_def char_simps)

lemma delimited_stop: "delimited e rest \<Longrightarrow> rest = [] \<or> \<not> isdigit (hd rest) \<and> hd rest \<noteq> CHR ''.''"
  by (auto simp: delimited_def Let_def isalnum_def split: if_splits)

lemma scan_number_stop:
  "rest = [] \<or> \<not> isdigit (hd rest) \<and> hd rest \<noteq> CHR ''.'' \<Longrightarrow> scan_number rest ty = Inr ([], ty, rest)"
  by (cases rest) auto

lemma scan_number_digits:
  "list_all isdigit ds \<Longrightarrow>
     scan_number (ds @ s) ty = map_res (\<lambda>(tx, ty', rest). (ds @ tx, ty', rest)) (scan_number s ty)"
proof (induction ds)
  case Nil
  then show ?case by (cases "scan_number s ty") auto
next
  case (Cons c ds)
  then have "c \<noteq> CHR ''.''" by (auto simp: char_simps)
  with Cons show ?case by (cases "scan_number s ty") auto
qed

definition fraction :: "string \<Rightarrow> bool" where
  "fraction f \<longleftrightarrow> f = [] \<or> (\<exists>fs. f = CHR ''.'' # fs \<and> fs \<noteq> [] \<and> list_all isdigit fs)"

definition number_type :: "string \<Rightarrow> json_type" where
  "number_type t = (if CHR ''.'' \<in> set t then FLOAT else INTEGER)"

definition number_text :: "string \<Rightarrow> bool" where
  "number_text t \<longleftrightarrow> scalar_ok INTEGER t [] \<or> scalar_ok FLOAT t []"

lemma number_text_split:
  assumes "number_text t"
  obtains sg ds f where "t = sg @ ds @ f" "sign_text sg" "integer_part ds" "fraction f"
proof -
  from assms consider (int) sg ds where "t = sg @ ds" "sign_text sg" "integer_part ds"
    | (float) sg ds fs where "t = sg @ ds @ CHR ''.'' # fs" "sign_text sg" "integer_part ds"
        "fs \<noteq> []" "list_all isdigit fs"
    unfolding number_text_def scalar_ok.simps by blast
  then show ?thesis
  proof cases
    case int
    with that [of sg ds "[]"] show ?thesis by (simp add: fraction_def)
  next
    case float
    with that [of sg ds "CHR ''.'' # fs"] show ?thesis by (simp add: fraction_def)
  qed
qed

lemma scan_fraction:
  assumes "list_all isdigit ds" "fraction f" "delimited e rest"
  shows "scan_number (ds @ f @ rest) INTEGER =
    Inr (ds @ f, if f = [] then INTEGER else FLOAT, rest)"
  using assms scan_number_stop [OF delimited_stop, of e rest]
  by (auto simp: fraction_def scan_number_digits)

lemma last_fraction: "ds \<noteq> [] \<Longrightarrow> list_all isdigit ds \<Longrightarrow> fraction f \<Longrightarrow> last (ds @ f) \<noteq> CHR ''.''"
  by (auto simp: fraction_def list_all_iff last_append) (metis isdigit_point last_in_set)+

lemma number_type_split:
  assumes "sign_text sg" "list_all isdigit ds" "fraction f"
  shows "number_type (sg @ ds @ f) = (if f = [] then INTEGER else FLOAT)"
proof -
  have "CHR ''.'' \<notin> set ds" using assms(2) isdigit_point by (auto simp: list_all_iff)
  moreover have "CHR ''.'' \<notin> set sg" using assms(1) by (auto simp: sign_text_def)
  ultimately show ?thesis using assms(3) by (auto simp: number_type_def fraction_def)
qed

lemma finish_number_complete:
  assumes "sign_text sg" "lead @ ds \<noteq> []" "list_all isdigit (lead @ ds)" "fraction f" "delimited e rest"
  shows "finish_number (sg @ lead) (ds @ f @ rest) =
    Inr (Scalar (number_type (sg @ lead @ ds @ f)) (sg @ lead @ ds @ f) [], rest)"
proof -
  have "last (sg @ lead @ ds @ f) \<noteq> CHR ''.''"
    using last_fraction [of "lead @ ds" f] assms(2-4) by (subst last_appendR) auto
  moreover have "number_type (sg @ lead @ ds @ f) = (if f = [] then INTEGER else FLOAT)"
    using number_type_split [of sg "lead @ ds" f] assms by simp
  ultimately show ?thesis
    using scan_fraction [of ds f e rest] assms by (simp add: finish_number_def make_scalar_def)
qed

lemma number_sign_split_text:
  assumes "sign_text sg" "r \<noteq> []" "isdigit (hd r)"
  shows "number_sign (sg @ r) = sg"
  using assms by (cases r) (auto simp: number_sign_def sign_text_def char_simps)

lemma parse_number_complete:
  assumes "number_text t" "delimited e rest"
  shows "parse_number (t @ rest) = Inr (Scalar (number_type t) t [], rest)"
proof -
  from assms(1) obtain sg ds f where t: "t = sg @ ds @ f" "sign_text sg" "integer_part ds" "fraction f"
    by (rule number_text_split)
  then obtain d ds' where ds: "ds = d # ds'" "isdigit d" by (cases ds) (auto simp: integer_part_def)
  with t have sign: "number_sign (sg @ ds @ f @ rest) = sg"
    by (intro number_sign_split_text) auto
  show ?thesis
  proof (cases "d = CHR ''0''")
    case True
    with t(3) ds have ds': "ds = ''0''" by (simp add: integer_part_def)
    have "f @ rest = [] \<or> \<not> isdigit (hd (f @ rest))"
      using t(4) delimited_stop [OF assms(2)] by (auto simp: fraction_def)
    then show ?thesis
      using finish_number_complete [of sg "''0''" "[]" f e rest] t sign ds' assms(2)
      by (auto simp: parse_number_def Let_def char_simps)
  next
    case False
    then show ?thesis
      using finish_number_complete [of sg "[]" ds f e rest] t sign ds assms(2)
      by (simp add: parse_number_def Let_def integer_part_def)
  qed
qed

lemma parse_keyword_complete:
  assumes "delimited e rest"
  shows "parse_keyword e (''null'' @ rest) = Inr (Scalar NUL ''null'' [], rest)"
    "parse_keyword e (''true'' @ rest) = Inr (Scalar BOOLEAN ''true'' [], rest)"
    "parse_keyword e (''false'' @ rest) = Inr (Scalar BOOLEAN ''false'' [], rest)"
  using assms by (simp_all add: parse_keyword_def make_scalar_def delimited_def Let_def)

lemma int_to_string_number: "number_text (int_to_string i)" "CHR ''.'' \<notin> set (int_to_string i)"
proof -
  have nat: "integer_part (nat_to_string n)" for n
  proof -
    have "nat_to_string 0 = ''0''" by (simp add: nat_to_string.simps digit_char_def code_def flip: code_inject)
    with hd_nat_to_string_zero [of n] show ?thesis by (auto simp: integer_part_def)
  qed
  obtain sg where sg: "sign_text sg" "int_to_string i = sg @ nat_to_string (nat \<bar>i\<bar>)"
  proof (cases "i < 0")
    case True
    with that [of "''-''"] show ?thesis by (simp add: int_to_string_def sign_text_def)
  next
    case False
    with that [of "[]"] show ?thesis by (simp add: int_to_string_def sign_text_def)
  qed
  with nat show "number_text (int_to_string i)" by (auto simp: number_text_def)
  from sg number_type_split [of sg "nat_to_string (nat \<bar>i\<bar>)" "[]"]
  show "CHR ''.'' \<notin> set (int_to_string i)"
    by (auto simp: number_type_def fraction_def split: if_splits)
qed

section \<open>Tokens of written values\<close>

fun key_string :: "'d ser_value \<Rightarrow> string" where
  "key_string (String s) = s"
| "key_string (Character c) = [c]"
| "key_string _ = []"

text \<open>The name an entry is stored under: the escaped text, which the parser does not decode.\<close>

definition stored_key :: "string \<Rightarrow> string" where
  "stored_key s = concat (map escape_char s)"

fun token_of :: "('d \<Rightarrow> string) \<Rightarrow> 'd ser_value \<Rightarrow> token" where
  "token_of sd Null = Scalar NUL ''null'' []"
| "token_of sd (Boolean b) = Scalar BOOLEAN (if b then ''true'' else ''false'') []"
| "token_of sd (Character c) = Scalar STRING (quote_json [c]) [c]"
| "token_of sd (Signed n) = Scalar INTEGER (int_to_string n) []"
| "token_of sd (Unsigned n) = Scalar INTEGER (int_to_string n) []"
| "token_of sd (Floating d) = Scalar (number_type (sd d)) (sd d) []"
| "token_of sd (String s) = Scalar STRING (quote_json s) s"
| "token_of sd (List l) = ListToken (map (token_of sd) l)"
| "token_of sd (Object ps) = ObjectToken (map (\<lambda>(k, v). (stored_key (key_string k), token_of sd v)) ps)"

text \<open>
  The values whose text the parser reads back: no quotation mark inside a string, floating
  point numbers printed as plain decimals, objects with distinct string keys.
\<close>

fun parseable :: "('d \<Rightarrow> string) \<Rightarrow> 'd ser_value \<Rightarrow> bool" where
  "parseable sd (Floating d) = number_text (sd d)"
| "parseable sd (Character c) = (c \<noteq> CHR 0x22)"
| "parseable sd (String s) = (CHR 0x22 \<notin> set s)"
| "parseable sd (List l) = list_all (parseable sd) l"
| "parseable sd (Object ps) =
     (list_all (\<lambda>(k, v). string_like k \<and> CHR 0x22 \<notin> set (key_string k) \<and> parseable sd v) ps \<and>
      distinct (map (\<lambda>(k, v). key_string k) ps))"
| "parseable sd _ = True"

lemma stored_key_inject [simp]: "stored_key s = stored_key t \<longleftrightarrow> s = t"
  by (simp add: stored_key_def escaped_inject)

lemma json_text_key: "string_like k \<Longrightarrow> json_text sd k = quote_json (key_string k)"
  by (cases k) simp_all

lemma butlast_tl_quoted: "butlast (tl (quote_json s)) = stored_key s"
  by (simp add: quote_json_def stored_key_def)

section \<open>The loop on each kind of token\<close>

lemma update_open:
  "json_update e (CHR ''['' # s) st None = json_update e s (DocToken (ListToken []) # st) None"
  "json_update e (CHR ''{'' # s) st None = json_update e s (DocToken (ObjectToken []) # st) None"
  by (simp_all add: json_update.simps(2) char_simps)

lemma update_close:
  "json_update e (CHR '']'' # s) (DocToken (ListToken l) # st) None =
     bind_res (pop_top (DocToken (ListToken l) # st)) (\<lambda>(st', fn). json_update e s st' fn)"
  "json_update e (CHR ''}'' # s) (DocToken (ObjectToken m) # st) None =
     bind_res (pop_top (DocToken (ObjectToken m) # st)) (\<lambda>(st', fn). json_update e s st' fn)"
  by (simp_all add: json_update.simps(2) char_simps)

lemma update_comma:
  "json_update e (CHR '','' # s) (DocToken (ListToken l) # st) None =
     json_update e s (DocToken (ListToken l) # st) None"
  "json_update e (CHR '','' # s) (DocToken (ObjectToken m) # st) None =
     json_update e s (DocToken (ObjectToken m) # st) None"
  by (simp_all add: json_update.simps(2) char_simps)

lemma update_colon:
  "json_update e (CHR '':'' # s) (DocToken (Scalar ty tok dec) # st) None =
     json_update e s (CharToken CHR '':'' # DocToken (Scalar ty tok dec) # st) None"
  by (simp add: json_update.simps(2) char_simps)

text \<open>\<open>reads e t tok\<close>: at a value position the text \<open>t\<close> is read as \<open>tok\<close>, whatever the stack.\<close>

definition reads :: "char \<Rightarrow> string \<Rightarrow> token \<Rightarrow> bool" where
  "reads e t tok \<longleftrightarrow> (\<forall>rest st. delimited e rest \<longrightarrow>
     json_update e (t @ rest) st None =
       bind_res (pop_top (DocToken tok # st)) (\<lambda>(st', fn). json_update e rest st' fn))"

lemma update_string:
  "CHR 0x22 \<notin> set s \<Longrightarrow> json_update e (quote_json s @ rest) st None =
     bind_res (pop_top (DocToken (Scalar STRING (quote_json s) s) # st))
       (\<lambda>(st', fn). json_update e rest st' fn)"
  using parse_string_quoted [of s rest]
  by (simp add: quote_json_def json_update.simps(2) char_simps)

lemma reads_string: "CHR 0x22 \<notin> set s \<Longrightarrow> reads e (quote_json s) (Scalar STRING (quote_json s) s)"
  by (simp add: reads_def update_string)

lemma reads_keyword:
  "reads e ''null'' (Scalar NUL ''null'' [])"
  "reads e ''true'' (Scalar BOOLEAN ''true'' [])"
  "reads e ''false'' (Scalar BOOLEAN ''false'' [])"
  using parse_keyword_complete [of e]
  by (simp_all add: reads_def json_update.simps(2) char_simps)

lemma number_text_start:
  assumes "number_text t"
  obtains c r where "t = c # r" "number_start c"
  using assms
proof (rule number_text_split)
  fix sg ds f
  assume "t = sg @ ds @ f" "sign_text sg" "integer_part ds"
  then show ?thesis
    using that by (cases ds) (auto simp: sign_text_def integer_part_def number_start_def)
qed

lemma number_start_only:
  "number_start c \<Longrightarrow> \<not> isspace c \<and> c \<notin> {CHR ''{'', CHR ''}'', CHR ''['', CHR '']'', CHR '':'',
     CHR '','', CHR 0x22, CHR ''t'', CHR ''f'', CHR ''n''}"
  by (auto simp: number_start_def char_simps)

lemma reads_number:
  assumes "number_text t"
  shows "reads e t (Scalar (number_type t) t [])"
proof -
  from assms obtain c r where t: "t = c # r" "number_start c" by (rule number_text_start)
  then show ?thesis
    using parse_number_complete [OF assms, of e] number_start_only [of c]
    by (simp add: reads_def json_update.simps(2))
qed

lemma reads_list_elements:
  assumes "\<forall>v\<in>set l. reads e (json_text sd v) (token_of sd v)"
  shows "json_update e (comma_sep (map (json_text sd) l) @ CHR '']'' # rest)
      (DocToken (ListToken acc) # st) None =
    bind_res (pop_top (DocToken (ListToken (acc @ map (token_of sd) l)) # st))
      (\<lambda>(st', fn). json_update e rest st' fn)"
  using assms
proof (induction l arbitrary: acc)
  case Nil
  then show ?case by (simp add: update_close)
next
  case (Cons v l)
  have v: "delimited e r \<Longrightarrow> json_update e (json_text sd v @ r) (DocToken (ListToken acc) # st) None =
      json_update e r (DocToken (ListToken (acc @ [token_of sd v])) # st) None" for r
    using Cons.prems by (simp add: reads_def list_push_back_def)
  show ?case
  proof (cases l)
    case Nil
    then show ?thesis by (simp add: v update_close)
  next
    case (Cons w l')
    with Cons.IH [of "acc @ [token_of sd v]"] Cons.prems show ?thesis
      by (simp add: v update_comma del: pop_top.simps)
  qed
qed

lemma reads_object_entries:
  assumes "\<forall>(k, v)\<in>set ps. string_like k \<and> CHR 0x22 \<notin> set (key_string k) \<and>
      reads e (json_text sd v) (token_of sd v)"
    and "distinct (map fst acc @ map (\<lambda>(k, v). stored_key (key_string k)) ps)"
  shows "json_update e (comma_sep (map (\<lambda>p. json_text sd (fst p) @ '':'' @ json_text sd (snd p)) ps)
        @ CHR ''}'' # rest) (DocToken (ObjectToken acc) # st) None =
    bind_res (pop_top (DocToken (ObjectToken
        (acc @ map (\<lambda>(k, v). (stored_key (key_string k), token_of sd v)) ps)) # st))
      (\<lambda>(st', fn). json_update e rest st' fn)"
  using assms
proof (induction ps arbitrary: acc)
  case Nil
  then show ?case by (simp add: update_close)
next
  case (Cons p ps)
  obtain k v where p: "p = (k, v)" by (cases p)
  let ?entry = "(stored_key (key_string k), token_of sd v)"
  have "map_of acc (stored_key (key_string k)) = None"
    using Cons.prems(2) by (auto simp: p map_of_eq_None_iff)
  moreover have "CHR 0x22 \<notin> set (key_string k)" "string_like k"
      "reads e (json_text sd v) (token_of sd v)"
    using Cons.prems(1) p by simp_all
  ultimately have pair: "delimited e r \<Longrightarrow>
      json_update e (json_text sd k @ '':'' @ json_text sd v @ r) (DocToken (ObjectToken acc) # st) None =
      json_update e r (DocToken (ObjectToken (acc @ [?entry])) # st) None" for r
    by (simp add: json_text_key update_string update_colon reads_def pop_pair_def
        object_insert_def butlast_tl_quoted)
  show ?case
  proof (cases ps)
    case Nil
    with pair [of "CHR ''}'' # rest"] show ?thesis by (simp add: p update_close)
  next
    case (Cons q ps')
    have "distinct (map fst (acc @ [?entry]) @ map (\<lambda>(k, v). stored_key (key_string k)) ps)"
      using Cons.prems(2) by (simp add: p)
    with Cons Cons.IH [of "acc @ [?entry]"] Cons.prems(1) pair show ?thesis
      by (simp add: p update_comma del: pop_top.simps)
  qed
qed

lemma reads_text: "parseable sd v \<Longrightarrow> reads e (json_text sd v) (token_of sd v)"
proof (induction v)
  case (List l)
  then have "\<forall>v\<in>set l. reads e (json_text sd v) (token_of sd v)" by (auto simp: list_all_iff)
  from reads_list_elements [OF this, of _ "[]"] show ?case
    by (simp add: reads_def update_open del: pop_top.simps)
next
  case (Object ps)
  then have "\<forall>(k, v)\<in>set ps. string_like k \<and> CHR 0x22 \<notin> set (key_string k) \<and>
      reads e (json_text sd v) (token_of sd v)"
    by (fastforce simp: list_all_iff)
  moreover have "distinct (map stored_key (map (\<lambda>(k, v). key_string k) ps))"
    using Object.prems by (subst distinct_map) (simp add: inj_on_def)
  then have "distinct (map (\<lambda>(k, v). stored_key (key_string k)) ps)"
    by (simp add: comp_def case_prod_unfold)
  ultimately show ?case
    using reads_object_entries [of ps e sd "[]"] by (simp add: reads_def update_open del: pop_top.simps)
qed (use reads_keyword reads_string [of "[c]" for c] reads_string reads_number int_to_string_number in
    \<open>fastforce simp: number_type_def\<close>)+

lemma json_parse_text:
  assumes "parseable sd v" "delimited e []"
  shows "json_parse e (json_text sd v) = Inr (token_of sd v)"
  using reads_text [OF assms(1), of e] assms(2)
  by (auto simp: reads_def json_parse_def dest!: spec [of _ "[]"])

section \<open>The properties\<close>

lemma token_of_getters:
  "int64_min \<le> n \<Longrightarrow> n \<le> int64_max \<Longrightarrow> tok_get_signed_integer (token_of sd (Signed n)) = Inr n"
  "0 \<le> n \<Longrightarrow> n \<le> uint64_max \<Longrightarrow> tok_get_unsigned_integer (token_of sd (Unsigned n)) = Inr n"
  "tok_get_boolean (token_of sd (Boolean b)) = Inr b"
  "tok_get_string (token_of sd (String s)) = Inr s"
  "tok_get_char (token_of sd (Character c)) = Inr c"
  "i < length l \<Longrightarrow> tok_get_index (token_of sd (List l)) i = Inr (token_of sd (l ! i))"
  "distinct (map (\<lambda>(k, v). key_string k) ps) \<Longrightarrow> (k, v) \<in> set ps \<Longrightarrow>
     tok_get_key (token_of sd (Object ps)) (stored_key (key_string k)) = Inr (token_of sd v)"
proof -
  have digits: "hd (nat_to_string m) \<noteq> CHR ''+''" "hd (nat_to_string m) \<noteq> CHR ''-''" for m
    using hd_nat_to_string_digit [of m] by (auto simp: char_simps)
  show "tok_get_signed_integer (token_of sd (Signed n)) = Inr n" if "int64_min \<le> n" "n \<le> int64_max"
    using that from_chars_int [of "[]" int64_min n int64_max] digits
    by (simp add: tok_convert_def Let_def int_to_string_def split: if_splits)
  show "tok_get_unsigned_integer (token_of sd (Unsigned n)) = Inr n" if "0 \<le> n" "n \<le> uint64_max"
    using that from_chars_nat [of "[]" 0 "nat n" uint64_max False] digits
    by (simp add: tok_convert_def Let_def int_to_string_def)
  show "tok_get_key (token_of sd (Object ps)) (stored_key (key_string k)) = Inr (token_of sd v)"
    if "distinct (map (\<lambda>(k, v). key_string k) ps)" "(k, v) \<in> set ps"
  proof -
    have "distinct (map stored_key (map (\<lambda>(k, v). key_string k) ps))"
      using that(1) by (subst distinct_map) (simp add: inj_on_def)
    then have "distinct (map fst (map (\<lambda>(k, v). (stored_key (key_string k), token_of sd v)) ps))"
      by (simp add: comp_def case_prod_unfold)
    then have "map_of (map (\<lambda>(k, v). (stored_key (key_string k), token_of sd v)) ps)
        (stored_key (key_string k)) = Some (token_of sd v)"
      by (rule map_of_is_SomeI) (use that(2) in force)
    then show ?thesis by simp
  qed
qed simp_all

text \<open>
  C13: Serializing a value and parsing the text gives the value back. For every value that the
  formatter accepts (lists all the way down or objects all the way down) and that is parseable
  (no quotation mark inside a string, floating point numbers printed as plain decimals,
  distinct keys), the write succeeds and the parser returns the value's token. The byte behind
  the text must not continue a keyword; behind a \<open>std::string\<close> it is the terminating zero.
\<close>

theorem json_roundtrip:
  assumes "parseable sd v" "list_tree v \<or> object_tree v" "delimited e []"
  shows "\<exists>f. json_write sd v (json_formatter_new []) = Inr f \<and> json_parse e (outp f) = Inr (token_of sd v)"
  using write_top_level [OF assms(2), of sd "[]"] json_parse_text [OF assms(1,3)] by auto

definition sample_value :: "nat ser_value" where
  "sample_value = Object [(String ''a'', Signed (- 5)), (Character CHR ''b'',
     Object [(String ''c'', String ''x/y''), (String ''d'', Floating 12)])]"

lemma json_roundtrip_witness:
  "delimited CHR 0x00 [] \<and> parseable nat_to_string sample_value \<and> object_tree sample_value \<and>
   (\<exists>f. json_write nat_to_string sample_value (json_formatter_new []) = Inr f \<and>
        json_parse CHR 0x00 (outp f) = Inr (token_of nat_to_string sample_value))"
proof -
  have "delimited CHR 0x00 []" by (simp add: delimited_def char_simps)
  moreover have "number_text (nat_to_string 12)"
    using int_to_string_number(1) [of 12] by (simp add: int_to_string_def)
  then have "parseable nat_to_string sample_value" "object_tree sample_value"
    by (simp_all add: sample_value_def)
  ultimately show ?thesis using json_roundtrip [of nat_to_string sample_value "CHR 0x00"] by blast
qed

lemma update_final_reject:
  "\<exists>c\<in>set s. \<not> isspace c \<Longrightarrow> json_update e s [] (Some t) = Inl (Err InvalidArgument)"
  by (induction s) (auto simp: json_update.simps(2))

text \<open>
  The text of a string is read back exactly when the string has no quotation mark: the
  formatter writes it as backslash and quotation mark, and the parser's scan ends the string
  at that quotation mark and refuses what follows.
\<close>

theorem json_string_roundtrip:
  "json_parse e (quote_json s) =
     (if CHR 0x22 \<in> set s then Inl (Err InvalidArgument) else Inr (Scalar STRING (quote_json s) s))"
proof (cases "CHR 0x22 \<in> set s")
  case False
  then show ?thesis using update_string [of s e "[]" "[]"] by (simp add: json_parse_def)
next
  case True
  let ?body = "concat (map escape_char s)"
  have "CHR 0x22 \<in> set (escape_char CHR 0x22)" by (simp add: escape_char_def)
  with True have "CHR 0x22 \<in> set ?body" unfolding set_concat set_map by blast
  then obtain pre post where body: "?body = pre @ CHR 0x22 # post" "CHR 0x22 \<notin> set pre"
    using split_list_first by metis
  then have quoted: "quote_json s = CHR 0x22 # pre @ CHR 0x22 # post @ [CHR 0x22]"
    by (simp add: quote_json_def)
  have "json_update e (post @ [CHR 0x22]) [] (Some t) = Inl (Err InvalidArgument)" for t
    by (rule update_final_reject) (simp add: char_simps)
  then show ?thesis
    using True scan_string_complete [OF body(2), of "post @ [CHR 0x22]"]
    by (simp add: json_parse_def quoted json_update.simps(2) parse_string_def char_simps)
qed

end
