(* ===== verification/Ordered_Map.thy ===== *)
theory Ordered_Map
  imports Prelude
begin

text \<open>
  \<open>std::map<K, V, Compare>\<close> as the library uses it: the entries in key order, and the
  three operations on them (\<open>find\<close>/\<open>contains\<close>/\<open>at\<close>, \<open>insert\<close>, which keeps an
  existing entry, and \<open>operator[] =\<close>, which overwrites it). The comparator is an argument.

  The locale \<open>map_comparator\<close> states what \<open>std::map\<close> requires of its comparator, a
  strict weak order on the keys in use, and proves the laws of the map from it. It is
  interpreted on the library's own comparator in \<open>Headers\<close>.
\<close>

fun map_find :: "('k \<Rightarrow> 'k \<Rightarrow> bool) \<Rightarrow> 'k \<Rightarrow> ('k \<times> 'v) list \<Rightarrow> 'v option" where
  "map_find lt k [] = None"
| "map_find lt k ((k', v) # m) =
     (if lt k' k then map_find lt k m else if lt k k' then None else Some v)"

fun map_insert :: "('k \<Rightarrow> 'k \<Rightarrow> bool) \<Rightarrow> 'k \<Rightarrow> 'v \<Rightarrow> ('k \<times> 'v) list \<Rightarrow> ('k \<times> 'v) list" where
  "map_insert lt k v [] = [(k, v)]"
| "map_insert lt k v ((k', v') # m) =
     (if lt k' k then (k', v') # map_insert lt k v m
      else if lt k k' then (k, v) # (k', v') # m
      else (k', v') # m)"

fun map_assign :: "('k \<Rightarrow> 'k \<Rightarrow> bool) \<Rightarrow> 'k \<Rightarrow> 'v \<Rightarrow> ('k \<times> 'v) list \<Rightarrow> ('k \<times> 'v) list" where
  "map_assign lt k v [] = [(k, v)]"
| "map_assign lt k v ((k', v') # m) =
     (if lt k' k then (k', v') # map_assign lt k v m
      else if lt k k' then (k, v) # (k', v') # m
      else (k', v) # m)"

definition map_contains :: "('k \<Rightarrow> 'k \<Rightarrow> bool) \<Rightarrow> 'k \<Rightarrow> ('k \<times> 'v) list \<Rightarrow> bool" where
  "map_contains lt k m \<longleftrightarrow> map_find lt k m \<noteq> None"

definition map_at :: "('k \<Rightarrow> 'k \<Rightarrow> bool) \<Rightarrow> 'k \<Rightarrow> ('k \<times> 'v) list \<Rightarrow> 'v res" where
  "map_at lt k m = (case map_find lt k m of None \<Rightarrow> Inl Std_out_of_range | Some v \<Rightarrow> Inr v)"

definition map_ordered :: "('k \<Rightarrow> 'k \<Rightarrow> bool) \<Rightarrow> ('k \<Rightarrow> bool) \<Rightarrow> ('k \<times> 'v) list \<Rightarrow> bool" where
  "map_ordered lt ok m \<longleftrightarrow>
     sorted_wrt (\<lambda>x y. lt (fst x) (fst y)) m \<and> (\<forall>x \<in> set m. ok (fst x))"

definition same_key :: "('k \<Rightarrow> 'k \<Rightarrow> bool) \<Rightarrow> 'k \<Rightarrow> 'k \<Rightarrow> bool" where
  "same_key lt a b \<longleftrightarrow> \<not> lt a b \<and> \<not> lt b a"

lemma map_ordered_Nil [simp]: "map_ordered lt ok []"
  by (simp add: map_ordered_def)

lemma map_ordered_Cons:
  "map_ordered lt ok ((k, v) # m) \<longleftrightarrow>
     ok k \<and> (\<forall>x \<in> set m. lt k (fst x)) \<and> map_ordered lt ok m"
  by (auto simp: map_ordered_def)

lemma set_map_insert: "set (map_insert lt k v m) \<subseteq> insert (k, v) (set m)"
  by (induction m) (auto split: if_splits)

lemma keys_map_assign:
  "x \<in> set (map_assign lt k v m) \<Longrightarrow> fst x = k \<or> (\<exists>y \<in> set m. fst x = fst y)"
  by (induction m) (auto split: if_splits)

lemma map_insert_last: "\<forall>x\<in>set m. lt (fst x) k \<Longrightarrow> map_insert lt k v m = m @ [(k, v)]"
  by (induction m) auto

lemma insert_ordered:
  "sorted_wrt (\<lambda>x y. lt (fst x) (fst y)) (acc @ m) \<Longrightarrow> fold (\<lambda>(k, v). map_insert lt k v) m acc = acc @ m"
  by (induction m arbitrary: acc) (auto simp: map_insert_last sorted_wrt_append)

locale map_comparator =
  fixes lt :: "'k \<Rightarrow> 'k \<Rightarrow> bool"
    and ok :: "'k \<Rightarrow> bool"
  assumes lt_irrefl: "ok a \<Longrightarrow> \<not> lt a a"
    and lt_trans: "ok a \<Longrightarrow> ok b \<Longrightarrow> ok c \<Longrightarrow> lt a b \<Longrightarrow> lt b c \<Longrightarrow> lt a c"
    and same_trans:
      "ok a \<Longrightarrow> ok b \<Longrightarrow> ok c \<Longrightarrow> same_key lt a b \<Longrightarrow> same_key lt b c \<Longrightarrow> same_key lt a c"
begin

lemma same_refl: "ok a \<Longrightarrow> same_key lt a a"
  by (simp add: same_key_def lt_irrefl)

lemma same_sym: "same_key lt a b \<longleftrightarrow> same_key lt b a"
  by (auto simp: same_key_def)

lemma lt_asym: "ok a \<Longrightarrow> ok b \<Longrightarrow> lt a b \<Longrightarrow> \<not> lt b a"
  using lt_irrefl lt_trans by blast

lemma lt_same_left:
  "ok a \<Longrightarrow> ok b \<Longrightarrow> ok c \<Longrightarrow> same_key lt a b \<Longrightarrow> lt a c \<longleftrightarrow> lt b c"
  unfolding same_key_def by (metis lt_asym lt_trans same_key_def same_trans)

lemma lt_same_right:
  "ok a \<Longrightarrow> ok b \<Longrightarrow> ok c \<Longrightarrow> same_key lt a b \<Longrightarrow> lt c a \<longleftrightarrow> lt c b"
  unfolding same_key_def by (metis lt_asym lt_trans same_key_def same_trans)

text \<open>Equivalent keys name the same entry.\<close>

lemma find_same_key:
  "map_ordered lt ok m \<Longrightarrow> ok a \<Longrightarrow> ok b \<Longrightarrow> same_key lt a b \<Longrightarrow>
     map_find lt a m = map_find lt b m"
proof (induction m)
  case Nil
  then show ?case by simp
next
  case (Cons x m)
  obtain k v where x: "x = (k, v)" by (cases x)
  from Cons.prems x have "ok k" and "map_ordered lt ok m"
    by (simp_all add: map_ordered_Cons)
  with Cons.IH Cons.prems show ?case
    using lt_same_left [of a b k] lt_same_right [of a b k] by (simp add: x)
qed

lemma find_before: "ok k \<Longrightarrow> map_ordered lt ok m \<Longrightarrow> \<forall>x \<in> set m. lt k (fst x) \<Longrightarrow>
    map_find lt k m = None"
  by (cases m) (auto simp: map_ordered_Cons dest: lt_asym)

lemma invar_insert:
  "map_ordered lt ok m \<Longrightarrow> ok k \<Longrightarrow> map_ordered lt ok (map_insert lt k v m)"
proof (induction m)
  case Nil
  then show ?case by (simp add: map_ordered_def)
next
  case (Cons x m)
  obtain k' v' where x: "x = (k', v')" by (cases x)
  with Cons.prems have o: "ok k'" "\<forall>y \<in> set m. lt k' (fst y)" "map_ordered lt ok m"
    by (simp_all add: map_ordered_Cons)
  from o(3) have oks: "\<forall>y \<in> set m. ok (fst y)" by (simp add: map_ordered_def)
  show ?case
  proof (cases "lt k' k")
    case True
    with o Cons set_map_insert [of lt k v m] show ?thesis
      by (auto simp: x map_ordered_Cons)
  next
    case False
    have "\<forall>y \<in> set m. lt k (fst y)" if "lt k k'"
      using that o oks Cons.prems(2) lt_trans by blast
    with False o Cons.prems show ?thesis by (simp add: x map_ordered_Cons)
  qed
qed

lemma invar_assign:
  "map_ordered lt ok m \<Longrightarrow> ok k \<Longrightarrow> map_ordered lt ok (map_assign lt k v m)"
proof (induction m)
  case Nil
  then show ?case by (simp add: map_ordered_def)
next
  case (Cons x m)
  obtain k' v' where x: "x = (k', v')" by (cases x)
  with Cons.prems have o: "ok k'" "\<forall>y \<in> set m. lt k' (fst y)" "map_ordered lt ok m"
    by (simp_all add: map_ordered_Cons)
  from o(3) have oks: "\<forall>y \<in> set m. ok (fst y)" by (simp add: map_ordered_def)
  show ?case
  proof (cases "lt k' k")
    case True
    have "\<forall>y \<in> set (map_assign lt k v m). lt k' (fst y)"
      using True o(2) keys_map_assign [of _ lt k v m] by fastforce
    with True o Cons show ?thesis by (auto simp: x map_ordered_Cons)
  next
    case False
    have "\<forall>y \<in> set m. lt k (fst y)" if "lt k k'"
      using that o oks Cons.prems(2) lt_trans by blast
    with False o Cons.prems show ?thesis by (simp add: x map_ordered_Cons)
  qed
qed

lemma find_insert:
  "map_ordered lt ok m \<Longrightarrow> ok k \<Longrightarrow> ok q \<Longrightarrow>
     map_find lt q (map_insert lt k v m) =
       (if same_key lt q k \<and> map_find lt q m = None then Some v else map_find lt q m)"
proof (induction m)
  case Nil
  then show ?case by (auto simp: same_key_def)
next
  case (Cons x m)
  obtain k' v' where x: "x = (k', v')" by (cases x)
  with Cons.prems have o: "ok k'" "\<forall>y \<in> set m. lt k' (fst y)" "map_ordered lt ok m"
    by (simp_all add: map_ordered_Cons)
  note IH = Cons.IH [OF o(3) Cons.prems(2,3)]
  show ?case
  proof (cases "lt k' k")
    case True
    with IH Cons.prems(2,3) o(1) show ?thesis
      using lt_same_right [of q k k'] by (auto simp: x same_key_def)
  next
    case False
    show ?thesis
    proof (cases "lt k k'")
      case True
      with False Cons.prems(2,3) o(1) show ?thesis
        using lt_trans [of q k k'] lt_asym [of q k'] lt_same_left [of q k k']
        by (auto simp: x same_key_def)
    next
      case nless: False
      with False have "same_key lt k k'" by (simp add: same_key_def)
      with False nless Cons.prems(2,3) o(1) show ?thesis
        using lt_same_right [of k k' q] lt_same_left [of k k' q]
        by (auto simp: x same_key_def)
    qed
  qed
qed

lemma find_assign:
  "map_ordered lt ok m \<Longrightarrow> ok k \<Longrightarrow> ok q \<Longrightarrow>
     map_find lt q (map_assign lt k v m) =
       (if same_key lt q k then Some v else map_find lt q m)"
proof (induction m)
  case Nil
  then show ?case by (auto simp: same_key_def)
next
  case (Cons x m)
  obtain k' v' where x: "x = (k', v')" by (cases x)
  with Cons.prems have o: "ok k'" "\<forall>y \<in> set m. lt k' (fst y)" "map_ordered lt ok m"
    by (simp_all add: map_ordered_Cons)
  note IH = Cons.IH [OF o(3) Cons.prems(2,3)]
  show ?case
  proof (cases "lt k' k")
    case True
    with IH Cons.prems(2,3) o(1) show ?thesis
      using lt_same_right [of q k k'] by (auto simp: x same_key_def)
  next
    case False
    show ?thesis
    proof (cases "lt k k'")
      case True
      with False Cons.prems(2,3) o(1) show ?thesis
        using lt_trans [of q k k'] lt_asym [of q k'] lt_same_left [of q k k']
        by (auto simp: x same_key_def)
    next
      case nless: False
      with False have "same_key lt k k'" by (simp add: same_key_def)
      with False nless Cons.prems(2,3) o(1) show ?thesis
        using lt_same_right [of k k' q] lt_same_left [of k k' q]
        by (auto simp: x same_key_def)
    qed
  qed
qed

end

end
