(* ===== verification/Headers.thy ===== *)
theory Headers
  imports Ordered_Map "HOL-Library.List_Lexorder"
begin

text \<open>
  Case-insensitive strings (\<open>src/lw/base/strings.h\<close>) and the header maps built on them
  (\<open>src/lw/http/headers.h\<close>).

  The comparison's last line, \<open>return lhs.size() - rhs.size();\<close>, narrows a \<open>size_t\<close>
  difference to \<open>int\<close>; the model keeps the narrowing. For keys shorter than \<open>2^31\<close>
  characters (\<open>key_ok\<close>) the comparison is the lexicographic order of the upper-cased
  characters, and \<open>CaseInsensitiveLess\<close> is the strict weak order that \<open>std::map\<close> needs.
\<close>

section \<open>Case-insensitive hash, equality and order\<close>

type_synonym size_t = "64 word"

definition upper_value :: "char \<Rightarrow> int" where
  "upper_value c = schar (toupper c)"

text \<open>\<open>CaseInsensitiveHash::operator()\<close>: the loop over \<open>(hash, multiplier)\<close>, in \<open>size_t\<close>.\<close>

fun ci_hash_loop :: "string \<Rightarrow> size_t \<Rightarrow> size_t \<Rightarrow> size_t" where
  "ci_hash_loop [] multiplier hash = hash"
| "ci_hash_loop (c # str) multiplier hash =
     (let hash' = (hash + (of_int (upper_value c + 1) * multiplier)) mod (- 1)
      in ci_hash_loop str ((multiplier * 251) mod (- 1)) hash')"

definition ci_hash :: "string \<Rightarrow> size_t" where
  "ci_hash str = ci_hash_loop str 1 0"

text \<open>\<open>CaseInsensitiveEqual::operator()\<close>.\<close>

fun ci_equal_loop :: "string \<Rightarrow> string \<Rightarrow> bool" where
  "ci_equal_loop (a # lhs) (b # rhs) =
     (if upper_value a \<noteq> upper_value b then False else ci_equal_loop lhs rhs)"
| "ci_equal_loop _ _ = True"

definition ci_equal :: "string \<Rightarrow> string \<Rightarrow> bool" where
  "ci_equal lhs rhs = (if length lhs \<noteq> length rhs then False else ci_equal_loop lhs rhs)"

text \<open>\<open>CaseInsensitiveCompare::operator()\<close>: the first difference, if the loop finds one.\<close>

fun ci_compare_loop :: "string \<Rightarrow> string \<Rightarrow> int option" where
  "ci_compare_loop (a # lhs) (b # rhs) =
     (if upper_value a \<noteq> upper_value b then Some (upper_value a - upper_value b)
      else ci_compare_loop lhs rhs)"
| "ci_compare_loop _ _ = None"

definition size_difference :: "nat \<Rightarrow> nat \<Rightarrow> int" where
  "size_difference a b = sint (ucast (of_nat a - of_nat b :: size_t) :: 32 word)"

definition ci_compare :: "string \<Rightarrow> string \<Rightarrow> int" where
  "ci_compare lhs rhs =
     (if lhs = [] \<and> rhs = [] then 0
      else case ci_compare_loop lhs rhs of
        Some d \<Rightarrow> d
      | None \<Rightarrow> size_difference (length lhs) (length rhs))"

definition ci_less :: "string \<Rightarrow> string \<Rightarrow> bool" where
  "ci_less lhs rhs \<longleftrightarrow> ci_compare lhs rhs < 0"

subsection \<open>What they compute\<close>

definition fold_case :: "string \<Rightarrow> int list" where
  "fold_case s = map upper_value s"

definition key_ok :: "string \<Rightarrow> bool" where
  "key_ok s \<longleftrightarrow> length s < 2 ^ 31"

lemma upper_value_eq_iff: "upper_value a = upper_value b \<longleftrightarrow> toupper a = toupper b"
  by (simp add: upper_value_def)

lemma ci_equal_loop_iff:
  "length a = length b \<Longrightarrow> ci_equal_loop a b \<longleftrightarrow> fold_case a = fold_case b"
  by (induction a b rule: ci_equal_loop.induct) (auto simp: fold_case_def)

lemma ci_equal_iff: "ci_equal a b \<longleftrightarrow> fold_case a = fold_case b"
proof (cases "length a = length b")
  case True
  then show ?thesis by (simp add: ci_equal_def ci_equal_loop_iff)
next
  case False
  then have "fold_case a \<noteq> fold_case b"
    unfolding fold_case_def using map_eq_imp_length_eq by blast
  with False show ?thesis by (simp add: ci_equal_def)
qed

lemma ci_hash_loop_cong:
  "fold_case a = fold_case b \<Longrightarrow> ci_hash_loop a m h = ci_hash_loop b m h"
proof (induction a arbitrary: b m h)
  case Nil
  then show ?case by (simp add: fold_case_def)
next
  case (Cons x a)
  then obtain y b' where b: "b = y # b'" "upper_value x = upper_value y" "fold_case a = fold_case b'"
    by (cases b) (auto simp: fold_case_def)
  show ?case
    by (simp only: b ci_hash_loop.simps Let_def) (rule Cons.IH [OF b(3)])
qed

lemma size_difference_exact:
  assumes "a < 2 ^ 31" "b < 2 ^ 31"
  shows "size_difference a b = int a - int b"
proof -
  have "(of_nat a - of_nat b :: size_t) = word_of_int (int a - int b)"
    by simp
  moreover have "(ucast (word_of_int i :: size_t) :: 32 word) = word_of_int i" for i
    by (rule bit_word_eqI) (auto simp: bit_simps)
  ultimately have "size_difference a b = signed_take_bit 31 (int a - int b)"
    by (simp only: size_difference_def sint_sbintrunc') simp
  also have "\<dots> = int a - int b"
    using assms by (intro signed_take_bit_int_eq_self) auto
  finally show ?thesis .
qed

lemma ci_compare_loop_order:
  "(case ci_compare_loop a b of Some d \<Rightarrow> d < 0 | None \<Rightarrow> length a < length b)
     \<longleftrightarrow> fold_case a < fold_case b"
proof (induction a arbitrary: b)
  case Nil
  then show ?case by (cases b) (auto simp: fold_case_def)
next
  case (Cons x a)
  show ?case
  proof (cases b)
    case (Cons y b')
    with Cons.IH [of b'] show ?thesis
      by (cases "ci_compare_loop a b'") (auto simp: fold_case_def)
  qed (simp add: fold_case_def)
qed

lemma ci_less_order:
  assumes "key_ok a" "key_ok b"
  shows "ci_less a b \<longleftrightarrow> fold_case a < fold_case b"
  using assms ci_compare_loop_order [of a b]
  by (auto simp: ci_less_def ci_compare_def key_ok_def size_difference_exact split: option.splits)

lemma same_key_fold_case:
  "key_ok a \<Longrightarrow> key_ok b \<Longrightarrow> same_key ci_less a b \<longleftrightarrow> fold_case a = fold_case b"
  by (auto simp: same_key_def ci_less_order)

section \<open>Header maps\<close>

text \<open>
  \<open>http::HeadersView\<close> and \<open>http::Headers\<close>: \<open>std::map\<close> with \<open>CaseInsensitiveLess\<close>.
  Both own the same abstract contents; the view type does not copy the characters.
\<close>

type_synonym headers = "(string \<times> string) list"

definition headers_find :: "string \<Rightarrow> headers \<Rightarrow> string option" where
  "headers_find k h = map_find ci_less k h"

definition headers_insert :: "string \<Rightarrow> string \<Rightarrow> headers \<Rightarrow> headers" where
  "headers_insert k v h = map_insert ci_less k v h"

definition headers_assign :: "string \<Rightarrow> string \<Rightarrow> headers \<Rightarrow> headers" where
  "headers_assign k v h = map_assign ci_less k v h"

definition headers_ok :: "headers \<Rightarrow> bool" where
  "headers_ok h = map_ordered ci_less key_ok h"

interpretation hdr: map_comparator ci_less key_ok
proof unfold_locales
  fix a b c
  assume ok: "key_ok a" "key_ok b" "key_ok c"
  show "\<not> ci_less a a" using ok by (simp add: ci_less_order)
  show "ci_less a b \<Longrightarrow> ci_less b c \<Longrightarrow> ci_less a c" using ok by (simp add: ci_less_order)
  show "same_key ci_less a b \<Longrightarrow> same_key ci_less b c \<Longrightarrow> same_key ci_less a c"
    using ok by (simp add: same_key_fold_case)
qed

lemma headers_ok_Nil [simp]: "headers_ok []"
  by (simp add: headers_ok_def)

lemma headers_ok_insert [simp]: "headers_ok h \<Longrightarrow> key_ok k \<Longrightarrow> headers_ok (headers_insert k v h)"
  by (simp add: headers_ok_def headers_insert_def hdr.invar_insert)

lemma headers_ok_assign [simp]: "headers_ok h \<Longrightarrow> key_ok k \<Longrightarrow> headers_ok (headers_assign k v h)"
  by (simp add: headers_ok_def headers_assign_def hdr.invar_assign)

lemma headers_find_insert:
  "headers_ok h \<Longrightarrow> key_ok k \<Longrightarrow> key_ok q \<Longrightarrow>
     headers_find q (headers_insert k v h) =
       (if ci_equal q k \<and> headers_find q h = None then Some v else headers_find q h)"
  by (simp add: headers_ok_def headers_find_def headers_insert_def hdr.find_insert
      same_key_fold_case ci_equal_iff)

lemma headers_find_assign:
  "headers_ok h \<Longrightarrow> key_ok k \<Longrightarrow> key_ok q \<Longrightarrow>
     headers_find q (headers_assign k v h) = (if ci_equal q k then Some v else headers_find q h)"
  by (simp add: headers_ok_def headers_find_def headers_assign_def hdr.find_assign
      same_key_fold_case ci_equal_iff)

lemma headers_find_ci_equal:
  "headers_ok h \<Longrightarrow> key_ok a \<Longrightarrow> key_ok b \<Longrightarrow> ci_equal a b \<Longrightarrow> headers_find a h = headers_find b h"
  unfolding headers_ok_def headers_find_def ci_equal_iff
  by (rule hdr.find_same_key) (simp_all add: same_key_fold_case)

lemma headers_find_Nil [simp]: "headers_find k [] = None"
  by (simp add: headers_find_def)

section \<open>Properties\<close>

text \<open>
  the hash and the equality agree: strings that \<open>CaseInsensitiveEqual\<close> identifies have
  the same \<open>CaseInsensitiveHash\<close>, which is what an unordered container needs of the pair.
\<close>

theorem ci_hash_consistent:
  assumes "ci_equal a b"
  shows "ci_hash a = ci_hash b"
  unfolding ci_hash_def using assms by (intro ci_hash_loop_cong) (simp add: ci_equal_iff)

lemma ci_hash_consistent_witness:
  "ci_equal ''Host'' ''hOST'' \<and> ci_hash ''Host'' = ci_hash ''hOST''"
proof -
  have "ci_equal ''Host'' ''hOST''"
    by (simp add: ci_equal_def upper_value_def schar_def toupper_def islower_def code_def)
  with ci_hash_consistent show ?thesis by blast
qed

text \<open>
  A header map finds values by name without regard to case. For keys of fewer than 2^31
  characters, looking up \<open>q\<close> after an assignment to \<open>k\<close> gives the new value when \<open>q\<close> and
  \<open>k\<close> are equal up to case and the old answer otherwise; an insertion changes the answer only
  if the name was absent; both keep the map's entries strictly ordered.
\<close>

theorem headers_lookup_update:
  assumes "headers_ok h" "key_ok k" "key_ok q"
  shows "headers_find q (headers_assign k v h) = (if ci_equal q k then Some v else headers_find q h) \<and>
    headers_find q (headers_insert k v h) =
      (if ci_equal q k \<and> headers_find q h = None then Some v else headers_find q h) \<and>
    headers_ok (headers_assign k v h) \<and> headers_ok (headers_insert k v h)"
  using assms headers_find_assign headers_find_insert by simp

lemma headers_lookup_update_witness:
  "headers_ok [(''Accept'', ''text'')] \<and>
   headers_find ''HOST'' (headers_insert ''Host'' ''a'' [(''Accept'', ''text'')]) = Some ''a'' \<and>
   headers_find ''accept'' (headers_insert ''Host'' ''a'' [(''Accept'', ''text'')]) = Some ''text''"
proof -
  have ok: "headers_ok [(''Accept'', ''text'')]" "key_ok ''Host''" "key_ok ''HOST''" "key_ok ''accept''"
    by (simp_all add: headers_ok_def key_ok_def map_ordered_def)
  have eq: "ci_equal ''HOST'' ''Host''" "\<not> ci_equal ''accept'' ''Host''"
    by (simp_all add: ci_equal_def upper_value_def schar_def toupper_def islower_def code_def)
  have find: "headers_find ''HOST'' [(''Accept'', ''text'')] = None"
    "headers_find ''accept'' [(''Accept'', ''text'')] = Some ''text''"
    by (simp_all add: headers_find_def size_difference_exact ci_less_def ci_compare_def upper_value_def
        schar_def toupper_def islower_def code_def same_key_def)
  show ?thesis
    using headers_lookup_update [OF ok(1,2,3), of "''a''"] headers_lookup_update [OF ok(1,2,4), of "''a''"]
      ok eq find by simp
qed

end
