(* ===== verification/Mount_Path.thy ===== *)
theory Mount_Path
  imports Headers
begin

text \<open>
  Route patterns (\<open>src/lw/http/internal/http_mount_path.cpp\<close>, \<open>.h\<close>): the path matchers, the
  parser that splits an endpoint such as \<open>/foo/:[int]bar/:baz.json\<close> into matchers, and
  \<open>MountPath::match\<close>, which runs the matchers over the parts of a URL path.

  A matcher holds the strings its views show. \<open>std::regex\<close> is a parameter: whether a pattern
  compiles, how many groups it marks, and what it matches. Pointers into the endpoint or the
  path are positions, a null pointer is \<open>None\<close>; making a view from a null pointer is
  undefined behaviour. The validators look at the first character of the part without a
  bounds check; parts are never empty where they are called (\<open>mount_match\<close> skips empty
  parts, and the trie's parts have at least one character).
\<close>

section \<open>Matchers\<close>

record regex_lib =
  rx_valid :: "string \<Rightarrow> bool"
  rx_mark_count :: "string \<Rightarrow> nat"
  rx_match :: "string \<Rightarrow> string \<Rightarrow> string option"

datatype validator = Int_validator | Uint_validator

datatype path_matcher =
    LiteralPathMatcher (chunk: string)
  | ParameterPathMatcher (chunk: string) (pm_name: string) (pm_extension: string)
  | ValidatedParameterPathMatcher (chunk: string) (pm_name: string) (pm_extension: string)
      (pm_validator: validator)
  | RegexPathMatcher (rx_index: nat) (chunk: string)

definition SEP :: char where
  "SEP = CHR ''/''"

fun is_literal :: "path_matcher \<Rightarrow> bool" where
  "is_literal (LiteralPathMatcher _) = True"
| "is_literal _ = False"

fun matcher_name :: "path_matcher \<Rightarrow> string" where
  "matcher_name (LiteralPathMatcher ch) = ch"
| "matcher_name (ParameterPathMatcher _ n _) = n"
| "matcher_name (ValidatedParameterPathMatcher _ n _ _) = n"
| "matcher_name (RegexPathMatcher i _) = nat_to_string i"

definition literal_match :: "string \<Rightarrow> string \<Rightarrow> string option" where
  "literal_match ch url_part = (if ci_equal ch url_part then Some url_part else None)"

definition parameter_match :: "string \<Rightarrow> string \<Rightarrow> string option" where
  "parameter_match extension url_part =
     (if extension = [] then Some url_part
      else if length url_part \<le> length extension then None
      else let k = length url_part - length extension
           in if \<not> ci_equal extension (drop k url_part) then None else Some (take k url_part))"

definition uint_validator :: "string \<Rightarrow> bool" where
  "uint_validator url_part = list_all isdigit url_part"

definition int_validator :: "string \<Rightarrow> bool" where
  "int_validator url_part =
     uint_validator (if url_part \<noteq> [] \<and> hd url_part = CHR ''-'' then tl url_part else url_part)"

fun run_validator :: "validator \<Rightarrow> string \<Rightarrow> bool" where
  "run_validator Int_validator p = int_validator p"
| "run_validator Uint_validator p = uint_validator p"

definition validator_for :: "string \<Rightarrow> validator res" where
  "validator_for type =
     (if type = ''int'' then Inr Int_validator
      else if type = ''uint'' then Inr Uint_validator
      else Inl (Err InvalidArgument))"

definition validated_match :: "string \<Rightarrow> validator \<Rightarrow> string \<Rightarrow> string option" where
  "validated_match extension v url_part = (case parameter_match extension url_part of
       None \<Rightarrow> None
     | Some sub_part \<Rightarrow> (if run_validator v sub_part then Some sub_part else None))"

text \<open>A pattern starts behind the prefix \<open>:[re]\<close>; a match answers the first group if there is one.\<close>

definition regex_matcher_match :: "regex_lib \<Rightarrow> string \<Rightarrow> string \<Rightarrow> string option" where
  "regex_matcher_match rx ch url_part = (case rx_match rx (drop 5 ch) url_part of
       None \<Rightarrow> None
     | Some group1 \<Rightarrow> (if rx_mark_count rx (drop 5 ch) = 0 then Some url_part else Some group1))"

fun matcher_match :: "regex_lib \<Rightarrow> path_matcher \<Rightarrow> string \<Rightarrow> string option" where
  "matcher_match rx (LiteralPathMatcher ch) p = literal_match ch p"
| "matcher_match rx (ParameterPathMatcher _ _ ext) p = parameter_match ext p"
| "matcher_match rx (ValidatedParameterPathMatcher _ _ ext v) p = validated_match ext v p"
| "matcher_match rx (RegexPathMatcher _ ch) p = regex_matcher_match rx ch p"

section \<open>The endpoint parser\<close>

datatype parse_tag =
    START | LITERAL | PARAMETER_START | PARAMETER_TYPE | PARAMETER_NAME
  | PARAMETER_EXTENSION | PARAMETER_END | REGEX

record parse_state =
  ps_tag :: parse_tag
  ps_name :: string
  ps_extension :: string
  ps_type :: string
  ps_chunk_start :: nat
  ps_name_start :: "nat option"
  ps_extension_start :: nat
  ps_type_start :: nat
  ps_escaping :: bool
  ps_unnamed_counter :: nat
  ps_matchers :: "path_matcher list"

definition parse_state_init :: parse_state where
  "parse_state_init = \<lparr>ps_tag = START, ps_name = [], ps_extension = [], ps_type = [],
     ps_chunk_start = 0, ps_name_start = None, ps_extension_start = 0, ps_type_start = 0,
     ps_escaping = False, ps_unnamed_counter = 0, ps_matchers = []\<rparr>"

definition push_matcher :: "path_matcher \<Rightarrow> parse_state \<Rightarrow> parse_state" where
  "push_matcher m st = st\<lparr>ps_matchers := ps_matchers st @ [m]\<rparr>"

text \<open>
  The end of a parameter at position \<open>e\<close>, as the case PARAMETER_END and the code behind the
  loop have it. \<open>type\<close> is whatever the last bracketed type was: nothing resets it.
\<close>

definition end_parameter :: "string \<Rightarrow> nat \<Rightarrow> parse_state \<Rightarrow> parse_state res" where
  "end_parameter ep e st =
     (let ch = slice ep (ps_chunk_start st) e;
          st1 = st\<lparr>ps_name_start := None\<rparr>
      in if ps_type st = [] then
           Inr (push_matcher (ParameterPathMatcher ch (ps_name st) (ps_extension st)) st1)
         else map_res (\<lambda>v. push_matcher
             (ValidatedParameterPathMatcher ch (ps_name st) (ps_extension st) v) st1)
           (validator_for (ps_type st)))"

definition on_start :: "string \<Rightarrow> nat \<Rightarrow> char \<Rightarrow> parse_state \<Rightarrow> parse_state res" where
  "on_start ep i c st =
     (if i = length ep \<or> c = SEP then Inr st
      else Inr (st\<lparr>ps_chunk_start := i,
                   ps_tag := (if c = CHR '':'' then PARAMETER_START else LITERAL)\<rparr>))"

definition on_literal :: "string \<Rightarrow> nat \<Rightarrow> char \<Rightarrow> parse_state \<Rightarrow> parse_state res" where
  "on_literal ep i c st =
     (if i = length ep \<or> c = SEP then
        Inr ((push_matcher (LiteralPathMatcher (slice ep (ps_chunk_start st) i)) st)\<lparr>ps_tag := START\<rparr>)
      else Inr st)"

definition on_parameter_start :: "string \<Rightarrow> nat \<Rightarrow> char \<Rightarrow> parse_state \<Rightarrow> parse_state res" where
  "on_parameter_start ep i c st =
     (if i = length ep then Inl (Err InvalidArgument)
      else if c = CHR ''['' then Inr (st\<lparr>ps_type_start := i + 1, ps_tag := PARAMETER_TYPE\<rparr>)
      else if \<not> isalnum c then Inl (Err InvalidArgument)
      else Inr (st\<lparr>ps_name_start := Some i, ps_tag := PARAMETER_NAME\<rparr>))"

definition on_parameter_type :: "string \<Rightarrow> nat \<Rightarrow> char \<Rightarrow> parse_state \<Rightarrow> parse_state res" where
  "on_parameter_type ep i c st =
     (if i = length ep then Inl (Err InvalidArgument)
      else if c = CHR '']'' then
        (let type = slice ep (ps_type_start st) i;
             st1 = st\<lparr>ps_type := type\<rparr>
         in if type = [] then Inl (Err InvalidArgument)
            else if type = ''re'' then
              Inr (st1\<lparr>ps_unnamed_counter := ps_unnamed_counter st + 1, ps_tag := REGEX\<rparr>)
            else Inr (st1\<lparr>ps_tag := PARAMETER_NAME\<rparr>))
      else Inr st)"

definition on_parameter_name :: "string \<Rightarrow> nat \<Rightarrow> char \<Rightarrow> parse_state \<Rightarrow> parse_state res" where
  "on_parameter_name ep i c st =
     (let b = (case ps_name_start st of None \<Rightarrow> i | Some b \<Rightarrow> b);
          st1 = st\<lparr>ps_name_start := Some b\<rparr>
      in if i = length ep \<or> c = CHR ''.'' \<or> c = SEP then
           (let name = slice ep b i;
                st2 = st1\<lparr>ps_name := name\<rparr>
            in if name = [] then Inl (Err InvalidArgument)
               else if c = CHR ''.'' then
                 Inr (st2\<lparr>ps_extension_start := i, ps_tag := PARAMETER_EXTENSION\<rparr>)
               else Inr (st2\<lparr>ps_extension := [], ps_tag := PARAMETER_END\<rparr>))
         else if \<not> isalnum c then Inl (Err InvalidArgument)
         else Inr st1)"

definition on_parameter_extension :: "string \<Rightarrow> nat \<Rightarrow> char \<Rightarrow> parse_state \<Rightarrow> parse_state res" where
  "on_parameter_extension ep i c st =
     (if i = length ep \<or> c = SEP then
        (let extension = slice ep (ps_extension_start st) i
         in if length extension = 1 then Inl (Err InvalidArgument)
            else Inr (st\<lparr>ps_extension := extension, ps_tag := PARAMETER_END\<rparr>))
      else if c \<noteq> CHR ''.'' \<and> \<not> isalnum c then Inl (Err InvalidArgument)
      else Inr st)"

definition on_regex :: "regex_lib \<Rightarrow> string \<Rightarrow> nat \<Rightarrow> char \<Rightarrow> parse_state \<Rightarrow> parse_state res" where
  "on_regex rx ep i c st =
     (if ps_escaping st then Inr (st\<lparr>ps_escaping := False\<rparr>)
      else if c = CHR 0x5C then Inr (st\<lparr>ps_escaping := True\<rparr>)
      else if i = length ep \<or> c = SEP then
        (let ch = slice ep (ps_chunk_start st) i
         in bind_res (check (rx_valid rx (drop 5 ch)) Std_regex_error) (\<lambda>_.
              Inr ((push_matcher (RegexPathMatcher (ps_unnamed_counter st) ch) st)\<lparr>ps_tag := START\<rparr>)))
      else Inr st)"

definition parse_step :: "regex_lib \<Rightarrow> string \<Rightarrow> nat \<Rightarrow> parse_state \<Rightarrow> parse_state res" where
  "parse_step rx ep i st =
     (let c = (if i < length ep then ep ! i else CHR 0x00)
      in case ps_tag st of
           PARAMETER_END \<Rightarrow> bind_res (end_parameter ep (i - 1) st)
             (\<lambda>st1. on_start ep i c (st1\<lparr>ps_tag := START\<rparr>))
         | START \<Rightarrow> on_start ep i c st
         | LITERAL \<Rightarrow> on_literal ep i c st
         | PARAMETER_START \<Rightarrow> on_parameter_start ep i c st
         | PARAMETER_TYPE \<Rightarrow> on_parameter_type ep i c st
         | PARAMETER_NAME \<Rightarrow> on_parameter_name ep i c st
         | PARAMETER_EXTENSION \<Rightarrow> on_parameter_extension ep i c st
         | REGEX \<Rightarrow> on_regex rx ep i c st)"

fun parse_loop :: "regex_lib \<Rightarrow> string \<Rightarrow> nat list \<Rightarrow> parse_state \<Rightarrow> parse_state res" where
  "parse_loop rx ep [] st = Inr st"
| "parse_loop rx ep (i # is) st = bind_res (parse_step rx ep i st) (parse_loop rx ep is)"

definition parse_into_matchers :: "regex_lib \<Rightarrow> string \<Rightarrow> path_matcher list res" where
  "parse_into_matchers rx ep =
     bind_res (parse_loop rx ep [0 ..< length ep + 1] parse_state_init) (\<lambda>st.
     bind_res (if ps_tag st = PARAMETER_END then end_parameter ep (length ep) st else Inr st) (\<lambda>st'.
       Inr (ps_matchers st')))"

text \<open>\<open>MountPath\<close> is its matchers; \<open>MountPath::parse_endpoint\<close>.\<close>

type_synonym mount_path = "path_matcher list"

definition parse_endpoint :: "regex_lib \<Rightarrow> string \<Rightarrow> mount_path res" where
  "parse_endpoint rx endpoint = parse_into_matchers rx endpoint"

section \<open>Matching a URL path\<close>

text \<open>
  \<open>MountPath::match\<close>: the loop over \<open>i\<close> with \<open>part_start\<close>, the remaining matchers and the
  parameters so far. It ends in front of \<open>i\<close> when the path or the matchers are used up.
\<close>

function mount_loop ::
    "regex_lib \<Rightarrow> string \<Rightarrow> nat \<Rightarrow> nat option \<Rightarrow> path_matcher list \<Rightarrow> headers \<Rightarrow> headers option res" where
  "mount_loop rx url i part_start ms params =
     (if i \<le> length url \<and> ms \<noteq> [] then
        if i \<noteq> length url \<and> url ! i \<noteq> SEP then
          mount_loop rx url (i + 1) (case part_start of None \<Rightarrow> Some i | Some b \<Rightarrow> Some b) ms params
        else (case part_start of
            None \<Rightarrow> Inl Undefined_behaviour
          | Some b \<Rightarrow>
              (let url_part = slice url b i
               in if url_part = [] then mount_loop rx url (i + 1) None ms params
                  else (case matcher_match rx (hd ms) url_part of
                      None \<Rightarrow> Inr None
                    | Some v \<Rightarrow> mount_loop rx url (i + 1) None (tl ms)
                        (if is_literal (hd ms) then params
                         else headers_assign (matcher_name (hd ms)) v params))))
      else if i < length url \<or> ms \<noteq> [] then Inr None
      else Inr (Some params))"
  by pat_completeness auto
termination
  by (relation "measure (\<lambda>(rx, url, i, ps, ms, params). length url + 1 - i)") auto

definition mount_match :: "regex_lib \<Rightarrow> mount_path \<Rightarrow> string \<Rightarrow> headers option res" where
  "mount_match rx ms url = mount_loop rx url 0 (Some 0) ms []"

declare mount_loop.simps [simp del]

section \<open>The matchers the parser makes\<close>

definition name_ok :: "string \<Rightarrow> bool" where
  "name_ok n \<longleftrightarrow> n \<noteq> [] \<and> list_all isalnum n"

definition extension_ok :: "string \<Rightarrow> bool" where
  "extension_ok e \<longleftrightarrow> e = [] \<or>
     length e > 1 \<and> hd e = CHR ''.'' \<and> list_all (\<lambda>c. c = CHR ''.'' \<or> isalnum c) e"

fun matcher_ok :: "regex_lib \<Rightarrow> path_matcher \<Rightarrow> bool" where
  "matcher_ok rx (LiteralPathMatcher ch) \<longleftrightarrow> ch \<noteq> [] \<and> SEP \<notin> set ch \<and> hd ch \<noteq> CHR '':''"
| "matcher_ok rx (ParameterPathMatcher ch n e) \<longleftrightarrow> name_ok n \<and> extension_ok e"
| "matcher_ok rx (ValidatedParameterPathMatcher ch n e v) \<longleftrightarrow> name_ok n \<and> extension_ok e"
| "matcher_ok rx (RegexPathMatcher i ch) \<longleftrightarrow>
     0 < i \<and> starts_with ch '':[re]'' \<and> rx_valid rx (drop 5 ch)"

text \<open>What the parser knows in front of position \<open>i\<close>, state by state.\<close>

definition parse_inv :: "regex_lib \<Rightarrow> string \<Rightarrow> nat \<Rightarrow> parse_state \<Rightarrow> bool" where
  "parse_inv rx ep i st \<longleftrightarrow> list_all (matcher_ok rx) (ps_matchers st) \<and>
     (ps_tag st \<in> {START, LITERAL, PARAMETER_START, PARAMETER_TYPE, REGEX} \<longrightarrow> ps_name_start st = None) \<and>
     (case ps_tag st of
        START \<Rightarrow> True
      | LITERAL \<Rightarrow> ps_chunk_start st < i \<and> SEP \<notin> set (slice ep (ps_chunk_start st) i) \<and>
          ps_chunk_start st < length ep \<and> ep ! ps_chunk_start st \<noteq> CHR '':''
      | PARAMETER_START \<Rightarrow> ps_chunk_start st + 1 = i \<and> ep ! ps_chunk_start st = CHR '':''
      | PARAMETER_TYPE \<Rightarrow> ps_chunk_start st + 2 = ps_type_start st \<and> ps_type_start st \<le> i \<and>
          ep ! ps_chunk_start st = CHR '':'' \<and> ep ! (ps_chunk_start st + 1) = CHR ''[''
      | PARAMETER_NAME \<Rightarrow> (case ps_name_start st of None \<Rightarrow> True
          | Some b \<Rightarrow> b < i \<and> list_all isalnum (slice ep b i))
      | PARAMETER_EXTENSION \<Rightarrow> name_ok (ps_name st) \<and> ps_extension_start st < i \<and>
          ps_extension_start st < length ep \<and> ep ! ps_extension_start st = CHR ''.'' \<and>
          list_all (\<lambda>c. c = CHR ''.'' \<or> isalnum c) (slice ep (ps_extension_start st) i)
      | PARAMETER_END \<Rightarrow> name_ok (ps_name st) \<and> extension_ok (ps_extension st)
      | REGEX \<Rightarrow> 0 < ps_unnamed_counter st \<and> ps_chunk_start st + 5 \<le> i \<and>
          slice ep (ps_chunk_start st) (ps_chunk_start st + 5) = '':[re]'')"

definition parse_refused :: "fault \<Rightarrow> bool" where
  "parse_refused f \<longleftrightarrow> f = Err InvalidArgument \<or> f = Std_regex_error"

definition step_ok :: "regex_lib \<Rightarrow> string \<Rightarrow> nat \<Rightarrow> parse_state res \<Rightarrow> bool" where
  "step_ok rx ep i r = (case r of Inl f \<Rightarrow> parse_refused f | Inr st \<Rightarrow> parse_inv rx ep i st)"

lemma step_ok_simps [simp]:
  "step_ok rx ep i (Inr st) = parse_inv rx ep i st"
  "step_ok rx ep i (Inl f) = parse_refused f"
  by (simp_all add: step_ok_def)

lemma refused_invalid [simp]: "parse_refused (Err InvalidArgument)" "parse_refused Std_regex_error"
  by (simp_all add: parse_refused_def)

lemma push_matcher_simps [simp]:
  "ps_tag (push_matcher m st) = ps_tag st" "ps_type (push_matcher m st) = ps_type st"
  "ps_name_start (push_matcher m st) = ps_name_start st"
  "ps_escaping (push_matcher m st) = ps_escaping st"
  "ps_matchers (push_matcher m st) = ps_matchers st @ [m]"
  by (simp_all add: push_matcher_def)

lemma step_on_start:
  assumes "parse_inv rx ep k st" "ps_tag st = START" "i \<le> length ep"
  shows "step_ok rx ep (Suc i) (on_start ep i (if i < length ep then ep ! i else CHR 0x00) st)"
  using assms by (auto simp: on_start_def parse_inv_def slice_Suc)

lemma step_on_literal:
  assumes "parse_inv rx ep i st" "ps_tag st = LITERAL" "i \<le> length ep"
  shows "step_ok rx ep (Suc i) (on_literal ep i (if i < length ep then ep ! i else CHR 0x00) st)"
proof -
  have "slice ep (ps_chunk_start st) i \<noteq> []" "hd (slice ep (ps_chunk_start st) i) \<noteq> CHR '':''"
    using assms slice_first [of "ps_chunk_start st" i ep]
    by (simp_all add: parse_inv_def slice_eq_Nil_iff)
  with assms show ?thesis by (auto simp: on_literal_def parse_inv_def slice_Suc)
qed

lemma step_on_parameter_start:
  assumes "parse_inv rx ep i st" "ps_tag st = PARAMETER_START" "i \<le> length ep"
  shows "step_ok rx ep (Suc i) (on_parameter_start ep i (if i < length ep then ep ! i else CHR 0x00) st)"
  using assms by (auto simp: on_parameter_start_def parse_inv_def slice_Suc)

lemma slice_re:
  assumes "slice ep (b + 2) i = ''re''" "ep ! b = CHR '':''" "ep ! (b + 1) = CHR ''[''"
    "ep ! i = CHR '']''" "b + 2 \<le> i" "i < length ep"
  shows "i = b + 4" "slice ep b (b + 5) = '':[re]''"
proof -
  have "length (slice ep (b + 2) i) = 2" using assms(1) by simp
  then show i: "i = b + 4" using assms(5,6) by simp
  have "slice ep b (b + 5) = slice ep b (b + 4) @ [ep ! (b + 4)]"
    using slice_Suc [of b "b + 4" ep] assms(6) i by (simp add: add.commute)
  also have "slice ep b (b + 4) = ep ! b # ep ! (b + 1) # slice ep (b + 2) (b + 4)"
    using slice_first [of b "b + 4" ep] slice_first [of "b + 1" "b + 4" ep] assms(6) i by simp
  finally show "slice ep b (b + 5) = '':[re]''" using assms i by simp
qed

lemma step_on_parameter_type:
  assumes inv: "parse_inv rx ep i st" and tag: "ps_tag st = PARAMETER_TYPE" and i: "i \<le> length ep"
  shows "step_ok rx ep (Suc i) (on_parameter_type ep i (if i < length ep then ep ! i else CHR 0x00) st)"
proof -
  let ?b = "ps_chunk_start st"
  have b: "ps_type_start st = ?b + 2" "?b + 2 \<le> i" "ep ! ?b = CHR '':''" "ep ! (?b + 1) = CHR ''[''"
    using inv tag by (simp_all add: parse_inv_def)
  have "ep ! i = CHR '']'' \<Longrightarrow> i < length ep \<Longrightarrow> slice ep (?b + 2) i = ''re'' \<Longrightarrow>
      i = ?b + 4 \<and> slice ep ?b (?b + 5) = '':[re]''"
    using slice_re [of ep ?b i] b by simp
  then show ?thesis
    using inv tag i b by (auto simp: on_parameter_type_def parse_inv_def Let_def)
qed

lemma step_on_parameter_name:
  assumes "parse_inv rx ep i st" "ps_tag st = PARAMETER_NAME" "i \<le> length ep"
  shows "step_ok rx ep (Suc i) (on_parameter_name ep i (if i < length ep then ep ! i else CHR 0x00) st)"
  using assms
  by (auto simp: on_parameter_name_def parse_inv_def slice_Suc Let_def name_ok_def extension_ok_def SEP_def
      split: option.splits)

lemma step_on_parameter_extension:
  assumes "parse_inv rx ep i st" "ps_tag st = PARAMETER_EXTENSION" "i \<le> length ep"
  shows "step_ok rx ep (Suc i) (on_parameter_extension ep i (if i < length ep then ep ! i else CHR 0x00) st)"
proof -
  have "slice ep (ps_extension_start st) i = CHR ''.'' # slice ep (Suc (ps_extension_start st)) i"
    using assms slice_first [of "ps_extension_start st" i ep] by (simp add: parse_inv_def)
  then show ?thesis
    using assms
    by (auto simp: on_parameter_extension_def parse_inv_def slice_Suc Let_def extension_ok_def)
qed

lemma starts_with_slice:
  assumes "slice ep b (b + 5) = '':[re]''" "b + 5 \<le> i"
  shows "starts_with (slice ep b i) '':[re]''"
proof -
  have "take 5 (slice ep b i) = slice ep b (b + 5)"
    using assms(2) by (simp add: slice_def min_def)
  then have "slice ep b i = '':[re]'' @ drop 5 (slice ep b i)"
    using append_take_drop_id [of 5 "slice ep b i"] assms(1) by simp
  then show ?thesis unfolding starts_with_iff by blast
qed

lemma step_on_regex:
  assumes "parse_inv rx ep i st" "ps_tag st = REGEX" "i \<le> length ep"
  shows "step_ok rx ep (Suc i) (on_regex rx ep i (if i < length ep then ep ! i else CHR 0x00) st)"
  using assms starts_with_slice [of ep "ps_chunk_start st" i]
  by (auto simp: on_regex_def parse_inv_def Let_def check_def)

lemma end_parameter_inv:
  assumes "parse_inv rx ep i st" "ps_tag st = PARAMETER_END"
  shows "case end_parameter ep e st of
      Inl f \<Rightarrow> parse_refused f | Inr st' \<Rightarrow> parse_inv rx ep i (st'\<lparr>ps_tag := START\<rparr>)"
  using assms by (auto simp: end_parameter_def parse_inv_def Let_def validator_for_def)

lemma parse_step_ok:
  assumes inv: "parse_inv rx ep i st" and i: "i \<le> length ep"
  shows "step_ok rx ep (Suc i) (parse_step rx ep i st)"
proof (cases "ps_tag st")
  case PARAMETER_END
  from end_parameter_inv [OF inv this, of "i - 1"] show ?thesis
    using PARAMETER_END step_on_start [OF _ _ i]
    by (cases "end_parameter ep (i - 1) st") (auto simp: parse_step_def Let_def)
qed (use inv i step_on_start step_on_literal step_on_parameter_start step_on_parameter_type
    step_on_parameter_name step_on_parameter_extension step_on_regex in
    \<open>simp_all add: parse_step_def Let_def\<close>)

lemma parse_loop_ok:
  "parse_inv rx ep i st \<Longrightarrow> i \<le> Suc (length ep) \<Longrightarrow>
     step_ok rx ep (Suc (length ep)) (parse_loop rx ep [i ..< Suc (length ep)] st)"
proof (induction "Suc (length ep) - i" arbitrary: i st)
  case 0
  then show ?case by simp
next
  case (Suc n)
  then have i: "i \<le> length ep" by simp
  then have range: "[i ..< Suc (length ep)] = i # [Suc i ..< Suc (length ep)]"
    by (intro upt_conv_Cons) simp
  have IH: "parse_inv rx ep (Suc i) st' \<Longrightarrow>
      step_ok rx ep (Suc (length ep)) (parse_loop rx ep [Suc i ..< Suc (length ep)] st')" for st'
    using Suc.hyps i by simp
  show ?case
    using parse_step_ok [OF Suc.prems(1) i] IH unfolding range
    by (cases "parse_step rx ep i st") simp_all
qed

text \<open>
  The endpoint parser answers every string, either with InvalidArgument (or the regex
  library's error for a pattern that does not compile) or with well-formed matchers: literal
  chunks are not empty and have no separator and no leading colon, parameter names are not
  empty and alphanumeric, extensions are absent or a point and more, and regex matchers carry
  the \<open>:[re]\<close> prefix, a positive number as their name, and a pattern that compiles.
\<close>

theorem parse_endpoint_ok:
  "case parse_endpoint rx ep of
     Inr ms \<Rightarrow> list_all (matcher_ok rx) ms
   | Inl f \<Rightarrow> f = Err InvalidArgument \<or> f = Std_regex_error"
proof -
  have "parse_inv rx ep 0 parse_state_init"
    by (simp add: parse_inv_def parse_state_init_def)
  from parse_loop_ok [OF this] have loop:
    "step_ok rx ep (Suc (length ep)) (parse_loop rx ep [0 ..< Suc (length ep)] parse_state_init)"
    by simp
  show ?thesis
  proof (cases "parse_loop rx ep [0 ..< Suc (length ep)] parse_state_init")
    case (Inl f)
    with loop show ?thesis by (simp add: parse_endpoint_def parse_into_matchers_def parse_refused_def)
  next
    case (Inr st)
    with loop have inv: "parse_inv rx ep (Suc (length ep)) st" by simp
    show ?thesis
      using end_parameter_inv [OF inv, of "length ep"] inv Inr
      by (cases "end_parameter ep (length ep) st")
        (auto simp: parse_endpoint_def parse_into_matchers_def parse_refused_def parse_inv_def)
  qed
qed

section \<open>Matching part by part\<close>

text \<open>A path as its parts, and the reference: one matcher per part, all of them used up.\<close>

definition url_of :: "string list \<Rightarrow> string" where
  "url_of qs = concat (map (\<lambda>q. SEP # q) qs)"

definition part_ok :: "string \<Rightarrow> bool" where
  "part_ok q \<longleftrightarrow> q \<noteq> [] \<and> SEP \<notin> set q"

fun match_parts :: "regex_lib \<Rightarrow> path_matcher list \<Rightarrow> string list \<Rightarrow> headers \<Rightarrow> headers option" where
  "match_parts rx [] [] params = Some params"
| "match_parts rx [] (q # qs) params = None"
| "match_parts rx (m # ms) [] params = None"
| "match_parts rx (m # ms) (q # qs) params =
     (case matcher_match rx m q of
        None \<Rightarrow> None
      | Some v \<Rightarrow> match_parts rx ms qs
          (if is_literal m then params else headers_assign (matcher_name m) v params))"

lemma url_of_simps [simp]: "url_of [] = []" "url_of (q # qs) = SEP # q @ url_of qs"
  by (simp_all add: url_of_def)

lemma mount_loop_scan:
  assumes "ms \<noteq> []" "i \<le> j" "j \<le> length url" "\<forall>k. i \<le> k \<and> k < j \<longrightarrow> url ! k \<noteq> SEP"
  shows "mount_loop rx url i (Some b) ms params = mount_loop rx url j (Some b) ms params"
  using assms
proof (induction "j - i" arbitrary: i)
  case (Suc n)
  then have "mount_loop rx url (Suc i) (Some b) ms params = mount_loop rx url j (Some b) ms params"
    by simp
  moreover have "i < length url" "url ! i \<noteq> SEP" using Suc by auto
  ultimately show ?case using Suc.prems(1) by (simp add: mount_loop.simps [of rx url i])
qed simp

lemma part_position:
  assumes "url = pre @ q @ rest" "part_ok q"
  shows "\<forall>k. length pre \<le> k \<and> k < length pre + length q \<longrightarrow> url ! k \<noteq> SEP"
    "slice url (length pre) (length pre + length q) = q"
    "rest \<noteq> [] \<Longrightarrow> url ! (length pre + length q) = hd rest"
  using assms by (auto simp: part_ok_def nth_append slice_append_exact hd_conv_nth
      simp flip: nth_mem) (metis add.commute less_diff_conv2 linorder_not_le nth_mem)

lemma mount_loop_end_of_part:
  assumes "i \<le> length url" "i = length url \<or> url ! i = SEP" "slice url b i = q" "q \<noteq> []"
  shows "mount_loop rx url i (Some b) (m # ms) params =
    (case matcher_match rx m q of
       None \<Rightarrow> Inr None
     | Some v \<Rightarrow> mount_loop rx url (i + 1) None ms
         (if is_literal m then params else headers_assign (matcher_name m) v params))"
  using assms by (subst mount_loop.simps) (auto simp: Let_def split: option.splits)

lemma mount_loop_part:
  assumes url: "url = pre @ q @ rest" and q: "part_ok q" and rest: "rest = [] \<or> hd rest = SEP"
  shows "mount_loop rx url (length pre) None (m # ms) params =
    (case matcher_match rx m q of
       None \<Rightarrow> Inr None
     | Some v \<Rightarrow> mount_loop rx url (length pre + length q + 1) None ms
         (if is_literal m then params else headers_assign (matcher_name m) v params))"
proof -
  let ?b = "length pre" and ?j = "length pre + length q"
  note pos = part_position [OF url q]
  have q': "q \<noteq> []" using q by (simp add: part_ok_def)
  have "?b < length url" "url ! ?b \<noteq> SEP"
    using url q' pos(1) by auto
  then have "mount_loop rx url ?b None (m # ms) params = mount_loop rx url (Suc ?b) (Some ?b) (m # ms) params"
    by (simp add: mount_loop.simps [of rx url ?b])
  also have "\<dots> = mount_loop rx url ?j (Some ?b) (m # ms) params"
    using pos(1) q' url by (intro mount_loop_scan) (auto simp: Suc_le_eq)
  also have "\<dots> = (case matcher_match rx m q of
       None \<Rightarrow> Inr None
     | Some v \<Rightarrow> mount_loop rx url (?j + 1) None ms
         (if is_literal m then params else headers_assign (matcher_name m) v params))"
  proof (rule mount_loop_end_of_part)
    show "?j = length url \<or> url ! ?j = SEP"
      using rest pos(3) url by (cases "rest = []") simp_all
  qed (use url q' pos(2) in simp_all)
  finally show ?thesis .
qed

lemma mount_loop_parts:
  assumes "url = pre @ q @ url_of qs" "part_ok q" "list_all part_ok qs"
  shows "mount_loop rx url (length pre) None ms params = Inr (match_parts rx ms (q # qs) params)"
  using assms
proof (induction qs arbitrary: pre q ms params)
  case Nil
  show ?case
  proof (cases ms)
    case Nil
    with Nil.prems show ?thesis by (simp add: mount_loop.simps part_ok_def)
  next
    case (Cons m ms')
    have "mount_loop rx url (length pre + length q + 1) None ms' p = Inr (if ms' = [] then Some p else None)" for p
      using Nil.prems by (simp add: mount_loop.simps)
    moreover have "match_parts rx ms' [] p = (if ms' = [] then Some p else None)" for p
      by (cases ms') simp_all
    ultimately show ?thesis
      using Cons mount_loop_part [of url pre q "[]" rx m ms' params] Nil.prems
      by (auto split: option.splits)
  qed
next
  case (Cons q' qs)
  show ?case
  proof (cases ms)
    case Nil
    with Cons.prems show ?thesis by (simp add: mount_loop.simps part_ok_def)
  next
    case ms: (Cons m ms')
    have "mount_loop rx url (length (pre @ q @ [SEP])) None ms' p = Inr (match_parts rx ms' (q' # qs) p)" for p
      using Cons.prems by (intro Cons.IH) simp_all
    then show ?thesis
      using ms mount_loop_part [of url pre q "SEP # q' @ url_of qs" rx m ms' params] Cons.prems
      by (auto split: option.splits)
  qed
qed

lemma mount_match_reference:
  assumes "list_all part_ok qs"
  shows "mount_match rx ms (url_of qs) = Inr (match_parts rx ms qs [])"
proof (cases qs)
  case Nil
  then show ?thesis by (cases ms) (simp_all add: mount_match_def mount_loop.simps)
next
  case (Cons q qs')
  show ?thesis
  proof (cases "ms = []")
    case True
    with Cons show ?thesis by (simp add: mount_match_def mount_loop.simps)
  next
    case False
    then have "mount_loop rx (url_of qs) 0 (Some 0) ms [] = mount_loop rx (url_of qs) (length [SEP]) None ms []"
      using Cons by (simp add: mount_loop.simps [of rx "SEP # q @ url_of qs'" 0])
    then show ?thesis
      using mount_loop_parts [of "url_of qs" "[SEP]" q qs' rx ms "[]"] Cons assms
      by (simp add: mount_match_def)
  qed
qed

text \<open>
  C35: For every mount path and every URL path made of non-empty parts,
  \<open>MountPath::match\<close> is the part-by-part reference: it accepts exactly when there are as many
  parts as matchers and each matcher accepts its part, and it returns the values of the
  matchers that are not literals under their names. It does not touch a null pointer there.
\<close>

theorem mount_match_parts:
  assumes "list_all part_ok qs"
  shows "mount_match rx ms (url_of qs) = Inr (match_parts rx ms qs [])"
  using assms by (rule mount_match_reference)

definition no_regex :: regex_lib where
  "no_regex = \<lparr>rx_valid = (\<lambda>p. False), rx_mark_count = (\<lambda>p. 0), rx_match = (\<lambda>p s. None)\<rparr>"

lemma mount_match_parts_witness:
  "list_all part_ok [''foo'', ''42''] \<and>
   mount_match no_regex
     [LiteralPathMatcher ''Foo'', ValidatedParameterPathMatcher '':[int]n'' ''n'' [] Int_validator]
     (url_of [''foo'', ''42'']) = Inr (Some [(''n'', ''42'')])"
proof -
  have "list_all part_ok [''foo'', ''42'']" by (simp add: part_ok_def SEP_def)
  moreover have "ci_equal ''Foo'' ''foo''"
    by (simp add: ci_equal_def upper_value_def schar_def toupper_def islower_def code_def)
  then have "match_parts no_regex
     [LiteralPathMatcher ''Foo'', ValidatedParameterPathMatcher '':[int]n'' ''n'' [] Int_validator]
     [''foo'', ''42''] [] = Some [(''n'', ''42'')]"
    by (simp add: literal_match_def validated_match_def parameter_match_def int_validator_def
        uint_validator_def char_simps headers_assign_def)
  ultimately show ?thesis using mount_match_parts [of "[''foo'', ''42'']" no_regex] by metis
qed

text \<open>
  A trailing separator while matchers remain makes the loop build a view from the null
  pointer: for any proper prefix of a matching path.
\<close>

lemma mount_loop_trailing:
  assumes "url = pre @ q @ url_of qs @ [SEP]" "part_ok q" "list_all part_ok qs"
    and "length qs + 1 < length ms"
    and "match_parts rx (take (length qs + 1) ms) (q # qs) params = Some params'"
  shows "mount_loop rx url (length pre) None ms params = Inl Undefined_behaviour"
  using assms
proof (induction qs arbitrary: pre q ms params)
  case Nil
  then obtain m m' ms' where ms: "ms = m # m' # ms'"
    by (cases ms; cases "tl ms") auto
  have "mount_loop rx url (length pre + length q + 1) None (m' # ms') p = Inl Undefined_behaviour" for p
    using Nil.prems(1) by (simp add: mount_loop.simps)
  then show ?case
    using ms mount_loop_part [of url pre q "[SEP]" rx m "m' # ms'" params] Nil.prems
    by (auto split: option.splits)
next
  case (Cons q' qs)
  then obtain m ms' where ms: "ms = m # ms'" by (cases ms) auto
  obtain v where v: "matcher_match rx m q = Some v"
    using Cons.prems ms by (auto split: option.splits)
  let ?p = "if is_literal m then params else headers_assign (matcher_name m) v params"
  have "mount_loop rx url (length (pre @ q @ [SEP])) None ms' ?p = Inl Undefined_behaviour"
    using Cons.prems ms v by (intro Cons.IH) simp_all
  then show ?case
    using ms v mount_loop_part [of url pre q "SEP # q' @ url_of qs @ [SEP]" rx m ms' params] Cons.prems
    by simp
qed

text \<open>
  \<open>MountPath::match\<close> reaches undefined behaviour on a path that ends with a separator
  when its parts match the first matchers and matchers remain: it makes a string view that
  begins at the null pointer.
\<close>

theorem mount_match_trailing_separator:
  assumes "list_all part_ok qs" "length qs < length ms"
    and "match_parts rx (take (length qs) ms) qs [] = Some params'"
  shows "mount_match rx ms (url_of qs @ [SEP]) = Inl Undefined_behaviour"
proof (cases qs)
  case Nil
  with assms show ?thesis
    by (auto simp: mount_match_def mount_loop.simps [of rx "[SEP]" 0] mount_loop.simps [of rx "[SEP]" "Suc 0"])
next
  case (Cons q qs')
  have "ms \<noteq> []" using assms(2) by auto
  then have "mount_loop rx (url_of qs @ [SEP]) 0 (Some 0) ms [] =
      mount_loop rx (url_of qs @ [SEP]) (length [SEP]) None ms []"
    using Cons by (simp add: mount_loop.simps [of rx "SEP # q @ url_of qs' @ [SEP]" 0])
  then show ?thesis
    using mount_loop_trailing [of "url_of qs @ [SEP]" "[SEP]" q qs' ms rx "[]" params'] Cons assms
    by (simp add: mount_match_def)
qed

lemma mount_match_trailing_separator_witness:
  "mount_match no_regex [ParameterPathMatcher '':a'' ''a'' [], ParameterPathMatcher '':b'' ''b'' []]
     (url_of [''x''] @ [SEP]) = Inl Undefined_behaviour"
  by (rule mount_match_trailing_separator [of _ _ _ "[(''a'', ''x'')]"])
    (simp_all add: part_ok_def SEP_def parameter_match_def headers_assign_def)

end
