(* ===== verification/Mount_Roundtrip.thy ===== *)
theory Mount_Roundtrip
  imports Mount_Path
begin

text \<open>
  Printing and parsing of route patterns: the parser of \<open>http_mount_path.cpp\<close> reads a route
  written from matchers back into these matchers. The condition \<open>route_from\<close> says which
  matcher lists are read back; it threads the parser's \<open>type\<close> variable, which is set by a
  bracketed type and never reset, so that a parameter without a type inherits the validator
  of the last typed one.
\<close>

definition route_of :: "path_matcher list \<Rightarrow> string" where
  "route_of ms = concat (map (\<lambda>m. SEP # chunk m) ms)"

lemma route_of_simps [simp]: "route_of [] = []" "route_of (m # ms) = SEP # chunk m @ route_of ms"
  by (simp_all add: route_of_def)

fun type_name :: "validator \<Rightarrow> string" where
  "type_name Int_validator = ''int''"
| "type_name Uint_validator = ''uint''"

definition parameter_chunk :: "string \<Rightarrow> string \<Rightarrow> string \<Rightarrow> string" where
  "parameter_chunk ty n e = CHR '':'' # (if ty = [] then [] else ''['' @ ty @ '']'') @ n @ e"

fun route_from :: "string \<Rightarrow> path_matcher list \<Rightarrow> bool" where
  "route_from ty [] = True"
| "route_from ty (LiteralPathMatcher ch # ms) =
     (ch \<noteq> [] \<and> SEP \<notin> set ch \<and> hd ch \<noteq> CHR '':'' \<and> route_from ty ms)"
| "route_from ty (ParameterPathMatcher ch n e # ms) =
     (ty = [] \<and> ch = parameter_chunk [] n e \<and> name_ok n \<and> extension_ok e \<and> route_from ty ms)"
| "route_from ty (ValidatedParameterPathMatcher ch n e v # ms) =
     ((ch = parameter_chunk (type_name v) n e \<or> ty = type_name v \<and> ch = parameter_chunk [] n e) \<and>
      name_ok n \<and> extension_ok e \<and> route_from (type_name v) ms)"
| "route_from ty (RegexPathMatcher i ch # ms) = False"

section \<open>Runs of the parser\<close>

lemma parse_loop_append:
  "parse_loop rx ep (is @ js) st = bind_res (parse_loop rx ep is st) (parse_loop rx ep js)"
proof (induction "is" arbitrary: st)
  case (Cons i "is")
  then show ?case by (cases "parse_step rx ep i st") simp_all
qed simp

lemma parse_loop_stay:
  "(\<And>i. i \<in> set is \<Longrightarrow> parse_step rx ep i st = Inr st) \<Longrightarrow> parse_loop rx ep is st = Inr st"
  by (induction "is") simp_all

lemma parse_loop_range:
  assumes "i \<le> j" "j \<le> k" "parse_loop rx ep [i ..< j] st = Inr st1"
  shows "parse_loop rx ep [i ..< k] st = parse_loop rx ep [j ..< k] st1"
proof -
  have "[i ..< k] = [i ..< j] @ [j ..< k]" using assms(1,2) by (metis le_Suc_ex upt_add_eq_append)
  then show ?thesis using assms(3) by (simp add: parse_loop_append)
qed

lemma parse_loop_first:
  "i < k \<Longrightarrow> parse_step rx ep i st = Inr st1 \<Longrightarrow>
     parse_loop rx ep [i ..< k] st = parse_loop rx ep [Suc i ..< k] st1"
  by (simp add: upt_conv_Cons)

text \<open>
  The end of a segment at position \<open>e\<close>: the parser is in state START, or in state
  PARAMETER_END and makes the parameter's matcher in the next step.
\<close>

definition settle :: "string \<Rightarrow> nat \<Rightarrow> parse_state \<Rightarrow> parse_state res" where
  "settle ep e st = (if ps_tag st = PARAMETER_END
     then map_res (\<lambda>s. s\<lparr>ps_tag := START\<rparr>) (end_parameter ep e st) else Inr st)"

definition ready :: "string \<Rightarrow> nat \<Rightarrow> parse_state \<Rightarrow> path_matcher list \<Rightarrow> string \<Rightarrow> bool" where
  "ready ep e st ms ty \<longleftrightarrow> ps_tag st \<in> {START, PARAMETER_END} \<and>
     (\<exists>s. settle ep e st = Inr s \<and> ps_tag s = START \<and> ps_matchers s = ms \<and> ps_type s = ty \<and>
          ps_name_start s = None)"

lemma ready_step:
  assumes "ready ep e st ms ty"
  obtains s where "ps_tag s = START" "ps_matchers s = ms" "ps_type s = ty" "ps_name_start s = None"
    "parse_step rx ep (Suc e) st =
       on_start ep (Suc e) (if Suc e < length ep then ep ! Suc e else CHR 0x00) s"
proof -
  from assms obtain s where s: "settle ep e st = Inr s" "ps_tag s = START" "ps_matchers s = ms"
    "ps_type s = ty" "ps_name_start s = None" and tag: "ps_tag st \<in> {START, PARAMETER_END}"
    by (auto simp: ready_def)
  have "parse_step rx ep (Suc e) st =
      on_start ep (Suc e) (if Suc e < length ep then ep ! Suc e else CHR 0x00) s"
    using s(1) tag by (auto simp: parse_step_def settle_def Let_def map_res_eq_Inr_iff)
  with s that show ?thesis by blast
qed

section \<open>One segment\<close>

text \<open>\<open>segment ep b ch\<close>: the segment that begins at position \<open>b\<close> of the endpoint is \<open>ch\<close>.\<close>

definition segment :: "string \<Rightarrow> nat \<Rightarrow> string \<Rightarrow> bool" where
  "segment ep b ch \<longleftrightarrow> b + length ch \<le> length ep \<and> (\<forall>i < length ch. ep ! (b + i) = ch ! i) \<and>
     (b + length ch = length ep \<or> ep ! (b + length ch) = SEP)"

lemma segment_intro:
  assumes "ep = pre @ SEP # ch @ rest" "rest = [] \<or> hd rest = SEP"
  shows "segment ep (Suc (length pre)) ch"
  using assms by (cases rest) (simp_all add: segment_def nth_append)

lemma segment_end: "segment ep b ch \<Longrightarrow> b + length ch < length ep \<Longrightarrow> ep ! (b + length ch) = SEP"
  by (auto simp: segment_def)

lemma segment_le: "segment ep b ch \<Longrightarrow> b + length ch \<le> length ep"
  by (simp add: segment_def)

lemma segment_nth: "segment ep b ch \<Longrightarrow> b \<le> i \<Longrightarrow> i < b + length ch \<Longrightarrow> i < length ep \<and> ep ! i = ch ! (i - b)"
  unfolding segment_def by (metis add_diff_inverse_nat le_trans less_diff_conv2 linorder_not_less add.commute)

lemma segment_append:
  assumes "segment ep b (x @ y)"
  shows "segment ep (b + length x) y"
proof -
  have "ep ! (b + length x + i) = y ! i" if "i < length y" for i
    using segment_nth [OF assms, of "b + length x + i"] that by (simp add: nth_append)
  with assms show ?thesis by (auto simp: segment_def add.assoc)
qed

lemma segment_Cons: "segment ep b (c # y) \<Longrightarrow> segment ep (Suc b) y"
  using segment_append [of ep b "[c]" y] by simp

lemma segment_slice:
  assumes "segment ep b (x @ y)"
  shows "slice ep b (b + length x) = x"
proof (rule nth_equalityI)
  show len: "length (slice ep b (b + length x)) = length x"
    using segment_le [OF assms] by simp
  show "slice ep b (b + length x) ! i = x ! i" if "i < length (slice ep b (b + length x))" for i
    using that len segment_nth [OF assms, of "b + i"] segment_le [OF assms]
    by (simp add: slice_def nth_append)
qed

lemma literal_segment:
  assumes seg: "segment ep (Suc p) ch" and ch: "ch \<noteq> []" "SEP \<notin> set ch" "hd ch \<noteq> CHR '':''"
    and ready: "ready ep p st ms ty"
  shows "\<exists>st'. parse_loop rx ep [Suc p ..< Suc p + length ch + 1] st = Inr st' \<and>
    ready ep (Suc p + length ch) st' (ms @ [LiteralPathMatcher ch]) ty"
proof -
  let ?e = "Suc p + length ch"
  from ready obtain s where s: "ps_tag s = START" "ps_matchers s = ms" "ps_type s = ty"
    "ps_name_start s = None" "parse_step rx ep (Suc p) st =
       on_start ep (Suc p) (if Suc p < length ep then ep ! Suc p else CHR 0x00) s"
    by (rule ready_step)
  let ?s1 = "s\<lparr>ps_chunk_start := Suc p, ps_tag := LITERAL\<rparr>"
  let ?s2 = "(push_matcher (LiteralPathMatcher ch) ?s1)\<lparr>ps_tag := START\<rparr>"
  have chars: "i < length ep \<and> ep ! i \<noteq> SEP" if "Suc p \<le> i" "i < ?e" for i
    using segment_nth [OF seg that] ch(2) that by (metis less_diff_conv2 add.commute nth_mem)
  have "ep ! Suc p = hd ch"
    using segment_nth [OF seg, of "Suc p"] ch(1) by (simp add: hd_conv_nth)
  then have "parse_step rx ep (Suc p) st = Inr ?s1"
    using s(5) ch chars [of "Suc p"] by (simp add: on_start_def)
  then have "parse_loop rx ep [Suc p ..< Suc ?e] st = parse_loop rx ep [Suc (Suc p) ..< Suc ?e] ?s1"
    by (intro parse_loop_first) simp_all
  also have "\<dots> = parse_loop rx ep [?e ..< Suc ?e] ?s1"
  proof (intro parse_loop_range parse_loop_stay)
    fix i
    assume "i \<in> set [Suc (Suc p) ..< ?e]"
    then have "i < length ep \<and> ep ! i \<noteq> SEP" by (intro chars) auto
    then show "parse_step rx ep i ?s1 = Inr ?s1" by (simp add: parse_step_def on_literal_def)
  qed (use ch(1) in \<open>simp_all add: Suc_le_eq\<close>)
  also have "\<dots> = Inr ?s2"
    using segment_slice [of ep "Suc p" ch "[]"] segment_end [OF seg] segment_le [OF seg] seg
    by (auto simp: parse_step_def on_literal_def)
  finally show ?thesis
    using s by (auto simp: ready_def settle_def)
qed

text \<open>A name and its extension, from the position of the name's first character.\<close>

definition in_name :: "parse_state \<Rightarrow> nat \<Rightarrow> nat \<Rightarrow> bool" where
  "in_name s i p \<longleftrightarrow> ps_tag s = PARAMETER_NAME \<and>
     (ps_name_start s = None \<and> i = p \<or> ps_name_start s = Some p \<and> i = Suc p)"

definition at_parameter_end :: "parse_state \<Rightarrow> parse_state \<Rightarrow> string \<Rightarrow> string \<Rightarrow> bool" where
  "at_parameter_end s s' n e \<longleftrightarrow> ps_tag s' = PARAMETER_END \<and> ps_name s' = n \<and> ps_extension s' = e \<and>
     ps_type s' = ps_type s \<and> ps_chunk_start s' = ps_chunk_start s \<and> ps_matchers s' = ps_matchers s"

lemma name_char: "name_ok n \<Longrightarrow> c \<in> set n \<Longrightarrow> isalnum c \<and> c \<noteq> CHR ''.'' \<and> c \<noteq> SEP"
  by (auto simp: name_ok_def list_all_iff SEP_def char_simps)

lemma name_run:
  assumes seg: "segment ep p (n @ x)" and n: "name_ok n" and s: "in_name s i p"
    and k: "p + length n \<le> k"
  shows "parse_loop rx ep [i ..< k] s =
    parse_loop rx ep [p + length n ..< k] (s\<lparr>ps_name_start := Some p\<rparr>)"
proof -
  let ?s = "s\<lparr>ps_name_start := Some p\<rparr>"
  have chars: "j < length ep \<and> isalnum (ep ! j) \<and> ep ! j \<noteq> CHR ''.'' \<and> ep ! j \<noteq> SEP"
    if "p \<le> j" "j < p + length n" for j
  proof -
    have "j - p < length n" using that by simp
    then show ?thesis
      using segment_nth [OF seg, of j] that name_char [OF n, of "n ! (j - p)"] by (simp add: nth_append)
  qed
  have ne: "n \<noteq> []" using n by (simp add: name_ok_def)
  have step: "parse_step rx ep j t = Inr ?s"
    if "p \<le> j" "j < p + length n" "t = ?s \<or> t = s \<and> j = i" for j t
    using chars [OF that(1,2)] that(3) s
    by (auto simp: parse_step_def on_parameter_name_def in_name_def)
  have run: "parse_loop rx ep [Suc p ..< p + length n] ?s = Inr ?s"
    by (rule parse_loop_stay) (auto intro!: step)
  from s consider "i = p" | "i = Suc p" "s = ?s"
    by (auto simp: in_name_def intro: parse_state.equality)
  then show ?thesis
  proof cases
    case 1
    have "0 < length n" using ne by simp
    then have "p < k" using k by linarith
    with 1 step [of p s] ne have "parse_loop rx ep [i ..< k] s = parse_loop rx ep [Suc p ..< k] ?s"
      by (simp add: parse_loop_first)
    also have "\<dots> = parse_loop rx ep [p + length n ..< k] ?s"
      using run ne k by (intro parse_loop_range) (simp_all add: Suc_le_eq)
    finally show ?thesis .
  next
    case 2
    then show ?thesis using run ne k by (intro parse_loop_range) (simp_all add: Suc_le_eq)
  qed
qed

lemma extension_run:
  assumes seg: "segment ep p (n @ x)" and x: "extension_ok x" "x \<noteq> []"
    and s: "ps_tag s = PARAMETER_EXTENSION" "ps_extension_start s = p + length n"
  shows "parse_loop rx ep [Suc (p + length n) ..< Suc (p + length n + length x)] s =
    Inr (s\<lparr>ps_extension := x, ps_tag := PARAMETER_END\<rparr>)"
proof -
  let ?q = "p + length n" and ?e = "p + length n + length x"
  have x': "1 < length x" "list_all (\<lambda>c. c = CHR ''.'' \<or> isalnum c) x"
    using x by (auto simp: extension_ok_def)
  note seg' = segment_append [OF seg]
  have chars: "j < length ep \<and> (ep ! j = CHR ''.'' \<or> isalnum (ep ! j)) \<and> ep ! j \<noteq> SEP"
    if "?q \<le> j" "j < ?e" for j
  proof -
    have "x ! (j - ?q) \<in> set x" using that by (intro nth_mem) simp
    with x'(2) have "x ! (j - ?q) = CHR ''.'' \<or> isalnum (x ! (j - ?q))" by (auto simp: list_all_iff)
    with segment_nth [OF seg' that] show ?thesis by (auto simp: SEP_def char_simps)
  qed
  have "parse_loop rx ep [Suc ?q ..< Suc ?e] s = parse_loop rx ep [?e ..< Suc ?e] s"
  proof (intro parse_loop_range parse_loop_stay)
    fix j
    assume "j \<in> set [Suc ?q ..< ?e]"
    then have "j < length ep \<and> (ep ! j = CHR ''.'' \<or> isalnum (ep ! j)) \<and> ep ! j \<noteq> SEP"
      by (intro chars) auto
    then show "parse_step rx ep j s = Inr s"
      using s by (auto simp: parse_step_def on_parameter_extension_def)
  qed (use x'(1) in simp_all)
  also have "\<dots> = Inr (s\<lparr>ps_extension := x, ps_tag := PARAMETER_END\<rparr>)"
    using segment_slice [of ep ?q x "[]"] segment_end [OF seg'] segment_le [OF seg'] seg' s x'(1)
    by (auto simp: parse_step_def on_parameter_extension_def Let_def)
  finally show ?thesis .
qed

lemma name_extension_run:
  assumes seg: "segment ep p (n @ x)" and n: "name_ok n" and x: "extension_ok x" and s: "in_name s i p"
  shows "\<exists>s'. parse_loop rx ep [i ..< Suc (p + length n + length x)] s = Inr s' \<and> at_parameter_end s s' n x"
proof -
  let ?q = "p + length n" and ?s = "s\<lparr>ps_name_start := Some p\<rparr>"
  have ne: "n \<noteq> []" using n by (simp add: name_ok_def)
  have slice: "slice ep p ?q = n" by (rule segment_slice [OF seg])
  have tag: "ps_tag s = PARAMETER_NAME" using s by (simp add: in_name_def)
  have run: "parse_loop rx ep [i ..< Suc (p + length n + length x)] s =
      parse_loop rx ep [?q ..< Suc (?q + length x)] ?s"
    by (rule name_run [OF seg n s]) simp
  show ?thesis
  proof (cases "x = []")
    case True
    have "ep ! ?q \<noteq> CHR ''.''" if "?q < length ep"
      using segment_end [OF seg] that True by (simp add: SEP_def)
    then have "parse_loop rx ep [?q ..< Suc (?q + length x)] ?s =
        Inr (?s\<lparr>ps_name := n, ps_extension := [], ps_tag := PARAMETER_END\<rparr>)"
      using True tag slice ne segment_end [OF seg] segment_le [OF seg]
      by (auto simp: parse_step_def on_parameter_name_def Let_def SEP_def)
    with run True show ?thesis by (auto simp: at_parameter_end_def)
  next
    case False
    let ?s2 = "?s\<lparr>ps_name := n, ps_extension_start := ?q, ps_tag := PARAMETER_EXTENSION\<rparr>"
    have "ep ! ?q = CHR ''.''" "?q < length ep"
      using segment_nth [OF segment_append [OF seg], of ?q] False x
      by (auto simp: extension_ok_def hd_conv_nth)
    then have "parse_step rx ep ?q ?s = Inr ?s2"
      using tag slice ne by (simp add: parse_step_def on_parameter_name_def Let_def)
    then have "parse_loop rx ep [?q ..< Suc (?q + length x)] ?s =
        Inr (?s2\<lparr>ps_extension := x, ps_tag := PARAMETER_END\<rparr>)"
      using extension_run [OF seg x False, of ?s2] by (simp add: parse_loop_first del: upt_Suc)
    with run show ?thesis by (auto simp: at_parameter_end_def)
  qed
qed

definition parameter_matcher :: "string \<Rightarrow> string \<Rightarrow> string \<Rightarrow> string \<Rightarrow> path_matcher" where
  "parameter_matcher ty ch n x =
     (if ty = [] then ParameterPathMatcher ch n x
      else ValidatedParameterPathMatcher ch n x (if ty = ''int'' then Int_validator else Uint_validator))"

definition type_ok :: "string \<Rightarrow> bool" where
  "type_ok ty \<longleftrightarrow> ty = [] \<or> ty = ''int'' \<or> ty = ''uint''"

lemma parameter_ready:
  assumes "segment ep (Suc p) ch" "at_parameter_end s s' n x" "ps_chunk_start s = Suc p"
    "ps_type s = ty" "type_ok ty"
  shows "ready ep (Suc p + length ch) s' (ps_matchers s @ [parameter_matcher ty ch n x]) ty"
  using assms segment_slice [of ep "Suc p" ch "[]"]
  by (auto simp: ready_def settle_def end_parameter_def at_parameter_end_def parameter_matcher_def
      type_ok_def validator_for_def Let_def)

lemma untyped_segment:
  assumes seg: "segment ep (Suc p) (parameter_chunk [] n x)" and n: "name_ok n" and x: "extension_ok x"
    and ready: "ready ep p st ms ty" and ty: "type_ok ty"
  shows "\<exists>st'. parse_loop rx ep [Suc p ..< Suc p + length (parameter_chunk [] n x) + 1] st = Inr st' \<and>
    ready ep (Suc p + length (parameter_chunk [] n x)) st'
      (ms @ [parameter_matcher ty (parameter_chunk [] n x) n x]) ty"
proof -
  from ready obtain s where s: "ps_tag s = START" "ps_matchers s = ms" "ps_type s = ty"
    "ps_name_start s = None" "parse_step rx ep (Suc p) st =
       on_start ep (Suc p) (if Suc p < length ep then ep ! Suc p else CHR 0x00) s"
    by (rule ready_step)
  let ?s1 = "s\<lparr>ps_chunk_start := Suc p, ps_tag := PARAMETER_START\<rparr>"
  let ?s2 = "?s1\<lparr>ps_name_start := Some (Suc (Suc p)), ps_tag := PARAMETER_NAME\<rparr>"
  have seg': "segment ep (Suc p) (CHR '':'' # n @ x)" using seg by (simp add: parameter_chunk_def)
  have ne: "n \<noteq> []" using n by (simp add: name_ok_def)
  have "parse_step rx ep (Suc p) st = Inr ?s1"
    using s(5) segment_nth [OF seg', of "Suc p"] by (simp add: on_start_def SEP_def)
  moreover have "isalnum (n ! 0)" "n ! 0 \<noteq> CHR ''[''"
    using n ne by (cases n; auto simp: name_ok_def char_simps)+
  then have "parse_step rx ep (Suc (Suc p)) ?s1 = Inr ?s2"
    using segment_nth [OF segment_Cons [OF seg'], of "Suc (Suc p)"] ne
    by (simp add: parse_step_def on_parameter_start_def nth_append)
  moreover have "in_name ?s2 (Suc (Suc (Suc p))) (Suc (Suc p))" by (simp add: in_name_def)
  note run = name_extension_run [OF segment_Cons [OF seg'] n x this, of rx]
  then obtain s' where "parse_loop rx ep [Suc (Suc (Suc p)) ..< Suc (Suc (Suc p) + length n + length x)] ?s2 = Inr s'"
      "at_parameter_end ?s2 s' n x" by blast
  ultimately show ?thesis
    using parameter_ready [OF seg, of ?s2 s' n x ty] s(2,3) ty
    by (simp add: parse_loop_first parameter_chunk_def ne add.assoc del: upt_Suc)
qed

lemma typed_segment:
  assumes seg: "segment ep (Suc p) (parameter_chunk ty n x)" and n: "name_ok n" and x: "extension_ok x"
    and ready: "ready ep p st ms ty0" and ty: "ty = ''int'' \<or> ty = ''uint''"
  shows "\<exists>st'. parse_loop rx ep [Suc p ..< Suc p + length (parameter_chunk ty n x) + 1] st = Inr st' \<and>
    ready ep (Suc p + length (parameter_chunk ty n x)) st'
      (ms @ [parameter_matcher ty (parameter_chunk ty n x) n x]) ty"
proof -
  from ready obtain s where s: "ps_tag s = START" "ps_matchers s = ms" "ps_type s = ty0"
    "ps_name_start s = None" "parse_step rx ep (Suc p) st =
       on_start ep (Suc p) (if Suc p < length ep then ep ! Suc p else CHR 0x00) s"
    by (rule ready_step)
  let ?s1 = "s\<lparr>ps_chunk_start := Suc p, ps_tag := PARAMETER_START\<rparr>"
  let ?t = "Suc (Suc (Suc p))"
  let ?s2 = "?s1\<lparr>ps_type_start := ?t, ps_tag := PARAMETER_TYPE\<rparr>"
  let ?q = "?t + length ty"
  let ?s3 = "?s2\<lparr>ps_type := ty, ps_tag := PARAMETER_NAME\<rparr>"
  have seg1: "segment ep (Suc p) (CHR '':'' # CHR ''['' # ty @ CHR '']'' # n @ x)"
    using seg ty by (auto simp: parameter_chunk_def)
  note seg2 = segment_Cons [OF seg1] and seg3 = segment_Cons [OF segment_Cons [OF seg1]]
  note seg4 = segment_append [OF seg3] and seg5 = segment_Cons [OF segment_append [OF seg3]]
  have ne: "n \<noteq> []" using n by (simp add: name_ok_def)
  have "parse_step rx ep (Suc p) st = Inr ?s1"
    using s(5) segment_nth [OF seg1, of "Suc p"] by (simp add: on_start_def SEP_def)
  moreover have "parse_step rx ep (Suc (Suc p)) ?s1 = Inr ?s2"
    using segment_nth [OF seg2, of "Suc (Suc p)"]
    by (simp add: parse_step_def on_parameter_start_def)
  moreover have "parse_loop rx ep [?t ..< ?q] ?s2 = Inr ?s2"
  proof (rule parse_loop_stay)
    fix j
    assume "j \<in> set [?t ..< ?q]"
    then have "?t \<le> j" "j < ?q" "j - ?t < length ty" by auto
    then have "j < length ep \<and> ep ! j \<in> set ty" using segment_nth [OF seg3, of j] by (simp add: nth_append)
    with ty have "j < length ep \<and> ep ! j \<noteq> CHR '']''" by auto
    then show "parse_step rx ep j ?s2 = Inr ?s2" by (simp add: parse_step_def on_parameter_type_def)
  qed
  moreover have "parse_step rx ep ?q ?s2 = Inr ?s3"
    using segment_nth [OF seg4, of ?q] segment_slice [OF seg3] ty
    by (auto simp: parse_step_def on_parameter_type_def Let_def)
  moreover have "in_name ?s3 (Suc ?q) (Suc ?q)" using s(4) by (simp add: in_name_def)
  note run = name_extension_run [OF seg5 n x this, of rx]
  then obtain s' where "parse_loop rx ep [Suc ?q ..< Suc (Suc ?q + length n + length x)] ?s3 = Inr s'"
      "at_parameter_end ?s3 s' n x" by blast
  ultimately show ?thesis
    using parameter_ready [OF seg, of ?s3 s' n x ty] s(2) ty
      parse_loop_range [of ?t ?q "Suc (Suc ?q + length n + length x)" rx ep ?s2 ?s2]
    by (auto simp: parse_loop_first parameter_chunk_def ne type_ok_def add.assoc simp del: upt_Suc)
qed

section \<open>All segments\<close>

lemma parameter_matcher_type:
  "parameter_matcher (type_name v) ch n x = ValidatedParameterPathMatcher ch n x v"
  "parameter_matcher [] ch n x = ParameterPathMatcher ch n x"
  "type_ok (type_name v)" "type_ok []" "type_name v = ''int'' \<or> type_name v = ''uint''"
  by (cases v; simp add: parameter_matcher_def type_ok_def)+

fun type_after :: "string \<Rightarrow> path_matcher \<Rightarrow> string" where
  "type_after ty (ValidatedParameterPathMatcher ch n x v) = type_name v"
| "type_after ty m = ty"

lemma one_segment:
  assumes "segment ep (Suc p) (chunk m)" "ready ep p st ms ty" "route_from ty (m # ms')" "type_ok ty"
  shows "\<exists>st'. parse_loop rx ep [Suc p ..< Suc p + length (chunk m) + 1] st = Inr st' \<and>
    ready ep (Suc p + length (chunk m)) st' (ms @ [m]) (type_after ty m)"
proof (cases m)
  case (LiteralPathMatcher ch)
  with literal_segment [of ep p ch st ms ty rx] assms show ?thesis by simp
next
  case (ParameterPathMatcher ch n x)
  with untyped_segment [of ep p n x st ms ty rx] assms show ?thesis
    by (simp add: parameter_matcher_type)
next
  case (ValidatedParameterPathMatcher ch n x v)
  with assms(3) consider "ch = parameter_chunk (type_name v) n x" |
      "ty = type_name v" "ch = parameter_chunk [] n x" by auto
  then show ?thesis
  proof cases
    case 1
    with ValidatedParameterPathMatcher typed_segment [of ep p "type_name v" n x st ms ty rx] assms
    show ?thesis by (simp add: parameter_matcher_type)
  next
    case 2
    with ValidatedParameterPathMatcher untyped_segment [of ep p n x st ms ty rx] assms
    show ?thesis by (simp add: parameter_matcher_type)
  qed
next
  case (RegexPathMatcher i ch)
  with assms show ?thesis by simp
qed

lemma type_ok_after: "type_ok ty \<Longrightarrow> type_ok (type_after ty m)"
  by (cases m) (simp_all add: parameter_matcher_type)

lemma route_from_tail: "route_from ty (m # ms) \<Longrightarrow> route_from (type_after ty m) ms"
  by (cases m) auto

lemma all_segments:
  assumes "ep = pre @ SEP # chunk m @ route_of ms'" "ready ep (length pre) st ms ty"
    "route_from ty (m # ms')" "type_ok ty"
  shows "\<exists>st' ty'. parse_loop rx ep [Suc (length pre) ..< Suc (length ep)] st = Inr st' \<and>
    ready ep (length ep) st' (ms @ m # ms') ty'"
  using assms
proof (induction ms' arbitrary: pre m st ms ty)
  case Nil
  have "segment ep (Suc (length pre)) (chunk m)"
    by (rule segment_intro [OF Nil.prems(1)]) simp
  from one_segment [OF this Nil.prems(2,3,4), of rx] show ?case
    using Nil.prems(1) by auto
next
  case (Cons m' ms')
  let ?e = "Suc (length pre) + length (chunk m)"
  have "segment ep (Suc (length pre)) (chunk m)"
    by (rule segment_intro [OF Cons.prems(1)]) simp
  from one_segment [OF this Cons.prems(2,3,4), of rx] obtain st1 where st1:
    "parse_loop rx ep [Suc (length pre) ..< Suc ?e] st = Inr st1"
    "ready ep ?e st1 (ms @ [m]) (type_after ty m)" by auto
  have "\<exists>st' ty'. parse_loop rx ep [Suc (length (pre @ SEP # chunk m)) ..< Suc (length ep)] st1 = Inr st' \<and>
      ready ep (length ep) st' ((ms @ [m]) @ m' # ms') ty'"
  proof (rule Cons.IH)
    show "ep = (pre @ SEP # chunk m) @ SEP # chunk m' @ route_of ms'" using Cons.prems(1) by simp
    show "ready ep (length (pre @ SEP # chunk m)) st1 (ms @ [m]) (type_after ty m)" using st1(2) by simp
    show "route_from (type_after ty m) (m' # ms')" by (rule route_from_tail [OF Cons.prems(3)])
    show "type_ok (type_after ty m)" by (rule type_ok_after [OF Cons.prems(4)])
  qed
  moreover have "parse_loop rx ep [Suc (length pre) ..< Suc (length ep)] st =
      parse_loop rx ep [Suc ?e ..< Suc (length ep)] st1"
    using Cons.prems(1) by (intro parse_loop_range st1(1)) simp_all
  ultimately show ?case by (simp del: upt_Suc)
qed

lemma parse_route_text:
  assumes "route_from [] ms"
  shows "parse_endpoint rx (route_of ms) = Inr ms"
proof (cases ms)
  case Nil
  then show ?thesis
    by (simp add: parse_endpoint_def parse_into_matchers_def parse_step_def parse_state_init_def on_start_def)
next
  case (Cons m ms')
  let ?ep = "route_of ms"
  have first: "parse_step rx ?ep 0 parse_state_init = Inr parse_state_init"
    using Cons by (simp add: parse_step_def on_start_def parse_state_init_def)
  have "ready ?ep (length []) parse_state_init [] []"
    by (simp add: ready_def settle_def parse_state_init_def)
  with Cons assms obtain st ty where st:
    "parse_loop rx ?ep [Suc 0 ..< Suc (length ?ep)] parse_state_init = Inr st"
    "ready ?ep (length ?ep) st ms ty"
    using all_segments [of ?ep "[]" m ms' parse_state_init "[]" "[]" rx] by (auto simp: type_ok_def)
  have "parse_loop rx ?ep [0 ..< Suc (length ?ep)] parse_state_init = Inr st"
    using st(1) first by (simp add: parse_loop_first del: upt_Suc)
  with st(2) show ?thesis
    by (auto simp: parse_endpoint_def parse_into_matchers_def ready_def settle_def map_res_eq_Inr_iff
        simp del: upt_Suc)
qed

text \<open>
  C31: Printing and parsing a route: the parser reads the route written from a list of
  literal, parameter and typed parameter matchers back into exactly these matchers. A typed
  parameter determines the validator of all the untyped parameters behind it, because the
  parser does not reset the type.
\<close>

theorem parse_route_of:
  assumes "route_from [] ms"
  shows "parse_endpoint rx (route_of ms) = Inr ms"
  using assms by (rule parse_route_text)

definition sample_route :: "path_matcher list" where
  "sample_route = [LiteralPathMatcher ''foo'',
     ValidatedParameterPathMatcher '':[int]a'' ''a'' [] Int_validator,
     ValidatedParameterPathMatcher '':b.json'' ''b'' ''.json'' Int_validator]"

lemma parse_route_of_witness:
  "route_of sample_route = ''/foo/:[int]a/:b.json'' \<and>
   parse_endpoint no_regex ''/foo/:[int]a/:b.json'' = Inr sample_route"
proof -
  have "route_from [] sample_route"
    by (simp add: sample_route_def parameter_chunk_def name_ok_def extension_ok_def SEP_def char_simps)
  moreover have "route_of sample_route = ''/foo/:[int]a/:b.json''"
    by (simp add: sample_route_def SEP_def)
  ultimately show ?thesis using parse_route_of [of sample_route no_regex] by simp
qed

end
