(* ===== verification/Endpoint_Trie.thy ===== *)
theory Endpoint_Trie
  imports Mount_Path
begin

text \<open>
  The endpoint trie (\<open>BaseEndpointTrie\<close> and \<open>EndpointTrie\<close> of
  \<open>src/lw/http/internal/http_mount_path.h\<close> and \<open>.cpp\<close>): a node has one child per character,
  at most one wildcard (a matcher and the node behind it) and the endpoint mounted there.

  Building a path changes the trie in place and may throw half way; the model returns the
  changed trie with the outcome. The root is a \<open>BaseTrieNode\<close> and not a \<open>TrieNode\<close>: reading
  or writing its endpoint, for a mount path without matchers or for the empty URL path, is
  undefined behaviour.
\<close>

section \<open>Nodes\<close>

datatype 'e trie = TrieNode
  (children: "(char \<times> 'e trie) list")
  (wildcard: "(path_matcher \<times> 'e trie) option")
  (endpoint: "'e option")

definition make_node :: "'e trie" where
  "make_node = TrieNode [] None None"

text \<open>\<open>children\<close> is an unordered map; \<open>set_child\<close> is \<open>children[c] = n\<close>.\<close>

fun set_child :: "char \<Rightarrow> 'e trie \<Rightarrow> (char \<times> 'e trie) list \<Rightarrow> (char \<times> 'e trie) list" where
  "set_child c n [] = [(c, n)]"
| "set_child c n ((d, m) # ch) = (if d = c then (c, n) # ch else (d, m) # set_child c n ch)"

lemma map_of_set_child [simp]:
  "map_of (set_child c n ch) d = (if d = c then Some n else map_of ch d)"
  by (induction ch) auto

section \<open>Building a path\<close>

text \<open>
  The steps from node to node that \<open>build_path\<close> takes for a mount path: one per character of
  a separator or a literal chunk, one per matcher that is not a literal.
\<close>

datatype trie_step = CharStep char | WildStep path_matcher

definition matcher_steps :: "path_matcher \<Rightarrow> trie_step list" where
  "matcher_steps m = CharStep SEP #
     (if is_literal m then map CharStep (chunk m) else [WildStep m])"

definition path_steps :: "mount_path \<Rightarrow> trie_step list" where
  "path_steps ms = concat (map matcher_steps ms)"

text \<open>
  \<open>build_path\<close> and \<open>_build_literal_path\<close>, followed by what the caller does at the node they
  return: nodes that are missing are made on the way, a wildcard with another chunk throws.
\<close>

fun build_path :: "trie_step list \<Rightarrow> ('e trie \<Rightarrow> fault option \<times> 'e trie) \<Rightarrow> 'e trie \<Rightarrow>
    fault option \<times> 'e trie" where
  "build_path [] f n = f n"
| "build_path (CharStep c # steps) f (TrieNode ch w e) =
     (let sub = (case map_of ch c of None \<Rightarrow> make_node | Some n \<Rightarrow> n);
          (r, sub') = build_path steps f sub
      in (r, TrieNode (set_child c sub' ch) w e))"
| "build_path (WildStep m # steps) f (TrieNode ch w e) =
     (case w of
        None \<Rightarrow> (let (r, sub') = build_path steps f make_node in (r, TrieNode ch (Some (m, sub')) e))
      | Some (m', sub) \<Rightarrow>
          if chunk m' \<noteq> chunk m then (Some (Err AlreadyExists), TrieNode ch w e)
          else (let (r, sub') = build_path steps f sub in (r, TrieNode ch (Some (m', sub')) e)))"

definition mount_here :: "'e \<Rightarrow> 'e trie \<Rightarrow> fault option \<times> 'e trie" where
  "mount_here ep n = (case endpoint n of
       Some _ \<Rightarrow> (Some (Err AlreadyExists), n)
     | None \<Rightarrow> (None, TrieNode (children n) (wildcard n) (Some ep)))"

definition trie_insert :: "mount_path \<Rightarrow> 'e \<Rightarrow> 'e trie \<Rightarrow> fault option \<times> 'e trie" where
  "trie_insert ms ep root =
     (if ms = [] then (Some Undefined_behaviour, root)
      else build_path (path_steps ms) (mount_here ep) root)"

section \<open>Walking a path\<close>

text \<open>
  \<open>walk_path\<close>. An entry of the wildcard stack is the wildcard of the node that was pushed
  and the position. \<open>wild_part\<close> is the URL part from that position to the next separator
  behind it.
\<close>

type_synonym 'e wild_stack = "((path_matcher \<times> 'e trie) \<times> nat) list"

definition wild_part :: "string \<Rightarrow> nat \<Rightarrow> string" where
  "wild_part path i = path ! i # takeWhile (\<lambda>c. c \<noteq> SEP) (drop (Suc i) path)"

fun walk_back :: "regex_lib \<Rightarrow> string \<Rightarrow> 'e wild_stack \<Rightarrow>
    (string \<times> string \<times> nat \<times> 'e trie \<times> 'e wild_stack) option" where
  "walk_back rx path [] = None"
| "walk_back rx path (((m, n), wild_i) # stack) =
     (case matcher_match rx m (wild_part path wild_i) of
        None \<Rightarrow> walk_back rx path stack
      | Some v \<Rightarrow> Some (matcher_name m, v, wild_i + length v, n, stack))"

fun trie_weight :: "'e trie \<Rightarrow> nat" where
  "trie_weight (TrieNode ch w e) =
     1 + sum_list (map (\<lambda>(c, n). trie_weight n) ch) + (case w of None \<Rightarrow> 0 | Some (m, n) \<Rightarrow> trie_weight n)"

definition stack_weight :: "'e wild_stack \<Rightarrow> nat" where
  "stack_weight st = sum_list (map (\<lambda>((m, n), i). trie_weight n) st)"

definition push_wildcard :: "'e trie \<Rightarrow> nat \<Rightarrow> 'e wild_stack \<Rightarrow> 'e wild_stack" where
  "push_wildcard n i st = (case wildcard n of None \<Rightarrow> st | Some w \<Rightarrow> (w, i) # st)"

lemma trie_weight_pos [simp]: "0 < trie_weight n"
  by (cases n) simp

lemma weight_child:
  assumes "map_of (children n) c = Some sub"
  shows "trie_weight sub + stack_weight (push_wildcard n i st) < trie_weight n + stack_weight st"
proof (cases n)
  case (TrieNode ch w e)
  have "(c, sub) \<in> set ch" using assms TrieNode by (simp add: map_of_SomeD)
  then have "trie_weight sub \<le> sum_list (map (\<lambda>(c, n). trie_weight n) ch)"
    by (intro member_le_sum_list) (force, simp)
  with TrieNode show ?thesis by (auto simp: push_wildcard_def stack_weight_def split: option.splits)
qed

lemma weight_push: "stack_weight (push_wildcard n i st) < trie_weight n + stack_weight st"
  by (cases n) (auto simp: push_wildcard_def stack_weight_def split: option.splits)

lemma weight_back:
  "walk_back rx path st = Some (k, v, j, n, st') \<Longrightarrow> trie_weight n + stack_weight st' \<le> stack_weight st"
  by (induction rx path st rule: walk_back.induct)
    (auto simp: stack_weight_def split: option.splits)

function walk_path :: "regex_lib \<Rightarrow> string \<Rightarrow> 'e trie \<Rightarrow> nat \<Rightarrow> 'e wild_stack \<Rightarrow> headers \<Rightarrow>
    (headers \<times> 'e trie) option" where
  "walk_path rx path node i stack params =
     (if i < length path then
        (let stack' = push_wildcard node i stack
         in case map_of (children node) (path ! i) of
              Some n \<Rightarrow> walk_path rx path n (i + 1) stack' params
            | None \<Rightarrow>
                (case walk_back rx path stack' of
                   None \<Rightarrow> None
                 | Some (name, v, j, n, stack'') \<Rightarrow>
                     walk_path rx path n j stack'' (headers_assign name v params)))
      else Some (params, node))"
  by pat_completeness auto
termination
proof (relation "measure (\<lambda>(rx, path, node, i, stack, params). trie_weight node + stack_weight stack)")
  fix rx path node i stack params st k v j n st' a b c d
  assume st: "st = push_wildcard node i stack" "walk_back rx path st = Some a"
    "(k, b) = a" "(v, c) = b" "(j, d) = c" "(n, st') = d"
  then have "trie_weight n + stack_weight st' \<le> stack_weight (push_wildcard node i stack)"
    using weight_back [of rx path st k v j n st'] by auto
  with weight_push [of node i stack]
  show "((rx, path, n, j, st', headers_assign k v params), rx, path, node, i, stack, params)
      \<in> measure (\<lambda>(rx, path, node, i, stack, params). trie_weight node + stack_weight stack)" by simp
qed (simp_all add: weight_child)

declare walk_path.simps [simp del]

text \<open>\<open>EndpointTrie::match\<close>. The endpoint of the root is not an object's member.\<close>

definition trie_match :: "regex_lib \<Rightarrow> 'e trie \<Rightarrow> string \<Rightarrow> (headers \<times> 'e) option res" where
  "trie_match rx root path = (case walk_path rx path root 0 [] [] of
       None \<Rightarrow> Inr None
     | Some (params, node) \<Rightarrow>
         if path = [] then Inl Undefined_behaviour
         else Inr (map_option (\<lambda>ep. (params, ep)) (endpoint node)))"

section \<open>Insertion is an update of a map from routes to endpoints\<close>

text \<open>The abstract view: the endpoint mounted at the end of a sequence of steps.\<close>

fun step_key :: "trie_step \<Rightarrow> char + string" where
  "step_key (CharStep c) = Inl c"
| "step_key (WildStep m) = Inr (chunk m)"

definition same_route :: "trie_step list \<Rightarrow> trie_step list \<Rightarrow> bool" where
  "same_route s t \<longleftrightarrow> map step_key s = map step_key t"

fun trie_lookup :: "trie_step list \<Rightarrow> 'e trie \<Rightarrow> 'e option" where
  "trie_lookup [] n = endpoint n"
| "trie_lookup (CharStep c # steps) n = (case map_of (children n) c of
     None \<Rightarrow> None | Some sub \<Rightarrow> trie_lookup steps sub)"
| "trie_lookup (WildStep m # steps) n = (case wildcard n of
     None \<Rightarrow> None | Some (m', sub) \<Rightarrow> if chunk m' = chunk m then trie_lookup steps sub else None)"

text \<open>Some wildcard on the way has another chunk.\<close>

fun collides :: "trie_step list \<Rightarrow> 'e trie \<Rightarrow> bool" where
  "collides [] n = False"
| "collides (CharStep c # steps) n = (case map_of (children n) c of
     None \<Rightarrow> False | Some sub \<Rightarrow> collides steps sub)"
| "collides (WildStep m # steps) n = (case wildcard n of
     None \<Rightarrow> False | Some (m', sub) \<Rightarrow> chunk m' \<noteq> chunk m \<or> collides steps sub)"

lemma steps_cases [case_names Nil CharStep WildStep]:
  obtains "s = []" | c s' where "s = CharStep c # s'" | m s' where "s = WildStep m # s'"
  by (cases s; cases "hd s") auto

lemma lookup_make_node [simp]: "trie_lookup steps make_node = None" "\<not> collides steps make_node"
  by (cases steps rule: steps_cases; simp add: make_node_def)+

lemma same_route_simps [simp]:
  "same_route [] s \<longleftrightarrow> s = []" "same_route s [] \<longleftrightarrow> s = []"
  "same_route (CharStep c # s) (CharStep d # t) \<longleftrightarrow> c = d \<and> same_route s t"
  "same_route (WildStep m # s) (WildStep m' # t) \<longleftrightarrow> chunk m = chunk m' \<and> same_route s t"
  "\<not> same_route (CharStep c # s) (WildStep m # t)" "\<not> same_route (WildStep m # s) (CharStep c # t)"
  by (auto simp: same_route_def)

definition insert_outcome :: "trie_step list \<Rightarrow> 'e \<Rightarrow> 'e trie \<Rightarrow> fault option \<times> 'e trie \<Rightarrow> bool" where
  "insert_outcome steps ep n res \<longleftrightarrow>
     (if collides steps n \<or> trie_lookup steps n \<noteq> None
      then fst res = Some (Err AlreadyExists) \<and> (\<forall>s. trie_lookup s (snd res) = trie_lookup s n)
      else fst res = None \<and> (\<forall>s. trie_lookup s (snd res) =
        (if same_route s steps then Some ep else trie_lookup s n)))"

lemma lookup_set_endpoint:
  "trie_lookup s (TrieNode ch w e) = (if s = [] then e else trie_lookup s (TrieNode ch w e'))"
  by (cases s rule: steps_cases) auto

lemma lookup_set_child:
  "trie_lookup s (TrieNode (set_child c sub ch) w e) =
     (case s of CharStep d # s' \<Rightarrow> if d = c then trie_lookup s' sub else trie_lookup s (TrieNode ch w e)
      | _ \<Rightarrow> trie_lookup s (TrieNode ch w e))"
  by (cases s rule: steps_cases) auto

lemma build_path_outcome: "insert_outcome steps ep n (build_path steps (mount_here ep) n)"
proof (induction steps "mount_here ep" n rule: build_path.induct)
  case (1 n)
  then show ?case
    by (cases n) (auto simp: insert_outcome_def mount_here_def lookup_set_endpoint [of _ _ _ "Some ep" None]
        split: option.splits)
next
  case (2 c steps ch w e)
  let ?sub = "case map_of ch c of None \<Rightarrow> make_node | Some n \<Rightarrow> n"
  obtain r sub' where sub': "build_path steps (mount_here ep) ?sub = (r, sub')"
    by (cases "build_path steps (mount_here ep) ?sub")
  have IH: "insert_outcome steps ep ?sub (r, sub')" using 2 sub' by simp
  have lookup: "trie_lookup s ?sub = (case map_of ch c of None \<Rightarrow> None | Some n \<Rightarrow> trie_lookup s n)" for s
    by (simp split: option.splits)
  have collide: "collides steps ?sub = collides (CharStep c # steps) (TrieNode ch w e)"
    by (simp split: option.splits)
  have step: "trie_lookup s (TrieNode (set_child c sub' ch) w e) =
      (if same_route s (CharStep c # steps) then Some ep else trie_lookup s (TrieNode ch w e))"
    if "\<And>s. trie_lookup s sub' = (if same_route s steps then Some ep else trie_lookup s ?sub)" for s
    by (cases s rule: steps_cases) (auto simp: lookup_set_child that lookup)
  have stay: "trie_lookup s (TrieNode (set_child c sub' ch) w e) = trie_lookup s (TrieNode ch w e)"
    if "\<And>s. trie_lookup s sub' = trie_lookup s ?sub" for s
    by (cases s rule: steps_cases) (auto simp: lookup_set_child that lookup)
  show ?case
    using IH step stay lookup [of steps] collide sub' by (simp add: insert_outcome_def split: if_splits)
next
  case (3 m steps ch w e)
  show ?case
  proof (cases w)
    case None
    obtain r sub' where sub': "build_path steps (mount_here ep) make_node = (r, sub')"
      by (cases "build_path steps (mount_here ep) (make_node :: 'a trie)")
    have "insert_outcome steps ep make_node (r, sub')" using 3(1) None sub' by simp
    then have "r = None" "\<And>s. trie_lookup s sub' = (if same_route s steps then Some ep else None)"
      by (simp_all add: insert_outcome_def)
    moreover from this have "trie_lookup s (TrieNode ch (Some (m, sub')) e) =
        (if same_route s (WildStep m # steps) then Some ep else trie_lookup s (TrieNode ch None e))" for s
      by (cases s rule: steps_cases) auto
    ultimately show ?thesis using None sub' by (simp add: insert_outcome_def)
  next
    case (Some p)
    obtain m' sub where p: "p = (m', sub)" by (cases p)
    show ?thesis
    proof (cases "chunk m' = chunk m")
      case False
      then show ?thesis using Some p by (simp add: insert_outcome_def)
    next
      case True
      obtain r sub' where sub': "build_path steps (mount_here ep) sub = (r, sub')"
        by (cases "build_path steps (mount_here ep) sub")
      have IH: "insert_outcome steps ep sub (r, sub')"
        using 3(2) [OF Some p [symmetric]] True unfolding sub' by simp
      have step: "trie_lookup s (TrieNode ch (Some (m', sub')) e) =
          (if same_route s (WildStep m # steps) then Some ep else trie_lookup s (TrieNode ch (Some (m', sub)) e))"
        if "\<And>s. trie_lookup s sub' = (if same_route s steps then Some ep else trie_lookup s sub)" for s
        using True by (cases s rule: steps_cases) (auto simp: that)
      have stay: "trie_lookup s (TrieNode ch (Some (m', sub')) e) = trie_lookup s (TrieNode ch (Some (m', sub)) e)"
        if "\<And>s. trie_lookup s sub' = trie_lookup s sub" for s
        by (cases s rule: steps_cases) (auto simp: that)
      show ?thesis
        using IH step stay Some p True sub' by (simp add: insert_outcome_def split: if_splits)
    qed
  qed
qed

text \<open>
  C5: Inserting an endpoint is a partial map update. For a mount path with at least one
  matcher, the insertion succeeds exactly when no wildcard on the way has another chunk and
  nothing is mounted at the end of the route; it then mounts the endpoint under this route
  and changes no other route. Otherwise it throws AlreadyExists and every route keeps its
  endpoint, even though nodes may have been added on the way. A mount path without matchers
  writes to the root's missing endpoint: undefined behaviour.
\<close>

theorem trie_insert_outcome:
  "if ms = [] then fst (trie_insert ms ep root) = Some Undefined_behaviour
   else if collides (path_steps ms) root \<or> (\<exists>e. trie_lookup (path_steps ms) root = Some e)
   then fst (trie_insert ms ep root) = Some (Err AlreadyExists) \<and>
     (\<forall>s. trie_lookup s (snd (trie_insert ms ep root)) = trie_lookup s root)
   else fst (trie_insert ms ep root) = None \<and>
     (\<forall>s. trie_lookup s (snd (trie_insert ms ep root)) =
        (if same_route s (path_steps ms) then Some ep else trie_lookup s root))"
  using build_path_outcome [of "path_steps ms" ep root]
  by (auto simp: trie_insert_def insert_outcome_def)

section \<open>What a walk finds\<close>

text \<open>
  A sequence of steps follows a path from position \<open>i\<close>: a character step takes the character
  there, a wildcard step takes as many characters as its matcher's value is long.
\<close>

fun follows :: "regex_lib \<Rightarrow> string \<Rightarrow> nat \<Rightarrow> trie_step list \<Rightarrow> nat \<Rightarrow> bool" where
  "follows rx path i [] j \<longleftrightarrow> i = j"
| "follows rx path i (CharStep c # steps) j \<longleftrightarrow>
     i < length path \<and> path ! i = c \<and> follows rx path (i + 1) steps j"
| "follows rx path i (WildStep m # steps) j \<longleftrightarrow> i < length path \<and>
     (case matcher_match rx m (wild_part path i) of
        None \<Rightarrow> False | Some v \<Rightarrow> follows rx path (i + length v) steps j)"

fun trie_node :: "trie_step list \<Rightarrow> 'e trie \<Rightarrow> 'e trie option" where
  "trie_node [] n = Some n"
| "trie_node (CharStep c # steps) n = (case map_of (children n) c of
     None \<Rightarrow> None | Some sub \<Rightarrow> trie_node steps sub)"
| "trie_node (WildStep m # steps) n = (case wildcard n of
     None \<Rightarrow> None | Some (m', sub) \<Rightarrow> if m' = m then trie_node steps sub else None)"

lemma follows_append:
  "follows rx path i (s @ t) k \<longleftrightarrow> (\<exists>j. follows rx path i s j \<and> follows rx path j t k)"
  by (induction rx path i s k rule: follows.induct) (auto split: option.splits)

lemma trie_node_append:
  "trie_node (s @ t) n = (case trie_node s n of None \<Rightarrow> None | Some n' \<Rightarrow> trie_node t n')"
  by (induction s n rule: trie_node.induct) (auto split: option.splits)

lemma trie_node_lookup: "trie_node s n = Some n' \<Longrightarrow> trie_lookup s n = endpoint n'"
  by (induction s n rule: trie_node.induct) (auto split: option.splits if_splits)

definition visited :: "regex_lib \<Rightarrow> string \<Rightarrow> 'e trie \<Rightarrow> 'e trie \<Rightarrow> nat \<Rightarrow> bool" where
  "visited rx path root n i \<longleftrightarrow> (\<exists>s. trie_node s root = Some n \<and> follows rx path 0 s i)"

definition stack_visited :: "regex_lib \<Rightarrow> string \<Rightarrow> 'e trie \<Rightarrow> 'e wild_stack \<Rightarrow> bool" where
  "stack_visited rx path root st \<longleftrightarrow>
     (\<forall>(w, i)\<in>set st. i < length path \<and> (\<exists>n. visited rx path root n i \<and> wildcard n = Some w))"

lemma visited_child:
  assumes "visited rx path root n i" "map_of (children n) (path ! i) = Some n'" "i < length path"
  shows "visited rx path root n' (i + 1)"
proof -
  from assms(1) obtain s where "trie_node s root = Some n" "follows rx path 0 s i"
    by (auto simp: visited_def)
  with assms(2,3) have "trie_node (s @ [CharStep (path ! i)]) root = Some n'"
    "follows rx path 0 (s @ [CharStep (path ! i)]) (i + 1)"
    by (auto simp: trie_node_append follows_append)
  then show ?thesis unfolding visited_def by blast
qed

lemma visited_wild:
  assumes "visited rx path root n i" "wildcard n = Some (m, n')" "i < length path"
    "matcher_match rx m (wild_part path i) = Some v"
  shows "visited rx path root n' (i + length v)"
proof -
  from assms(1) obtain s where "trie_node s root = Some n" "follows rx path 0 s i"
    by (auto simp: visited_def)
  with assms(2-4) have "trie_node (s @ [WildStep m]) root = Some n'"
    "follows rx path 0 (s @ [WildStep m]) (i + length v)"
    by (auto simp: trie_node_append follows_append)
  then show ?thesis unfolding visited_def by blast
qed

lemma walk_back_visited:
  "walk_back rx path st = Some (k, v, j, n, st') \<Longrightarrow> stack_visited rx path root st \<Longrightarrow>
     visited rx path root n j \<and> stack_visited rx path root st'"
proof (induction rx path st rule: walk_back.induct)
  case (2 rx path m n0 i st)
  then show ?case
    using visited_wild [of rx path root _ i m n0]
    by (auto simp: stack_visited_def split: option.splits)
qed simp

lemma push_visited:
  "stack_visited rx path root st \<Longrightarrow> visited rx path root n i \<Longrightarrow> i < length path \<Longrightarrow>
     stack_visited rx path root (push_wildcard n i st)"
  by (auto simp: stack_visited_def push_wildcard_def split: option.splits)

lemma walk_visited:
  "walk_path rx path n i st params = Some (params', n') \<Longrightarrow> visited rx path root n i \<Longrightarrow>
     stack_visited rx path root st \<Longrightarrow> \<exists>j \<ge> length path. visited rx path root n' j"
proof (induction rx path n i st params rule: walk_path.induct)
  case (1 rx path n i st params)
  show ?case
  proof (cases "i < length path")
    case False
    then show ?thesis using "1.prems" by (auto simp: walk_path.simps intro!: exI [of _ i])
  next
    case True
    let ?st = "push_wildcard n i st"
    have st: "stack_visited rx path root ?st" using "1.prems" True by (intro push_visited)
    show ?thesis
    proof (cases "map_of (children n) (path ! i)")
      case (Some sub)
      have "walk_path rx path sub (i + 1) ?st params = Some (params', n')"
        using "1.prems"(1) True Some by (simp add: walk_path.simps [of rx path n])
      from "1.IH"(2) [OF True refl Some this visited_child [OF "1.prems"(2) Some True] st]
      show ?thesis .
    next
      case None
      with "1.prems"(1) True obtain k v j sub st' where bk:
        "walk_back rx path ?st = Some (k, v, j, sub, st')"
        "walk_path rx path sub j st' (headers_assign k v params) = Some (params', n')"
        by (auto simp: walk_path.simps [of rx path n] Let_def split: option.splits)
      with walk_back_visited [OF bk(1) st] "1.IH"(1) [OF True refl None bk(1) refl refl refl refl bk(2)]
      show ?thesis by auto
    qed
  qed
qed

text \<open>
  Soundness of routing. When the trie answers a path with an endpoint, that endpoint is
  mounted in the trie under a sequence of steps that follows the path to its end: literal
  characters are those of the path, and every wildcard on the way accepted its part of it.
\<close>

theorem trie_match_sound:
  assumes "trie_match rx root path = Inr (Some (params, ep))"
  shows "\<exists>steps j. trie_lookup steps root = Some ep \<and> follows rx path 0 steps j \<and> length path \<le> j"
proof -
  from assms obtain n where n: "walk_path rx path root 0 [] [] = Some (params, n)" "endpoint n = Some ep"
    by (auto simp: trie_match_def split: option.splits if_splits)
  have "visited rx path root root 0"
    unfolding visited_def by (rule exI [of _ "[]"]) simp
  then obtain j where j: "length path \<le> j" "visited rx path root n j"
    using walk_visited [OF n(1), of root] by (auto simp: stack_visited_def)
  then obtain s where "trie_node s root = Some n" "follows rx path 0 s j"
    by (auto simp: visited_def)
  with n(2) j(1) trie_node_lookup show ?thesis by fastforce
qed

lemma trie_match_sound_witness:
  "trie_match no_regex (TrieNode [(SEP, TrieNode [] None (Some (7 :: nat)))] None None) ''/'' = Inr (Some ([], 7)) \<and>
   (\<exists>steps j. trie_lookup steps (TrieNode [(SEP, TrieNode [] None (Some (7 :: nat)))] None None) = Some 7 \<and>
     follows no_regex ''/'' 0 steps j \<and> length ''/'' \<le> j)"
proof -
  have "trie_match no_regex (TrieNode [(SEP, TrieNode [] None (Some (7 :: nat)))] None None) ''/'' = Inr (Some ([], 7))"
    by (simp add: trie_match_def walk_path.simps push_wildcard_def SEP_def)
  with trie_match_sound [OF this] show ?thesis by blast
qed

section \<open>Literal routes\<close>

lemma walk_literal:
  assumes "trie_node (map CharStep (drop i path)) n = Some n'"
  shows "walk_path rx path n i st params = Some (params, n')"
  using assms
proof (induction "length path - i" arbitrary: i n st)
  case 0
  then show ?case by (simp add: walk_path.simps)
next
  case (Suc k)
  then have i: "i < length path" by simp
  then have "drop i path = path ! i # drop (Suc i) path" by (simp add: Cons_nth_drop_Suc)
  with Suc.prems obtain sub where sub: "map_of (children n) (path ! i) = Some sub"
    "trie_node (map CharStep (drop (Suc i) path)) sub = Some n'"
    by (auto split: option.splits)
  with Suc.hyps(1) [of "Suc i" sub] Suc.hyps(2) i show ?case
    by (simp add: walk_path.simps [of rx path n])
qed

lemma lookup_trie_node:
  "trie_lookup (map CharStep p) n = Some ep \<Longrightarrow> \<exists>n'. trie_node (map CharStep p) n = Some n' \<and> endpoint n' = Some ep"
  by (induction p arbitrary: n) (auto split: option.splits)

lemma path_steps_literal:
  "list_all is_literal ms \<Longrightarrow> path_steps ms = map CharStep (concat (map (\<lambda>m. SEP # chunk m) ms))"
  by (induction ms) (auto simp: path_steps_def matcher_steps_def)

lemma literal_lookup_match:
  assumes "list_all is_literal ms" "ms \<noteq> []" "trie_lookup (path_steps ms) t = Some ep"
  shows "trie_match rx t (concat (map (\<lambda>m. SEP # chunk m) ms)) = Inr (Some ([], ep))"
proof -
  obtain n where n: "trie_node (path_steps ms) t = Some n" "endpoint n = Some ep"
    using assms(3) lookup_trie_node path_steps_literal [OF assms(1)] by metis
  then have "walk_path rx (concat (map (\<lambda>m. SEP # chunk m) ms)) t 0 [] [] = Some ([], n)"
    using path_steps_literal [OF assms(1)] by (intro walk_literal) simp
  with n(2) assms(2) show ?thesis by (cases ms) (simp_all add: trie_match_def)
qed

text \<open>
  A literal route is served, whatever else is mounted: right after the insertion of a
  route of literals succeeds, the trie answers exactly its path with its endpoint and no
  parameters, wildcards on the way notwithstanding.
\<close>

theorem literal_route_served:
  assumes "list_all is_literal ms" "trie_insert ms ep root = (None, root')"
  shows "trie_match rx root' (concat (map (\<lambda>m. SEP # chunk m) ms)) = Inr (Some ([], ep))"
proof -
  have ms: "ms \<noteq> []" using assms(2) by (auto simp: trie_insert_def)
  have "trie_lookup (path_steps ms) root' = Some ep"
    using build_path_outcome [of "path_steps ms" ep root] assms(2) ms
    by (auto simp: trie_insert_def insert_outcome_def same_route_def split: if_splits)
  then show ?thesis by (rule literal_lookup_match [OF assms(1) ms])
qed

lemma literal_route_served_witness:
  "trie_match no_regex (snd (trie_insert [LiteralPathMatcher ''a''] (1 :: nat) make_node)) ''/a'' = Inr (Some ([], 1))"
proof -
  have "fst (trie_insert [LiteralPathMatcher ''a''] (1 :: nat) make_node) = None"
    by (simp add: trie_insert_def path_steps_def matcher_steps_def make_node_def mount_here_def)
  then have "trie_insert [LiteralPathMatcher ''a''] (1 :: nat) make_node =
      (None, snd (trie_insert [LiteralPathMatcher ''a''] 1 make_node))" by (simp add: prod_eq_iff)
  from literal_route_served [OF _ this, of no_regex] show ?thesis by (simp add: SEP_def)
qed

section \<open>Routes with parameters\<close>

text \<open>The trie of a single route.\<close>

fun chain :: "trie_step list \<Rightarrow> 'e \<Rightarrow> 'e trie" where
  "chain [] ep = TrieNode [] None (Some ep)"
| "chain (CharStep c # steps) ep = TrieNode [(c, chain steps ep)] None None"
| "chain (WildStep m # steps) ep = TrieNode [] (Some (m, chain steps ep)) None"

lemma build_chain: "build_path steps (mount_here ep) make_node = (None, chain steps ep)"
  by (induction steps ep rule: chain.induct)
    (simp_all add: make_node_def mount_here_def)

lemma insert_chain: "ms \<noteq> [] \<Longrightarrow> trie_insert ms ep make_node = (None, chain (path_steps ms) ep)"
  by (simp add: trie_insert_def build_chain)

text \<open>
  The parts a route takes in the trie: a literal part exactly as written, and for any other
  matcher a part that it accepts as a whole.
\<close>

fun takes_parts :: "regex_lib \<Rightarrow> path_matcher list \<Rightarrow> string list \<Rightarrow> bool" where
  "takes_parts rx [] [] = True"
| "takes_parts rx (m # ms) (q # qs) =
     ((if is_literal m then chunk m = q else matcher_match rx m q = Some q) \<and> takes_parts rx ms qs)"
| "takes_parts rx _ _ = False"

fun part_parameters :: "path_matcher list \<Rightarrow> string list \<Rightarrow> headers \<Rightarrow> headers" where
  "part_parameters (m # ms) (q # qs) params =
     part_parameters ms qs (if is_literal m then params else headers_assign (matcher_name m) q params)"
| "part_parameters _ _ params = params"

lemmas walk_node = walk_path.simps [of _ _ "TrieNode ch w e" for ch w e]

lemma walk_chain_chars:
  assumes "path = pre @ cs @ rest"
  shows "walk_path rx path (chain (map CharStep cs @ steps) ep) (length pre) st params =
    walk_path rx path (chain steps ep) (length pre + length cs) st params"
  using assms
proof (induction cs arbitrary: pre)
  case (Cons c cs)
  have "walk_path rx path (chain (map CharStep cs @ steps) ep) (length (pre @ [c])) st params =
      walk_path rx path (chain steps ep) (length (pre @ [c]) + length cs) st params"
    using Cons.prems by (intro Cons.IH) simp
  with Cons.prems show ?case
    by (simp add: walk_node push_wildcard_def)
qed simp

lemma wild_part_eq:
  assumes "path = pre @ q @ rest" "part_ok q" "rest = [] \<or> hd rest = SEP"
  shows "wild_part path (length pre) = q"
proof -
  obtain c q' where q: "q = c # q'" using assms(2) by (cases q) (auto simp: part_ok_def)
  have "takeWhile (\<lambda>c. c \<noteq> SEP) (q' @ rest) = q'"
    using assms(2,3) q by (intro takeWhile_append_stop) (auto simp: part_ok_def list_all_iff)
  with assms(1) q show ?thesis by (simp add: wild_part_def)
qed

lemma walk_chain_wild:
  assumes "path = pre @ q @ rest" "part_ok q" "rest = [] \<or> hd rest = SEP" "matcher_match rx m q = Some v"
  shows "walk_path rx path (chain (WildStep m # steps) ep) (length pre) [] params =
    walk_path rx path (chain steps ep) (length pre + length v) [] (headers_assign (matcher_name m) v params)"
proof -
  have "length pre < length path" using assms(1,2) by (auto simp: part_ok_def)
  with assms(4) wild_part_eq [OF assms(1-3)] show ?thesis
    by (simp add: walk_node push_wildcard_def)
qed

lemma path_steps_Cons: "path_steps (m # ms) = CharStep SEP #
    (if is_literal m then map CharStep (chunk m) else [WildStep m]) @ path_steps ms"
  by (simp add: path_steps_def matcher_steps_def)

lemma url_of_start: "url_of qs = [] \<or> hd (url_of qs) = SEP"
  by (cases qs) simp_all

lemma walk_chain:
  assumes "path = pre @ url_of qs" "list_all part_ok qs" "takes_parts rx ms qs"
  shows "walk_path rx path (chain (path_steps ms) ep) (length pre) [] params =
    Some (part_parameters ms qs params, chain [] ep)"
  using assms
proof (induction rx ms qs arbitrary: pre params rule: takes_parts.induct)
  case (1 rx)
  then show ?case by (simp add: path_steps_def walk_path.simps)
next
  case (2 rx m ms q qs)
  let ?p = "pre @ [SEP]" and ?e = "pre @ SEP # q"
  have path: "path = ?p @ q @ url_of qs" using "2.prems"(1) by simp
  have q: "part_ok q" using "2.prems"(2) by simp
  have sep: "walk_path rx path (chain (CharStep SEP # steps) ep) (length pre) [] params =
      walk_path rx path (chain steps ep) (length ?p) [] params" for steps
    using walk_chain_chars [of path pre "[SEP]" "q @ url_of qs"] "2.prems"(1) by simp
  have rest: "walk_path rx path (chain (path_steps ms) ep) (length ?e) [] params' =
      Some (part_parameters ms qs params', chain [] ep)" for params'
    using "2.prems" by (intro "2.IH") simp_all
  show ?case
  proof (cases "is_literal m")
    case True
    with "2.prems"(3) have "chunk m = q" by simp
    with True sep rest [of params] walk_chain_chars [OF path, of rx "path_steps ms" ep "[]" params]
    show ?thesis by (simp add: path_steps_Cons del: chain.simps)
  next
    case False
    with "2.prems"(3) have "matcher_match rx m q = Some q" by simp
    with False sep rest walk_chain_wild [OF path q url_of_start, of rx m q "path_steps ms" ep params]
    show ?thesis by (simp add: path_steps_Cons del: chain.simps)
  qed
qed simp_all

text \<open>
  A single route with parameters is served: in the trie that holds only this route, a
  path whose literal parts are exactly the route's and whose other parts are accepted as a
  whole by their matchers is answered with the route's endpoint, each such part under its
  matcher's name.
\<close>

theorem single_route_served:
  assumes "ms \<noteq> []" "list_all part_ok qs" "takes_parts rx ms qs"
  shows "trie_match rx (snd (trie_insert ms ep make_node)) (url_of qs) =
    Inr (Some (part_parameters ms qs [], ep))"
proof -
  have "walk_path rx (url_of qs) (chain (path_steps ms) ep) 0 [] [] =
      Some (part_parameters ms qs [], chain [] ep)"
    using walk_chain [of "url_of qs" "[]" qs rx ms ep "[]"] assms by simp
  moreover have "qs \<noteq> []" using assms(1,3) by (cases ms) auto
  then have "url_of qs \<noteq> []" by (cases qs) simp_all
  ultimately show ?thesis using assms(1) by (simp add: insert_chain trie_match_def)
qed

lemma single_route_served_witness:
  "trie_match no_regex (snd (trie_insert [LiteralPathMatcher ''u'', ParameterPathMatcher '':id'' ''id'' []]
     (1 :: nat) make_node)) (url_of [''u'', ''bob'']) = Inr (Some ([(''id'', ''bob'')], 1))"
  using single_route_served [of "[LiteralPathMatcher ''u'', ParameterPathMatcher '':id'' ''id'' []]"
      "[''u'', ''bob'']" no_regex "1 :: nat"]
  by (simp add: part_ok_def SEP_def parameter_match_def headers_assign_def)

text \<open>
  A parameter with a file extension is never routed: the walk continues behind the
  parameter's value, in front of the extension, where the node behind the wildcard has no
  child, so the trie that holds only such a route answers no path of one part.
\<close>

theorem extension_route_unreachable:
  assumes "x \<noteq> []" "part_ok q"
  shows "trie_match rx (snd (trie_insert [ParameterPathMatcher ch n x] ep make_node)) (url_of [q]) = Inr None"
proof -
  let ?m = "ParameterPathMatcher ch n x" and ?path = "url_of [q]"
  have path: "?path = [SEP] @ q @ []" by simp
  have steps: "path_steps [?m] = [CharStep SEP, WildStep ?m]"
    by (simp add: path_steps_def matcher_steps_def)
  have first: "walk_path rx ?path (chain (path_steps [?m]) ep) 0 [] [] =
      walk_path rx ?path (chain [WildStep ?m] ep) (length [SEP]) [] []"
    using walk_chain_chars [of ?path "[]" "[SEP]" q rx "[WildStep ?m]" ep "[]" "[]"] steps by simp
  have none: "walk_path rx ?path (chain [WildStep ?m] ep) (length [SEP]) [] [] = None"
  proof (cases "matcher_match rx ?m q")
    case None
    moreover have "q \<noteq> []" using assms(2) by (simp add: part_ok_def)
    ultimately show ?thesis
      using wild_part_eq [OF path assms(2)]
      by (simp add: walk_node push_wildcard_def)
  next
    case (Some v)
    with assms(1) have v: "length v < length q"
      by (cases x) (auto simp: parameter_match_def Let_def split: if_splits)
    have "walk_path rx ?path (chain [WildStep ?m] ep) (length [SEP]) [] [] =
        walk_path rx ?path (chain [] ep) (length [SEP] + length v) [] (headers_assign n v [])"
      using walk_chain_wild [OF path assms(2) _ Some, of "[]" ep "[]"] by simp
    also have "\<dots> = None"
      using v by (simp add: walk_node push_wildcard_def)
    finally show ?thesis .
  qed
  show ?thesis using first none by (simp add: insert_chain trie_match_def)
qed

text \<open>The path that \<open>MountPath::match\<close> accepts for the same route.\<close>

lemma extension_route_unreachable_witness:
  "mount_match no_regex [ParameterPathMatcher '':f.js'' ''f'' ''.js''] (url_of [''a.js'']) = Inr (Some [(''f'', ''a'')]) \<and>
   trie_match no_regex (snd (trie_insert [ParameterPathMatcher '':f.js'' ''f'' ''.js''] (1 :: nat) make_node))
     (url_of [''a.js'']) = Inr None"
proof -
  have q: "part_ok ''a.js''" by (simp add: part_ok_def SEP_def)
  have eq: "ci_equal ''.js'' ''.js''" by (simp add: ci_equal_iff)
  have "mount_match no_regex [ParameterPathMatcher '':f.js'' ''f'' ''.js''] (url_of [''a.js'']) =
      Inr (match_parts no_regex [ParameterPathMatcher '':f.js'' ''f'' ''.js''] [''a.js''] [])"
    using q by (intro mount_match_reference) simp
  moreover have "match_parts no_regex [ParameterPathMatcher '':f.js'' ''f'' ''.js''] [''a.js''] [] = Some [(''f'', ''a'')]"
    using eq by (simp add: parameter_match_def headers_assign_def)
  ultimately show ?thesis
    using extension_route_unreachable [OF _ q, of "''.js''"] by simp
qed

end
