(* ===== verification/Http_Request.thy ===== *)
theory Http_Request
  imports Headers
begin

text \<open>
  Incoming HTTP requests (\<open>src/lw/http/http_request.h\<close> and \<open>.cpp\<close>): the request object, and
  the parser of its header with the method line, the query parameters, the header lines and
  the content length.

  The bytes that \<open>_connection.read_until\<close> delivers are an argument. Fields that were set
  before the parser throws stay set, because the router looks at them afterwards.
\<close>

section \<open>The request\<close>

record http_request =
  rq_raw_header :: string
  rq_http_version :: string
  rq_method :: string
  rq_path :: string
  rq_raw_path :: string
  rq_headers :: headers
  rq_query_params :: headers
  rq_route_params :: headers
  rq_content_length :: int

definition http_request_new :: http_request where
  "http_request_new = \<lparr>rq_raw_header = [], rq_http_version = [], rq_method = [], rq_path = [],
     rq_raw_path = [], rq_headers = [], rq_query_params = [], rq_route_params = [],
     rq_content_length = -1\<rparr>"

definition has_header :: "http_request \<Rightarrow> string \<Rightarrow> bool" where
  "has_header r name \<longleftrightarrow> map_contains ci_less name (rq_headers r)"

definition header :: "http_request \<Rightarrow> string \<Rightarrow> string res" where
  "header r name = map_at ci_less name (rq_headers r)"

definition has_query_param :: "http_request \<Rightarrow> string \<Rightarrow> bool" where
  "has_query_param r name \<longleftrightarrow> map_contains ci_less name (rq_query_params r)"

definition query_param :: "http_request \<Rightarrow> string \<Rightarrow> string res" where
  "query_param r name = map_at ci_less name (rq_query_params r)"

definition has_route_param :: "http_request \<Rightarrow> string \<Rightarrow> bool" where
  "has_route_param r name \<longleftrightarrow> map_contains ci_less name (rq_route_params r)"

definition route_param :: "http_request \<Rightarrow> string \<Rightarrow> string res" where
  "route_param r name = map_at ci_less name (rq_route_params r)"

definition set_route_params :: "headers \<Rightarrow> http_request \<Rightarrow> http_request" where
  "set_route_params params r = r\<lparr>rq_route_params := params\<rparr>"

text \<open>\<open>content_length()\<close> returns the signed member as a \<open>size_t\<close>.\<close>

definition content_length :: "http_request \<Rightarrow> size_t" where
  "content_length r = of_int (rq_content_length r)"

section \<open>Scanning\<close>

abbreviation CR :: char where "CR \<equiv> CHR 0x0D"
abbreviation LF :: char where "LF \<equiv> CHR 0x0A"
abbreviation CRLF :: string where "CRLF \<equiv> [CR, LF]"

text \<open>\<open>while (i < h.size() && p(h.at(i))) ++i;\<close>\<close>

definition advance :: "(char \<Rightarrow> bool) \<Rightarrow> string \<Rightarrow> nat \<Rightarrow> nat" where
  "advance p h i = i + length (takeWhile p (drop i h))"

definition check_is_space :: "string \<Rightarrow> nat \<Rightarrow> unit res" where
  "check_is_space h i =
     (if i \<ge> length h then Inl (Err InvalidArgument)
      else if \<not> isspace (h ! i) \<or> h ! i = CR \<or> h ! i = LF then Inl (Err InvalidArgument)
      else Inr ())"

definition check_not_line_end :: "string \<Rightarrow> nat \<Rightarrow> unit res" where
  "check_not_line_end h i =
     (if i \<ge> length h then Inl (Err InvalidArgument)
      else if h ! i = CR \<or> h ! i = LF then Inl (Err InvalidArgument)
      else Inr ())"

section \<open>Query parameters\<close>

definition insert_view_pairs ::
    "string \<Rightarrow> nat \<Rightarrow> nat \<Rightarrow> nat \<Rightarrow> nat \<Rightarrow> headers \<Rightarrow> headers res" where
  "insert_view_pairs view key_start key_end value_start value_end pairs =
     (if key_start \<ge> key_end then Inr pairs
      else bind_res (substr view key_start (key_end - key_start)) (\<lambda>k.
           bind_res (substr view value_start
               (if value_start \<ge> value_end then 0 else value_end - value_start)) (\<lambda>v.
             Inr (headers_insert k v pairs))))"

record query_state =
  q_parsing_key :: bool
  q_key_start :: nat
  q_key_end :: nat
  q_value_start :: nat
  q_params :: headers

definition query_step :: "string \<Rightarrow> nat \<Rightarrow> query_state \<Rightarrow> query_state res" where
  "query_step s i q =
     (let c = s ! i;
          q1 = (if q_parsing_key q
                then q\<lparr>q_key_end := i, q_value_start := i + 1, q_parsing_key := (c \<noteq> CHR ''='')\<rparr>
                else q)
      in if c = CHR ''&'' then
           map_res (\<lambda>ps. \<lparr>q_parsing_key = True, q_key_start = i + 1, q_key_end = i + 1,
               q_value_start = i + 1, q_params = ps\<rparr>)
             (insert_view_pairs s (q_key_start q1) (q_key_end q1) (q_value_start q1) i (q_params q1))
         else Inr q1)"

fun query_loop :: "string \<Rightarrow> nat list \<Rightarrow> query_state \<Rightarrow> query_state res" where
  "query_loop s [] q = Inr q"
| "query_loop s (i # is) q = bind_res (query_step s i q) (query_loop s is)"

definition parse_query_params :: "string \<Rightarrow> headers \<Rightarrow> headers res" where
  "parse_query_params s params =
     bind_res (query_loop s [0 ..< length s]
       \<lparr>q_parsing_key = True, q_key_start = 0, q_key_end = 0, q_value_start = 0, q_params = params\<rparr>)
     (\<lambda>q. if q_key_start q \<noteq> length s
          then insert_view_pairs s (q_key_start q) (q_key_end q) (q_value_start q) (length s) (q_params q)
          else Inr (q_params q))"

section \<open>Header lines\<close>

text \<open>The loop that looks for the colon, and \<open>find("\r\n", i)\<close>.\<close>

fun find_colon :: "string \<Rightarrow> nat res" where
  "find_colon [] = Inl (Err InvalidArgument)"
| "find_colon (c # s) =
     (if c = CHR '':'' then Inr 0
      else if c = CR \<or> c = LF then Inl (Err InvalidArgument)
      else map_res Suc (find_colon s))"

fun find_crlf :: "string \<Rightarrow> nat option" where
  "find_crlf (a # b # s) = (if a = CR \<and> b = LF then Some 0 else map_option Suc (find_crlf (b # s)))"
| "find_crlf _ = None"

definition parse_header_line :: "string \<Rightarrow> (string \<times> string \<times> string) res" where
  "parse_header_line h =
     bind_res (find_colon h) (\<lambda>colon_pos.
       let i = advance (\<lambda>c. isspace c \<and> c \<noteq> CR \<and> c \<noteq> LF) h (colon_pos + 1)
       in if i \<ge> length h then Inl (Err InvalidArgument)
          else (case find_crlf (drop i h) of
              None \<Rightarrow> Inl (Err InvalidArgument)
            | Some n \<Rightarrow> Inr (take colon_pos h, take n (drop i h), drop (i + n + 2) h)))"

lemma find_colon_ok: "find_colon h = Inr n \<Longrightarrow> n < length h"
  by (induction h arbitrary: n) (auto simp: map_res_eq_Inr_iff split: if_splits)

lemma find_crlf_ok: "find_crlf h = Some n \<Longrightarrow> n + 2 \<le> length h"
  by (induction h arbitrary: n rule: find_crlf.induct) (auto split: if_splits)

lemma parse_header_line_shrinks:
  "parse_header_line h = Inr (k, v, rest) \<Longrightarrow> length rest < length h"
  by (auto simp: parse_header_line_def bind_res_eq_Inr_iff Let_def split: if_splits option.splits
      dest!: find_crlf_ok)

function parse_headers :: "string \<Rightarrow> (http_request, unit) prog" where
  "parse_headers h r =
     (if starts_with h CRLF then (Inr (), r)
      else case parse_header_line h of
          Inl e \<Rightarrow> (Inl e, r)
        | Inr (k, v, rest) \<Rightarrow> parse_headers rest (r\<lparr>rq_headers := headers_insert k v (rq_headers r)\<rparr>))"
  by pat_completeness auto
termination
  by (relation "measure (\<lambda>(h, r). length h)") (auto dest: parse_header_line_shrinks)

declare parse_headers.simps [simp del]

section \<open>The method line, the content length and the whole header\<close>

text \<open>\<open>_parse_method_line\<close> in its three parts; each returns the position behind it.\<close>

definition parse_verb :: "string \<Rightarrow> (http_request, nat) prog" where
  "parse_verb h =
     (let i = advance (\<lambda>c. \<not> isspace c) h 0 in
      bind_prog (lift_res (check_is_space h i)) (\<lambda>_.
      bind_prog (modify (\<lambda>r. r\<lparr>rq_method := take i h\<rparr>)) (\<lambda>_. ret i)))"

definition parse_query :: "string \<Rightarrow> nat \<Rightarrow> (http_request, nat) prog" where
  "parse_query h path_end r =
     (if path_end < length h \<and> h ! path_end = CHR ''?'' then
        (let i = advance (\<lambda>c. \<not> isspace c) h path_end in
         bind_prog (lift_res (check_is_space h i)) (\<lambda>_.
         bind_prog (lift_res (substr h (path_end + 1) (i - path_end))) (\<lambda>q.
         bind_prog (lift_res (parse_query_params q (rq_query_params r))) (\<lambda>ps.
         bind_prog (modify (\<lambda>r. r\<lparr>rq_query_params := ps\<rparr>)) (\<lambda>_. ret i)))) r)
      else ret path_end r)"

definition parse_target :: "string \<Rightarrow> nat \<Rightarrow> (http_request, nat) prog" where
  "parse_target h start =
     (let path_end = advance (\<lambda>c. \<not> isspace c \<and> c \<noteq> CHR ''?'') h start in
      bind_prog (parse_query h path_end) (\<lambda>i.
      bind_prog (lift_res (check_is_space h i)) (\<lambda>_.
      bind_prog (lift_res (substr h start (path_end - start))) (\<lambda>path.
      bind_prog (modify (\<lambda>r. r\<lparr>rq_path := path\<rparr>)) (\<lambda>_.
      bind_prog (lift_res (substr h start (i - start))) (\<lambda>raw_path.
      bind_prog (modify (\<lambda>r. r\<lparr>rq_raw_path := raw_path\<rparr>)) (\<lambda>_. ret i)))))))"

definition parse_version :: "string \<Rightarrow> nat \<Rightarrow> (http_request, nat) prog" where
  "parse_version h start =
     (let i = advance (\<lambda>c. \<not> isspace c) h start in
      if i + 1 \<ge> length h then lift_res (Inl (Err InvalidArgument))
      else if h ! i \<noteq> CR \<or> h ! (i + 1) \<noteq> LF then lift_res (Inl (Err InvalidArgument))
      else bind_prog (lift_res (substr h start (i - start))) (\<lambda>version.
           bind_prog (modify (\<lambda>r. r\<lparr>rq_http_version := version\<rparr>)) (\<lambda>_. ret (i + 2))))"

definition parse_method_line :: "string \<Rightarrow> (http_request, nat) prog" where
  "parse_method_line h =
     bind_prog (parse_verb h) (\<lambda>i.
     bind_prog (parse_target h (i + 1)) (\<lambda>i'. parse_version h (i' + 1)))"

definition parse_content_length :: "(http_request, unit) prog" where
  "parse_content_length r =
     (if \<not> has_header r ''content-length'' then (Inr (), r\<lparr>rq_content_length := 0\<rparr>)
      else case header r ''content-length'' of
          Inl e \<Rightarrow> (Inl e, r)
        | Inr s \<Rightarrow>
            (case from_chars True int64_min int64_max s of (n, ec, v) \<Rightarrow>
               let r' = (case v of None \<Rightarrow> r | Some l \<Rightarrow> r\<lparr>rq_content_length := l\<rparr>)
               in if n \<noteq> length s \<or> rq_content_length r' < 0 then (Inl (Err InvalidArgument), r')
                  else (Inr (), r')))"

definition read_header :: "string \<Rightarrow> (http_request, unit) prog" where
  "read_header raw r =
     (if rq_raw_header r \<noteq> [] then (Inl (Err FailedPrecondition), r)
      else bind_prog (modify (\<lambda>r. r\<lparr>rq_raw_header := raw\<rparr>)) (\<lambda>_.
           bind_prog (parse_method_line raw) (\<lambda>method_line_end.
           bind_prog (parse_headers (drop method_line_end raw)) (\<lambda>_.
             parse_content_length))) r)"

section \<open>The body\<close>

text \<open>What \<open>body()\<close> asks of the connection.\<close>

datatype body_request = Resolved_empty | Read_bytes size_t

definition body :: "http_request \<Rightarrow> body_request res" where
  "body r =
     (if content_length r = 0 then Inr Resolved_empty
      else if content_length r > 0 then Inr (Read_bytes (content_length r))
      else Inl (Err Internal))"

section \<open>No position is out of range\<close>

lemma advance_ge: "i \<le> advance p h i"
  by (simp add: advance_def)

lemma advance_le: "i \<le> length h \<Longrightarrow> advance p h i \<le> length h"
  using length_takeWhile_le [of p "drop i h"] by (simp add: advance_def)

lemma check_is_space_ok: "check_is_space h i = Inr u \<Longrightarrow> i < length h"
  by (auto simp: check_is_space_def split: if_splits)

lemma check_is_space_error: "check_is_space h i = Inl f \<Longrightarrow> f = Err InvalidArgument"
  by (auto simp: check_is_space_def split: if_splits)

lemma insert_view_pairs_ok:
  "ks \<le> length s \<Longrightarrow> vs \<le> length s \<Longrightarrow> \<exists>ps'. insert_view_pairs s ks ke vs ve ps = Inr ps'"
  by (simp add: insert_view_pairs_def substr_def)

definition query_inv :: "nat \<Rightarrow> query_state \<Rightarrow> bool" where
  "query_inv i q \<longleftrightarrow> q_key_start q \<le> i \<and> q_value_start q \<le> i"

lemma query_step_inv:
  assumes "query_inv i q" "i < length s"
  shows "\<exists>q'. query_step s i q = Inr q' \<and> query_inv (Suc i) q'"
proof -
  define q1 where "q1 = (if q_parsing_key q
    then q\<lparr>q_key_end := i, q_value_start := i + 1, q_parsing_key := (s ! i \<noteq> CHR ''='')\<rparr> else q)"
  have "q_key_start q1 \<le> length s" "q_value_start q1 \<le> length s" "query_inv (Suc i) q1"
    using assms by (simp_all add: q1_def query_inv_def)
  moreover from this obtain ps where
    "insert_view_pairs s (q_key_start q1) (q_key_end q1) (q_value_start q1) i (q_params q1) = Inr ps"
    using insert_view_pairs_ok by blast
  ultimately show ?thesis
    by (auto simp: query_step_def q1_def [symmetric] Let_def query_inv_def)
qed

lemma query_loop_inv:
  "query_inv i q \<Longrightarrow> i + n \<le> length s \<Longrightarrow> \<exists>q'. query_loop s [i ..< i + n] q = Inr q' \<and> query_inv (i + n) q'"
proof (induction n arbitrary: i q)
  case (Suc n)
  then obtain q1 where q1: "query_step s i q = Inr q1" "query_inv (Suc i) q1"
    using query_step_inv [of i q s] by auto
  with Suc.IH [OF q1(2)] Suc.prems show ?case by (simp add: upt_conv_Cons del: upt_Suc)
qed simp

lemma parse_query_params_total: "\<exists>ps'. parse_query_params s ps = Inr ps'"
proof -
  let ?q = "\<lparr>q_parsing_key = True, q_key_start = 0, q_key_end = 0, q_value_start = 0, q_params = ps\<rparr>"
  have "query_inv 0 ?q" by (simp add: query_inv_def)
  from query_loop_inv [OF this, of "length s" s] obtain q where
    q: "query_loop s [0 ..< length s] ?q = Inr q" "query_inv (length s) q" by auto
  then show ?thesis
    using insert_view_pairs_ok [of "q_key_start q" s "q_value_start q"]
    by (auto simp: parse_query_params_def query_inv_def)
qed

lemma substr_in_range: "i \<le> length h \<Longrightarrow> substr h i n = Inr (take n (drop i h))"
  by (simp add: substr_def)

text \<open>
  \<open>step_outcome P r m\<close>: run on \<open>r\<close>, the part \<open>m\<close> leaves the raw header, the header map and
  the content length alone, and either refuses the text or returns a position with \<open>P\<close>.
\<close>

definition step_outcome :: "(nat \<Rightarrow> bool) \<Rightarrow> http_request \<Rightarrow> (http_request, nat) prog \<Rightarrow> bool" where
  "step_outcome P r m \<longleftrightarrow> rq_raw_header (snd (m r)) = rq_raw_header r \<and>
     rq_headers (snd (m r)) = rq_headers r \<and> rq_content_length (snd (m r)) = rq_content_length r \<and>
     (case fst (m r) of Inl f \<Rightarrow> f = Err InvalidArgument | Inr n \<Rightarrow> P n)"

lemma step_outcome_bind:
  assumes "step_outcome P r m" "\<And>n r'. P n \<Longrightarrow> step_outcome Q r' (f n)"
  shows "step_outcome Q r (bind_prog m f)"
proof (cases "m r")
  case (Pair out r')
  with assms(1) assms(2) [of _ r'] show ?thesis
    by (cases out) (auto simp: step_outcome_def bind_prog_def)
qed

lemma parse_verb_outcome: "step_outcome (\<lambda>i. i < length h) r (parse_verb h)"
  using check_is_space_ok [of h] check_is_space_error [of h]
  by (cases "check_is_space h (advance (\<lambda>c. \<not> isspace c) h 0)")
    (auto simp: step_outcome_def parse_verb_def Let_def)

lemma parse_query_outcome: "step_outcome (\<lambda>i. path_end \<le> i) r (parse_query h path_end)"
proof (cases "path_end < length h \<and> h ! path_end = CHR ''?''")
  case True
  let ?i = "advance (\<lambda>c. \<not> isspace c) h path_end"
  obtain ps where "parse_query_params (take (?i - path_end) (drop (path_end + 1) h)) (rq_query_params r) = Inr ps"
    using parse_query_params_total by blast
  with True show ?thesis
    using check_is_space_error [of h ?i] advance_ge [of path_end _ h]
    by (cases "check_is_space h ?i")
      (auto simp: step_outcome_def parse_query_def Let_def substr_in_range)
next
  case False
  then show ?thesis by (auto simp: step_outcome_def parse_query_def)
qed

lemma parse_target_outcome:
  assumes "start \<le> length h"
  shows "step_outcome (\<lambda>i. i < length h) r (parse_target h start)"
  unfolding parse_target_def Let_def
proof (rule step_outcome_bind [OF parse_query_outcome])
  fix i r'
  assume "advance (\<lambda>c. \<not> isspace c \<and> c \<noteq> CHR ''?'') h start \<le> i"
  then show "step_outcome (\<lambda>i. i < length h) r' (bind_prog (lift_res (check_is_space h i)) (\<lambda>_.
      bind_prog (lift_res (substr h start (advance (\<lambda>c. \<not> isspace c \<and> c \<noteq> CHR ''?'') h start - start))) (\<lambda>path.
      bind_prog (modify (\<lambda>r. r\<lparr>rq_path := path\<rparr>)) (\<lambda>_.
      bind_prog (lift_res (substr h start (i - start))) (\<lambda>raw_path.
      bind_prog (modify (\<lambda>r. r\<lparr>rq_raw_path := raw_path\<rparr>)) (\<lambda>_. ret i))))))"
    using check_is_space_ok [of h i] check_is_space_error [of h i] assms
    by (cases "check_is_space h i") (auto simp: step_outcome_def substr_in_range)
qed

lemma parse_version_outcome:
  assumes "start \<le> length h"
  shows "step_outcome (\<lambda>i. i \<le> length h) r (parse_version h start)"
  using assms by (auto simp: step_outcome_def parse_version_def Let_def substr_in_range)

lemma parse_method_line_outcome: "step_outcome (\<lambda>i. i \<le> length h) r (parse_method_line h)"
  unfolding parse_method_line_def
proof (rule step_outcome_bind [OF parse_verb_outcome])
  show "step_outcome (\<lambda>i. i \<le> length h) r'
      (bind_prog (parse_target h (i + 1)) (\<lambda>i'. parse_version h (i' + 1)))" if "i < length h" for i r'
  proof (rule step_outcome_bind [OF parse_target_outcome])
    show "i + 1 \<le> length h" using that by simp
    show "step_outcome (\<lambda>i. i \<le> length h) r'' (parse_version h (j + 1))" if "j < length h" for j r''
      using that by (intro parse_version_outcome) simp
  qed
qed

lemma find_colon_error: "find_colon h = Inl f \<Longrightarrow> f = Err InvalidArgument"
  by (induction h) (auto split: if_splits)

lemma parse_header_line_error: "parse_header_line h = Inl f \<Longrightarrow> f = Err InvalidArgument"
  using find_colon_error [of h]
  by (auto simp: parse_header_line_def bind_res_eq_Inl_iff Let_def split: if_splits option.splits)

lemma parse_headers_outcome:
  "(case fst (parse_headers h r) of Inl f \<Rightarrow> f = Err InvalidArgument | Inr _ \<Rightarrow> True) \<and>
   rq_raw_header (snd (parse_headers h r)) = rq_raw_header r \<and>
   rq_content_length (snd (parse_headers h r)) = rq_content_length r"
proof (induction h r rule: parse_headers.induct)
  case (1 h r)
  show ?case
  proof (cases "parse_header_line h")
    case (Inl e)
    with parse_header_line_error show ?thesis by (simp add: parse_headers.simps [of h])
  next
    case (Inr p)
    obtain k v rest where "p = (k, v, rest)" by (cases p)
    with Inr 1 show ?thesis by (cases "starts_with h CRLF") (simp_all add: parse_headers.simps [of h])
  qed
qed

lemma from_chars_range: "from_chars sg lo hi s = (n, ec, Some v) \<Longrightarrow> lo \<le> v \<and> v \<le> hi"
  by (auto simp: from_chars_def Let_def split: if_splits)

lemma parse_content_length_outcome:
  assumes "rq_content_length r < 0"
  shows "(case fst (parse_content_length r) of
      Inl f \<Rightarrow> f = Err InvalidArgument
    | Inr _ \<Rightarrow> 0 \<le> rq_content_length (snd (parse_content_length r)) \<and>
        rq_content_length (snd (parse_content_length r)) \<le> int64_max) \<and>
    rq_raw_header (snd (parse_content_length r)) = rq_raw_header r"
proof (cases "header r ''content-length''")
  case (Inl e)
  then have "\<not> has_header r ''content-length''"
    by (auto simp: header_def has_header_def map_at_def map_contains_def split: option.splits)
  then show ?thesis by (simp add: parse_content_length_def)
next
  case (Inr s)
  obtain n ec v where fc: "from_chars True int64_min int64_max s = (n, ec, v)"
    by (cases "from_chars True int64_min int64_max s")
  show ?thesis
    using Inr assms fc from_chars_range [of True int64_min int64_max s n ec]
    by (cases v) (auto simp: parse_content_length_def Let_def)
qed

lemma read_header_again: "rq_raw_header r \<noteq> [] \<Longrightarrow> read_header raw r = (Inl (Err FailedPrecondition), r)"
  by (simp add: read_header_def)

text \<open>
  C36: Reading a header ends for every text. On a request that has no header yet it either
  throws InvalidArgument or succeeds, and then the content length is between 0 and the
  largest signed 64-bit integer; no view is taken out of range. In both cases the raw text is
  kept, so that reading a non-empty header once more throws FailedPrecondition and changes
  nothing.
\<close>

theorem read_header_outcome:
  "(case fst (read_header raw http_request_new) of
      Inl f \<Rightarrow> f = Err InvalidArgument
    | Inr _ \<Rightarrow> 0 \<le> rq_content_length (snd (read_header raw http_request_new)) \<and>
        rq_content_length (snd (read_header raw http_request_new)) \<le> int64_max) \<and>
   (let r = snd (read_header raw http_request_new)
    in if raw = [] then rq_raw_header r = [] else read_header raw2 r = (Inl (Err FailedPrecondition), r))"
proof -
  let ?r = "http_request_new\<lparr>rq_raw_header := raw\<rparr>"
  obtain out1 r1 where line: "parse_method_line raw ?r = (out1, r1)"
    by (cases "parse_method_line raw ?r")
  have l: "rq_raw_header r1 = raw" "rq_content_length r1 = -1"
      "case out1 of Inl f \<Rightarrow> f = Err InvalidArgument | Inr n \<Rightarrow> n \<le> length raw"
    using parse_method_line_outcome [of raw ?r] line by (simp_all add: step_outcome_def http_request_new_def)
  have start: "read_header raw http_request_new =
      bind_prog (parse_method_line raw) (\<lambda>e. bind_prog (parse_headers (drop e raw)) (\<lambda>_. parse_content_length)) ?r"
    by (simp add: read_header_def http_request_new_def)
  have kept: "rq_raw_header (snd (read_header raw http_request_new)) = raw \<and>
      (case fst (read_header raw http_request_new) of
        Inl f \<Rightarrow> f = Err InvalidArgument
      | Inr _ \<Rightarrow> 0 \<le> rq_content_length (snd (read_header raw http_request_new)) \<and>
          rq_content_length (snd (read_header raw http_request_new)) \<le> int64_max)"
  proof (cases out1)
    case (Inl f)
    with l line start show ?thesis by (simp add: bind_prog_def)
  next
    case (Inr e)
    obtain out2 r2 where heads: "parse_headers (drop e raw) r1 = (out2, r2)"
      by (cases "parse_headers (drop e raw) r1")
    then have h: "rq_raw_header r2 = raw" "rq_content_length r2 < 0"
        "case out2 of Inl f \<Rightarrow> f = Err InvalidArgument | Inr _ \<Rightarrow> True"
      using parse_headers_outcome [of "drop e raw" r1] l by simp_all
    show ?thesis
      using h parse_content_length_outcome [OF h(2)] Inr line heads start
      by (cases out2) (auto simp: bind_prog_def split: sum.splits)
  qed
  then show ?thesis using read_header_again [of "snd (read_header raw http_request_new)" raw2]
    by (auto simp: Let_def)
qed

section \<open>Reading well-formed requests\<close>

subsection \<open>Query strings\<close>

definition pair_text :: "string \<times> string \<Rightarrow> string" where
  "pair_text p = fst p @ ''='' @ snd p"

fun query_text :: "(string \<times> string) list \<Rightarrow> string" where
  "query_text [] = []"
| "query_text [p] = pair_text p"
| "query_text (p # ps) = pair_text p @ ''&'' @ query_text ps"

definition query_pair_ok :: "string \<times> string \<Rightarrow> bool" where
  "query_pair_ok p \<longleftrightarrow> fst p \<noteq> [] \<and> CHR ''='' \<notin> set (fst p) \<and> CHR ''&'' \<notin> set (fst p) \<and>
     CHR ''&'' \<notin> set (snd p)"

definition insert_all :: "(string \<times> string) list \<Rightarrow> headers \<Rightarrow> headers" where
  "insert_all ps h = fold (\<lambda>(k, v). headers_insert k v) ps h"

lemma query_loop_append:
  "query_loop s (is @ js) q = bind_res (query_loop s is q) (query_loop s js)"
proof (induction "is" arbitrary: q)
  case (Cons i "is")
  then show ?case by (cases "query_step s i q") simp_all
qed simp

lemma query_loop_split:
  "i \<le> j \<Longrightarrow> j \<le> k \<Longrightarrow> query_loop s [i ..< j] q = Inr q1 \<Longrightarrow>
     query_loop s [i ..< k] q = query_loop s [j ..< k] q1"
  by (metis bind_res_Inr le_Suc_ex query_loop_append upt_add_eq_append)

lemma query_key_run:
  assumes "\<forall>i. b \<le> i \<and> i < b + n \<longrightarrow> s ! i \<noteq> CHR ''='' \<and> s ! i \<noteq> CHR ''&''" "q_parsing_key q"
  shows "\<exists>q'. query_loop s [b ..< b + n] q = Inr q' \<and> q_parsing_key q' \<and>
    q_key_start q' = q_key_start q \<and> q_params q' = q_params q"
  using assms
proof (induction n arbitrary: b q)
  case (Suc n)
  let ?q = "q\<lparr>q_key_end := b, q_value_start := b + 1, q_parsing_key := True\<rparr>"
  have "query_step s b q = Inr ?q" using Suc.prems by (simp add: query_step_def)
  moreover have "\<exists>q'. query_loop s [Suc b ..< Suc b + n] ?q = Inr q' \<and> q_parsing_key q' \<and>
      q_key_start q' = q_key_start ?q \<and> q_params q' = q_params ?q"
    using Suc.prems by (intro Suc.IH) auto
  ultimately show ?case by (simp add: upt_conv_Cons del: upt_Suc)
qed simp

lemma query_value_run:
  assumes "\<forall>i. b \<le> i \<and> i < b + n \<longrightarrow> s ! i \<noteq> CHR ''&''" "\<not> q_parsing_key q"
  shows "query_loop s [b ..< b + n] q = Inr q"
  using assms
proof (induction n arbitrary: b)
  case (Suc n)
  then have "query_step s b q = Inr q" by (simp add: query_step_def)
  moreover have "query_loop s [Suc b ..< Suc b + n] q = Inr q" using Suc by (intro Suc.IH) auto
  ultimately show ?case by (simp add: upt_conv_Cons del: upt_Suc)
qed simp

lemma query_pair_run:
  assumes s: "s = pre @ pair_text (k, v) @ rest" and ok: "query_pair_ok (k, v)"
    and q: "q_parsing_key q" "q_key_start q = length pre"
  shows "query_loop s [length pre ..< length pre + length (pair_text (k, v))] q =
    Inr \<lparr>q_parsing_key = False, q_key_start = length pre, q_key_end = length pre + length k,
      q_value_start = length pre + length k + 1, q_params = q_params q\<rparr>"
    (is "_ = Inr ?q")
proof -
  let ?b = "length pre" and ?e = "length pre + length k" and ?z = "length pre + length (pair_text (k, v))"
  have key: "s ! i \<noteq> CHR ''='' \<and> s ! i \<noteq> CHR ''&''" if "?b \<le> i \<and> i < ?e" for i
  proof -
    have "i - ?b < length k" using that by auto
    then have "s ! i = k ! (i - ?b)" "k ! (i - ?b) \<in> set k"
      using that by (simp_all add: s pair_text_def nth_append)
    with ok show ?thesis by (auto simp: query_pair_ok_def)
  qed
  have val: "s ! i \<noteq> CHR ''&''" if "?e + 1 \<le> i \<and> i < ?z" for i
  proof -
    define j where "j = i - ?e - 1"
    have i: "i = length (pre @ k @ ''='') + j" "j < length v"
      using that by (auto simp: j_def pair_text_def)
    have "s = (pre @ k @ ''='') @ v @ rest" by (simp add: s pair_text_def)
    with i have "s ! i = v ! j" "v ! j \<in> set v" by (simp_all only: nth_append_length_plus nth_append nth_mem) simp_all
    with ok show ?thesis by (auto simp: query_pair_ok_def)
  qed
  obtain q1 where q1: "query_loop s [?b ..< ?e] q = Inr q1" "q_parsing_key q1" "q_key_start q1 = ?b"
      "q_params q1 = q_params q"
    using query_key_run [of ?b "length k" s q] key q by auto
  have "s ! ?e = CHR ''=''" by (simp add: s pair_text_def nth_append)
  then have eq: "query_step s ?e q1 = Inr ?q" using q1 by (simp add: query_step_def)
  have "query_loop s [?b ..< ?z] q = query_loop s [?e ..< ?z] q1"
    using q1(1) by (intro query_loop_split) (simp_all add: pair_text_def)
  also have "\<dots> = query_loop s [?e + 1 ..< ?e + 1 + length v] ?q"
    using eq by (simp add: upt_conv_Cons pair_text_def add.assoc del: upt_Suc)
  also have "\<dots> = Inr ?q"
    using val by (intro query_value_run) (simp_all add: pair_text_def)
  finally show ?thesis .
qed

lemma insert_pair:
  assumes s: "s = pre @ pair_text (k, v) @ rest" and ok: "query_pair_ok (k, v)"
  shows "insert_view_pairs s (length pre) (length pre + length k) (length pre + length k + 1)
    (length pre + length (pair_text (k, v))) ps = Inr (headers_insert k v ps)"
  using ok by (auto simp: s insert_view_pairs_def substr_def pair_text_def query_pair_ok_def)

lemma query_loop_pairs:
  assumes "s = pre @ query_text (p # ps)" "list_all query_pair_ok (p # ps)"
    and "q_parsing_key q" "q_key_start q = length pre"
  shows "bind_res (query_loop s [length pre ..< length s] q)
     (\<lambda>q. if q_key_start q \<noteq> length s
          then insert_view_pairs s (q_key_start q) (q_key_end q) (q_value_start q) (length s) (q_params q)
          else Inr (q_params q)) = Inr (insert_all (p # ps) (q_params q))"
  using assms
proof (induction ps arbitrary: pre p q)
  case Nil
  obtain k v where p: "p = (k, v)" by (cases p)
  have s: "s = pre @ pair_text (k, v) @ []" using Nil.prems(1) p by simp
  have "length s = length pre + length (pair_text (k, v))" "length pre \<noteq> length s"
    by (simp_all add: s pair_text_def)
  with query_pair_run [OF s _ Nil.prems(3,4)] insert_pair [OF s] Nil.prems(2) p show ?case
    by (simp add: insert_all_def)
next
  case (Cons p2 ps)
  obtain k v where p: "p = (k, v)" by (cases p)
  let ?z = "length pre + length (pair_text (k, v))"
  have s: "s = pre @ pair_text (k, v) @ CHR ''&'' # query_text (p2 # ps)" using Cons.prems(1) p by simp
  have ok: "query_pair_ok (k, v)" using Cons.prems(2) p by simp
  let ?q2 = "\<lparr>q_parsing_key = True, q_key_start = ?z + 1, q_key_end = ?z + 1, q_value_start = ?z + 1,
      q_params = headers_insert k v (q_params q)\<rparr>"
  note run = query_pair_run [OF s ok Cons.prems(3,4)]
  have amp: "s ! ?z = CHR ''&''" by (simp add: s nth_append)
  have "query_loop s [length pre ..< length s] q = query_loop s [?z ..< length s]
      \<lparr>q_parsing_key = False, q_key_start = length pre, q_key_end = length pre + length k,
      q_value_start = length pre + length k + 1, q_params = q_params q\<rparr>"
    using run by (intro query_loop_split) (simp_all add: s)
  also have "\<dots> = query_loop s [?z + 1 ..< length s] ?q2"
  proof -
    have "?z < length s" by (simp add: s)
    then have "[?z ..< length s] = ?z # [?z + 1 ..< length s]" by (simp add: upt_conv_Cons)
    with amp insert_pair [OF s ok] show ?thesis by (simp add: query_step_def)
  qed
  finally have loop: "query_loop s [length pre ..< length s] q = query_loop s [?z + 1 ..< length s] ?q2" .
  have z: "length (pre @ pair_text (k, v) @ ''&'') = ?z + 1" by simp
  have "s = (pre @ pair_text (k, v) @ ''&'') @ query_text (p2 # ps)" using s by simp
  note IH = Cons.IH [OF this, of ?q2, unfolded z]
  have "list_all query_pair_ok (p2 # ps)" using Cons.prems(2) by simp
  from IH [OF this] show ?case unfolding loop by (simp add: p insert_all_def)
qed

lemma parse_query_text:
  assumes "ps \<noteq> []" "list_all query_pair_ok ps"
  shows "parse_query_params (query_text ps) h = Inr (insert_all ps h)"
proof -
  obtain p ps' where ps: "ps = p # ps'" using assms(1) by (cases ps) auto
  show ?thesis
    using query_loop_pairs [of "query_text (p # ps')" "[]" p ps'
        "\<lparr>q_parsing_key = True, q_key_start = 0, q_key_end = 0, q_value_start = 0, q_params = h\<rparr>"] assms ps
    by (simp add: parse_query_params_def)
qed

subsection \<open>The method line\<close>

lemma advance_append:
  assumes "list_all p xs" "ys = [] \<or> \<not> p (hd ys)"
  shows "advance p (pre @ xs @ ys) (length pre) = length pre + length xs"
  using takeWhile_append_stop [OF assms] by (simp add: advance_def)

definition word_ok :: "string \<Rightarrow> bool" where
  "word_ok w \<longleftrightarrow> list_all (\<lambda>c. \<not> isspace c) w"

lemma isspace_blank [simp]: "isspace CHR '' ''" "isspace CR" "isspace LF"
  by (simp_all add: char_simps)

lemma parse_verb_text:
  assumes "word_ok m"
  shows "parse_verb (m @ '' '' @ x) r = (Inr (length m), r\<lparr>rq_method := m\<rparr>)"
  using advance_append [of "\<lambda>c. \<not> isspace c" m "'' '' @ x" "[]"] assms
  by (simp add: parse_verb_def Let_def word_ok_def check_is_space_def nth_append)

lemma parse_version_text:
  assumes "word_ok v"
  shows "parse_version (pre @ v @ CRLF @ x) (length pre) r =
    (Inr (length (pre @ v @ CRLF)), r\<lparr>rq_http_version := v\<rparr>)"
  using advance_append [of "\<lambda>c. \<not> isspace c" v "CRLF @ x" pre] assms
  by (simp add: parse_version_def Let_def word_ok_def nth_append substr_def)

text \<open>The part behind the question mark, if there is one.\<close>

definition target_text :: "string \<Rightarrow> (string \<times> string) list \<Rightarrow> string" where
  "target_text p ps = p @ (if ps = [] then [] else ''?'' @ query_text ps)"

text \<open>
  The view of the query that \<open>_parse_method_line\<close> passes on is one character too long: it
  includes the blank behind the target, which becomes part of the last value.
\<close>

definition with_blank :: "(string \<times> string) list \<Rightarrow> (string \<times> string) list" where
  "with_blank ps = (if ps = [] then [] else butlast ps @ [(fst (last ps), snd (last ps) @ '' '')])"

lemma query_text_blank: "ps \<noteq> [] \<Longrightarrow> query_text (with_blank ps) = query_text ps @ '' ''"
proof (induction ps rule: query_text.induct)
  case (3 p p2 ps)
  then show ?case by (cases "butlast (p2 # ps)") (auto simp: with_blank_def)
qed (simp_all add: with_blank_def pair_text_def)

lemma with_blank_ok: "list_all query_pair_ok ps \<Longrightarrow> list_all query_pair_ok (with_blank ps)"
  by (auto simp: with_blank_def list_all_iff query_pair_ok_def dest: in_set_butlastD)

lemma with_blank_Nil [simp]: "with_blank ps = [] \<longleftrightarrow> ps = []" "with_blank [] = []"
  by (simp_all add: with_blank_def)

lemma parse_target_plain:
  assumes "word_ok p" "CHR ''?'' \<notin> set p"
  shows "parse_target (pre @ p @ '' '' @ x) (length pre) r =
    (Inr (length (pre @ p)), r\<lparr>rq_path := p, rq_raw_path := p\<rparr>)"
proof -
  have "list_all (\<lambda>c. \<not> isspace c \<and> c \<noteq> CHR ''?'') p"
    using assms by (auto simp: word_ok_def list_all_iff)
  then show ?thesis
    using advance_append [of "\<lambda>c. \<not> isspace c \<and> c \<noteq> CHR ''?''" p "'' '' @ x" pre]
    by (simp add: parse_target_def parse_query_def Let_def check_is_space_def nth_append substr_def
        bind_prog_def)
qed

lemma parse_target_query:
  assumes p: "word_ok p" "CHR ''?'' \<notin> set p" and ps: "ps \<noteq> []" "list_all query_pair_ok ps"
    and q: "word_ok (query_text ps)"
  shows "parse_target (pre @ p @ ''?'' @ query_text ps @ '' '' @ x) (length pre) r =
    (Inr (length (pre @ p @ ''?'' @ query_text ps)),
     r\<lparr>rq_query_params := insert_all (with_blank ps) (rq_query_params r),
       rq_path := p, rq_raw_path := p @ ''?'' @ query_text ps\<rparr>)"
proof -
  let ?h = "pre @ p @ ''?'' @ query_text ps @ '' '' @ x"
  let ?e = "length (pre @ p)" and ?i = "length (pre @ p @ ''?'' @ query_text ps)"
  have "list_all (\<lambda>c. \<not> isspace c \<and> c \<noteq> CHR ''?'') p"
    using p by (auto simp: word_ok_def list_all_iff)
  then have e: "advance (\<lambda>c. \<not> isspace c \<and> c \<noteq> CHR ''?'') ?h (length pre) = ?e"
    using advance_append [of "\<lambda>c. \<not> isspace c \<and> c \<noteq> CHR ''?''" p "''?'' @ query_text ps @ '' '' @ x" pre]
    by simp
  have i: "advance (\<lambda>c. \<not> isspace c) ?h ?e = ?i"
    using advance_append [of "\<lambda>c. \<not> isspace c" "''?'' @ query_text ps" "'' '' @ x" "pre @ p"] q
    by (simp add: word_ok_def char_simps)
  have chars: "?h ! ?e = CHR ''?''" "?h ! ?i = CHR '' ''" "?i < length ?h" "?e < length ?h"
    by (simp_all add: nth_append)
  have "take (?i - ?e) (drop (?e + 1) ?h) = query_text ps @ '' ''" by simp
  then have sub: "substr ?h (?e + 1) (?i - ?e) = Inr (query_text (with_blank ps))"
    using chars(4) query_text_blank [OF ps(1)] by (simp add: substr_def)
  have par: "parse_query_params (query_text (with_blank ps)) (rq_query_params r) =
      Inr (insert_all (with_blank ps) (rq_query_params r))"
    using ps with_blank_ok by (intro parse_query_text) simp_all
  have query: "parse_query ?h ?e r =
      (Inr ?i, r\<lparr>rq_query_params := insert_all (with_blank ps) (rq_query_params r)\<rparr>)"
    using i chars sub par unfolding parse_query_def Let_def by (simp add: check_is_space_def del: append_assoc)
  show ?thesis
    unfolding parse_target_def Let_def e
    using query chars by (simp add: bind_prog_def check_is_space_def substr_def)
qed

subsection \<open>Header lines\<close>

definition header_line :: "string \<times> string \<Rightarrow> string" where
  "header_line p = fst p @ '': '' @ snd p @ CRLF"

definition header_pair_ok :: "string \<times> string \<Rightarrow> bool" where
  "header_pair_ok p \<longleftrightarrow> CHR '':'' \<notin> set (fst p) \<and> CR \<notin> set (fst p) \<and> LF \<notin> set (fst p) \<and>
     CR \<notin> set (snd p) \<and> (snd p = [] \<or> \<not> isspace (hd (snd p)))"

lemma find_colon_text:
  "CHR '':'' \<notin> set k \<Longrightarrow> CR \<notin> set k \<Longrightarrow> LF \<notin> set k \<Longrightarrow> find_colon (k @ CHR '':'' # x) = Inr (length k)"
  by (induction k) auto

lemma find_crlf_text: "CR \<notin> set v \<Longrightarrow> find_crlf (v @ CRLF @ x) = Some (length v)"
proof (induction v)
  case (Cons c v)
  then show ?case by (cases "v @ CRLF @ x") auto
qed simp

lemma parse_header_line_text:
  assumes "header_pair_ok (k, v)"
  shows "parse_header_line (header_line (k, v) @ x) = Inr (k, v, x)"
proof -
  let ?h = "header_line (k, v) @ x"
  have h: "?h = (k @ '':'') @ '' '' @ v @ CRLF @ x" by (simp add: header_line_def)
  have colon: "find_colon ?h = Inr (length k)"
    using assms find_colon_text [of k] by (simp add: header_line_def header_pair_ok_def)
  have "v @ CRLF @ x \<noteq> []" "\<not> (isspace (hd (v @ CRLF @ x)) \<and> hd (v @ CRLF @ x) \<noteq> CR \<and> hd (v @ CRLF @ x) \<noteq> LF)"
    using assms by (cases v; auto simp: header_pair_ok_def)+
  then have "advance (\<lambda>c. isspace c \<and> c \<noteq> CR \<and> c \<noteq> LF) ?h (length (k @ '':'')) = length (k @ '':'') + length '' ''"
    unfolding h by (intro advance_append) simp_all
  then have i: "advance (\<lambda>c. isspace c \<and> c \<noteq> CR \<and> c \<noteq> LF) ?h (length k + 1) = length k + 2" by simp
  have d: "drop (length k + 2) ?h = v @ CRLF @ x" by (simp add: h)
  then have d2: "drop (length k + 2 + length v + 2) ?h = x"
    using drop_drop [of "length v + 2" "length k + 2" ?h] by (simp add: ac_simps)
  have "find_crlf (v @ CRLF @ x) = Some (length v)"
    using assms by (intro find_crlf_text) (simp add: header_pair_ok_def)
  then show ?thesis
    using colon i d d2 by (simp add: parse_header_line_def) (simp add: header_line_def)
qed

lemma header_line_start:
  assumes "header_pair_ok p"
  shows "\<not> starts_with (header_line p @ x) CRLF"
  using assms by (cases "fst p") (auto simp: header_line_def header_pair_ok_def)

lemma parse_headers_text:
  "list_all header_pair_ok hs \<Longrightarrow> parse_headers (concat (map header_line hs) @ CRLF @ x) r =
     (Inr (), r\<lparr>rq_headers := insert_all hs (rq_headers r)\<rparr>)"
proof (induction hs arbitrary: r)
  case Nil
  then show ?case by (simp add: parse_headers.simps insert_all_def)
next
  case (Cons p hs)
  obtain k v where p: "p = (k, v)" by (cases p)
  let ?x = "concat (map header_line hs) @ CRLF @ x"
  have "parse_headers (header_line p @ ?x) r =
      parse_headers ?x (r\<lparr>rq_headers := headers_insert k v (rq_headers r)\<rparr>)"
    using parse_header_line_text [of k v ?x] header_line_start [of p ?x] Cons.prems p
    by (subst parse_headers.simps) simp
  with Cons.IH [of "r\<lparr>rq_headers := headers_insert k v (rq_headers r)\<rparr>"] Cons.prems p
  show ?case by (simp add: insert_all_def)
qed

subsection \<open>Whole headers\<close>

definition request_text ::
    "string \<Rightarrow> string \<Rightarrow> (string \<times> string) list \<Rightarrow> string \<Rightarrow> (string \<times> string) list \<Rightarrow> string" where
  "request_text m p ps v hs =
     m @ '' '' @ target_text p ps @ '' '' @ v @ CRLF @ concat (map header_line hs) @ CRLF"

definition request_ok ::
    "string \<Rightarrow> string \<Rightarrow> (string \<times> string) list \<Rightarrow> string \<Rightarrow> (string \<times> string) list \<Rightarrow> bool" where
  "request_ok m p ps v hs \<longleftrightarrow> word_ok m \<and> word_ok p \<and> CHR ''?'' \<notin> set p \<and> word_ok (query_text ps) \<and>
     list_all query_pair_ok ps \<and> word_ok v \<and> list_all header_pair_ok hs"

text \<open>The length that the headers announce: none means 0.\<close>

definition announces :: "(string \<times> string) list \<Rightarrow> nat \<Rightarrow> bool" where
  "announces hs n \<longleftrightarrow> (case headers_find ''content-length'' (insert_all hs []) of
       None \<Rightarrow> n = 0
     | Some s \<Rightarrow> s = nat_to_string n \<and> int n \<le> int64_max)"

lemma parse_target_text:
  assumes "request_ok m p ps v hs"
  shows "parse_target (pre @ target_text p ps @ '' '' @ x) (length pre) r =
    (Inr (length (pre @ target_text p ps)),
     r\<lparr>rq_query_params := insert_all (with_blank ps) (rq_query_params r),
       rq_path := p, rq_raw_path := target_text p ps\<rparr>)"
proof (cases "ps = []")
  case True
  then show ?thesis
    using parse_target_plain [of p pre x r] assms by (simp add: target_text_def request_ok_def insert_all_def)
next
  case False
  then show ?thesis
    using parse_target_query [of p ps pre x r] assms by (simp add: target_text_def request_ok_def)
qed

lemma parse_method_line_text:
  assumes ok: "request_ok m p ps v hs"
  shows "parse_method_line (request_text m p ps v hs) r =
    (Inr (length (m @ '' '' @ target_text p ps @ '' '' @ v @ CRLF)),
     r\<lparr>rq_method := m, rq_query_params := insert_all (with_blank ps) (rq_query_params r),
       rq_path := p, rq_raw_path := target_text p ps, rq_http_version := v\<rparr>)"
proof -
  let ?y = "concat (map header_line hs) @ CRLF"
  let ?h = "request_text m p ps v hs"
  have h1: "?h = m @ '' '' @ (target_text p ps @ '' '' @ v @ CRLF @ ?y)" by (simp add: request_text_def)
  have h2: "?h = (m @ '' '') @ target_text p ps @ '' '' @ (v @ CRLF @ ?y)" by (simp add: request_text_def)
  have h3: "?h = (m @ '' '' @ target_text p ps @ '' '') @ v @ CRLF @ ?y" by (simp add: request_text_def)
  have words: "word_ok m" "word_ok v" using ok by (simp_all add: request_ok_def)
  have verb: "parse_verb ?h r = (Inr (length m), r\<lparr>rq_method := m\<rparr>)"
    unfolding h1 by (rule parse_verb_text [OF words(1)])
  have target: "parse_target ?h (length m + 1) r' =
      (Inr (length m + 1 + length (target_text p ps)),
       r'\<lparr>rq_query_params := insert_all (with_blank ps) (rq_query_params r'),
         rq_path := p, rq_raw_path := target_text p ps\<rparr>)" for r'
    using parse_target_text [OF ok, of "m @ '' ''" "v @ CRLF @ ?y" r'] unfolding h2 by simp
  have version: "parse_version ?h (length m + 1 + length (target_text p ps) + 1) r' =
      (Inr (length (m @ '' '' @ target_text p ps @ '' '' @ v @ CRLF)), r'\<lparr>rq_http_version := v\<rparr>)" for r'
    using parse_version_text [OF words(2), of "m @ '' '' @ target_text p ps @ '' ''" ?y r'] unfolding h3
    by simp
  show ?thesis
    using verb target version by (simp add: parse_method_line_def bind_prog_def)
qed

lemma parse_content_length_text:
  assumes "announces hs n" "rq_headers r = insert_all hs []"
  shows "parse_content_length r = (Inr (), r\<lparr>rq_content_length := int n\<rparr>)"
proof (cases "headers_find ''content-length'' (insert_all hs [])")
  case None
  with assms show ?thesis
    by (simp add: announces_def parse_content_length_def has_header_def map_contains_def headers_find_def)
next
  case (Some s)
  with assms(1) have s: "s = nat_to_string n" "int n \<le> int64_max" by (simp_all add: announces_def)
  have "from_chars True int64_min int64_max (nat_to_string n @ []) = (length (nat_to_string n), Ok, Some (int n))"
    using s(2) by (intro from_chars_nat) simp_all
  with Some assms(2) s show ?thesis
    by (simp add: parse_content_length_def has_header_def header_def map_contains_def map_at_def headers_find_def)
qed

lemma read_header_text:
  assumes "request_ok m p ps v hs" "announces hs n"
  shows "read_header (request_text m p ps v hs) http_request_new =
    (Inr (), \<lparr>rq_raw_header = request_text m p ps v hs, rq_http_version = v, rq_method = m,
       rq_path = p, rq_raw_path = target_text p ps, rq_headers = insert_all hs [],
       rq_query_params = insert_all (with_blank ps) [], rq_route_params = [],
       rq_content_length = int n\<rparr>)"
proof -
  let ?h = "request_text m p ps v hs"
  let ?r = "http_request_new\<lparr>rq_raw_header := ?h\<rparr>"
  let ?line = "m @ '' '' @ target_text p ps @ '' '' @ v @ CRLF"
  have h: "?h = ?line @ concat (map header_line hs) @ CRLF @ []" by (simp add: request_text_def)
  have "drop (length ?line) ?h = concat (map header_line hs) @ CRLF @ []"
    unfolding h by (rule append_eq_conv_conj [THEN iffD1, OF refl, THEN conjunct2, symmetric])
  then have "parse_headers (drop (length ?line) ?h) r =
      (Inr (), r\<lparr>rq_headers := insert_all hs (rq_headers r)\<rparr>)" for r
    using parse_headers_text [of hs "[]" r] assms(1) by (simp add: request_ok_def)
  with parse_method_line_text [OF assms(1), of ?r] parse_content_length_text [OF assms(2)]
  show ?thesis
    by (simp add: read_header_def http_request_new_def bind_prog_def)
qed

text \<open>
  C22: Reading a well-formed request back: for a request line and header lines in the usual
  form, \<open>read_header\<close> succeeds and sets the method, the path, the raw target, the version,
  the header map (the first of several fields with the same name up to case stays) and the
  announced content length. The query parameters are the pairs of the target with the blank
  behind the target appended to the last value.
\<close>

theorem read_header_wellformed:
  assumes "request_ok m p ps v hs" "announces hs n"
  shows "read_header (request_text m p ps v hs) http_request_new =
    (Inr (), \<lparr>rq_raw_header = request_text m p ps v hs, rq_http_version = v, rq_method = m,
       rq_path = p, rq_raw_path = target_text p ps, rq_headers = insert_all hs [],
       rq_query_params = insert_all (with_blank ps) [], rq_route_params = [],
       rq_content_length = int n\<rparr>)"
  using assms by (rule read_header_text)

definition sample_headers :: "(string \<times> string) list" where
  "sample_headers = [(''Host'', ''a''), (''CONTENT-length'', ''12'')]"

lemma read_header_wellformed_witness:
  "rq_query_params (snd (read_header (request_text ''GET'' ''/x'' [(''k'', ''v'')] ''HTTP/1.1'' sample_headers)
     http_request_new)) = [(''k'', ''v '')] \<and>
   rq_content_length (snd (read_header (request_text ''GET'' ''/x'' [(''k'', ''v'')] ''HTTP/1.1'' sample_headers)
     http_request_new)) = 12"
proof -
  have ok: "request_ok ''GET'' ''/x'' [(''k'', ''v'')] ''HTTP/1.1'' sample_headers"
    by (simp add: request_ok_def word_ok_def query_pair_ok_def header_pair_ok_def sample_headers_def
        pair_text_def char_simps)
  have twelve: "nat_to_string 12 = ''12''"
    by (simp add: nat_to_string.simps digit_char_def code_def flip: code_inject)
  have "announces sample_headers 12"
    by (simp add: announces_def sample_headers_def insert_all_def headers_insert_def headers_find_def
        ci_less_def ci_compare_def upper_value_def schar_def toupper_def islower_def code_def
        size_difference_exact twelve)
  from read_header_wellformed [OF ok this] show ?thesis
    by (simp add: with_blank_def insert_all_def headers_insert_def)
qed

text \<open>
  \<open>body()\<close> never throws Internal: with a content length of 0 it returns an empty
  buffer at once, otherwise it reads as many bytes as the length says. Because the length is
  converted to an unsigned type, a request whose header was not read asks for 2^64 - 1 bytes.
\<close>

theorem body_outcome:
  "body r = Inr (if (of_int (rq_content_length r) :: size_t) = 0 then Resolved_empty
      else Read_bytes (of_int (rq_content_length r))) \<and>
   body http_request_new = Inr (Read_bytes (2 ^ 64 - 1))"
proof -
  have "body r = Inr (if (of_int (rq_content_length r) :: size_t) = 0 then Resolved_empty
      else Read_bytes (of_int (rq_content_length r)))" for r
    by (simp add: body_def content_length_def word_neq_0_conv)
  then show ?thesis by (simp add: http_request_new_def)
qed

end
