(* ===== verification/Http_Response.thy ===== *)
theory Http_Response
  imports Http_Request
begin

text \<open>
  HTTP responses (\<open>src/lw/http/http_response.h\<close> and \<open>.cpp\<close>): the response object, its status
  messages, and the text that \<open>serialize\<close> sends. The stream and the buffer it is written to
  are the string they hold.
\<close>

section \<open>The response\<close>

record http_response =
  rs_status_code :: int
  rs_status_message :: string
  rs_headers :: headers
  rs_body :: string

definition http_response_new :: http_response where
  "http_response_new = \<lparr>rs_status_code = 0, rs_status_message = [], rs_headers = [], rs_body = []\<rparr>"

definition status_messages :: "(int \<times> string) list" where
  "status_messages =
     [(100, ''Continue''), (101, ''Switching Protocols''), (102, ''Processing''),
      (103, ''Early Hints''), (200, ''OK''), (201, ''Created''), (202, ''Accepted''),
      (203, ''Non-Authoritative Information''), (204, ''No Content''), (205, ''Reset Content''),
      (206, ''Partial Content''), (207, ''Multi-Status''), (208, ''Already Reported''),
      (226, ''IM Used''), (300, ''Multiple Choices''), (301, ''Moved Permanently''),
      (302, ''Found''), (303, ''See Other''), (304, ''Not Modified''), (305, ''Use Proxy''),
      (306, ''Switch Proxy''), (307, ''Temporary Redirect''), (308, ''Permanent Redirect''),
      (400, ''Bad Request''), (401, ''Unauthorized''), (402, ''Payment Required''),
      (403, ''Forbidden''), (404, ''Not Found''), (405, ''Method Not Allowed''),
      (406, ''Not Acceptable''), (407, ''Proxy Authentication Required''),
      (408, ''Request Timeout''), (409, ''Conflict''), (410, ''Gone''),
      (411, ''Length Required''), (412, ''Precondition Failed''), (413, ''Payload Too Large''),
      (414, ''URI Too Long''), (415, ''Unsupported Media Type''),
      (416, ''Range Not Satisfiable''), (417, ''Expectation Failed''),
      (418, ''I'' @ CHR 0x27 # ''m a teapot''), (421, ''Misdirected Request''),
      (422, ''Unprocessable Entity''), (423, ''Locked''), (424, ''Failed Dependency''),
      (425, ''Too Early''), (426, ''Upgrade Required''), (428, ''Precondition Required''),
      (429, ''Too Many Requests''), (431, ''Request Header Fields Too Large''),
      (451, ''Unavailable For Legal Reasons''), (500, ''Internal Server Error''),
      (501, ''Not Implemented''), (502, ''Bad Gateway''), (503, ''Service Unavailable''),
      (504, ''Gateway Timeout''), (505, ''HTTP Version Not Supported''),
      (506, ''Variant Also Negotiates''), (507, ''Insufficient Storage''),
      (508, ''Loop Detected''), (510, ''Not Extended''),
      (511, ''Network Authentication Required'')]"

text \<open>The enumeration \<open>Status\<close>, by name.\<close>

definition http_status :: "(string \<times> int) list" where
  "http_status =
     [(''CONTINUE'', 100), (''SWITCHING_PROTOCOLS'', 101), (''PROCESSING'', 102),
      (''EARLY_HINTS'', 103), (''OK'', 200), (''CREATED'', 201), (''ACCEPTED'', 202),
      (''NONAUTHORITATIVE_INFORMATION'', 203), (''NO_CONTENT'', 204), (''RESET_CONTENT'', 205),
      (''PARTIAL_CONTENT'', 206), (''MULTISTATUS'', 207), (''ALREADY_REPORTED'', 208),
      (''IM_USED'', 226), (''MULTIPLE_CHOICES'', 300), (''MOVED_PERMANENTLY'', 301),
      (''FOUND'', 302), (''SEE_OTHER'', 303), (''NOT_MODIFIED'', 304), (''USE_PROXY'', 305),
      (''SWITCH_PROXY'', 306), (''TEMPORARY_REDIRECT'', 307), (''PERMANENT_REDIRECT'', 308),
      (''BAD_REQUEST'', 400), (''UNAUTHORIZED'', 401), (''PAYMENT_REQUIRED'', 402),
      (''FORBIDDEN'', 403), (''NOT_FOUND'', 404), (''METHOD_NOT_ALLOWED'', 405),
      (''NOT_ACCEPTABLE'', 406), (''PROXY_AUTHENTICATION_REQUIRED'', 407),
      (''REQUEST_TIMEOUT'', 408), (''CONFLICT'', 409), (''GONE'', 410),
      (''LENGTH_REQUIRED'', 411), (''PRECONDITION_FAILED'', 412), (''PAYLOAD_TOO_LARGE'', 413),
      (''URI_TOO_LONG'', 414), (''UNSUPPORTED_MEDIA_TYPE'', 415),
      (''RANGE_NOT_SATISFIABLE'', 416), (''EXPECTATION_FAILED'', 417), (''IM_A_TEAPOT'', 418),
      (''MISDIRECTED_REQUEST'', 421), (''UNPROCESSABLE_ENTITY'', 422), (''LOCKED'', 423),
      (''FAILED_DEPENDENCY'', 424), (''TOO_EARLY'', 425), (''UPGRADE_REQUIRED'', 426),
      (''PRECONDITION_REQUIRED'', 428), (''TOO_MANY_REQUESTS'', 429),
      (''REQUEST_HEADER_FIELDS_TOO_LARGE'', 431), (''UNAVAILABLE_FOR_LEGAL_REASONS'', 451),
      (''INTERNAL_SERVER_ERROR'', 500), (''NOT_IMPLEMENTED'', 501), (''BAD_GATEWAY'', 502),
      (''SERVICE_UNAVAILABLE'', 503), (''GATEWAY_TIMEOUT'', 504),
      (''HTTP_VERSION_NOT_SUPPORTED'', 505), (''VARIANT_ALSO_NEGOTIATES'', 506),
      (''INSUFFICIENT_STORAGE'', 507), (''LOOP_DETECTED'', 508), (''NOT_EXTENDED'', 510),
      (''NETWORK_AUTHENTICATION_REQUIRED'', 511)]"

definition BAD_REQUEST :: int where "BAD_REQUEST = 400"

definition NOT_FOUND :: int where "NOT_FOUND = 404"

definition default_status_message :: "int \<Rightarrow> string res" where
  "default_status_message c = (case map_of status_messages c of
       None \<Rightarrow> Inl (Err InvalidArgument)
     | Some m \<Rightarrow> Inr m)"

definition status :: "http_response \<Rightarrow> int" where
  "status r = (if rs_status_code r \<noteq> 0 then rs_status_code r else 200)"

definition set_status :: "int \<Rightarrow> http_response \<Rightarrow> http_response" where
  "set_status c r = r\<lparr>rs_status_code := c, rs_status_message := []\<rparr>"

definition set_status_message :: "int \<Rightarrow> string \<Rightarrow> http_response \<Rightarrow> http_response" where
  "set_status_message c m r = r\<lparr>rs_status_code := c, rs_status_message := m\<rparr>"

definition status_message :: "http_response \<Rightarrow> string res" where
  "status_message r =
     (if rs_status_message r = [] then default_status_message (status r) else Inr (rs_status_message r))"

definition has_response_header :: "http_response \<Rightarrow> string \<Rightarrow> bool" where
  "has_response_header r name \<longleftrightarrow> map_contains ci_less name (rs_headers r)"

definition response_header :: "http_response \<Rightarrow> string \<Rightarrow> string res" where
  "response_header r name = (case headers_find name (rs_headers r) of
       None \<Rightarrow> Inl (Err NotFound)
     | Some v \<Rightarrow> Inr v)"

definition set_response_header :: "string \<Rightarrow> string \<Rightarrow> http_response \<Rightarrow> http_response" where
  "set_response_header name v r = (case headers_find name (rs_headers r) of
       None \<Rightarrow> r\<lparr>rs_headers := headers_insert name v (rs_headers r)\<rparr>
     | Some _ \<Rightarrow> r\<lparr>rs_headers := headers_assign name v (rs_headers r)\<rparr>)"

definition set_body :: "string \<Rightarrow> http_response \<Rightarrow> http_response" where
  "set_body b r = r\<lparr>rs_body := b\<rparr>"

section \<open>Serialization\<close>

definition status_line :: "http_response \<Rightarrow> string \<Rightarrow> string" where
  "status_line r m = ''HTTP/1.1 '' @ int_to_string (status r) @ '' '' @ m @ CRLF"

definition write_response :: "http_response \<Rightarrow> string res" where
  "write_response r =
     bind_res (status_message r) (\<lambda>m.
       Inr (status_line r m @
         concat (map (\<lambda>(key, v). key @ '': '' @ v @ CRLF) (rs_headers r)) @
         (if \<not> has_response_header r ''Content-Length''
          then ''Content-Length: '' @ nat_to_string (length (rs_body r)) @ CRLF else []) @
         CRLF @ rs_body r))"

definition serialize :: "http_response \<Rightarrow> string res" where
  "serialize r = write_response r"

section \<open>Properties\<close>

text \<open>The statuses of the enumeration are those with a default message.\<close>

lemma status_has_message:
  "default_status_message c = Inl (Err InvalidArgument) \<or> (\<exists>m. default_status_message c = Inr m)"
  "(\<exists>m. default_status_message c = Inr m) \<longleftrightarrow> c \<in> snd ` set http_status"
proof -
  have "map fst status_messages = map snd http_status"
    by (simp add: status_messages_def http_status_def)
  then have "fst ` set status_messages = snd ` set http_status" by (metis set_map)
  moreover have "(\<exists>m. default_status_message c = Inr m) \<longleftrightarrow> map_of status_messages c \<noteq> None"
    by (simp add: default_status_message_def split: option.split)
  ultimately show "(\<exists>m. default_status_message c = Inr m) \<longleftrightarrow> c \<in> snd ` set http_status"
    by (simp only: map_of_eq_None_iff) blast
qed (simp add: default_status_message_def split: option.split)

lemma set_response_header_find:
  assumes "headers_ok (rs_headers r)" "key_ok k" "key_ok q"
  shows "headers_find q (rs_headers (set_response_header k v r)) =
      (if ci_equal q k then Some v else headers_find q (rs_headers r))"
    "headers_ok (rs_headers (set_response_header k v r))"
  using assms headers_find_ci_equal [OF assms(1,3,2)]
  by (auto simp: set_response_header_def headers_find_insert headers_find_assign split: option.splits)

lemma insert_all_ordered: "headers_ok hs \<Longrightarrow> insert_all hs [] = hs"
  using insert_ordered [of ci_less "[]" hs]
  by (simp add: insert_all_def headers_insert_def [abs_def] headers_ok_def map_ordered_def)

definition sent_headers :: "http_response \<Rightarrow> headers" where
  "sent_headers r = (if has_response_header r ''Content-Length'' then rs_headers r
     else headers_insert ''Content-Length'' (nat_to_string (length (rs_body r))) (rs_headers r))"

lemma digits_no_cr: "list_all isdigit ds \<Longrightarrow> CR \<notin> set ds"
  by (auto simp: list_all_iff char_simps)

lemma content_length_pair_ok: "header_pair_ok (''Content-Length'', nat_to_string n)"
  using hd_nat_to_string_digit [of n] digits_no_cr [OF nat_to_string_digits, of n]
  by (simp add: header_pair_ok_def)

text \<open>
  C32: What a response sends. It is refused with InvalidArgument exactly when it has no
  message of its own and its status has no default message. Otherwise the text is the status
  line, a header block, an empty line and the body; and the library's own header parser reads
  the block back as the response's headers, to which a Content-Length field with the size of
  the body is added if and only if the response has none.
\<close>

theorem serialize_framing:
  assumes "headers_ok (rs_headers r)" "list_all header_pair_ok (rs_headers r)"
  shows "case serialize r of
      Inl f \<Rightarrow> f = Err InvalidArgument \<and> rs_status_message r = [] \<and> map_of status_messages (status r) = None
    | Inr t \<Rightarrow> (\<exists>m block. status_message r = Inr m \<and> t = status_line r m @ block @ CRLF @ rs_body r \<and>
        parse_headers (block @ CRLF @ rs_body r) http_request_new =
          (Inr (), http_request_new\<lparr>rq_headers := sent_headers r\<rparr>))"
proof (cases "status_message r")
  case (Inl f)
  then show ?thesis
    by (auto simp: serialize_def write_response_def status_message_def default_status_message_def
        split: if_splits option.splits)
next
  case (Inr m)
  let ?cl = "(''Content-Length'', nat_to_string (length (rs_body r)))"
  let ?hs = "rs_headers r @ (if has_response_header r ''Content-Length'' then [] else [?cl])"
  let ?block = "concat (map header_line ?hs)"
  have key: "key_ok ''Content-Length''" by (simp add: key_ok_def)
  have tx: "serialize r = Inr (status_line r m @ ?block @ CRLF @ rs_body r)"
    using Inr by (simp add: serialize_def write_response_def header_line_def [abs_def] case_prod_unfold)
  have "list_all header_pair_ok ?hs" using assms(2) content_length_pair_ok by simp
  from parse_headers_text [OF this, of "rs_body r" http_request_new]
  have "parse_headers (?block @ CRLF @ rs_body r) http_request_new =
      (Inr (), http_request_new\<lparr>rq_headers := insert_all ?hs []\<rparr>)"
    by (simp add: http_request_new_def)
  moreover have "insert_all ?hs [] = sent_headers r"
    using insert_all_ordered [OF assms(1)] by (simp add: sent_headers_def insert_all_def)
  ultimately show ?thesis using tx Inr by auto
qed

lemma serialize_framing_witness:
  "headers_ok [(''Host'', ''a'')] \<and> list_all header_pair_ok [(''Host'', ''a'')] \<and>
   (\<exists>t. serialize \<lparr>rs_status_code = 404, rs_status_message = [], rs_headers = [(''Host'', ''a'')],
      rs_body = ''gone''\<rparr> = Inr t)"
proof -
  let ?r = "\<lparr>rs_status_code = 404, rs_status_message = [], rs_headers = [(''Host'', ''a'')], rs_body = ''gone''\<rparr>"
  have ok: "headers_ok (rs_headers ?r)" "list_all header_pair_ok (rs_headers ?r)"
    by (simp_all add: headers_ok_def map_ordered_def key_ok_def header_pair_ok_def char_simps)
  have "map_of status_messages (status ?r) \<noteq> None"
    by (simp add: status_messages_def status_def)
  with serialize_framing [OF ok] ok show ?thesis by (cases "serialize ?r") auto
qed

text \<open>
  Setting a response header replaces the value under every spelling of its name and
  leaves the other headers alone; reading a header that is absent throws NotFound.
\<close>

theorem response_header_set:
  assumes "headers_ok (rs_headers r)" "key_ok k" "key_ok q"
  shows "response_header (set_response_header k v r) q =
    (if ci_equal q k then Inr v else response_header r q)"
  using set_response_header_find [OF assms] by (simp add: response_header_def)

lemma response_header_set_witness:
  "response_header (set_response_header ''Host'' ''a'' http_response_new) ''HOST'' = Inr ''a''"
proof -
  have "ci_equal ''HOST'' ''Host''"
    by (simp add: ci_equal_def upper_value_def schar_def toupper_def islower_def code_def)
  then show ?thesis
    using response_header_set [of http_response_new "''Host''" "''HOST''" "''a''"]
    by (simp add: http_response_new_def key_ok_def)
qed

end
