(* ===== verification/Http_Router.thy ===== *)
theory Http_Router
  imports Endpoint_Trie Http_Response
begin

text \<open>
  The HTTP router (\<open>src/lw/http/http.cpp\<close>, \<open>http.h\<close>) and the handlers it runs
  (\<open>http_handler.h\<close>, \<open>http_handler.cpp\<close>).

  A handler is the application's code: a table from the seven virtual functions to what the
  override does with the request and the response, \<open>None\<close> where the base class's function
  is not overridden. A connection is the buffers written to it and whether it is still good.
  What arrives on it is the sequence of results of \<open>read_until\<close>, one per request; the text
  of a caught error (\<open>err.what()\<close>) is an argument. Coroutines run to their end here; the
  suspension points between the steps of one request do not change their order.
\<close>

section \<open>Handlers\<close>

datatype http_method = Del | Get | Head | Options | Patch | Post | Put

type_synonym handler = "http_method \<Rightarrow> (http_request \<Rightarrow> http_response \<Rightarrow> http_response res) option"

record factory =
  fa_route :: string
  fa_handler :: handler

definition default_behavior :: "http_response \<Rightarrow> http_response" where
  "default_behavior res = set_status NOT_FOUND res"

definition call_handler :: "handler \<Rightarrow> http_method \<Rightarrow> http_request \<Rightarrow> http_response \<Rightarrow> http_response res" where
  "call_handler h m req res = (case h m of
       None \<Rightarrow> Inr (default_behavior res)
     | Some f \<Rightarrow> f req res)"

definition method_named :: "string \<Rightarrow> http_method option" where
  "method_named s =
     (if s = ''DELETE'' then Some Del
      else if s = ''GET'' then Some Get
      else if s = ''HEAD'' then Some Head
      else if s = ''OPTIONS'' then Some Options
      else if s = ''PATCH'' then Some Patch
      else if s = ''POST'' then Some Post
      else if s = ''PUT'' then Some Put
      else None)"

section \<open>One request\<close>

record connection =
  cn_good :: bool
  cn_written :: "string list"

definition conn_close :: "connection \<Rightarrow> connection" where
  "conn_close c = c\<lparr>cn_good := False\<rparr>"

definition conn_write :: "string \<Rightarrow> connection \<Rightarrow> connection" where
  "conn_write b c = c\<lparr>cn_written := cn_written c @ [b]\<rparr>"

definition respond_failure :: "int \<Rightarrow> string \<Rightarrow> http_response \<Rightarrow> http_response" where
  "respond_failure st b res =
     set_body b (set_response_header ''Content-Type'' ''text/plain'' (set_status st res))"

text \<open>\<open>try_read_header\<close>: only InvalidArgument is caught.\<close>

definition try_read_header ::
    "string \<Rightarrow> string \<Rightarrow> http_request \<Rightarrow> http_response \<Rightarrow> (bool \<times> http_request \<times> http_response) res" where
  "try_read_header what raw req res = (case read_header raw req of
       (Inr _, req') \<Rightarrow> Inr (True, req', res)
     | (Inl f, req') \<Rightarrow>
         if f = Err InvalidArgument then Inr (False, req', respond_failure BAD_REQUEST what res)
         else Inl f)"

definition keep_alive :: "http_request \<Rightarrow> bool" where
  "keep_alive req \<longleftrightarrow> has_header req ''connection'' \<and> header req ''connection'' = Inr ''keep-alive''"

definition finish_request :: "http_request \<Rightarrow> http_response \<Rightarrow> (connection, unit) prog" where
  "finish_request req res =
     bind_prog (lift_res (serialize res)) (\<lambda>b.
     bind_prog (modify (conn_write b)) (\<lambda>_.
     modify (\<lambda>c. if \<not> keep_alive req then conn_close c else c)))"

definition run_request ::
    "regex_lib \<Rightarrow> factory trie \<Rightarrow> string \<Rightarrow> string \<Rightarrow> (connection, unit) prog" where
  "run_request rx trie what raw =
     bind_prog (lift_res (try_read_header what raw http_request_new http_response_new))
     (\<lambda>(ok, request, response).
       if \<not> ok then finish_request request response
       else bind_prog (lift_res (trie_match rx trie (rq_path request))) (\<lambda>match_results.
         case match_results of
           None \<Rightarrow> finish_request request (respond_failure NOT_FOUND ''Not Found.'' response)
         | Some (parameters, ep) \<Rightarrow>
             (let request' = set_route_params parameters request
              in bind_prog (lift_res (case method_named (rq_method request') of
                   None \<Rightarrow> Inr (respond_failure BAD_REQUEST ''Unknown method.'' response)
                 | Some m \<Rightarrow> call_handler (fa_handler ep) m request' response))
                 (finish_request request'))))"

section \<open>The router\<close>

record router =
  ro_trie :: "factory trie"
  ro_connection_counter :: nat

definition router_new :: router where
  "router_new = \<lparr>ro_trie = make_node, ro_connection_counter = 0\<rparr>"

text \<open>\<open>attach_routes\<close> over the routes registered for this router.\<close>

fun attach_trie :: "regex_lib \<Rightarrow> factory list \<Rightarrow> (factory trie, unit) prog" where
  "attach_trie rx [] t = (Inr (), t)"
| "attach_trie rx (f # fs) t = (case parse_endpoint rx (fa_route f) of
       Inl e \<Rightarrow> (Inl e, t)
     | Inr ms \<Rightarrow> (case trie_insert ms f t of
           (Some e, t') \<Rightarrow> (Inl e, t')
         | (None, t') \<Rightarrow> attach_trie rx fs t'))"

definition attach_routes :: "regex_lib \<Rightarrow> factory list \<Rightarrow> (router, unit) prog" where
  "attach_routes rx fs ro = (case attach_trie rx fs (ro_trie ro) of (out, t) \<Rightarrow> (out, ro\<lparr>ro_trie := t\<rparr>))"

definition run_once :: "regex_lib \<Rightarrow> router \<Rightarrow> string \<times> string \<Rightarrow> (connection, unit) prog" where
  "run_once rx ro input = run_request rx (ro_trie ro) (fst input) (snd input)"

text \<open>
  The loop of \<open>run\<close> over the requests that arrive. An \<open>lw::Error\<close> closes the connection; any
  other exception leaves the coroutine.
\<close>

fun run_loop :: "regex_lib \<Rightarrow> router \<Rightarrow> (string \<times> string) list \<Rightarrow> (connection, unit) prog" where
  "run_loop rx ro [] c = (Inr (), c)"
| "run_loop rx ro (input # inputs) c =
     (if \<not> cn_good c then (Inr (), c)
      else case run_once rx ro input c of
          (Inr _, c') \<Rightarrow> run_loop rx ro inputs c'
        | (Inl (Err e), c') \<Rightarrow> run_loop rx ro inputs (if cn_good c' then conn_close c' else c')
        | (Inl f, c') \<Rightarrow> (Inl f, c'))"

definition run :: "regex_lib \<Rightarrow> (string \<times> string) list \<Rightarrow> router \<Rightarrow> connection \<Rightarrow> unit res \<times> router \<times> connection" where
  "run rx inputs ro c =
     (let ro1 = ro\<lparr>ro_connection_counter := ro_connection_counter ro + 1\<rparr>
      in case run_loop rx ro1 inputs c of
           (Inr _, c') \<Rightarrow> (Inr (), ro1\<lparr>ro_connection_counter := ro_connection_counter ro1 - 1\<rparr>, c')
         | (Inl f, c') \<Rightarrow> (Inl f, ro1, c'))"

section \<open>Requests and responses correspond\<close>

text \<open>
  A step on a connection that either throws before it touched the connection, or writes one
  buffer and then keeps the connection open or closes it.
\<close>

definition responds :: "(connection, unit) prog \<Rightarrow> bool" where
  "responds m \<longleftrightarrow> (\<forall>c. case m c of
       (Inl f, c') \<Rightarrow> c' = c
     | (Inr _, c') \<Rightarrow> \<exists>b. c' = conn_write b c \<or> c' = conn_close (conn_write b c))"

lemma finish_request_responds: "responds (finish_request req res)"
  by (cases "serialize res") (auto simp: responds_def finish_request_def)

lemma responds_lift:
  assumes "\<And>x. r = Inr x \<Longrightarrow> responds (f x)"
  shows "responds (bind_prog (lift_res r) f)"
  using assms by (cases r) (auto simp: responds_def)

lemma run_request_responds: "responds (run_request rx trie what raw)"
  unfolding run_request_def
  by (intro responds_lift) (auto simp: finish_request_responds Let_def split: option.splits
      intro!: responds_lift)

text \<open>What \<open>run_loop\<close> keeps: the buffers written so far, and how many more there are.\<close>

lemma run_loop_writes:
  assumes "run_loop rx ro inputs c = (out, c')"
  shows "\<exists>bs. cn_written c' = cn_written c @ bs \<and> length bs \<le> length inputs"
  using assms
proof (induction inputs arbitrary: c)
  case Nil
  then show ?case by auto
next
  case (Cons input inputs)
  show ?case
  proof (cases "cn_good c")
    case False
    with Cons.prems show ?thesis by auto
  next
    case True
    obtain out1 c1 where step: "run_once rx ro input c = (out1, c1)"
      by (cases "run_once rx ro input c")
    have "responds (run_once rx ro input)"
      by (simp add: run_once_def run_request_responds)
    then have one: "case out1 of Inl f \<Rightarrow> c1 = c
        | Inr _ \<Rightarrow> \<exists>b. c1 = conn_write b c \<or> c1 = conn_close (conn_write b c)"
      using step unfolding responds_def by (metis (no_types, lifting) case_prod_conv old.sum.simps(5,6) sum.exhaust)
    show ?thesis
    proof (cases out1)
      case (Inr u)
      with Cons.IH [of c1] Cons.prems step True obtain bs where
        bs: "cn_written c' = cn_written c1 @ bs" "length bs \<le> length inputs" by auto
      from one Inr obtain b where "cn_written c1 = cn_written c @ [b]"
        by (auto simp: conn_write_def conn_close_def)
      with bs have "cn_written c' = cn_written c @ (b # bs)" by simp
      with bs(2) show ?thesis by fastforce
    next
      case (Inl f)
      with one have c1: "c1 = c" by simp
      show ?thesis
      proof (cases f)
        case (Err e)
        with Cons.IH [of "conn_close c"] Cons.prems step True Inl c1 show ?thesis
          by (auto simp: conn_close_def intro: le_SucI)
      qed (use Cons.prems step True Inl c1 in auto)
    qed
  qed
qed

lemma run_loop_fault: "run_loop rx ro inputs c = (Inl f, c') \<Longrightarrow> f \<noteq> Err e"
  by (induction rx ro inputs c rule: run_loop.induct)
    (auto split: if_splits prod.splits sum.splits fault.splits)

text \<open>
  C29: A connection's requests and responses correspond. Whatever arrives, running a
  connection writes at most one response per request and takes back nothing it has written.
  It ends normally, with the router's connection counter as before, unless something other
  than an \<open>lw::Error\<close> is thrown (an exception of the standard library or undefined
  behaviour); then the counter stays one too high.
\<close>

theorem run_outcome:
  "case run rx inputs ro c of (out, ro', c') \<Rightarrow>
     (\<exists>bs. cn_written c' = cn_written c @ bs \<and> length bs \<le> length inputs) \<and>
     (case out of
        Inr _ \<Rightarrow> ro' = ro
      | Inl f \<Rightarrow> (\<forall>e. f \<noteq> Err e) \<and> ro_connection_counter ro' = ro_connection_counter ro + 1)"
proof -
  let ?ro = "ro\<lparr>ro_connection_counter := ro_connection_counter ro + 1\<rparr>"
  obtain out c' where "run_loop rx ?ro inputs c = (out, c')" by (cases "run_loop rx ?ro inputs c")
  with run_loop_writes [OF this] run_loop_fault [of rx ?ro inputs c] show ?thesis
    by (cases out) (auto simp: run_def)
qed

section \<open>Attached routes\<close>

lemma lookup_same_route: "same_route s s' \<Longrightarrow> trie_lookup s t = trie_lookup s' t"
proof (induction s arbitrary: s' t)
  case (Cons a s)
  then show ?case
    by (cases s' rule: steps_cases; cases a) (auto split: option.splits)
qed simp

lemma insert_keeps:
  assumes "trie_insert ms f t = (None, t')"
  shows "trie_lookup (path_steps ms) t' = Some f" "trie_lookup s t = Some e \<Longrightarrow> trie_lookup s t' = Some e"
proof -
  have ms: "ms \<noteq> []" using assms by (auto simp: trie_insert_def)
  have out: "insert_outcome (path_steps ms) f t (None, t')"
    using build_path_outcome [of "path_steps ms" f t] assms ms by (simp add: trie_insert_def)
  then show "trie_lookup (path_steps ms) t' = Some f"
    by (simp add: insert_outcome_def same_route_def split: if_splits)
  show "trie_lookup s t' = Some e" if "trie_lookup s t = Some e"
    using out that lookup_same_route [of s "path_steps ms" t]
    by (auto simp: insert_outcome_def split: if_splits)
qed

lemma attach_trie_keeps:
  "attach_trie rx fs t = (Inr (), t') \<Longrightarrow> trie_lookup s t = Some e \<Longrightarrow> trie_lookup s t' = Some e"
proof (induction fs arbitrary: t)
  case (Cons f fs)
  then show ?case using insert_keeps(2)
    by (fastforce split: sum.splits prod.splits option.splits)
qed simp

lemma attach_trie_mounts:
  "attach_trie rx fs t = (Inr (), t') \<Longrightarrow> f \<in> set fs \<Longrightarrow>
     \<exists>ms. parse_endpoint rx (fa_route f) = Inr ms \<and> ms \<noteq> [] \<and> trie_lookup (path_steps ms) t' = Some f"
proof (induction fs arbitrary: t)
  case (Cons g fs)
  from Cons.prems(1) obtain ms t1 where g: "parse_endpoint rx (fa_route g) = Inr ms"
    "trie_insert ms g t = (None, t1)" "attach_trie rx fs t1 = (Inr (), t')"
    by (auto split: sum.splits prod.splits option.splits)
  show ?case
  proof (cases "f = g")
    case True
    have "ms \<noteq> []" using g(2) by (auto simp: trie_insert_def)
    with True g attach_trie_keeps [OF g(3) insert_keeps(1) [OF g(2)]] show ?thesis by auto
  next
    case False
    with Cons.IH [OF g(3)] Cons.prems(2) show ?thesis by auto
  qed
qed simp

lemma attached_literal_match:
  assumes "attach_routes rx fs router_new = (Inr (), ro)" "f \<in> set fs"
    "parse_endpoint rx (fa_route f) = Inr ms" "list_all is_literal ms"
  shows "trie_match rx (ro_trie ro) (concat (map (\<lambda>m. SEP # chunk m) ms)) = Inr (Some ([], f))"
proof -
  from assms(1) have "attach_trie rx fs make_node = (Inr (), ro_trie ro)"
    by (auto simp: attach_routes_def router_new_def split: prod.splits)
  from attach_trie_mounts [OF this assms(2)] assms(3)
  have "ms \<noteq> []" "trie_lookup (path_steps ms) (ro_trie ro) = Some f" by auto
  then show ?thesis by (rule literal_lookup_match [OF assms(4)])
qed

end
