(* ===== verification/Buffers.thy ===== *)
theory Buffers
  imports Prelude
begin

text \<open>
  Memory buffers, \<open>src/lw/memory/buffer.h\<close>, \<open>src/lw/memory/buffer.cpp\<close> and
  \<open>src/lw/memory/buffer_view.h\<close>.

  Memory is a heap of blocks of bytes; a pointer is a block and an offset in it. Blocks are
  never given out twice, so that a pointer into a deleted block stays recognisable: reading or
  writing through it, outside of a block or through null is \<open>Undefined_behaviour\<close>, and so
  is deleting anything but the start of a live block. A \<open>Buffer\<close> is a record as in the
  source; operations that change memory take the heap and return it.

  The laws of reading and writing that the proofs use are the locale \<open>byte_store\<close>. The
  ownership of blocks among the live buffers of a program is \<open>owns_all\<close>; every sequence of
  constructions, moves, views and destructions keeps it, so that each block is freed exactly once.
\<close>

unbundle bit_operations_syntax

section \<open>Memory\<close>

datatype ptr = Null | Ptr nat nat

record heap =
  blocks :: "nat \<rightharpoonup> byte list"
  fresh :: nat

fun ptr_add :: "ptr \<Rightarrow> nat \<Rightarrow> ptr" where
  "ptr_add Null n = Null"
| "ptr_add (Ptr b i) n = Ptr b (i + n)"

definition read_bytes :: "heap \<Rightarrow> ptr \<Rightarrow> nat \<Rightarrow> byte list res" where
  "read_bytes h p n =
     (if n = 0 then Inr []
      else case p of
          Null \<Rightarrow> Inl Undefined_behaviour
        | Ptr b i \<Rightarrow>
            (case blocks h b of
               None \<Rightarrow> Inl Undefined_behaviour
             | Some bs \<Rightarrow>
                 if i + n \<le> length bs then Inr (take n (drop i bs)) else Inl Undefined_behaviour))"

definition write_bytes :: "heap \<Rightarrow> ptr \<Rightarrow> byte list \<Rightarrow> heap res" where
  "write_bytes h p xs =
     (if xs = [] then Inr h
      else case p of
          Null \<Rightarrow> Inl Undefined_behaviour
        | Ptr b i \<Rightarrow>
            (case blocks h b of
               None \<Rightarrow> Inl Undefined_behaviour
             | Some bs \<Rightarrow>
                 if i + length xs \<le> length bs
                 then Inr (h\<lparr>blocks := (blocks h)(b \<mapsto> take i bs @ xs @ drop (i + length xs) bs)\<rparr>)
                 else Inl Undefined_behaviour))"

definition read_byte :: "heap \<Rightarrow> ptr \<Rightarrow> byte res" where
  "read_byte h p = map_res hd (read_bytes h p 1)"

text \<open>\<open>new std::uint8_t[n]\<close>; \<open>junk\<close> is what the new memory happens to hold.\<close>

definition new_array :: "(nat \<Rightarrow> byte) \<Rightarrow> nat \<Rightarrow> heap \<Rightarrow> ptr \<times> heap" where
  "new_array junk n h =
     (Ptr (fresh h) 0,
      h\<lparr>blocks := (blocks h)(fresh h \<mapsto> map junk [0..<n]), fresh := Suc (fresh h)\<rparr>)"

definition delete_array :: "ptr \<Rightarrow> heap \<Rightarrow> heap res" where
  "delete_array p h =
     (case p of
        Null \<Rightarrow> Inr h
      | Ptr b i \<Rightarrow>
          if i = 0 \<and> blocks h b \<noteq> None then Inr (h\<lparr>blocks := (blocks h)(b := None)\<rparr>)
          else Inl Undefined_behaviour)"

section \<open>Buffers\<close>

record buffer =
  cap :: nat
  data_ptr :: ptr
  own_data :: bool

definition buffer_default :: buffer where
  "buffer_default = \<lparr>cap = 0, data_ptr = Null, own_data = False\<rparr>"

definition buffer_wrap :: "ptr \<Rightarrow> nat \<Rightarrow> bool \<Rightarrow> buffer" where
  "buffer_wrap p n own = \<lparr>cap = n, data_ptr = p, own_data = own\<rparr>"

text \<open>The move constructor: the new buffer and what becomes of the other one.\<close>

definition buffer_move :: "buffer \<Rightarrow> buffer \<times> buffer" where
  "buffer_move other =
     (\<lparr>cap = cap other, data_ptr = data_ptr other, own_data = own_data other\<rparr>,
      other\<lparr>own_data := False\<rparr>)"

definition buffer_alloc :: "(nat \<Rightarrow> byte) \<Rightarrow> nat \<Rightarrow> heap \<Rightarrow> buffer \<times> heap" where
  "buffer_alloc junk n h =
     (case new_array junk n h of (p, h') \<Rightarrow> (\<lparr>cap = n, data_ptr = p, own_data = True\<rparr>, h'))"

text \<open>The copying constructor from a pair of iterators, here the bytes between them.\<close>

definition buffer_from :: "(nat \<Rightarrow> byte) \<Rightarrow> byte list \<Rightarrow> heap \<Rightarrow> (buffer \<times> heap) res" where
  "buffer_from junk bytes h =
     (case buffer_alloc junk (length bytes) h of
        (b, h') \<Rightarrow> map_res (\<lambda>h''. (b, h'')) (write_bytes h' (data_ptr b) bytes))"

definition destroy :: "buffer \<Rightarrow> heap \<Rightarrow> heap res" where
  "destroy b h = (if own_data b \<and> data_ptr b \<noteq> Null then delete_array (data_ptr b) h else Inr h)"

definition buffer_size :: "buffer \<Rightarrow> nat" where
  "buffer_size b = cap b"

definition buffer_empty :: "buffer \<Rightarrow> bool" where
  "buffer_empty b \<longleftrightarrow> cap b = 0"

definition buffer_index :: "heap \<Rightarrow> buffer \<Rightarrow> nat \<Rightarrow> byte res" where
  "buffer_index h b i = read_byte h (ptr_add (data_ptr b) i)"

definition buffer_end :: "buffer \<Rightarrow> ptr" where
  "buffer_end b = ptr_add (data_ptr b) (cap b)"

text \<open>The bytes from \<open>begin()\<close> to \<open>end()\<close>: the conversion to \<open>std::string_view\<close>.\<close>

definition buffer_contents :: "heap \<Rightarrow> buffer \<Rightarrow> byte list res" where
  "buffer_contents h b = read_bytes h (data_ptr b) (cap b)"

definition buffer_front :: "heap \<Rightarrow> buffer \<Rightarrow> byte res" where
  "buffer_front h b =
     (if data_ptr b = Null then Inl (Err InvalidArgument) else read_byte h (data_ptr b))"

definition buffer_back :: "heap \<Rightarrow> buffer \<Rightarrow> byte res" where
  "buffer_back h b =
     (if data_ptr b = Null then Inl (Err InvalidArgument)
      else read_byte h (if cap b \<noteq> 0 then ptr_add (data_ptr b) (cap b - 1) else data_ptr b))"

definition trim_prefix :: "buffer \<Rightarrow> nat \<Rightarrow> buffer res" where
  "trim_prefix b n =
     (if cap b < n then Inl (Err InvalidArgument)
      else Inr (buffer_wrap (ptr_add (data_ptr b) n) (cap b - n) False))"

definition trim_suffix :: "buffer \<Rightarrow> nat \<Rightarrow> buffer res" where
  "trim_suffix b n =
     (if cap b < n then Inl (Err InvalidArgument)
      else Inr (buffer_wrap (data_ptr b) (cap b - n) False))"

definition set_memory :: "byte \<Rightarrow> buffer \<Rightarrow> heap \<Rightarrow> heap res" where
  "set_memory v b h = write_bytes h (data_ptr b) (replicate (cap b) v)"

text \<open>\<open>copy\<close> with two iterators, a loop over the bytes between them.\<close>

fun copy_loop :: "heap \<Rightarrow> ptr \<Rightarrow> nat \<Rightarrow> byte list \<Rightarrow> heap res" where
  "copy_loop h p 0 xs = Inr h"
| "copy_loop h p (Suc n) [] = Inr h"
| "copy_loop h p (Suc n) (x # xs) =
     bind_res (write_bytes h p [x]) (\<lambda>h'. copy_loop h' (ptr_add p 1) n xs)"

definition buffer_copy :: "byte list \<Rightarrow> buffer \<Rightarrow> heap \<Rightarrow> heap res" where
  "buffer_copy xs b h = copy_loop h (data_ptr b) (buffer_size b) xs"

text \<open>\<open>copy\<close> with a count; the source has at least \<open>min (count, size())\<close> bytes.\<close>

definition buffer_copy_n :: "byte list \<Rightarrow> nat \<Rightarrow> buffer \<Rightarrow> heap \<Rightarrow> heap res" where
  "buffer_copy_n xs count b h =
     (if length xs < min count (buffer_size b) then Inl Undefined_behaviour
      else write_bytes h (data_ptr b) (take (min count (buffer_size b)) xs))"

text \<open>Move assignment between two buffers, and of a buffer to itself.\<close>

definition move_assign :: "buffer \<Rightarrow> buffer \<Rightarrow> heap \<Rightarrow> (buffer \<times> buffer \<times> heap) res" where
  "move_assign this other h =
     bind_res (if own_data this \<and> data_ptr this \<noteq> Null then delete_array (data_ptr this) h else Inr h)
       (\<lambda>h'. Inr (\<lparr>cap = cap other, data_ptr = data_ptr other, own_data = own_data other\<rparr>,
                  other\<lparr>own_data := False\<rparr>, h'))"

definition self_move_assign :: "buffer \<Rightarrow> heap \<Rightarrow> (buffer \<times> heap) res" where
  "self_move_assign this h =
     bind_res (if own_data this \<and> data_ptr this \<noteq> Null then delete_array (data_ptr this) h else Inr h)
       (\<lambda>h'. Inr (this\<lparr>own_data := False\<rparr>, h'))"

definition buffer_equal :: "heap \<Rightarrow> buffer \<Rightarrow> buffer \<Rightarrow> bool res" where
  "buffer_equal h a b =
     (if buffer_size a \<noteq> buffer_size b then Inr False
      else if data_ptr a = data_ptr b then Inr True
      else bind_res (buffer_contents h a) (\<lambda>xs. map_res (\<lambda>ys. xs = ys) (buffer_contents h b)))"

text \<open>\<open>_xor\<close>, byte by byte through the three pointers, which may overlap.\<close>

fun xor_loop :: "heap \<Rightarrow> ptr \<Rightarrow> ptr \<Rightarrow> ptr \<Rightarrow> nat \<Rightarrow> heap res" where
  "xor_loop h lhs rhs out 0 = Inr h"
| "xor_loop h lhs rhs out (Suc n) =
     bind_res (read_byte h lhs) (\<lambda>x.
     bind_res (read_byte h rhs) (\<lambda>y.
     bind_res (write_bytes h out [x XOR y]) (\<lambda>h'.
     xor_loop h' (ptr_add lhs 1) (ptr_add rhs 1) (ptr_add out 1) n)))"

definition xor_assign :: "buffer \<Rightarrow> buffer \<Rightarrow> heap \<Rightarrow> heap res" where
  "xor_assign this other h =
     (let tmp = buffer_wrap (data_ptr this) (min (buffer_size this) (buffer_size other)) False
      in xor_loop h (data_ptr this) (data_ptr other) (data_ptr tmp) (buffer_size tmp))"

section \<open>Views\<close>

text \<open>A \<open>BufferView\<close> is a buffer that owns nothing; views are compared by address.\<close>

definition buffer_view :: "buffer \<Rightarrow> buffer" where
  "buffer_view b = buffer_wrap (data_ptr b) (buffer_size b) False"

definition view_equal :: "buffer \<Rightarrow> buffer \<Rightarrow> bool" where
  "view_equal a b \<longleftrightarrow> data_ptr a = data_ptr b \<and> buffer_size a = buffer_size b"

definition view_trim_prefix :: "buffer \<Rightarrow> nat \<Rightarrow> buffer res" where
  "view_trim_prefix v n = map_res buffer_view (trim_prefix v n)"

definition view_trim_suffix :: "buffer \<Rightarrow> nat \<Rightarrow> buffer res" where
  "view_trim_suffix v n = map_res buffer_view (trim_suffix v n)"

section \<open>Reading and writing\<close>

text \<open>What the operations rely on of the memory.\<close>

locale byte_store =
  fixes rd :: "'m \<Rightarrow> 'p \<Rightarrow> nat \<Rightarrow> byte list res"
    and wr :: "'m \<Rightarrow> 'p \<Rightarrow> byte list \<Rightarrow> 'm res"
    and apart :: "'p \<Rightarrow> 'p \<Rightarrow> bool"
  assumes write_ok: "rd m p (length xs) = Inr old \<Longrightarrow> \<exists>m'. wr m p xs = Inr m'"
    and read_written: "wr m p xs = Inr m' \<Longrightarrow> rd m' p (length xs) = Inr xs"
    and read_apart: "wr m p xs = Inr m' \<Longrightarrow> apart p q \<Longrightarrow> rd m' q n = rd m q n"
    and write_back: "wr m p xs = Inr m' \<Longrightarrow> rd m p (length xs) = Inr old \<Longrightarrow> wr m' p old = Inr m"
begin

lemma overwrite:
  assumes "rd m p (length xs) = Inr old" "apart p q"
  shows "\<exists>m'. wr m p xs = Inr m' \<and> rd m' p (length xs) = Inr xs \<and> rd m' q n = rd m q n \<and>
    wr m' p old = Inr m"
proof -
  from write_ok [OF assms(1)] obtain m' where m': "wr m p xs = Inr m'" by blast
  with read_written [OF m'] read_apart [OF m' assms(2)] write_back [OF m' assms(1)]
  show ?thesis by blast
qed

end

definition in_other_block :: "ptr \<Rightarrow> ptr \<Rightarrow> bool" where
  "in_other_block p q \<longleftrightarrow>
     (case (p, q) of (Ptr b i, Ptr c j) \<Rightarrow> b \<noteq> c | _ \<Rightarrow> True)"

lemma read_bytes_ok_iff:
  "read_bytes h p n = Inr xs \<longleftrightarrow>
     n = 0 \<and> xs = [] \<or>
     (\<exists>b i bs. 0 < n \<and> p = Ptr b i \<and> blocks h b = Some bs \<and> i + n \<le> length bs \<and> xs = take n (drop i bs))"
  by (auto simp: read_bytes_def split: ptr.splits option.splits if_splits)

lemma write_bytes_ok_iff:
  "write_bytes h p xs = Inr h' \<longleftrightarrow>
     xs = [] \<and> h' = h \<or>
     (\<exists>b i bs. xs \<noteq> [] \<and> p = Ptr b i \<and> blocks h b = Some bs \<and> i + length xs \<le> length bs \<and>
        h' = h\<lparr>blocks := (blocks h)(b \<mapsto> take i bs @ xs @ drop (i + length xs) bs)\<rparr>)"
  by (auto simp: write_bytes_def split: ptr.splits option.splits if_splits)

interpretation heap_store: byte_store read_bytes write_bytes in_other_block
proof
  fix h :: heap and p and xs old :: "byte list"
  assume "read_bytes h p (length xs) = Inr old"
  then show "\<exists>h'. write_bytes h p xs = Inr h'"
    by (auto simp: read_bytes_ok_iff write_bytes_ok_iff)
next
  fix h :: heap and p xs h'
  assume "write_bytes h p xs = Inr h'"
  then show "read_bytes h' p (length xs) = Inr xs"
    by (auto simp: read_bytes_ok_iff write_bytes_ok_iff)
next
  fix h :: heap and p xs h' q n
  assume "write_bytes h p xs = Inr h'" "in_other_block p q"
  then show "read_bytes h' q n = read_bytes h q n"
    by (cases q) (auto simp: write_bytes_ok_iff read_bytes_def in_other_block_def)
next
  fix h :: heap and p xs h' old
  assume w: "write_bytes h p xs = Inr h'" and r: "read_bytes h p (length xs) = Inr old"
  show "write_bytes h' p old = Inr h"
  proof (cases "xs = []")
    case True
    with w r show ?thesis by (auto simp: read_bytes_ok_iff write_bytes_ok_iff)
  next
    case False
    with w r obtain b i bs where p: "p = Ptr b i" "blocks h b = Some bs" "i + length xs \<le> length bs"
      "h' = h\<lparr>blocks := (blocks h)(b \<mapsto> take i bs @ xs @ drop (i + length xs) bs)\<rparr>"
      "old = take (length xs) (drop i bs)"
      by (auto simp: read_bytes_ok_iff write_bytes_ok_iff)
    have "take i bs @ take (length xs) (drop i bs) @ drop (i + length xs) bs = bs"
      by (metis append_assoc append_take_drop_id take_add)
    then have "(blocks h)(b \<mapsto> take i bs @ old @ drop (i + length xs) bs) = blocks h"
      using p(2,5) by (auto simp: fun_eq_iff)
    moreover have len: "length old = length xs" using p(3,5) by simp
    moreover have "old \<noteq> []" using len False by auto
    ultimately show ?thesis using p(1-4) by (simp add: write_bytes_def)
  qed
qed

text \<open>Filling a buffer, and what buffers in other blocks hold then.\<close>

lemma set_memory_contents:
  assumes "buffer_contents h b = Inr old" "in_other_block (data_ptr b) (data_ptr c)"
  shows "\<exists>h'. set_memory v b h = Inr h' \<and> buffer_contents h' b = Inr (replicate (cap b) v) \<and>
    buffer_contents h' c = buffer_contents h c \<and> write_bytes h' (data_ptr b) old = Inr h"
  using heap_store.overwrite [of h "data_ptr b" "replicate (cap b) v" old "data_ptr c" "cap c"] assms
  by (simp add: set_memory_def buffer_contents_def)

lemma read_byte_block:
  "blocks h b = Some bs \<Longrightarrow> i < length bs \<Longrightarrow> read_byte h (Ptr b i) = Inr (bs ! i)"
  by (simp add: read_byte_def read_bytes_def hd_drop_conv_nth take_Suc)

lemma write_byte_block:
  "blocks h b = Some bs \<Longrightarrow> i < length bs \<Longrightarrow>
   write_bytes h (Ptr b i) [v] = Inr (h\<lparr>blocks := (blocks h)(b \<mapsto> bs[i := v])\<rparr>)"
  by (simp add: write_bytes_def upd_conv_take_nth_drop)

text \<open>The bytes of one block combined with those of another, \<open>n\<close> of them.\<close>

definition xor_bytes :: "nat \<Rightarrow> byte list \<Rightarrow> nat \<Rightarrow> byte list \<Rightarrow> nat \<Rightarrow> byte list" where
  "xor_bytes n xs i ys j = map (\<lambda>k. if i \<le> k \<and> k < i + n then xs ! k XOR ys ! (j + (k - i)) else xs ! k) [0..<length xs]"

lemma length_xor_bytes [simp]: "length (xor_bytes n xs i ys j) = length xs"
  by (simp add: xor_bytes_def)

lemma nth_xor_bytes:
  "k < length xs \<Longrightarrow> xor_bytes n xs i ys j ! k =
     (if i \<le> k \<and> k < i + n then xs ! k XOR ys ! (j + (k - i)) else xs ! k)"
  by (simp add: xor_bytes_def)

lemma xor_bytes_0: "xor_bytes 0 xs i ys j = xs"
  by (rule nth_equalityI) (auto simp: nth_xor_bytes)

lemma xor_bytes_Suc:
  "i < length xs \<Longrightarrow>
   xor_bytes n (xs[i := xs ! i XOR ys ! j]) (Suc i) ys (Suc j) = xor_bytes (Suc n) xs i ys j"
  by (rule nth_equalityI) (auto simp: nth_xor_bytes nth_list_update Suc_diff_Suc)

lemma xor_bytes_twice: "xor_bytes n (xor_bytes n xs i ys j) i ys j = xs"
  by (rule nth_equalityI) (simp_all add: nth_xor_bytes xor.assoc)

lemma xor_loop_blocks:
  assumes "a \<noteq> b" "blocks h a = Some xs" "blocks h b = Some ys" "i + n \<le> length xs" "j + n \<le> length ys"
  shows "xor_loop h (Ptr a i) (Ptr b j) (Ptr a i) n =
    Inr (h\<lparr>blocks := (blocks h)(a \<mapsto> xor_bytes n xs i ys j)\<rparr>)"
  using assms
proof (induction n arbitrary: h xs i j)
  case 0
  then have "(blocks h)(a \<mapsto> xs) = blocks h" by (auto simp: fun_eq_iff)
  then show ?case by (simp add: xor_bytes_0)
next
  case (Suc n)
  let ?xs = "xs[i := xs ! i XOR ys ! j]"
  let ?h = "h\<lparr>blocks := (blocks h)(a \<mapsto> ?xs)\<rparr>"
  have "xor_loop ?h (Ptr a (Suc i)) (Ptr b (Suc j)) (Ptr a (Suc i)) n =
      Inr (?h\<lparr>blocks := (blocks ?h)(a \<mapsto> xor_bytes n ?xs (Suc i) ys (Suc j))\<rparr>)"
    using Suc.prems by (intro Suc.IH) auto
  then have rest: "xor_loop ?h (Ptr a (Suc i)) (Ptr b (Suc j)) (Ptr a (Suc i)) n =
      Inr (h\<lparr>blocks := (blocks h)(a \<mapsto> xor_bytes (Suc n) xs i ys j)\<rparr>)"
    using Suc.prems by (simp add: xor_bytes_Suc)
  have "read_byte h (Ptr a i) = Inr (xs ! i)" "read_byte h (Ptr b j) = Inr (ys ! j)"
    "write_bytes h (Ptr a i) [xs ! i XOR ys ! j] = Inr ?h"
    using Suc.prems by (simp_all add: read_byte_block write_byte_block)
  with rest show ?case
    by (simp only: xor_loop.simps bind_res_Inr ptr_add.simps add_Suc_right add_0_right One_nat_def)
qed

text \<open>Two buffers with buffer_contents that lie in different blocks.\<close>

lemma contents_block:
  assumes "buffer_contents h b = Inr xs" "0 < cap b"
  obtains k i bs where "data_ptr b = Ptr k i" "blocks h k = Some bs" "i + cap b \<le> length bs"
    "xs = take (cap b) (drop i bs)"
  using assms by (auto simp: buffer_contents_def read_bytes_ok_iff)

text \<open>
  combining a buffer with one that lies in other memory: the common prefix of the first is
  replaced by the exclusive or of the two, its remaining bytes and the other buffer stay, and
  combining it with the same buffer again restores the memory.
\<close>

theorem xor_assign_involution:
  assumes "buffer_contents h a = Inr xs" "buffer_contents h b = Inr ys" "in_other_block (data_ptr a) (data_ptr b)"
  shows "\<exists>h'. xor_assign a b h = Inr h' \<and>
    buffer_contents h' a = Inr (map2 (XOR) xs ys @ drop (length ys) xs) \<and>
    buffer_contents h' b = Inr ys \<and> xor_assign a b h' = Inr h"
proof (cases "0 < cap a \<and> 0 < cap b")
  case False
  then show ?thesis
    using assms by (auto simp: xor_assign_def buffer_size_def buffer_wrap_def buffer_contents_def read_bytes_ok_iff)
next
  case True
  let ?n = "min (cap a) (cap b)"
  obtain ka i as where a: "data_ptr a = Ptr ka i" "blocks h ka = Some as" "i + cap a \<le> length as"
    "xs = take (cap a) (drop i as)"
    using contents_block [OF assms(1)] True by blast
  obtain kb j bs where b: "data_ptr b = Ptr kb j" "blocks h kb = Some bs" "j + cap b \<le> length bs"
    "ys = take (cap b) (drop j bs)"
    using contents_block [OF assms(2)] True by blast
  have ne: "ka \<noteq> kb" using assms(3) a b by (simp add: in_other_block_def)
  let ?as = "xor_bytes ?n as i bs j"
  let ?h = "h\<lparr>blocks := (blocks h)(ka \<mapsto> ?as)\<rparr>"
  have "xor_assign a b h = Inr ?h"
    using xor_loop_blocks [OF ne a(2) b(2), of i ?n j] a b
    by (simp add: xor_assign_def buffer_size_def buffer_wrap_def)
  moreover have "xor_assign a b ?h = Inr h"
  proof -
    have "(blocks h)(ka \<mapsto> as) = blocks h" using a(2) by (auto simp: fun_eq_iff)
    then show ?thesis
      using xor_loop_blocks [OF ne, of ?h ?as bs i ?n j] a b ne
      by (simp add: xor_assign_def buffer_size_def buffer_wrap_def xor_bytes_twice)
  qed
  moreover have "buffer_contents ?h b = Inr ys"
    using b ne True by (simp add: buffer_contents_def read_bytes_def)
  moreover have "buffer_contents ?h a = Inr (map2 (XOR) xs ys @ drop (length ys) xs)"
  proof -
    have "take (cap a) (drop i ?as) = map2 (XOR) xs ys @ drop (length ys) xs"
      using a b by (intro nth_equalityI) (auto simp: nth_xor_bytes nth_append min_def)
    then show ?thesis using a True by (simp add: buffer_contents_def read_bytes_def)
  qed
  ultimately show ?thesis by blast
qed

theorem xor_assign_involution_witness:
  "\<exists>h'. xor_assign \<lparr>cap = 3, data_ptr = Ptr 0 0, own_data = True\<rparr> \<lparr>cap = 2, data_ptr = Ptr 1 1, own_data = False\<rparr>
      \<lparr>blocks = [0 \<mapsto> [1, 2, 3], 1 \<mapsto> [9, 3, 3, 9]], fresh = 2\<rparr> = Inr h' \<and>
    buffer_contents h' \<lparr>cap = 3, data_ptr = Ptr 0 0, own_data = True\<rparr> = Inr [2, 1, 3]"
  using xor_assign_involution [of "\<lparr>blocks = [0 \<mapsto> [1, 2, 3], 1 \<mapsto> [9, 3, 3, 9]], fresh = 2\<rparr>"
      "\<lparr>cap = 3, data_ptr = Ptr 0 0, own_data = True\<rparr>" "[1, 2, 3]"
      "\<lparr>cap = 2, data_ptr = Ptr 1 1, own_data = False\<rparr>" "[3, 3]"]
  by (auto simp: buffer_contents_def read_bytes_def in_other_block_def)

section \<open>Ownership\<close>

text \<open>
  A program that uses buffers: the memory and the live buffer objects, under names. An
  operation whose names do not fit (constructing under a name in use, using a name that is not)
  is not a program and changes nothing; neither does a trim that throws.
\<close>

record sys =
  mem :: heap
  live :: "nat \<rightharpoonup> buffer"

datatype buf_op =
    Op_default nat | Op_wrap_owner nat "byte list" | Op_alloc nat nat | Op_move_new nat nat
  | Op_view nat nat | Op_trim_prefix nat nat nat | Op_trim_suffix nat nat nat
  | Op_move_assign nat nat | Op_destroy nat

definition construct :: "nat \<Rightarrow> buffer \<Rightarrow> sys \<Rightarrow> sys" where
  "construct i b s = s\<lparr>live := (live s)(i \<mapsto> b)\<rparr>"

fun run_op :: "(nat \<Rightarrow> byte) \<Rightarrow> buf_op \<Rightarrow> sys \<Rightarrow> sys res" where
  "run_op junk (Op_default i) s =
     (if live s i = None then Inr (construct i buffer_default s) else Inr s)"
| "run_op junk (Op_wrap_owner i bytes) s =
     (if live s i = None then
        map_res (\<lambda>(b, h). construct i (buffer_wrap (data_ptr b) (cap b) True) (s\<lparr>mem := h\<rparr>))
          (buffer_from junk bytes (mem s))
      else Inr s)"
| "run_op junk (Op_alloc i n) s =
     (if live s i = None then
        case buffer_alloc junk n (mem s) of (b, h) \<Rightarrow> Inr (construct i b (s\<lparr>mem := h\<rparr>))
      else Inr s)"
| "run_op junk (Op_move_new i j) s =
     (case (live s i, live s j) of
        (None, Some other) \<Rightarrow>
          (case buffer_move other of (b, other') \<Rightarrow> Inr (construct i b (construct j other' s)))
      | _ \<Rightarrow> Inr s)"
| "run_op junk (Op_view i j) s =
     (case (live s i, live s j) of
        (None, Some b) \<Rightarrow> Inr (construct i (buffer_view b) s)
      | _ \<Rightarrow> Inr s)"
| "run_op junk (Op_trim_prefix i j n) s =
     (case (live s i, live s j) of
        (None, Some b) \<Rightarrow>
          (case trim_prefix b n of Inl e \<Rightarrow> Inr s | Inr b' \<Rightarrow> Inr (construct i b' s))
      | _ \<Rightarrow> Inr s)"
| "run_op junk (Op_trim_suffix i j n) s =
     (case (live s i, live s j) of
        (None, Some b) \<Rightarrow>
          (case trim_suffix b n of Inl e \<Rightarrow> Inr s | Inr b' \<Rightarrow> Inr (construct i b' s))
      | _ \<Rightarrow> Inr s)"
| "run_op junk (Op_move_assign i j) s =
     (case (live s i, live s j) of
        (Some this, Some other) \<Rightarrow>
          if i = j then
            map_res (\<lambda>(b, h). construct i b (s\<lparr>mem := h\<rparr>)) (self_move_assign this (mem s))
          else
            map_res (\<lambda>(b, other', h). construct i b (construct j other' (s\<lparr>mem := h\<rparr>)))
              (move_assign this other (mem s))
      | _ \<Rightarrow> Inr s)"
| "run_op junk (Op_destroy i) s =
     (case live s i of
        Some b \<Rightarrow> map_res (\<lambda>h. \<lparr>mem = h, live = (live s)(i := None)\<rparr>) (destroy b (mem s))
      | None \<Rightarrow> Inr s)"

fun run_buffer_ops :: "(nat \<Rightarrow> byte) \<Rightarrow> buf_op list \<Rightarrow> sys \<Rightarrow> sys res" where
  "run_buffer_ops junk [] s = Inr s"
| "run_buffer_ops junk (x # xs) s = bind_res (run_op junk x s) (run_buffer_ops junk xs)"

definition no_buffers :: sys where
  "no_buffers = \<lparr>mem = \<lparr>blocks = Map.empty, fresh = 0\<rparr>, live = Map.empty\<rparr>"

definition owner :: "sys \<Rightarrow> nat \<Rightarrow> nat \<Rightarrow> bool" where
  "owner s i k \<longleftrightarrow> (\<exists>b. live s i = Some b \<and> own_data b \<and> data_ptr b = Ptr k 0)"

definition owns_all :: "sys \<Rightarrow> bool" where
  "owns_all s \<longleftrightarrow>
     (\<forall>i b. live s i = Some b \<longrightarrow> own_data b \<longrightarrow>
        (\<exists>k bs. data_ptr b = Ptr k 0 \<and> blocks (mem s) k = Some bs \<and> length bs = cap b)) \<and>
     (\<forall>i j k. owner s i k \<longrightarrow> owner s j k \<longrightarrow> i = j) \<and>
     (\<forall>k bs. blocks (mem s) k = Some bs \<longrightarrow> k < fresh (mem s) \<and> (\<exists>i. owner s i k))"

lemma owns_allD:
  assumes "owns_all s" "live s i = Some b" "own_data b"
  obtains k bs where "data_ptr b = Ptr k 0" "blocks (mem s) k = Some bs" "length bs = cap b" "owner s i k"
  using assms unfolding owns_all_def owner_def by blast

text \<open>
  The four ways a step changes ownership: names without ownership come and go, a new block
  gets an owner, an owner hands its block over, an owner frees its block.
\<close>

definition owning :: "buffer option \<Rightarrow> bool" where
  "owning x \<longleftrightarrow> (\<exists>b. x = Some b \<and> own_data b)"

lemma owns_all_replace:
  assumes "owns_all s" "\<not> owning (live s i)" "\<not> owning x"
  shows "owns_all \<lparr>mem = mem s, live = (live s)(i := x)\<rparr>"
proof -
  have "owner \<lparr>mem = mem s, live = (live s)(i := x)\<rparr> = owner s"
    using assms(2,3) by (auto simp: owner_def owning_def fun_eq_iff)
  with assms show ?thesis
    unfolding owns_all_def by (auto simp: owning_def)
qed

lemma owns_all_fresh:
  assumes "owns_all s" "live s i = None" "cap b = length bs" "data_ptr b = Ptr (fresh (mem s)) 0" "own_data b"
  shows "owns_all \<lparr>mem = \<lparr>blocks = (blocks (mem s))(fresh (mem s) \<mapsto> bs), fresh = Suc (fresh (mem s))\<rparr>,
    live = (live s)(i \<mapsto> b)\<rparr>"
    (is "owns_all ?s")
proof -
  have old: "blocks (mem s) (fresh (mem s)) = None"
    using assms(1) unfolding owns_all_def by (metis less_irrefl not_Some_eq)
  have none: "\<not> owner s j (fresh (mem s))" for j
    using old assms(1) unfolding owns_all_def owner_def by force
  have ow: "owner ?s j k \<longleftrightarrow> (if j = i then k = fresh (mem s) else owner s j k)" for j k
    using assms(2-5) by (auto simp: owner_def)
  have "\<not> owner s i k" for k using assms(2) by (simp add: owner_def)
  with assms none show ?thesis
    unfolding owns_all_def ow by (auto simp: less_Suc_eq owner_def) (metis option.distinct(1))+
qed

lemma owns_all_transfer:
  assumes "owns_all s" "i \<noteq> j" "\<not> owning (live s i)" "live s j = Some b"
  shows "owns_all \<lparr>mem = mem s, live = (live s)(j \<mapsto> b\<lparr>own_data := False\<rparr>, i \<mapsto> b)\<rparr>"
    (is "owns_all ?s")
proof -
  have ow: "owner ?s m k \<longleftrightarrow> (if m = i then owner s j k else if m = j then False else owner s m k)" for m k
    using assms(2-4) by (auto simp: owner_def)
  have "\<not> owner s i k" for k using assms(3) by (auto simp: owner_def owning_def)
  with assms show ?thesis
    unfolding owns_all_def ow by (auto split: if_splits) metis+
qed

lemma owns_all_release:
  assumes "owns_all s" "owner s i k" "\<not> owning x"
  shows "owns_all \<lparr>mem = (mem s)\<lparr>blocks := (blocks (mem s))(k := None)\<rparr>, live = (live s)(i := x)\<rparr>"
    (is "owns_all ?s")
proof -
  have ow: "owner ?s m l \<longleftrightarrow> m \<noteq> i \<and> owner s m l" for m l
    using assms(3) by (auto simp: owner_def owning_def)
  have other: "m \<noteq> i \<Longrightarrow> owner s m l \<Longrightarrow> l \<noteq> k" for m l
    using assms(1,2) unfolding owns_all_def by blast
  have self: "owner s i l \<Longrightarrow> l = k" for l
    using assms(2) by (auto simp: owner_def)
  show ?thesis
    unfolding owns_all_def ow
  proof (intro conjI allI impI)
    fix m b assume "live ?s m = Some b" "own_data b"
    with assms(3) have m: "m \<noteq> i" "live s m = Some b" "own_data b"
      by (auto simp: owning_def split: if_splits)
    from owns_allD [OF assms(1) m(2,3)] other [OF m(1)]
    show "\<exists>k bs. data_ptr b = Ptr k 0 \<and> blocks (mem ?s) k = Some bs \<and> length bs = cap b"
      by (metis fun_upd_other heap.select_convs(1) heap.surjective heap.update_convs(1) sys.select_convs(1))
  next
    fix l bs assume "blocks (mem ?s) l = Some bs"
    then have l: "blocks (mem s) l = Some bs" "l \<noteq> k" by (auto split: if_splits)
    with assms(1) show "l < fresh (mem ?s)" unfolding owns_all_def by simp
    from l assms(1) obtain m where "owner s m l" unfolding owns_all_def by blast
    moreover from this self l(2) have "m \<noteq> i" by auto
    ultimately show "\<exists>m. m \<noteq> i \<and> owner s m l" by blast
  qed (use assms(1) in \<open>auto simp: owns_all_def\<close>)
qed

text \<open>What the destructor and the move assignment do first.\<close>

lemma owns_all_free:
  assumes "owns_all s" "live s i = Some b"
  shows "\<exists>h. (if own_data b \<and> data_ptr b \<noteq> Null then delete_array (data_ptr b) (mem s) else Inr (mem s)) = Inr h \<and>
    (\<forall>x. \<not> owning x \<longrightarrow> owns_all \<lparr>mem = h, live = (live s)(i := x)\<rparr>)"
proof (cases "own_data b")
  case True
  from owns_allD [OF assms True] obtain k bs where k: "data_ptr b = Ptr k 0" "blocks (mem s) k = Some bs" "owner s i k"
    by blast
  with True owns_all_release [OF assms(1) k(3)] show ?thesis
    by (simp add: delete_array_def)
next
  case False
  then have "\<not> owning (live s i)" using assms(2) by (simp add: owning_def)
  with False owns_all_replace [OF assms(1)] show ?thesis by simp
qed

lemma sys_eqs:
  "construct i b s = \<lparr>mem = mem s, live = (live s)(i := Some b)\<rparr>"
  "s\<lparr>mem := h\<rparr> = \<lparr>mem = h, live = live s\<rparr>"
  "h\<lparr>blocks := bl, fresh := fr\<rparr> = \<lparr>blocks = bl, fresh = fr\<rparr>"
  "\<lparr>cap = cap c, data_ptr = data_ptr c, own_data = own_data c\<rparr> = c"
  by (simp_all add: construct_def)

lemma owns_all_new_view:
  "owns_all s \<Longrightarrow> live s i = None \<Longrightarrow> \<not> own_data b \<Longrightarrow> owns_all (construct i b s)"
  unfolding sys_eqs by (rule owns_all_replace) (simp_all add: owning_def)

lemma buffer_from_eval:
  "buffer_from junk bytes h =
     Inr (\<lparr>cap = length bytes, data_ptr = Ptr (fresh h) 0, own_data = True\<rparr>,
       \<lparr>blocks = (blocks h)(fresh h \<mapsto> bytes), fresh = Suc (fresh h)\<rparr>)"
  by (cases "bytes = []") (simp_all add: buffer_from_def buffer_alloc_def new_array_def write_bytes_def)

lemma owns_all_move_assign:
  assumes "owns_all s" "live s i = Some b" "live s j = Some c"
  shows "\<exists>s'. run_op junk (Op_move_assign i j) s = Inr s' \<and> owns_all s'"
proof -
  from owns_all_free [OF assms(1,2)] obtain h where
    h: "(if own_data b \<and> data_ptr b \<noteq> Null then delete_array (data_ptr b) (mem s) else Inr (mem s)) = Inr h"
    and ok: "\<And>x. \<not> owning x \<Longrightarrow> owns_all \<lparr>mem = h, live = (live s)(i := x)\<rparr>"
    by blast
  show ?thesis
  proof (cases "i = j")
    case True
    with assms h ok [of "Some (b\<lparr>own_data := False\<rparr>)"] show ?thesis
      by (simp add: self_move_assign_def owning_def sys_eqs)
  next
    case False
    have "owns_all \<lparr>mem = h, live = (live s)(i := None)\<rparr>" by (rule ok) (simp add: owning_def)
    from owns_all_transfer [OF this False, of c] assms(3) False
    have "owns_all \<lparr>mem = h, live = (live s)(i := None, j \<mapsto> c\<lparr>own_data := False\<rparr>, i \<mapsto> c)\<rparr>"
      by (simp add: owning_def)
    with False have "owns_all \<lparr>mem = h, live = (live s)(j \<mapsto> c\<lparr>own_data := False\<rparr>, i \<mapsto> c)\<rparr>"
      by (simp add: fun_upd_twist)
    with assms(2,3) h False show ?thesis
      by (simp add: move_assign_def sys_eqs)
  qed
qed

lemma run_op_owns_all:
  assumes "owns_all s"
  shows "\<exists>s'. run_op junk x s = Inr s' \<and> owns_all s'"
proof (cases x)
  case (Op_default i)
  with assms owns_all_new_view [OF assms, of i buffer_default] show ?thesis
    by (simp add: buffer_default_def)
next
  case (Op_wrap_owner i bytes)
  with assms owns_all_fresh [OF assms, of i "\<lparr>cap = length bytes, data_ptr = Ptr (fresh (mem s)) 0, own_data = True\<rparr>" bytes]
  show ?thesis by (simp add: buffer_from_eval buffer_wrap_def sys_eqs)
next
  case (Op_alloc i n)
  with assms owns_all_fresh [OF assms, of i "\<lparr>cap = n, data_ptr = Ptr (fresh (mem s)) 0, own_data = True\<rparr>" "map junk [0..<n]"]
  show ?thesis by (simp add: buffer_alloc_def new_array_def sys_eqs)
next
  case (Op_move_new i j)
  show ?thesis
  proof (cases "live s i = None \<and> live s j \<noteq> None")
    case True
    then obtain b where "live s j = Some b" by auto
    moreover from this True have "i \<noteq> j" by auto
    ultimately show ?thesis
      using True Op_move_new owns_all_transfer [OF assms, of i j b]
      by (simp add: buffer_move_def owning_def sys_eqs)
  qed (use assms Op_move_new in \<open>auto split: option.splits\<close>)
next
  case (Op_view i j)
  with assms owns_all_new_view [OF assms, of i] show ?thesis
    by (auto simp: buffer_view_def buffer_wrap_def split: option.splits)
next
  case (Op_trim_prefix i j n)
  with assms owns_all_new_view [OF assms, of i] show ?thesis
    by (auto simp: trim_prefix_def buffer_wrap_def split: option.splits)
next
  case (Op_trim_suffix i j n)
  with assms owns_all_new_view [OF assms, of i] show ?thesis
    by (auto simp: trim_suffix_def buffer_wrap_def split: option.splits)
next
  case (Op_move_assign i j)
  show ?thesis
  proof (cases "live s i = None \<or> live s j = None")
    case False
    then obtain b c where "live s i = Some b" "live s j = Some c" by auto
    from owns_all_move_assign [OF assms this] Op_move_assign show ?thesis by simp
  qed (use assms Op_move_assign in \<open>auto split: option.splits\<close>)
next
  case (Op_destroy i)
  show ?thesis
  proof (cases "live s i")
    case (Some b)
    from owns_all_free [OF assms Some] obtain h where
      "(if own_data b \<and> data_ptr b \<noteq> Null then delete_array (data_ptr b) (mem s) else Inr (mem s)) = Inr h"
      "owns_all \<lparr>mem = h, live = (live s)(i := None)\<rparr>"
      by (auto simp: owning_def)
    with Some Op_destroy show ?thesis by (simp add: destroy_def)
  qed (use assms Op_destroy in simp)
qed

lemma run_ops_owns_all:
  "owns_all s \<Longrightarrow> \<exists>s'. run_buffer_ops junk xs s = Inr s' \<and> owns_all s'"
proof (induction xs arbitrary: s)
  case (Cons x xs)
  from run_op_owns_all [OF Cons.prems, of junk x] Cons.IH show ?case by auto
qed simp

text \<open>
  C14: whatever sequence of constructions, moves (of a buffer to itself too), views and
  destructions a program runs, it frees no memory twice and leaks none: the sequence runs
  without undefined behaviour, the blocks in memory are exactly those that a live buffer owns,
  no two live buffers own the same block, and the bytes of every owner can be read.
\<close>

theorem buffers_own_memory:
  "\<exists>s. run_buffer_ops junk xs no_buffers = Inr s \<and>
     dom (blocks (mem s)) = {k. \<exists>i. owner s i k} \<and>
     inj_on (\<lambda>i. data_ptr (the (live s i))) {i. \<exists>b. live s i = Some b \<and> own_data b} \<and>
     {i. \<exists>b. live s i = Some b \<and> own_data b} \<subseteq> {i. \<exists>bytes. buffer_contents (mem s) (the (live s i)) = Inr bytes}"
proof -
  have "owns_all no_buffers" by (simp add: owns_all_def no_buffers_def owner_def)
  from run_ops_owns_all [OF this] obtain s where s: "run_buffer_ops junk xs no_buffers = Inr s" "owns_all s"
    by blast
  have "dom (blocks (mem s)) = {k. \<exists>i. owner s i k}"
  proof (intro equalityI subsetI)
    fix k assume "k \<in> dom (blocks (mem s))"
    then show "k \<in> {k. \<exists>i. owner s i k}" using s(2) unfolding owns_all_def by blast
  next
    fix k assume "k \<in> {k. \<exists>i. owner s i k}"
    then obtain i b where "live s i = Some b" "own_data b" "data_ptr b = Ptr k 0"
      by (auto simp: owner_def)
    with owns_allD [OF s(2) this(1,2)] show "k \<in> dom (blocks (mem s))" by auto
  qed
  moreover have "inj_on (\<lambda>i. data_ptr (the (live s i))) {i. \<exists>b. live s i = Some b \<and> own_data b}"
  proof (rule inj_onI, clarify)
    fix i j b c
    assume b: "live s i = Some b" "own_data b" and c: "live s j = Some c" "own_data c"
      and eq: "data_ptr (the (live s i)) = data_ptr (the (live s j))"
    from owns_allD [OF s(2) b] obtain k where k: "data_ptr b = Ptr k 0" "owner s i k" by blast
    with b c eq have "owner s j k" by (simp add: owner_def)
    with k(2) s(2) show "i = j" unfolding owns_all_def by blast
  qed
  moreover have "\<exists>bytes. buffer_contents (mem s) b = Inr bytes" if b: "live s i = Some b" "own_data b" for i b
  proof -
    from owns_allD [OF s(2) b] obtain k bs where
      "data_ptr b = Ptr k 0" "blocks (mem s) k = Some bs" "length bs = cap b" by blast
    then show ?thesis by (simp add: buffer_contents_def read_bytes_def)
  qed
  then have "{i. \<exists>b. live s i = Some b \<and> own_data b} \<subseteq> {i. \<exists>bytes. buffer_contents (mem s) (the (live s i)) = Inr bytes}"
    by fastforce
  ultimately show ?thesis using s(1) by blast
qed

text \<open>Moving an owning buffer to itself frees its memory and leaves it pointing there.\<close>

lemma self_move_dangles:
  assumes "own_data b" "data_ptr b = Ptr k 0" "blocks h k = Some bs" "0 < cap b"
  shows "\<exists>b' h'. self_move_assign b h = Inr (b', h') \<and> buffer_contents h' b' = Inl Undefined_behaviour"
  using assms by (simp add: self_move_assign_def delete_array_def buffer_contents_def read_bytes_def)

end
