(* ===== verification/Blobs.thy ===== *)
theory Blobs
  imports Prelude
begin

text \<open>
  Hexadecimal and base 64 views of buffers, \<open>src/lw/format/blobs.h\<close> and
  \<open>src/lw/format/blobs.cpp\<close>. A view encodes while it is iterated over: each iterator holds
  the encoded characters of the byte, or block of three bytes, it stands on.

  The bytes of the viewed buffer are an argument of the operations; they do not change, and
  iterators are only compared with iterators of the same view. The members \<open>_hex\<close> and
  \<open>_block\<close> are not initialised by the constructor of the end iterator: they are empty
  lists there. \<open>iterate\<close> is the range loop of \<open>operator<<\<close>, which may not end for an
  arbitrary iterator; the locale \<open>forward_iterator\<close> has the laws under which it does.
\<close>

unbundle bit_operations_syntax

section \<open>Characters\<close>

definition to_hex_char :: "nat \<Rightarrow> char" where
  "to_hex_char n = (if n < 10 then char_of (48 + n) else char_of (97 + n - 10))"

definition b64_table :: string where
  "b64_table = ''ABCDEFGHIJKLMNOPQRSTUVWXYZabcdefghijklmnopqrstuvwxyz0123456789+/''"

definition B64_BLOCK_SIZE :: nat where
  "B64_BLOCK_SIZE = 4"

text \<open>The inner \<open>while\<close> of \<open>to_base_64\<close>; \<open>out\<close> is the part of the block written.\<close>

function b64_groups :: "32 word \<Rightarrow> nat \<Rightarrow> string \<Rightarrow> nat \<times> string" where
  "b64_groups accumulator bits_collected out =
     (if 6 \<le> bits_collected then
        b64_groups accumulator (bits_collected - 6)
          (out @ [b64_table ! unat (drop_bit (bits_collected - 6) accumulator AND 0x3f)])
      else (bits_collected, out))"
  by pat_completeness auto
termination
  by (relation "measure (\<lambda>(a, b, c). b)") auto

declare b64_groups.simps [simp del]

fun b64_bytes :: "byte list \<Rightarrow> 32 word \<Rightarrow> nat \<Rightarrow> string \<Rightarrow> 32 word \<times> nat \<times> string" where
  "b64_bytes [] accumulator bits_collected out = (accumulator, bits_collected, out)"
| "b64_bytes (b # bs) accumulator bits_collected out =
     (if length out < B64_BLOCK_SIZE then
        let accumulator' = push_bit 8 accumulator OR (ucast b AND 0xff);
            (bits', out') = b64_groups accumulator' (bits_collected + 8) out
        in b64_bytes bs accumulator' bits' out'
      else (accumulator, bits_collected, out))"

definition to_base_64 :: "byte list \<Rightarrow> string" where
  "to_base_64 buffer =
     (case b64_bytes buffer 0 0 [] of
        (accumulator, bits_collected, out) \<Rightarrow>
          let out' = (if 0 < bits_collected
                      then out @ [b64_table ! unat (push_bit (6 - bits_collected) accumulator AND 0x3f)]
                      else out)
          in out' @ replicate (B64_BLOCK_SIZE - length out') CHR ''='')"

section \<open>Iterators\<close>

text \<open>\<open>std::size_t\<close> arithmetic on the index wraps; sizes themselves are far below the wrap.\<close>

record hex_iterator =
  hex_chars :: string
  hex_index :: nat
  hex_char_index :: nat

definition hex_load :: "byte list \<Rightarrow> nat \<Rightarrow> string" where
  "hex_load buf i =
     (if i < length buf
      then [to_hex_char (unat (drop_bit 4 (buf ! i) AND 0x0f)), to_hex_char (unat (buf ! i AND 0x0f))]
      else [CHR 0x00, CHR 0x00])"

definition hex_begin :: "byte list \<Rightarrow> hex_iterator" where
  "hex_begin buf = \<lparr>hex_chars = hex_load buf 0, hex_index = 0, hex_char_index = 0\<rparr>"

definition hex_end :: "byte list \<Rightarrow> hex_iterator" where
  "hex_end buf = \<lparr>hex_chars = [], hex_index = length buf, hex_char_index = 0\<rparr>"

definition hex_size :: "nat \<Rightarrow> nat" where
  "hex_size s = s * 2"

definition hex_deref :: "hex_iterator \<Rightarrow> char" where
  "hex_deref it = hex_chars it ! hex_char_index it"

definition hex_next :: "byte list \<Rightarrow> hex_iterator \<Rightarrow> hex_iterator" where
  "hex_next buf it =
     (if hex_char_index it = 1
      then \<lparr>hex_chars = hex_load buf (hex_index it + 1), hex_index = hex_index it + 1, hex_char_index = 0\<rparr>
      else it\<lparr>hex_char_index := 1\<rparr>)"

definition hex_prev :: "byte list \<Rightarrow> hex_iterator \<Rightarrow> hex_iterator" where
  "hex_prev buf it =
     (if hex_char_index it = 0
      then \<lparr>hex_chars = hex_load buf (size_minus (hex_index it) 1), hex_index = size_minus (hex_index it) 1,
            hex_char_index = 1\<rparr>
      else it\<lparr>hex_char_index := 0\<rparr>)"

definition hex_equal :: "hex_iterator \<Rightarrow> hex_iterator \<Rightarrow> bool" where
  "hex_equal a b \<longleftrightarrow> hex_index a = hex_index b \<and> hex_char_index a = hex_char_index b"

definition hex_position :: "hex_iterator \<Rightarrow> nat" where
  "hex_position it = hex_size (hex_index it) + hex_char_index it"

record base64_iterator =
  b64_block :: string
  b64_index :: nat
  b64_char_index :: nat

definition b64_load :: "byte list \<Rightarrow> nat \<Rightarrow> string" where
  "b64_load buf i =
     (if length buf < i then replicate 4 CHR 0x00 else to_base_64 (drop i buf))"

definition b64_begin :: "byte list \<Rightarrow> base64_iterator" where
  "b64_begin buf = \<lparr>b64_block = b64_load buf 0, b64_index = 0, b64_char_index = 0\<rparr>"

definition b64_end :: "byte list \<Rightarrow> base64_iterator" where
  "b64_end buf = \<lparr>b64_block = [], b64_index = length buf, b64_char_index = 0\<rparr>"

definition b64_size :: "nat \<Rightarrow> nat" where
  "b64_size s = ((s + 2) div 3) * 4"

definition b64_deref :: "base64_iterator \<Rightarrow> char" where
  "b64_deref it = b64_block it ! b64_char_index it"

definition b64_next :: "byte list \<Rightarrow> base64_iterator \<Rightarrow> base64_iterator" where
  "b64_next buf it =
     (if b64_char_index it = 3
      then let i = min (b64_index it + 3) (length buf)
           in \<lparr>b64_block = b64_load buf i, b64_index = i, b64_char_index = 0\<rparr>
      else it\<lparr>b64_char_index := b64_char_index it + 1\<rparr>)"

definition b64_prev :: "byte list \<Rightarrow> base64_iterator \<Rightarrow> base64_iterator" where
  "b64_prev buf it =
     (if b64_char_index it = 0
      then let i = size_minus (b64_index it) 3
           in \<lparr>b64_block = b64_load buf i, b64_index = i, b64_char_index = 3\<rparr>
      else it\<lparr>b64_char_index := b64_char_index it - 1\<rparr>)"

definition b64_equal :: "base64_iterator \<Rightarrow> base64_iterator \<Rightarrow> bool" where
  "b64_equal a b \<longleftrightarrow> b64_index a = b64_index b \<and> b64_char_index a = b64_char_index b"

definition b64_position :: "base64_iterator \<Rightarrow> nat" where
  "b64_position it = b64_size (b64_index it) + b64_char_index it"

section \<open>The range loop\<close>

partial_function (option) iterate ::
  "('it \<Rightarrow> 'it) \<Rightarrow> ('it \<Rightarrow> bool) \<Rightarrow> ('it \<Rightarrow> char) \<Rightarrow> 'it \<Rightarrow> string option" where
  "iterate nxt stop deref it =
     (if stop it then Some []
      else Option.bind (iterate nxt stop deref (nxt it)) (\<lambda>s. Some (deref it # s)))"

definition stream_hex :: "byte list \<Rightarrow> string option" where
  "stream_hex buf = iterate (hex_next buf) (\<lambda>it. hex_equal it (hex_end buf)) hex_deref (hex_begin buf)"

definition stream_base64 :: "byte list \<Rightarrow> string option" where
  "stream_base64 buf = iterate (b64_next buf) (\<lambda>it. b64_equal it (b64_end buf)) b64_deref (b64_begin buf)"

text \<open>
  What a view relies on: the iterators it passes through are \<open>at 0, at 1, ...\<close>, only the
  last of which equals the end, and the text they show.
\<close>

locale forward_iterator =
  fixes nxt :: "'it \<Rightarrow> 'it" and stop :: "'it \<Rightarrow> bool" and deref :: "'it \<Rightarrow> char"
    and it_at :: "nat \<Rightarrow> 'it" and shown :: string
  assumes next_at: "k < length shown \<Longrightarrow> nxt (it_at k) = it_at (Suc k)"
    and stop_at: "k \<le> length shown \<Longrightarrow> stop (it_at k) \<longleftrightarrow> k = length shown"
    and deref_at: "k < length shown \<Longrightarrow> deref (it_at k) = shown ! k"
begin

lemma iterate_from: "k \<le> length shown \<Longrightarrow> iterate nxt stop deref (it_at k) = Some (drop k shown)"
proof (induction "length shown - k" arbitrary: k)
  case 0
  then show ?case by (subst iterate.simps) (simp add: stop_at)
next
  case (Suc d)
  then have k: "k < length shown" by simp
  with Suc have "iterate nxt stop deref (it_at (Suc k)) = Some (drop (Suc k) shown)" by simp
  with k show ?case
    by (subst iterate.simps) (simp add: stop_at next_at deref_at Cons_nth_drop_Suc)
qed

lemma iterate_all: "iterate nxt stop deref (it_at 0) = Some shown"
  using iterate_from [of 0] by simp

end

section \<open>Texts in chunks\<close>

lemma length_concat_chunks:
  "list_all (\<lambda>x. length x = n) xss \<Longrightarrow> length (concat xss) = n * length xss"
  by (induction xss) auto

lemma nth_concat_chunks:
  assumes "list_all (\<lambda>x. length x = n) xss" "k < n * length xss"
  shows "concat xss ! k = xss ! (k div n) ! (k mod n)"
  using assms
proof (induction xss arbitrary: k)
  case (Cons xs xss)
  show ?case
  proof (cases "k < n")
    case True
    with Cons.prems show ?thesis by (simp add: nth_append)
  next
    case False
    with Cons.prems have "0 < n" "k - n < n * length xss" by auto
    with Cons False show ?thesis
      by (auto simp: nth_append nth_Cons' le_div_geq le_mod_geq not_less)
  qed
qed simp

section \<open>Hexadecimal\<close>

definition hex_byte :: "byte \<Rightarrow> string" where
  "hex_byte b = [to_hex_char (unat (drop_bit 4 b AND 0x0f)), to_hex_char (unat (b AND 0x0f))]"

definition hex_text :: "byte list \<Rightarrow> string" where
  "hex_text buf = concat (map hex_byte buf)"

definition hex_at :: "byte list \<Rightarrow> nat \<Rightarrow> hex_iterator" where
  "hex_at buf k =
     \<lparr>hex_chars = hex_load buf (k div 2), hex_index = k div 2, hex_char_index = k mod 2\<rparr>"

lemma hex_load_byte: "i < length buf \<Longrightarrow> hex_load buf i = hex_byte (buf ! i)"
  by (simp add: hex_load_def hex_byte_def)

lemma length_hex_text: "length (hex_text buf) = hex_size (length buf)"
  unfolding hex_text_def hex_size_def
  by (subst length_concat_chunks [of 2]) (auto simp: hex_byte_def list_all_iff)

lemma nth_hex_text:
  assumes "k < 2 * length buf"
  shows "hex_text buf ! k = hex_byte (buf ! (k div 2)) ! (k mod 2)"
proof -
  have "list_all (\<lambda>x. length x = 2) (map hex_byte buf)"
    by (auto simp: hex_byte_def list_all_iff)
  from nth_concat_chunks [OF this, of k] assms show ?thesis
    by (simp add: hex_text_def)
qed

interpretation hex_view: forward_iterator
    "hex_next buf" "\<lambda>it. hex_equal it (hex_end buf)" hex_deref "hex_at buf" "hex_text buf" for buf
proof
  fix k assume k: "k < length (hex_text buf)"
  show "hex_next buf (hex_at buf k) = hex_at buf (Suc k)"
    by (cases "k mod 2 = 1") (auto simp: hex_next_def hex_at_def div_Suc mod_Suc)
  show "hex_deref (hex_at buf k) = hex_text buf ! k"
    using k by (simp add: hex_deref_def hex_at_def length_hex_text hex_size_def nth_hex_text hex_load_byte)
next
  fix k assume "k \<le> length (hex_text buf)"
  then show "hex_equal (hex_at buf k) (hex_end buf) \<longleftrightarrow> k = length (hex_text buf)"
    by (auto simp: hex_equal_def hex_at_def hex_end_def length_hex_text hex_size_def)
qed

definition hex_value :: "char \<Rightarrow> byte" where
  "hex_value c = of_nat (if isdigit c then code c - 48 else code c - 87)"

fun hex_decode :: "string \<Rightarrow> byte list" where
  "hex_decode (p # q # s) = (push_bit 4 (hex_value p) OR hex_value q) # hex_decode s"
| "hex_decode _ = []"

lemma hex_value_to_hex_char: "n < 16 \<Longrightarrow> hex_value (to_hex_char n) = of_nat n"
  by (auto simp: hex_value_def to_hex_char_def isdigit_def code_char_of)

lemma and_nibble: "w AND 0x0f = take_bit 4 (w :: byte)"
  by (simp add: take_bit_eq_mask mask_eq_exp_minus_1)

lemma take_bit_nibble_less: "unat (take_bit 4 (w :: byte)) < 16"
  using take_bit_nat_less_exp [of 4 "unat w"] by (simp add: unsigned_take_bit_eq)

lemma nibbles: "push_bit 4 (take_bit 4 (drop_bit 4 b)) OR take_bit 4 b = (b :: byte)"
  by (intro bit_word_eqI) (auto simp: bit_simps)

lemma hex_decode_text: "hex_decode (hex_text buf) = buf"
  by (induction buf)
    (simp_all add: hex_text_def hex_byte_def hex_value_to_hex_char and_nibble take_bit_nibble_less nibbles)

lemma hex_begin_at: "hex_begin buf = hex_at buf 0"
  by (simp add: hex_begin_def hex_at_def)

lemma hex_position_at: "hex_position (hex_at buf k) = k"
  by (simp add: hex_position_def hex_at_def hex_size_def)

lemma hex_prev_at: "hex_prev buf (hex_at buf (Suc k)) = hex_at buf k"
proof (cases "k mod 2 = 1")
  case True
  then have "Suc k div 2 = Suc (k div 2)" "Suc k mod 2 = 0" by (auto simp: div_Suc mod_Suc)
  with True show ?thesis by (simp add: hex_prev_def hex_at_def size_minus_def)
next
  case False
  then have "Suc k div 2 = k div 2" "Suc k mod 2 = 1" "k mod 2 = 0" by (auto simp: div_Suc mod_Suc)
  then show ?thesis by (simp add: hex_prev_def hex_at_def)
qed

text \<open>
  streaming a hexadecimal view ends, with two characters for every byte, from which the
  bytes can be read back; and from every position the view reaches, stepping back undoes the
  step forward.
\<close>

theorem hex_stream_decodes:
  "(\<exists>s. stream_hex buf = Some s \<and> length s = hex_size (length buf) \<and> hex_decode s = buf) \<and>
   (hex_prev buf ((hex_next buf ^^ Suc k) (hex_begin buf)) = (hex_next buf ^^ k) (hex_begin buf))"
proof
  show "\<exists>s. stream_hex buf = Some s \<and> length s = hex_size (length buf) \<and> hex_decode s = buf"
    using hex_view.iterate_all [of buf]
    by (simp add: stream_hex_def hex_begin_at length_hex_text hex_decode_text)
  have "(hex_next buf ^^ k) (hex_begin buf) = hex_at buf k" for k
    by (induction k)
      (auto simp: hex_begin_at hex_next_def hex_at_def div_Suc mod_Suc split: if_splits)
  then show "hex_prev buf ((hex_next buf ^^ Suc k) (hex_begin buf)) = (hex_next buf ^^ k) (hex_begin buf)"
    using hex_prev_at by metis
qed

section \<open>Base 64\<close>

lemma and_six: "w AND 0x3f = take_bit 6 (w :: 32 word)"
  by (simp add: take_bit_eq_mask mask_eq_exp_minus_1)

lemma ucast_byte: "ucast b AND (0xff :: 32 word) = ucast (b :: byte)"
proof -
  have "ucast b AND (0xff :: 32 word) = take_bit 8 (ucast b)"
    by (simp add: take_bit_eq_mask mask_eq_exp_minus_1)
  also have "\<dots> = ucast b"
    by (intro bit_word_eqI) (auto simp: bit_simps dest: bit_imp_le_length)
  finally show ?thesis .
qed

lemma b64_groups_eval:
  "b64_groups acc 8 out = (2, out @ [b64_table ! unat (take_bit 6 (drop_bit 2 acc))])"
  "b64_groups acc 10 out = (4, out @ [b64_table ! unat (take_bit 6 (drop_bit 4 acc))])"
  "b64_groups acc 12 out =
     (0, out @ [b64_table ! unat (take_bit 6 (drop_bit 6 acc)), b64_table ! unat (take_bit 6 acc)])"
  by (simp_all add: b64_groups.simps and_six)

text \<open>The characters of a block, for one, two and three or more bytes.\<close>

definition b64_digit :: "32 word \<Rightarrow> char" where
  "b64_digit w = b64_table ! unat (take_bit 6 w)"

lemma to_base_64_eval:
  "to_base_64 [] = ''====''"
  "to_base_64 [a] =
     [b64_digit (drop_bit 2 (ucast a)), b64_digit (push_bit 4 (ucast a)), CHR ''='', CHR ''='']"
  "to_base_64 [a, b] =
     [b64_digit (drop_bit 2 (ucast a)), b64_digit (drop_bit 4 (push_bit 8 (ucast a) OR ucast b)),
      b64_digit (push_bit 2 (push_bit 8 (ucast a) OR ucast b)), CHR ''='']"
  "to_base_64 (a # b # c # rest) =
     [b64_digit (drop_bit 2 (ucast a)), b64_digit (drop_bit 4 (push_bit 8 (ucast a) OR ucast b)),
      b64_digit (drop_bit 6 (push_bit 8 (push_bit 8 (ucast a) OR ucast b) OR ucast c)),
      b64_digit (push_bit 8 (push_bit 8 (ucast a) OR ucast b) OR ucast c)]"
proof -
  show "to_base_64 [] = ''====''"
    by (simp add: to_base_64_def B64_BLOCK_SIZE_def numeral_eq_Suc)
  note eval = to_base_64_def B64_BLOCK_SIZE_def ucast_byte and_six b64_groups_eval b64_digit_def Let_def
  show "to_base_64 [a] =
     [b64_digit (drop_bit 2 (ucast a)), b64_digit (push_bit 4 (ucast a)), CHR ''='', CHR ''='']"
    by (simp add: eval) (simp add: numeral_2_eq_2)
  show "to_base_64 [a, b] =
     [b64_digit (drop_bit 2 (ucast a)), b64_digit (drop_bit 4 (push_bit 8 (ucast a) OR ucast b)),
      b64_digit (push_bit 2 (push_bit 8 (ucast a) OR ucast b)), CHR ''='']"
    by (simp add: eval)
  show "to_base_64 (a # b # c # rest) =
     [b64_digit (drop_bit 2 (ucast a)), b64_digit (drop_bit 4 (push_bit 8 (ucast a) OR ucast b)),
      b64_digit (drop_bit 6 (push_bit 8 (push_bit 8 (ucast a) OR ucast b) OR ucast c)),
      b64_digit (push_bit 8 (push_bit 8 (ucast a) OR ucast b) OR ucast c)]"
    by (cases rest; simp add: eval)
qed

definition b64_value :: "char \<Rightarrow> byte" where
  "b64_value c = of_nat (length (takeWhile (\<lambda>x. x \<noteq> c) b64_table))"

fun b64_decode :: "string \<Rightarrow> byte list" where
  "b64_decode (p # q # r # s # rest) =
     (let x = push_bit 2 (b64_value p) OR drop_bit 4 (b64_value q);
          y = push_bit 4 (b64_value q) OR drop_bit 2 (b64_value r);
          z = push_bit 6 (b64_value r) OR b64_value s
      in if r = CHR ''='' then [x]
         else if s = CHR ''='' then [x, y]
         else x # y # z # b64_decode rest)"
| "b64_decode _ = []"

lemma length_takeWhile_nth:
  "distinct xs \<Longrightarrow> i < length xs \<Longrightarrow> length (takeWhile (\<lambda>x. x \<noteq> xs ! i) xs) = i"
proof (induction xs arbitrary: i)
  case (Cons x xs)
  then show ?case by (cases i) auto
qed simp

lemma b64_table_facts: "length b64_table = 64" "distinct b64_table" "CHR ''='' \<notin> set b64_table"
  by (simp_all add: b64_table_def)

lemma take_bit_six_less: "unat (take_bit 6 (w :: 32 word)) < 64"
  using take_bit_nat_less_exp [of 6 "unat w"] by (simp add: unsigned_take_bit_eq)

lemma b64_value_digit: "b64_value (b64_digit w) = ucast (take_bit 6 w)"
  using take_bit_six_less [of w] b64_table_facts
  by (simp add: b64_value_def b64_digit_def length_takeWhile_nth)

lemma b64_digit_not_pad: "b64_digit w \<noteq> CHR ''=''"
  using take_bit_six_less [of w] b64_table_facts by (metis b64_digit_def nth_mem)

lemma less_8_cases: "n < (8::nat) \<longleftrightarrow> n = 0 \<or> n = 1 \<or> n = 2 \<or> n = 3 \<or> n = 4 \<or> n = 5 \<or> n = 6 \<or> n = 7"
  by arith

lemma byte_eqI:
  fixes x y :: byte
  assumes "bit x 0 = bit y 0" "bit x 1 = bit y 1" "bit x 2 = bit y 2" "bit x 3 = bit y 3"
    "bit x 4 = bit y 4" "bit x 5 = bit y 5" "bit x 6 = bit y 6" "bit x 7 = bit y 7"
  shows "x = y"
proof (rule bit_word_eqI)
  fix n assume "n < LENGTH(8)"
  then have "n < 8" by simp
  then show "bit x n = bit y n"
    unfolding less_8_cases using assms by (elim disjE) simp_all
qed

lemma byte_bit_high [simp]: "8 \<le> n \<Longrightarrow> \<not> bit (b :: byte) n"
  using bit_imp_le_length [of b n] by auto

lemma b64_first_byte:
  fixes a b :: byte
  shows "push_bit 2 (ucast (take_bit 6 (drop_bit 2 (ucast a :: 32 word)))) OR
      drop_bit 4 (ucast (take_bit 6 (push_bit 4 (ucast a :: 32 word)))) = a"
    "push_bit 2 (ucast (take_bit 6 (drop_bit 2 (ucast a :: 32 word)))) OR
      drop_bit 4 (ucast (take_bit 6 (drop_bit 4 (push_bit 8 (ucast a :: 32 word) OR ucast b)))) = a"
  by (rule byte_eqI; simp add: bit_simps flip: numeral_2_eq_2 numeral_3_eq_3)+

lemma b64_second_byte:
  fixes a b c :: byte
  shows "push_bit 4 (ucast (take_bit 6 (drop_bit 4 (push_bit 8 (ucast a :: 32 word) OR ucast b)))) OR
      drop_bit 2 (ucast (take_bit 6 (push_bit 2 (push_bit 8 (ucast a :: 32 word) OR ucast b)))) = b"
    "push_bit 4 (ucast (take_bit 6 (drop_bit 4 (push_bit 8 (ucast a :: 32 word) OR ucast b)))) OR
      drop_bit 2 (ucast (take_bit 6 (drop_bit 6 (push_bit 8 (push_bit 8 (ucast a :: 32 word) OR ucast b) OR ucast c)))) = b"
  by (rule byte_eqI; simp add: bit_simps flip: numeral_2_eq_2 numeral_3_eq_3)+

lemma b64_third_byte:
  fixes a b c :: byte
  shows "push_bit 6 (ucast (take_bit 6 (drop_bit 6 (push_bit 8 (push_bit 8 (ucast a :: 32 word) OR ucast b) OR ucast c)))) OR
      ucast (take_bit 6 (push_bit 8 (push_bit 8 (ucast a :: 32 word) OR ucast b) OR ucast c)) = c"
  by (rule byte_eqI; simp add: bit_simps flip: numeral_2_eq_2 numeral_3_eq_3)

lemmas b64_bytes_back =
  b64_first_byte [folded b64_value_digit] b64_second_byte [folded b64_value_digit]
  b64_third_byte [folded b64_value_digit]

lemma b64_decode_block:
  "b64_decode (to_base_64 [a]) = [a]"
  "b64_decode (to_base_64 [a, b]) = [a, b]"
  "b64_decode (to_base_64 (a # b # c # rest) @ s) = a # b # c # b64_decode s"
  unfolding to_base_64_eval append_Cons append_Nil b64_decode.simps Let_def b64_bytes_back
  by (simp_all add: b64_digit_not_pad)

fun b64_text :: "byte list \<Rightarrow> string" where
  "b64_text [] = []"
| "b64_text [a] = to_base_64 [a]"
| "b64_text [a, b] = to_base_64 [a, b]"
| "b64_text (a # b # c # rest) = to_base_64 (a # b # c # rest) @ b64_text rest"

lemma b64_decode_text: "b64_decode (b64_text buf) = buf"
  by (induction buf rule: b64_text.induct) (simp_all add: b64_decode_block)

lemma length_to_base_64: "length (to_base_64 buf) = 4"
  by (cases buf rule: b64_text.cases) (simp_all add: to_base_64_eval)

lemma b64_size_step: "b64_size (Suc (Suc (Suc n))) = 4 + b64_size n"
proof -
  have "(Suc (Suc (Suc n)) + 2) div 3 = 1 + (n + 2) div 3" by linarith
  then show ?thesis unfolding b64_size_def by (simp only: distrib_right mult_1)
qed

lemma b64_size_blocks: "b64_size (3 * j) = 4 * j"
  by (simp add: b64_size_def)

lemma length_b64_text: "length (b64_text buf) = b64_size (length buf)"
  by (induction buf rule: b64_text.induct) (simp_all add: length_to_base_64 b64_size_step, simp_all add: b64_size_def)

lemma nth_b64_text:
  "k < b64_size (length buf) \<Longrightarrow> b64_text buf ! k = to_base_64 (drop (3 * (k div 4)) buf) ! (k mod 4)"
proof (induction buf arbitrary: k rule: b64_text.induct)
  case (4 a b c rest)
  show ?case
  proof (cases "k < 4")
    case True
    then show ?thesis by (simp add: nth_append length_to_base_64)
  next
    case False
    then have k: "k div 4 = Suc ((k - 4) div 4)" "k mod 4 = (k - 4) mod 4"
      by (simp_all add: le_div_geq le_mod_geq)
    from False "4.prems" have "k - 4 < b64_size (length rest)" by (simp add: b64_size_step)
    moreover have "drop (3 * (k div 4)) (a # b # c # rest) = drop (3 * ((k - 4) div 4)) rest"
      by (simp add: k numeral_3_eq_3)
    ultimately show ?thesis
      using "4.IH" False k(2) by (simp add: nth_append length_to_base_64)
  qed
qed (simp_all add: b64_size_def)

definition b64_at :: "byte list \<Rightarrow> nat \<Rightarrow> base64_iterator" where
  "b64_at buf k =
     (let i = min (3 * (k div 4)) (length buf)
      in \<lparr>b64_block = b64_load buf i, b64_index = i, b64_char_index = k mod 4\<rparr>)"

lemma b64_block_start:
  assumes "k < b64_size n" shows "3 * (k div 4) < n"
proof -
  from assms have "k div 4 < (n + 2) div 3" by (simp add: b64_size_def less_mult_imp_div_less)
  then show ?thesis by linarith
qed

lemma b64_end_start:
  "n \<le> 3 * (b64_size n div 4)" "b64_size n mod 4 = 0"
proof -
  have "n \<le> 3 * ((n + 2) div 3)" by linarith
  then show "n \<le> 3 * (b64_size n div 4)" by (simp add: b64_size_def)
qed (simp add: b64_size_def)

lemma b64_next_at:
  assumes "k < b64_size (length buf)"
  shows "b64_next buf (b64_at buf k) = b64_at buf (Suc k)"
  using b64_block_start [OF assms]
  by (cases "k mod 4 = 3") (auto simp: b64_next_def b64_at_def Let_def div_Suc mod_Suc add.commute)

interpretation b64_view: forward_iterator
    "b64_next buf" "\<lambda>it. b64_equal it (b64_end buf)" b64_deref "b64_at buf" "b64_text buf" for buf
proof
  fix k assume "k < length (b64_text buf)"
  then have k: "k < b64_size (length buf)" by (simp add: length_b64_text)
  then show "b64_next buf (b64_at buf k) = b64_at buf (Suc k)" by (rule b64_next_at)
  show "b64_deref (b64_at buf k) = b64_text buf ! k"
    using b64_block_start [OF k] k
    by (simp add: b64_deref_def b64_at_def nth_b64_text b64_load_def Let_def min_def)
next
  fix k assume k: "k \<le> length (b64_text buf)"
  show "b64_equal (b64_at buf k) (b64_end buf) \<longleftrightarrow> k = length (b64_text buf)"
  proof (cases "k < b64_size (length buf)")
    case True
    with b64_block_start [OF True] show ?thesis
      by (simp add: b64_equal_def b64_at_def b64_end_def length_b64_text Let_def)
  next
    case False
    with k have "k = b64_size (length buf)" by (simp add: length_b64_text)
    with b64_end_start [of "length buf"] show ?thesis
      by (simp add: b64_equal_def b64_at_def b64_end_def length_b64_text Let_def)
  qed
qed

lemma b64_position_at:
  assumes "k \<le> b64_size (length buf)"
  shows "b64_position (b64_at buf k) = k"
proof (cases "k < b64_size (length buf)")
  case True
  with b64_block_start [OF True] show ?thesis
    by (simp add: b64_position_def b64_at_def b64_size_blocks Let_def)
next
  case False
  with assms have "k = b64_size (length buf)" by simp
  with b64_end_start [of "length buf"] show ?thesis
    by (simp add: b64_position_def b64_at_def Let_def)
qed

lemma b64_begin_at: "b64_begin buf = b64_at buf 0"
  by (simp add: b64_begin_def b64_at_def)

text \<open>
  C33: streaming a base 64 view ends, with four characters for every three bytes started, from
  which the bytes can be read back; the positions of the iterators it passes through are their
  distances from the start.
\<close>

theorem base64_stream_decodes:
  "(\<exists>s. stream_base64 buf = Some s \<and> length s = b64_size (length buf) \<and> b64_decode s = buf) \<and>
   (\<forall>k. b64_position ((b64_next buf ^^ min k (b64_size (length buf))) (b64_begin buf)) =
      min k (b64_size (length buf)))"
proof (intro conjI allI)
  show "\<exists>s. stream_base64 buf = Some s \<and> length s = b64_size (length buf) \<and> b64_decode s = buf"
    using b64_view.iterate_all [of buf]
    by (simp add: stream_base64_def b64_begin_at length_b64_text b64_decode_text)
  fix k
  have "k \<le> b64_size (length buf) \<Longrightarrow> (b64_next buf ^^ k) (b64_begin buf) = b64_at buf k" for k
    by (induction k) (simp_all add: b64_begin_at b64_next_at)
  then show "b64_position ((b64_next buf ^^ min k (b64_size (length buf))) (b64_begin buf)) =
      min k (b64_size (length buf))"
    by (simp add: b64_position_at)
qed

text \<open>
  stepping a base 64 iterator back from the end of the view: it reaches the last character
  only when the number of bytes is a multiple of three. Otherwise it stands on a block that
  starts in the middle of a group, or, with fewer than three bytes, far outside of the buffer,
  where it shows a null character.
\<close>

theorem base64_step_back_from_end:
  assumes "buf \<noteq> []"
  shows "(b64_prev buf (b64_end buf) = b64_at buf (b64_size (length buf) - 1) \<longleftrightarrow> length buf mod 3 = 0) \<and>
    (length buf < 3 \<longrightarrow> b64_deref (b64_prev buf (b64_end buf)) = CHR 0x00)"
proof -
  let ?n = "length buf"
  obtain m where m: "b64_size ?n = 4 * Suc m" "Suc m = (?n + 2) div 3"
    using assms by (cases "(?n + 2) div 3") (auto simp: b64_size_def Suc_le_eq neq_Nil_conv)
  have "b64_size ?n - 1 = 3 + m * 4" unfolding m(1) by simp
  then have k: "(b64_size ?n - 1) div 4 = m" "(b64_size ?n - 1) mod 4 = 3" by simp_all
  have "b64_size ?n - 1 < b64_size ?n" using m(1) by simp
  from b64_block_start [OF this] have last: "b64_at buf (b64_size ?n - 1) =
      \<lparr>b64_block = b64_load buf (3 * m), b64_index = 3 * m, b64_char_index = 3\<rparr>"
    unfolding b64_at_def k by (simp add: Let_def)
  show ?thesis
  proof (cases "3 \<le> ?n")
    case True
    then have "?n - 3 = 3 * m \<longleftrightarrow> ?n mod 3 = 0" using m(2) by presburger
    with True show ?thesis
      unfolding last by (auto simp: b64_prev_def b64_end_def size_minus_def Let_def)
  next
    case False
    then have "3 * m \<noteq> ?n + 2 ^ 64 - 3" "?n mod 3 \<noteq> 0" "?n < ?n + 2 ^ 64 - 3"
      using m(2) assms by auto
    with False show ?thesis
      unfolding last
      by (auto simp: b64_prev_def b64_end_def size_minus_def Let_def b64_deref_def b64_load_def)
  qed
qed

theorem base64_step_back_from_end_witness:
  "b64_deref (b64_prev [0x66] (b64_end [0x66])) = CHR 0x00"
  using base64_step_back_from_end [of "[0x66]"] by simp

end
