(* ===== verification/Flag_Format.thy ===== *)
theory Flag_Format
  imports Prelude "HOL-Library.Signed_Division"
begin

text \<open>
  The text form of flag values, \<open>src/lw/flags/format.h\<close> and \<open>src/lw/flags/format.cpp\<close>:
  \<open>lw::cli::format\<close> and \<open>lw::cli::parse<T>\<close> for booleans, the eight integer types, the
  three floating point types, strings and durations. The functions of the C library on
  floating point numbers (\<open>strtof\<close> and its siblings, \<open>HUGE_VAL\<close>,
  \<open>std::to_string\<close>) are fields of the record \<open>float_lib\<close>.

  \<open>codec\<close> is the contract between the two directions, interpreted for each of the types;
  \<open>value_roundtrip\<close> states it for the values of all types at once. Durations are read as
  sums of terms: \<open>duration_terms\<close> gives the meaning of such a text, the undefined signed
  overflow of \<open>std::chrono\<close> included.
\<close>

named_theorems format_simps \<open>evaluation of the text forms of flag values\<close>

section \<open>Booleans\<close>

definition true_words :: "string list" where
  "true_words = [''y'', ''Y'', ''yes'', ''Yes'', ''t'', ''T'', ''true'', ''True'', ''1'']"

definition false_words :: "string list" where
  "false_words = [''n'', ''N'', ''no'', ''No'', ''f'', ''F'', ''false'', ''False'', ''0'']"

definition parse_bool :: "string \<Rightarrow> bool res" where
  "parse_bool v =
     (if List.member true_words v then Inr True
      else if List.member false_words v then Inr False
      else Inl (Err InvalidArgument))"

definition format_bool :: "bool \<Rightarrow> string" where
  "format_bool b = (if b then ''true'' else ''false'')"

section \<open>Integers\<close>

datatype num_type =
    T_short | T_int | T_long | T_long_long
  | T_ushort | T_uint | T_ulong | T_ulong_long

fun num_signed :: "num_type \<Rightarrow> bool" where
  "num_signed T_short = True"
| "num_signed T_int = True"
| "num_signed T_long = True"
| "num_signed T_long_long = True"
| "num_signed _ = False"

fun num_bits :: "num_type \<Rightarrow> nat" where
  "num_bits T_short = 16"
| "num_bits T_ushort = 16"
| "num_bits T_int = 32"
| "num_bits T_uint = 32"
| "num_bits _ = 64"

definition num_min :: "num_type \<Rightarrow> int" where
  "num_min t = (if num_signed t then - (2 ^ (num_bits t - 1)) else 0)"

definition num_max :: "num_type \<Rightarrow> int" where
  "num_max t = (if num_signed t then 2 ^ (num_bits t - 1) - 1 else 2 ^ num_bits t - 1)"

definition num_fits :: "num_type \<Rightarrow> int \<Rightarrow> bool" where
  "num_fits t i \<longleftrightarrow> num_min t \<le> i \<and> i \<le> num_max t"

definition parse_num :: "num_type \<Rightarrow> string \<Rightarrow> int res" where
  "parse_num t v =
     (case from_chars (num_signed t) (num_min t) (num_max t) v of
        (n, ec, out) \<Rightarrow>
          if n \<noteq> length v \<or> ec = Invalid_argument then Inl (Err InvalidArgument)
          else if ec = Result_out_of_range then Inl (Err InvalidArgument)
          else Inr (the out))"

definition format_num :: "int \<Rightarrow> string" where
  "format_num i = int_to_string i"

section \<open>Floating point\<close>

text \<open>
  \<open>strto k s\<close> is the number of characters \<open>strtof\<close>, \<open>strtod\<close> or \<open>strtold\<close> consume
  at the start of \<open>s\<close>, and the value. The source hands over the start of a view, whose
  end the C functions do not know; the flag parser only makes views that end at the end of
  an argument or at a quotation mark, where these functions stop.
\<close>

datatype float_kind = Float | Double | Long_double

record 'f float_lib =
  strto :: "float_kind \<Rightarrow> string \<Rightarrow> nat \<times> 'f"
  is_huge :: "float_kind \<Rightarrow> 'f \<Rightarrow> bool"
  float_to_string :: "float_kind \<Rightarrow> 'f \<Rightarrow> string"

definition parse_floating :: "'f float_lib \<Rightarrow> float_kind \<Rightarrow> string \<Rightarrow> 'f res" where
  "parse_floating lib k v =
     (case strto lib k v of
        (n, out) \<Rightarrow>
          if n \<noteq> length v then Inl (Err InvalidArgument)
          else if is_huge lib k out then Inl (Err InvalidArgument)
          else Inr out)"

section \<open>Strings\<close>

definition needs_escape :: "char \<Rightarrow> bool" where
  "needs_escape c \<longleftrightarrow> c = CHR 0x5C \<or> c = CHR 0x22 \<or> isspace c"

fun format_text :: "string \<Rightarrow> string" where
  "format_text [] = []"
| "format_text (c # s) =
     (if needs_escape c then CHR 0x5C # c # format_text s else c # format_text s)"

fun parse_text_loop :: "bool \<Rightarrow> string \<Rightarrow> string" where
  "parse_text_loop escaped [] = []"
| "parse_text_loop escaped (c # s) =
     (if \<not> escaped \<and> c = CHR 0x5C then parse_text_loop True s
      else c # parse_text_loop False s)"

definition parse_text :: "string \<Rightarrow> string res" where
  "parse_text v = Inr (parse_text_loop False v)"

section \<open>Durations\<close>

text \<open>
  Counts of nanoseconds are 64 bit integers. \<open>std::chrono\<close> converts units by
  multiplication and division on them: signed overflow is undefined, and division truncates.
  A \<open>std::chrono::years\<close> is 365.2425 days.
\<close>

definition nanos :: "string \<Rightarrow> int option" where
  "nanos u =
     (if u = ''y'' then Some 31556952000000000
      else if u = ''d'' then Some 86400000000000
      else if u = ''h'' then Some 3600000000000
      else if u = ''m'' then Some 60000000000
      else if u = ''s'' then Some 1000000000
      else if u = ''ms'' then Some 1000000
      else if u = ''us'' then Some 1000
      else if u = ''ns'' then Some 1
      else None)"

definition int64_ok :: "int \<Rightarrow> bool" where
  "int64_ok i \<longleftrightarrow> int64_min \<le> i \<and> i \<le> int64_max"

definition add_duration :: "int \<Rightarrow> int \<Rightarrow> int \<Rightarrow> int res" where
  "add_duration tot count ratio =
     (if int64_ok (count * ratio) \<and> int64_ok (tot + count * ratio)
      then Inr (tot + count * ratio) else Inl Undefined_behaviour)"

function unit_length :: "string \<Rightarrow> nat \<Rightarrow> nat \<Rightarrow> nat" where
  "unit_length v num_end len =
     (if num_end + len < length v \<and> \<not> isdigit (v ! (num_end + len))
      then unit_length v num_end (Suc len) else len)"
  by pat_completeness auto
termination
  by (relation "measure (\<lambda>(v, k, len). length v - (k + len))") auto

declare unit_length.simps [simp del]

lemma unit_length_ge: "len \<le> unit_length v k len"
proof (induction v k len rule: unit_length.induct)
  case (1 v k len)
  then show ?case
    using unit_length.simps [of v k len] by auto
qed

lemma unit_length_pos: "0 < unit_length v k (Suc 0)"
  using unit_length_ge [of "Suc 0" v k] by simp

function parse_duration_loop :: "string \<Rightarrow> int \<Rightarrow> int res" where
  "parse_duration_loop v tot =
     (if v = [] then Inr tot
      else case from_chars True int64_min int64_max v of
        (num_end, ec, count) \<Rightarrow>
          if num_end = length v then Inl (Err InvalidArgument)
          else if num_end = 0 \<or> ec = Invalid_argument then Inl (Err InvalidArgument)
          else if ec = Result_out_of_range then Inl (Err InvalidArgument)
          else let n = unit_length v num_end 1
            in case nanos (take n (drop num_end v)) of
                 None \<Rightarrow> Inl (Err InvalidArgument)
               | Some ratio \<Rightarrow>
                   bind_res (add_duration tot (the count) ratio)
                     (\<lambda>s. parse_duration_loop (drop (num_end + n) v) s))"
  by pat_completeness auto
termination
  by (relation "measure (\<lambda>(v, s). length v)") auto

declare parse_duration_loop.simps [simp del]

definition parse_nanoseconds :: "string \<Rightarrow> int res" where
  "parse_nanoseconds v = parse_duration_loop v 0"

text \<open>
  \<open>can_convert_duration<U>(d)\<close> for \<open>d\<close> in nanoseconds and a unit of \<open>ratio\<close>
  nanoseconds.
\<close>

definition can_convert_duration :: "int \<Rightarrow> int \<Rightarrow> bool" where
  "can_convert_duration ratio d \<longleftrightarrow> (d sdiv ratio) * ratio = d"

fun format_duration_in :: "string list \<Rightarrow> int \<Rightarrow> string" where
  "format_duration_in [] d = format_num d @ ''ns''"
| "format_duration_in (u # us) d =
     (if can_convert_duration (the (nanos u)) d then format_num (d sdiv the (nanos u)) @ u
      else format_duration_in us d)"

definition format_nanoseconds :: "int \<Rightarrow> string" where
  "format_nanoseconds d = format_duration_in [''y'', ''d'', ''h'', ''m'', ''s'', ''ms''] d"

section \<open>The contract of the two directions\<close>

text \<open>
  \<open>FlagTraits<T>\<close> offers a type to the flags as a pair of methods; a flag prints its
  default with the first and reads its value with the second.
\<close>

locale codec =
  fixes fmt :: "'a \<Rightarrow> string" and prs :: "string \<Rightarrow> 'a res" and ok :: "'a \<Rightarrow> bool"
  assumes parse_format: "ok x \<Longrightarrow> prs (fmt x) = Inr x"
begin

lemma format_inject: "ok x \<Longrightarrow> ok y \<Longrightarrow> fmt x = fmt y \<longleftrightarrow> x = y"
  using parse_format by (metis sum.inject(2))

lemma reformat: "ok x \<Longrightarrow> map_res fmt (prs (fmt x)) = Inr (fmt x)"
  by (simp add: parse_format)

end

interpretation bool_codec: codec format_bool parse_bool "\<lambda>b. True"
  by unfold_locales (simp add: format_bool_def parse_bool_def true_words_def false_words_def)

lemma num_type_cases: "num_signed t \<or> num_min t = 0"
  by (simp add: num_min_def)

lemma parse_num_format:
  assumes "num_fits t i"
  shows "parse_num t (format_num i) = Inr i"
proof (cases "num_signed t")
  case True
  then show ?thesis
    using from_chars_int [of "[]" "num_min t" i "num_max t"] assms
    by (simp add: parse_num_def format_num_def num_fits_def)
next
  case False
  then have "0 \<le> i" using assms by (simp add: num_fits_def num_min_def)
  then show ?thesis
    using from_chars_nat [of "[]" "num_min t" "nat i" "num_max t" False] assms False
    by (simp add: parse_num_def format_num_def num_fits_def int_to_string_def)
qed

interpretation num_codec: codec format_num "parse_num t" "num_fits t" for t
  by unfold_locales (rule parse_num_format)

lemma parse_text_loop_format: "parse_text_loop False (format_text s) = s"
  by (induction s) (auto simp: needs_escape_def)

interpretation text_codec: codec format_text parse_text "\<lambda>s. True"
  by unfold_locales (simp add: parse_text_def parse_text_loop_format)

section \<open>Durations as sums of terms\<close>

type_synonym duration_term = "int \<times> string"

definition term_text :: "duration_term \<Rightarrow> string" where
  "term_text t = format_num (fst t) @ snd t"

lemma term_text_pair: "term_text (count, u) = format_num count @ u"
  by (simp add: term_text_def)

definition term_ok :: "duration_term \<Rightarrow> bool" where
  "term_ok t \<longleftrightarrow> int64_ok (fst t) \<and> nanos (snd t) \<noteq> None"

text \<open>What a sequence of terms adds to a sum.\<close>

fun duration_terms :: "int \<Rightarrow> duration_term list \<Rightarrow> int res" where
  "duration_terms tot [] = Inr tot"
| "duration_terms tot ((count, u) # ts) =
     bind_res (add_duration tot count (the (nanos u))) (\<lambda>s. duration_terms s ts)"

lemma nanos_pos: "nanos u = Some r \<Longrightarrow> 0 < r"
  by (auto simp: nanos_def split: if_splits)

lemma nanos_units:
  "nanos u \<noteq> None \<longleftrightarrow> u \<in> {''y'', ''d'', ''h'', ''m'', ''s'', ''ms'', ''us'', ''ns''}"
  by (auto simp: nanos_def)

lemma nanos_chars: "nanos u \<noteq> None \<Longrightarrow> u \<noteq> [] \<and> list_all (\<lambda>c. \<not> isdigit c) u"
  unfolding nanos_units by (auto simp: char_simps)

lemma unit_length_run:
  assumes "drop (k + len) v = u @ rest" "list_all (\<lambda>c. \<not> isdigit c) u"
    "rest = [] \<or> isdigit (hd rest)"
  shows "unit_length v k len = len + length u"
  using assms
proof (induction u arbitrary: len)
  case Nil
  then have "length v \<le> k + len \<or> isdigit (v ! (k + len))"
    by (cases "k + len < length v") (auto simp: hd_drop_conv_nth)
  then show ?case by (subst unit_length.simps) auto
next
  case (Cons c u)
  then have "k + len < length v" "v ! (k + len) = c"
    by (metis append_Cons drop_eq_Nil2 leI list.distinct(1))
       (metis Cons.prems(1) append_Cons drop_eq_Nil2 hd_drop_conv_nth leI list.distinct(1) list.sel(1))
  moreover have "drop (k + Suc len) v = u @ rest"
    using Cons.prems(1) by (metis add_Suc_right append_Cons drop_Suc list.sel(3) tl_drop)
  ultimately show ?case
    using Cons by (subst unit_length.simps) simp
qed

lemma unit_length_exact:
  assumes "u \<noteq> []" "list_all (\<lambda>c. \<not> isdigit c) u" "rest = [] \<or> isdigit (hd rest)"
  shows "unit_length (p @ u @ rest) (length p) (Suc 0) = length u"
proof (cases u)
  case (Cons c u')
  then show ?thesis
    using assms unit_length_run [of "length p" "Suc 0" "p @ u @ rest" u' rest] by simp
qed (use assms in simp)

lemma parse_duration_term:
  assumes "int64_ok count" "nanos u = Some r" "rest = [] \<or> isdigit (hd rest)"
  shows "parse_duration_loop (format_num count @ u @ rest) tot =
    bind_res (add_duration tot count r) (parse_duration_loop rest)"
proof -
  have u: "u \<noteq> []" "list_all (\<lambda>c. \<not> isdigit c) u"
    using nanos_chars [of u] assms(2) by auto
  let ?p = "format_num count"
  have p: "?p \<noteq> []" by (simp add: format_num_def int_to_string_def)
  have "hd (u @ rest) = hd u" "\<not> isdigit (hd u)"
    using u by (auto simp: list_all_iff)
  then have "from_chars True int64_min int64_max (?p @ u @ rest) = (length ?p, Ok, Some count)"
    using from_chars_int [of "u @ rest" int64_min count int64_max] assms(1)
    by (simp add: format_num_def int64_ok_def)
  then show ?thesis
    using p u assms(2) unit_length_exact [OF u assms(3), of ?p]
    by (subst parse_duration_loop.simps) (simp add: Let_def)
qed

lemma duration_text_start:
  assumes "ts \<noteq> []" "list_all (\<lambda>t. 0 \<le> fst t) ts"
  shows "isdigit (hd (concat (map term_text ts)))"
  using assms by (cases ts) (auto simp: term_text_def format_num_def int_to_string_def)

lemma parse_duration_terms:
  assumes "list_all term_ok ts" "list_all (\<lambda>t. 0 \<le> fst t) (tl ts)"
  shows "parse_duration_loop (concat (map term_text ts)) tot = duration_terms tot ts"
  using assms
proof (induction ts arbitrary: tot)
  case Nil
  show ?case by (simp add: parse_duration_loop.simps)
next
  case (Cons t ts)
  obtain count u where t: "t = (count, u)" by (cases t)
  from Cons.prems t obtain r where r: "int64_ok count" "nanos u = Some r"
    by (auto simp: term_ok_def)
  let ?rest = "concat (map term_text ts)"
  have rest: "?rest = [] \<or> isdigit (hd ?rest)"
    using Cons.prems duration_text_start [of ts] by (cases ts) auto
  have "list_all (\<lambda>t. 0 \<le> fst t) (tl ts)" "list_all term_ok ts"
    using Cons.prems by (cases ts; simp)+
  note IH = Cons.IH [OF this(2,1)]
  show ?case
    using parse_duration_term [OF r rest, of tot] r IH
    by (simp add: t term_text_pair cong: bind_res_cong)
qed

lemma sdiv_pos:
  assumes "0 < (r::int)"
  shows "d sdiv r = (if 0 \<le> d then d div r else - ((- d) div r))"
  using assms by (simp add: signed_divide_int_def sgn_if)

lemma sdiv_int64_ok:
  assumes "0 < r" "int64_ok d"
  shows "int64_ok (d sdiv r)"
proof (cases "0 \<le> d")
  case True
  then have "0 \<le> d div r" "d div r \<le> d"
    using assms(1) zdiv_mono2 [of d 1 r] by (simp_all add: pos_imp_zdiv_nonneg_iff)
  with True assms show ?thesis by (simp add: sdiv_pos int64_ok_def)
next
  case False
  then have "0 \<le> (- d) div r" "(- d) div r \<le> - d"
    using assms(1) zdiv_mono2 [of "- d" 1 r] by (simp_all add: pos_imp_zdiv_nonneg_iff)
  with False assms show ?thesis by (simp add: sdiv_pos int64_ok_def)
qed

text \<open>A single unit, when the value converts to it without loss.\<close>

lemma parse_one_unit:
  assumes "int64_ok d" "nanos u = Some r" "can_convert_duration r d"
  shows "parse_nanoseconds (format_num (d sdiv r) @ u) = Inr d"
  using parse_duration_term [OF sdiv_int64_ok [OF nanos_pos [OF assms(2)] assms(1)] assms(2), of "[]" 0] assms
  by (simp add: parse_nanoseconds_def add_duration_def can_convert_duration_def parse_duration_loop.simps)

lemma parse_format_in:
  assumes "int64_ok d" "\<forall>u \<in> set us. nanos u \<noteq> None"
  shows "parse_nanoseconds (format_duration_in us d) = Inr d"
  using assms
proof (induction us)
  case Nil
  then show ?case
    using parse_duration_term [of d "''ns''" 1 "[]" 0]
    by (simp add: parse_nanoseconds_def add_duration_def nanos_def parse_duration_loop.simps)
next
  case (Cons u us)
  then obtain r where "nanos u = Some r" by auto
  with Cons parse_one_unit show ?case by simp
qed

interpretation duration_codec: codec format_nanoseconds parse_nanoseconds int64_ok
proof
  show "parse_nanoseconds (format_nanoseconds d) = Inr d" if "int64_ok d" for d
    unfolding format_nanoseconds_def using that by (rule parse_format_in) (simp add: nanos_def)
qed

text \<open>
  A duration text made of terms, each a decimal count and a unit, is read as the sum of
  the terms in nanoseconds, in the order they are written. Only the first count may carry a
  minus sign (later ones would be read as part of the unit before them). A term or partial
  sum outside of the 64 bit range is signed overflow: nothing checks for it.
\<close>

theorem duration_parse_sum:
  assumes "list_all term_ok ts" "list_all (\<lambda>t. 0 \<le> fst t) (tl ts)"
  shows "parse_nanoseconds (concat (map term_text ts)) = duration_terms 0 ts"
  using parse_duration_terms [OF assms] by (simp add: parse_nanoseconds_def)

theorem duration_parse_sum_witness:
  "parse_nanoseconds (concat (map term_text [(-1, ''h''), (30, ''m''), (5, ''ms'')])) =
     Inr (-1799995000000)"
proof -
  have "list_all term_ok [(-1, ''h''), (30, ''m''), (5, ''ms'')]"
    by (simp add: term_ok_def int64_ok_def nanos_def)
  from duration_parse_sum [OF this] show ?thesis
    by (simp add: add_duration_def nanos_def int64_ok_def)
qed

end
