(* ===== verification/Flags.thy ===== *)
theory Flags
  imports Flag_Format "HOL-Library.List_Lexorder" "HOL-Library.Multiset"
begin

text \<open>
  Command line flags, \<open>src/lw/flags/flags.h\<close> and \<open>src/lw/flags/flags.cpp\<close>, and the
  argument loop of \<open>lw::init\<close>, \<open>src/lw/base/init.cpp\<close>.

  A flag of the model is a \<open>Flag<T>\<close> object with its type \<open>T\<close> as a field. Flags are
  static objects that register themselves on construction and are never removed, so the
  registry, in the source a map from name hashes to pointers, holds the objects themselves.
  \<open>std::hash\<close> and the iteration order of \<open>std::unordered_map\<close> are left open by the
  C++ standard: both are arguments.

  \<open>init\<close> works in place on \<open>argv\<close>, moving the arguments it does not know to the front.
  \<open>consume_args\<close> is what it means: a pass over the list of arguments that returns the ones
  that are left; \<open>init_refines\<close> relates the two.
\<close>

section \<open>Flags\<close>

datatype value_kind = F_bool | F_num num_type | F_float float_kind | F_text | F_duration

datatype 'f flag_val =
  V_bool bool | V_num int | V_float 'f | V_text string | V_duration int

fun format_method :: "'f float_lib \<Rightarrow> value_kind \<Rightarrow> 'f flag_val \<Rightarrow> string" where
  "format_method lib T (V_bool b) = format_bool b"
| "format_method lib T (V_num i) = format_num i"
| "format_method lib T (V_float x) =
     (case T of F_float k \<Rightarrow> float_to_string lib k x | _ \<Rightarrow> [])"
| "format_method lib T (V_text s) = format_text s"
| "format_method lib T (V_duration d) = format_nanoseconds d"

fun parse_method :: "'f float_lib \<Rightarrow> value_kind \<Rightarrow> string \<Rightarrow> 'f flag_val res" where
  "parse_method lib F_bool v = map_res V_bool (parse_bool v)"
| "parse_method lib (F_num t) v = map_res V_num (parse_num t v)"
| "parse_method lib (F_float k) v = map_res V_float (parse_floating lib k v)"
| "parse_method lib F_text v = map_res V_text (parse_text v)"
| "parse_method lib F_duration v = map_res V_duration (parse_nanoseconds v)"

text \<open>The values of a type whose text form is exact: everything but floating point.\<close>

fun exact_value :: "value_kind \<Rightarrow> 'f flag_val \<Rightarrow> bool" where
  "exact_value F_bool (V_bool b) = True"
| "exact_value (F_num t) (V_num i) = num_fits t i"
| "exact_value F_text (V_text s) = True"
| "exact_value F_duration (V_duration d) = int64_ok d"
| "exact_value _ _ = False"

record 'f flag =
  type_name :: string
  flag_name :: string
  description :: string
  flag_type :: value_kind
  default_value :: "'f flag_val"
  set_to :: "'f flag_val option"

definition flag_value :: "'f flag \<Rightarrow> 'f flag_val" where
  "flag_value f = (case set_to f of Some v \<Rightarrow> v | None \<Rightarrow> default_value f)"

definition default_value_string :: "'f float_lib \<Rightarrow> 'f flag \<Rightarrow> string" where
  "default_value_string lib f = format_method lib (flag_type f) (default_value f)"

definition set_value :: "'f flag_val \<Rightarrow> 'f flag \<Rightarrow> 'f flag" where
  "set_value v f = f\<lparr>set_to := Some v\<rparr>"

definition parse_value :: "'f float_lib \<Rightarrow> string \<Rightarrow> 'f flag \<Rightarrow> 'f flag res" where
  "parse_value lib v f = map_res (\<lambda>x. set_value x f) (parse_method lib (flag_type f) v)"

section \<open>The registry\<close>

type_synonym hash = "string \<Rightarrow> 64 word"
type_synonym 'f registry = "64 word \<rightharpoonup> 'f flag"

definition alt_name :: "string \<Rightarrow> string" where
  "alt_name n = map (\<lambda>c. if c = CHR ''_'' then CHR ''-'' else c) n"

definition hash_flag_name :: "hash \<Rightarrow> string \<Rightarrow> 64 word" where
  "hash_flag_name hash n = hash (alt_name n)"

definition flags_register :: "hash \<Rightarrow> 'f flag \<Rightarrow> 'f registry \<Rightarrow> 'f registry res" where
  "flags_register hash f reg =
     (let h = hash_flag_name hash (flag_name f)
      in if reg h \<noteq> None then Inl (Err AlreadyExists) else Inr (reg(h \<mapsto> f)))"

text \<open>The constructors \<open>Flag\<close> and \<open>FlagBase\<close>.\<close>

definition make_flag ::
  "hash \<Rightarrow> value_kind \<Rightarrow> string \<Rightarrow> string \<Rightarrow> 'f flag_val \<Rightarrow> string \<Rightarrow> 'f registry \<Rightarrow> 'f registry res" where
  "make_flag hash T tname n def_v descr reg =
     flags_register hash
       \<lparr>type_name = tname, flag_name = n, description = descr, flag_type = T,
        default_value = def_v, set_to = None\<rparr> reg"

definition flags_exists :: "hash \<Rightarrow> 'f registry \<Rightarrow> string \<Rightarrow> bool" where
  "flags_exists hash reg n \<longleftrightarrow> reg (hash_flag_name hash n) \<noteq> None"

text \<open>The name a flag is looked up under when the name given is unknown and has no value.\<close>

definition alternate_flag_name :: "string \<Rightarrow> string" where
  "alternate_flag_name n =
     (if 2 < length n \<and> starts_with n ''no'' then
        let m = drop 2 n
        in if 1 < length m \<and> (m ! 0 = CHR ''-'' \<or> m ! 0 = CHR ''_'') then drop 1 m else m
      else if 7 < length n \<and> starts_with n ''disable'' then
        (drop 1 n)[0 := CHR ''e'', 1 := CHR ''n'']
      else n)"

text \<open>
  \<open>flags_cli_set\<close>: the flag that was set with the registry then, and whether the next
  argument was used. A throw leaves the registry as it was.
\<close>

definition flags_cli_set ::
  "hash \<Rightarrow> 'f float_lib \<Rightarrow> string \<Rightarrow> string option \<Rightarrow> string list \<Rightarrow> 'f registry \<Rightarrow> ('f registry \<times> bool) res" where
  "flags_cli_set hash lib n val rest reg =
     (let alternate = (reg (hash_flag_name hash n) = None \<and> val = None);
          n' = (if alternate then alternate_flag_name n else n);
          val' = (if alternate then Some ''no'' else val);
          h = hash_flag_name hash n'
      in case reg h of
           None \<Rightarrow> Inl (Err InvalidArgument)
         | Some f \<Rightarrow>
             let val'' = (if val' = None \<and> type_name f = ''bool'' then Some ''yes'' else val')
             in case val'' of
                  Some v \<Rightarrow> map_res (\<lambda>f'. (reg(h \<mapsto> f'), False)) (parse_value lib v f)
                | None \<Rightarrow>
                    (case rest of
                       next_arg # _ \<Rightarrow>
                         if starts_with next_arg ''--'' then Inl (Err InvalidArgument)
                         else map_res (\<lambda>f'. (reg(h \<mapsto> f'), True)) (parse_value lib next_arg f)
                     | [] \<Rightarrow> Inl (Err InvalidArgument)))"

section \<open>Printing\<close>

definition MAX_FLAG_NAME :: nat where
  "MAX_FLAG_NAME = 20"

definition FLAG_PREFIX :: string where
  "FLAG_PREFIX = '' --''"

abbreviation endl :: string where "endl \<equiv> [CHR 0x0A]"

definition pad_left :: "nat \<Rightarrow> string \<Rightarrow> string" where
  "pad_left w s = s @ replicate (w - length s) CHR '' ''"

text \<open>\<open>std::lexicographical_compare\<close> compares the (signed) characters of the names.\<close>

definition sort_flags :: "'f flag list \<Rightarrow> 'f flag list" where
  "sort_flags fs = sort_key (\<lambda>f. map schar (flag_name f)) fs"

definition print_flag :: "'f float_lib \<Rightarrow> nat \<Rightarrow> 'f flag \<Rightarrow> string" where
  "print_flag lib name_pad f =
     (let padding = replicate (name_pad + length FLAG_PREFIX) CHR '' ''
      in (if MAX_FLAG_NAME \<le> length (flag_name f)
          then FLAG_PREFIX @ flag_name f @ endl @ padding
          else FLAG_PREFIX @ pad_left name_pad (flag_name f)) @
         type_name f @ ''; Default = '' @ default_value_string lib f @ endl @
         padding @ description f @ endl @ endl)"

definition print_flags :: "'f float_lib \<Rightarrow> 'f flag list \<Rightarrow> string" where
  "print_flags lib fs =
     (let longest = foldl (\<lambda>m f. max m (length (flag_name f))) 0 fs;
          name_pad = min (longest + 1) MAX_FLAG_NAME
      in concat (map (print_flag lib name_pad) (sort_flags fs)))"

section \<open>Arguments\<close>

function flag_end :: "string \<Rightarrow> nat \<Rightarrow> nat" where
  "flag_end s e = (if e < length s \<and> s ! e \<noteq> CHR ''='' then flag_end s (Suc e) else e)"
  by pat_completeness auto
termination
  by (relation "measure (\<lambda>(s, e). length s - e)") auto

declare flag_end.simps [simp del]

definition parse_flag :: "string \<Rightarrow> (string option \<times> string option) res" where
  "parse_flag arg =
     (if length arg < 3 \<or> \<not> starts_with arg ''--'' then Inr (None, None)
      else
        let e = flag_end arg 3;
            n = slice arg 2 e
        in if length arg - 1 \<le> e then
             if 3 < length n \<and> starts_with n ''no-''
             then Inr (Some (drop 3 n), Some (take 2 n))
             else Inr (Some n, None)
           else
             let start = e + 1; stop = length arg; q = arg ! start
             in if q = CHR 0x22 \<or> q = CHR 0x27 then
                  if q \<noteq> arg ! (stop - 1) then Inl (Err InvalidArgument)
                  else map_res (\<lambda>v. (Some n, Some v))
                         (substr arg (start + 1) (size_minus (stop - 1) (start + 1)))
                else map_res (\<lambda>v. (Some n, Some v)) (substr arg start (stop - start)))"

record 'f init_state =
  flag_map :: "'f registry"
  argv :: "string list"
  argc :: nat
  back_fill :: nat

text \<open>The body of the loop at argument \<open>i\<close>; the result says whether the next one was used.\<close>

definition init_arg :: "hash \<Rightarrow> 'f float_lib \<Rightarrow> nat \<Rightarrow> ('f init_state, bool) prog" where
  "init_arg hash lib i s =
     (case parse_flag (argv s ! i) of
        Inl e \<Rightarrow> (Inl e, s)
      | Inr (name_opt, opt_value) \<Rightarrow>
          if name_opt \<noteq> None \<and> flags_exists hash (flag_map s) (the name_opt) then
            (case flags_cli_set hash lib (the name_opt) opt_value (drop (Suc i) (argv s)) (flag_map s) of
               Inl e \<Rightarrow> (Inl e, s)
             | Inr (reg, used) \<Rightarrow>
                 (Inr used, s\<lparr>flag_map := reg, argc := argc s - (if used then 2 else 1)\<rparr>))
          else
            (Inr False,
             s\<lparr>argv := (argv s)[back_fill s := argv s ! i], back_fill := back_fill s + 1\<rparr>))"

function init_loop :: "hash \<Rightarrow> 'f float_lib \<Rightarrow> nat \<Rightarrow> nat \<Rightarrow> ('f init_state, unit) prog" where
  "init_loop hash lib original_count i s =
     (if i < original_count then
        case init_arg hash lib i s of
          (Inl e, s') \<Rightarrow> (Inl e, s')
        | (Inr used, s') \<Rightarrow> init_loop hash lib original_count (if used then i + 2 else i + 1) s'
      else (Inr (), s))"
  by pat_completeness auto
termination
  by (relation "measure (\<lambda>(h, l, n, i, s). n - i)") auto

declare init_loop.simps [simp del]

text \<open>
  \<open>init\<close> on the registry of the flags and the arguments, the program name included. The
  outcome is the result of the call and what it prints; \<open>order\<close> lists the registered flags.
\<close>

definition help_flag :: "hash \<Rightarrow> 'f registry \<Rightarrow> bool" where
  "help_flag hash reg =
     (case reg (hash_flag_name hash ''help'') of
        Some f \<Rightarrow> (case flag_value f of V_bool b \<Rightarrow> b | _ \<Rightarrow> False)
      | None \<Rightarrow> False)"

definition init ::
  "hash \<Rightarrow> 'f float_lib \<Rightarrow> ('f registry \<Rightarrow> 'f flag list) \<Rightarrow> 'f registry \<Rightarrow> string list \<Rightarrow> (bool \<times> string) res \<times> 'f init_state" where
  "init hash lib order reg args =
     (case init_loop hash lib (length args) 1
             \<lparr>flag_map = reg, argv = args, argc = length args, back_fill = 1\<rparr> of
        (Inl e, s) \<Rightarrow> (Inl e, s)
      | (Inr _, s) \<Rightarrow>
          if help_flag hash (flag_map s) then
            (case argv s of
               [] \<Rightarrow> (Inl Undefined_behaviour, s)
             | a # _ \<Rightarrow>
                 (Inr (False, ''Usage: '' @ a @ '' [options...]'' @ endl @ ''Options:'' @ endl @
                              print_flags lib (order (flag_map s))), s))
          else (Inr (True, []), s))"

text \<open>A hash and flags to evaluate the theorems on.\<close>

definition sample_hash :: hash where
  "sample_hash n = of_nat (foldl (\<lambda>h c. 31 * h + code c) 0 n)"

definition sample_lib :: "unit float_lib" where
  "sample_lib = \<lparr>strto = (\<lambda>k s. (0, ())), is_huge = (\<lambda>k x. False), float_to_string = (\<lambda>k x. [])\<rparr>"

definition sample_duration :: "unit flag" where
  "sample_duration = \<lparr>type_name = ''std::chrono::nanoseconds'', flag_name = ''wait'',
     description = ''How long to wait.'', flag_type = F_duration,
     default_value = V_duration 1500000000, set_to = None\<rparr>"

definition sample_switch :: "unit flag" where
  "sample_switch = \<lparr>type_name = ''bool'', flag_name = ''fast'', description = ''Be fast.'',
     flag_type = F_bool, default_value = V_bool True, set_to = None\<rparr>"

lemmas sample_defs = sample_hash_def sample_lib_def sample_duration_def sample_switch_def

section \<open>Values\<close>

lemma parse_format_method:
  "exact_value T v \<Longrightarrow> parse_method lib T (format_method lib T v) = Inr v"
  by (cases "(T, v)" rule: exact_value.cases)
    (simp_all add: bool_codec.parse_format num_codec.parse_format text_codec.parse_format
      duration_codec.parse_format)

interpretation flag_codec: codec "format_method lib T" "parse_method lib T" "exact_value T" for lib T
  by unfold_locales (rule parse_format_method)

lemma parse_value_format:
  "exact_value (flag_type f) v \<Longrightarrow>
   parse_value lib (format_method lib (flag_type f) v) f = Inr (set_value v f)"
  by (simp add: parse_value_def flag_codec.parse_format)

lemma flag_value_set_value [simp]: "flag_value (set_value v f) = v"
  by (simp add: flag_value_def set_value_def)

text \<open>
  text and values of flags correspond: parsing the text of a value of a boolean, integer,
  string or duration type gives the value, so different values of a type have different texts,
  and handing a flag the text it prints for its default sets it to its default.
\<close>

theorem flag_text_roundtrip:
  assumes "exact_value (flag_type f) v" "exact_value (flag_type f) (default_value f)"
  shows "map_res flag_value (parse_value lib (format_method lib (flag_type f) v) f) = Inr v \<and>
    map_res flag_value (parse_value lib (default_value_string lib f) f) = Inr (default_value f) \<and>
    (format_method lib (flag_type f) v = default_value_string lib f \<longleftrightarrow> v = default_value f)"
  using assms flag_codec.format_inject [of "flag_type f" v "default_value f" lib]
  by (simp add: default_value_string_def parse_value_format)

theorem flag_text_roundtrip_witness:
  "map_res flag_value (parse_value sample_lib (format_method sample_lib F_duration (V_duration (-5400000000000))) sample_duration) =
     Inr (V_duration (-5400000000000))"
proof -
  have "exact_value (flag_type sample_duration) (V_duration (-5400000000000) :: unit flag_val)"
    "exact_value (flag_type sample_duration) (default_value sample_duration)"
    by (simp_all add: sample_duration_def int64_ok_def)
  from flag_text_roundtrip [OF this, of sample_lib] show ?thesis
    by (simp add: sample_duration_def)
qed

section \<open>The argument loop\<close>

function consume_args ::
  "hash \<Rightarrow> 'f float_lib \<Rightarrow> 'f registry \<Rightarrow> string list \<Rightarrow> string list \<Rightarrow> unit res \<times> 'f registry \<times> string list" where
  "consume_args hash lib reg kept [] = (Inr (), reg, kept)"
| "consume_args hash lib reg kept (a # rest) =
     (case parse_flag a of
        Inl e \<Rightarrow> (Inl e, reg, kept)
      | Inr (None, v) \<Rightarrow> consume_args hash lib reg (kept @ [a]) rest
      | Inr (Some n, v) \<Rightarrow>
          if flags_exists hash reg n then
            (case flags_cli_set hash lib n v rest reg of
               Inl e \<Rightarrow> (Inl e, reg, kept)
             | Inr (reg', used) \<Rightarrow> consume_args hash lib reg' kept (if used then tl rest else rest))
          else consume_args hash lib reg (kept @ [a]) rest)"
  by pat_completeness auto
termination
  by (relation "measure (\<lambda>(h, l, r, k, args). length args)") (auto simp: less_Suc_eq_le)

text \<open>
  The state of the loop when the arguments \<open>args\<close> are still to be read: the arguments kept so
  far stand in front, and \<open>argc\<close> counts them and the ones to come.
\<close>

definition init_inv :: "string \<Rightarrow> string list \<Rightarrow> string list \<Rightarrow> 'f init_state \<Rightarrow> bool" where
  "init_inv p kept args s \<longleftrightarrow>
     (\<exists>gap. argv s = p # kept @ gap @ args) \<and> back_fill s = length kept + 1 \<and>
     argc s = 1 + length kept + length args"

lemma init_inv_position:
  assumes "init_inv p kept args s"
  shows "drop (length (argv s) - length args) (argv s) = args"
  using assms by (auto simp: init_inv_def)

lemma init_inv_keep:
  assumes "init_inv p kept (a # rest) s"
  shows "init_inv p (kept @ [a]) rest
    (s\<lparr>argv := (argv s)[back_fill s := a], back_fill := back_fill s + 1\<rparr>)"
proof -
  from assms obtain gap where s: "argv s = p # kept @ gap @ a # rest"
    "back_fill s = length kept + 1" "argc s = 1 + length kept + length (a # rest)"
    by (auto simp: init_inv_def)
  show ?thesis
  proof (cases gap)
    case Nil
    with s show ?thesis
      by (auto simp: init_inv_def list_update_append intro!: exI [of _ "[]"])
  next
    case (Cons g gap')
    with s show ?thesis
      by (auto simp: init_inv_def list_update_append intro!: exI [of _ "gap' @ [a]"])
  qed
qed

lemma init_inv_set:
  assumes "init_inv p kept (a # rest) s" "used \<Longrightarrow> rest \<noteq> []"
  shows "init_inv p kept (if used then tl rest else rest)
    (s\<lparr>flag_map := reg, argc := argc s - (if used then 2 else 1)\<rparr>)"
proof -
  from assms(1) obtain gap where s: "argv s = p # kept @ gap @ a # rest"
    "back_fill s = length kept + 1" "argc s = 1 + length kept + length (a # rest)"
    by (auto simp: init_inv_def)
  show ?thesis
  proof (cases used)
    case True
    with assms(2) obtain b rest' where "rest = b # rest'" by (cases rest) auto
    with s True show ?thesis
      by (auto simp: init_inv_def intro!: exI [of _ "gap @ [a, b]"])
  next
    case False
    with s show ?thesis
      by (auto simp: init_inv_def intro!: exI [of _ "gap @ [a]"])
  qed
qed

lemma flags_cli_set_used:
  "flags_cli_set hash lib n v rest reg = Inr (reg', True) \<Longrightarrow> rest \<noteq> []"
  by (auto simp: flags_cli_set_def Let_def map_res_eq_Inr_iff split: option.splits list.splits if_splits)

text \<open>One round of the loop against one step of \<open>consume_args\<close>.\<close>

lemma init_arg_step:
  assumes inv: "init_inv p kept (a # rest) s" and n: "length (argv s) = n"
    and step: "consume_args hash lib (flag_map s) kept (a # rest) = (r, reg', kept')"
  shows "(\<exists>e. r = Inl e \<and> init_arg hash lib (n - length (a # rest)) s = (Inl e, s) \<and>
            flag_map s = reg' \<and> kept = kept') \<or>
    (\<exists>used s1 kept1. init_arg hash lib (n - length (a # rest)) s = (Inr used, s1) \<and>
       (used \<longrightarrow> rest \<noteq> []) \<and> length (argv s1) = n \<and>
       init_inv p kept1 (if used then tl rest else rest) s1 \<and>
       consume_args hash lib (flag_map s1) kept1 (if used then tl rest else rest) = (r, reg', kept'))"
proof -
  let ?i = "n - length (a # rest)"
  have dr: "drop ?i (argv s) = a # rest"
    using init_inv_position [OF inv] n by simp
  then have "?i < length (argv s)"
    by (metis drop_eq_Nil leI list.distinct(1))
  then have i: "argv s ! ?i = a" "drop (Suc ?i) (argv s) = rest"
    using dr Cons_nth_drop_Suc [of ?i "argv s"] by auto
  note i = i i [simplified]
  note keep = init_inv_keep [OF inv]
  show ?thesis
  proof (cases "parse_flag a")
    case (Inl e)
    then show ?thesis using step i by (simp add: init_arg_def)
  next
    case (Inr nv)
    obtain nm v where nv: "nv = (nm, v)" by (cases nv)
    show ?thesis
    proof (cases "nm \<noteq> None \<and> flags_exists hash (flag_map s) (the nm)")
      case False
      with step have "consume_args hash lib (flag_map s) (kept @ [a]) rest = (r, reg', kept')"
        by (cases nm) (auto simp: Inr nv)
      then have "\<exists>used s1 kept1. init_arg hash lib ?i s = (Inr used, s1) \<and>
        (used \<longrightarrow> rest \<noteq> []) \<and> length (argv s1) = n \<and>
        init_inv p kept1 (if used then tl rest else rest) s1 \<and>
        consume_args hash lib (flag_map s1) kept1 (if used then tl rest else rest) = (r, reg', kept')"
        using False keep n
        by (intro exI [of _ False] exI [of _ "s\<lparr>argv := (argv s)[back_fill s := a], back_fill := back_fill s + 1\<rparr>"]
              exI [of _ "kept @ [a]"])
          (auto simp: init_arg_def Inr nv i)
      then show ?thesis ..
    next
      case True
      then obtain m where m: "nm = Some m" "flags_exists hash (flag_map s) m" by auto
      show ?thesis
      proof (cases "flags_cli_set hash lib m v rest (flag_map s)")
        case (Inl e)
        with step m Inr nv i show ?thesis by (auto simp: init_arg_def)
      next
        case (Inr ru)
        obtain reg1 used where ru: "ru = (reg1, used)" by (cases ru)
        have used: "used \<longrightarrow> rest \<noteq> []"
          using flags_cli_set_used [of hash lib m v rest "flag_map s" reg1] Inr ru by (cases used) auto
        let ?s1 = "s\<lparr>flag_map := reg1, argc := argc s - (if used then 2 else 1)\<rparr>"
        have "init_arg hash lib ?i s = (Inr used, ?s1)"
          using m Inr ru \<open>parse_flag a = Inr nv\<close> nv i by (simp add: init_arg_def)
        moreover have "consume_args hash lib reg1 kept (if used then tl rest else rest) = (r, reg', kept')"
          using step m Inr ru \<open>parse_flag a = Inr nv\<close> nv by simp
        moreover have "init_inv p kept (if used then tl rest else rest) ?s1"
          using init_inv_set [OF inv, of used reg1] used by simp
        ultimately show ?thesis
          using used n by (intro disjI2 exI [of _ used] exI [of _ ?s1] exI [of _ kept]) auto
      qed
    qed
  qed
qed

lemma init_loop_consume:
  assumes "init_inv p kept args s" "length (argv s) = n"
    "consume_args hash lib (flag_map s) kept args = (r, reg', kept')"
  shows "\<exists>s' args'. init_loop hash lib n (n - length args) s = (r, s') \<and> flag_map s' = reg' \<and>
    init_inv p kept' args' s' \<and> length (argv s') = n \<and> (r = Inr () \<longrightarrow> args' = [])"
  using assms
proof (induction "length args" arbitrary: kept args s rule: less_induct)
  case less
  show ?case
  proof (cases args)
    case Nil
    with less.prems show ?thesis by (subst init_loop.simps) auto
  next
    case (Cons a rest)
    have i: "n - length args < n"
      using less.prems(1,2) Cons by (auto simp: init_inv_def)
    from init_arg_step [OF less.prems(1,2) [unfolded Cons] less.prems(3) [unfolded Cons]] consider
        e where "r = Inl e" "init_arg hash lib (n - length args) s = (Inl e, s)"
          "flag_map s = reg'" "kept = kept'"
      | used s1 kept1 where "init_arg hash lib (n - length args) s = (Inr used, s1)"
          "used \<longrightarrow> rest \<noteq> []" "length (argv s1) = n"
          "init_inv p kept1 (if used then tl rest else rest) s1"
          "consume_args hash lib (flag_map s1) kept1 (if used then tl rest else rest) = (r, reg', kept')"
      unfolding Cons by blast
    then show ?thesis
    proof cases
      case 1
      with i less.prems show ?thesis by (subst init_loop.simps) auto
    next
      case 2
      let ?args1 = "if used then tl rest else rest"
      have "(if used then n - length args + 2 else n - length args + 1) = n - length ?args1"
        using 2(2) i less.prems(1,2) Cons by (cases rest) (auto simp: init_inv_def)
      with i 2(1) have "init_loop hash lib n (n - length args) s =
          init_loop hash lib n (n - length ?args1) s1"
        by (subst init_loop.simps) simp
      moreover have "length ?args1 < length args" using Cons by auto
      note less.hyps [OF this 2(4,3,5)]
      ultimately show ?thesis by simp
    qed
  qed
qed

lemma init_outcome:
  "case consume_args hash lib reg [] args of
     (Inl e, reg', kept) \<Rightarrow>
       (\<exists>s. init hash lib order reg (p # args) = (Inl e, s) \<and> flag_map s = reg')
   | (Inr u, reg', kept) \<Rightarrow>
       (\<exists>s out. init hash lib order reg (p # args) = (Inr (\<not> help_flag hash reg', out), s) \<and>
          flag_map s = reg' \<and> argc s = 1 + length kept \<and> take (argc s) (argv s) = p # kept)"
proof -
  obtain r reg' kept where c: "consume_args hash lib reg [] args = (r, reg', kept)"
    using prod_cases3 by blast
  let ?s = "\<lparr>flag_map = reg, argv = p # args, argc = length (p # args), back_fill = 1\<rparr>"
  have "init_inv p [] args ?s" by (simp add: init_inv_def)
  from init_loop_consume [OF this refl, of hash lib r reg' kept] c
  obtain s' args' where s': "init_loop hash lib (length (p # args)) 1 ?s = (r, s')"
    "flag_map s' = reg'" "init_inv p kept args' s'" "r = Inr () \<longrightarrow> args' = []"
    by auto
  show ?thesis
  proof (cases r)
    case (Inl e)
    with c s' show ?thesis by (simp add: init_def)
  next
    case (Inr u)
    then have r: "r = Inr ()" by simp
    from s'(3,4) r obtain gap where "argv s' = p # kept @ gap" "argc s' = 1 + length kept"
      by (auto simp: init_inv_def)
    with c s' r show ?thesis by (simp add: init_def)
  qed
qed

text \<open>
  C24: \<open>init\<close> is a pass over the arguments. It throws what the first argument that cannot be
  used throws; otherwise the flags are set as by \<open>consume_args\<close>, the first \<open>argc\<close> entries
  of \<open>argv\<close> are the program name and the arguments that were not for a registered flag, in
  their order, and the call answers whether help was not asked for.
\<close>

theorem init_refines:
  "case consume_args hash lib reg [] args of
     (Inl e, reg', kept) \<Rightarrow>
       (\<exists>s. init hash lib order reg (p # args) = (Inl e, s) \<and> flag_map s = reg')
   | (Inr u, reg', kept) \<Rightarrow>
       (\<exists>s out. init hash lib order reg (p # args) = (Inr (\<not> help_flag hash reg', out), s) \<and>
          flag_map s = reg' \<and> argc s = 1 + length kept \<and> take (argc s) (argv s) = p # kept)"
  by (rule init_outcome)

section \<open>Arguments for flags\<close>

lemma flag_end_run:
  assumes "drop e s = u @ rest" "CHR ''='' \<notin> set u" "rest = [] \<or> hd rest = CHR ''=''"
  shows "flag_end s e = e + length u"
  using assms
proof (induction u arbitrary: e)
  case Nil
  then have "length s \<le> e \<or> s ! e = CHR ''=''"
    by (cases "e < length s") (auto simp: hd_drop_conv_nth)
  then show ?case by (subst flag_end.simps) auto
next
  case (Cons c u)
  then have e: "e < length s"
    by (metis append_Cons drop_eq_Nil leI list.distinct(1))
  with Cons.prems(1) have "s ! e = c" "drop (Suc e) s = u @ rest"
    using Cons_nth_drop_Suc [OF e] by auto
  with e Cons show ?case by (subst flag_end.simps) auto
qed

definition plain_name :: "string \<Rightarrow> bool" where
  "plain_name n \<longleftrightarrow> n \<noteq> [] \<and> CHR ''='' \<notin> set n"

lemma flag_end_name:
  assumes "plain_name n" "rest = [] \<or> hd rest = CHR ''=''"
  shows "flag_end (''--'' @ n @ rest) 3 = 2 + length n"
proof -
  obtain c u where "n = c # u" using assms(1) by (cases n) (auto simp: plain_name_def)
  with assms flag_end_run [of 3 "''--'' @ n @ rest" u rest] show ?thesis
    by (auto simp: plain_name_def)
qed

lemma slice_name: "slice (''--'' @ n @ rest) 2 (2 + length n) = n"
  using slice_append_exact [of "''--''" n rest] by (simp add: numeral_2_eq_2)

lemma parse_flag_value:
  assumes "plain_name n" "v \<noteq> []" "hd v \<notin> {CHR 0x22, CHR 0x27}"
  shows "parse_flag (''--'' @ n @ ''='' @ v) = Inr (Some n, Some v)"
proof -
  let ?arg = "''--'' @ n @ ''='' @ v"
  have e: "flag_end ?arg 3 = 2 + length n"
    by (rule flag_end_name [OF assms(1)]) simp
  have sl: "slice ?arg 2 (2 + length n) = n"
    using slice_name [of n "''='' @ v"] by simp
  have nth: "?arg ! (2 + length n + 1) = hd v"
    using assms(2) by (simp add: nth_append hd_conv_nth)
  have "drop (2 + length n + 1) ?arg = v" by simp
  then have sub: "substr ?arg (2 + length n + 1) (length ?arg - (2 + length n + 1)) = Inr v"
    unfolding substr_def by simp
  have "\<not> length ?arg - 1 \<le> 2 + length n" "\<not> length ?arg < 3" "starts_with ?arg ''--''"
    using assms(1,2) by (auto simp: plain_name_def)
  then show ?thesis
    unfolding parse_flag_def Let_def e sl nth sub using assms(3) by simp
qed

lemma parse_flag_plain:
  assumes "plain_name n" "\<not> starts_with n ''no-''"
  shows "parse_flag (''--'' @ n) = Inr (Some n, None)"
proof -
  have e: "flag_end (''--'' @ n) 3 = 2 + length n"
    using flag_end_name [OF assms(1), of "[]"] by simp
  have sl: "slice (''--'' @ n) 2 (2 + length n) = n"
    using slice_name [of n "[]"] by simp
  have "\<not> length (''--'' @ n) < 3" "length (''--'' @ n) - 1 \<le> 2 + length n"
    using assms(1) by (auto simp: plain_name_def neq_Nil_conv)
  then show ?thesis
    unfolding parse_flag_def Let_def e sl using assms(2) by simp
qed

lemma init_consume:
  assumes "consume_args hash lib reg [] args = (Inr (), reg', kept)"
  shows "\<exists>s out. init hash lib order reg (p # args) = (Inr (\<not> help_flag hash reg', out), s) \<and>
    flag_map s = reg' \<and> argc s = 1 + length kept \<and> take (argc s) (argv s) = p # kept"
  using init_outcome [where hash = hash and lib = lib and reg = reg and args = args and order = order and p = p] assms
  by simp

lemma parse_flag_other: "\<not> starts_with a ''--'' \<Longrightarrow> parse_flag a = Inr (None, None)"
  by (simp add: parse_flag_def)

lemma consume_other_args:
  "list_all (\<lambda>a. \<not> starts_with a ''--'') before \<Longrightarrow>
   consume_args hash lib reg kept (before @ args) = consume_args hash lib reg (kept @ before) args"
  by (induction before arbitrary: kept) (simp_all add: parse_flag_other)

lemma flags_cli_set_value:
  assumes "reg (hash_flag_name hash n) = Some f" "exact_value (flag_type f) v"
  shows "flags_cli_set hash lib n (Some (format_method lib (flag_type f) v)) rest reg =
    Inr (reg(hash_flag_name hash n \<mapsto> set_value v f), False)"
  using assms by (simp add: flags_cli_set_def parse_value_format)

text \<open>
  setting a flag on the command line: \<open>--name=text\<close> with the text of a value, name and
  value being in the plain form, sets the registered flag to that value and nothing else, and
  takes the argument off the list; the arguments in front and behind that are no flags stay.
\<close>

theorem init_sets_flag:
  assumes "reg (hash_flag_name hash n) = Some f" "plain_name n" "exact_value (flag_type f) v"
    and "format_method lib (flag_type f) v \<noteq> []"
    and "hd (format_method lib (flag_type f) v) \<notin> {CHR 0x22, CHR 0x27}"
    and "list_all (\<lambda>a. \<not> starts_with a ''--'') before" "list_all (\<lambda>a. \<not> starts_with a ''--'') behind"
  shows "\<exists>s ans out. init hash lib order reg
      (p # before @ [''--'' @ n @ ''='' @ format_method lib (flag_type f) v] @ behind) = (Inr (ans, out), s) \<and>
    flag_map s = reg(hash_flag_name hash n \<mapsto> set_value v f) \<and>
    take (argc s) (argv s) = p # before @ behind"
proof -
  let ?reg = "reg(hash_flag_name hash n \<mapsto> set_value v f)"
  let ?arg = "''--'' @ n @ ''='' @ format_method lib (flag_type f) v"
  have "consume_args hash lib ?reg before (behind @ []) = (Inr (), ?reg, before @ behind)"
    by (subst consume_other_args [OF assms(7)]) simp
  then have "consume_args hash lib reg [] (before @ [?arg] @ behind) = (Inr (), ?reg, before @ behind)"
    using assms(1) flags_cli_set_value [of reg hash n f v lib behind] parse_flag_value [OF assms(2,4,5)] assms(3)
    by (simp add: consume_other_args [OF assms(6)] flags_exists_def)
  from init_consume [OF this, of order p] show ?thesis by auto
qed

theorem init_sets_flag_witness:
  "\<exists>s ans out. init sample_hash sample_lib (\<lambda>r. []) [hash_flag_name sample_hash ''wait'' \<mapsto> sample_duration]
      [''prog'', ''in.txt'', ''--wait=-90m'', ''out.txt''] = (Inr (ans, out), s) \<and>
    flag_map s = [hash_flag_name sample_hash ''wait'' \<mapsto> set_value (V_duration (-5400000000000)) sample_duration] \<and>
    take (argc s) (argv s) = [''prog'', ''in.txt'', ''out.txt'']"
proof -
  have text_of: "format_method sample_lib (flag_type sample_duration) (V_duration (-5400000000000)) = ''-90m''"
    by (simp add: sample_duration_def format_nanoseconds_def nanos_def can_convert_duration_def
        signed_divide_int_def format_num_def int_to_string_def nat_to_string.simps digit_char_def char_of_def bit_0)
  have "exact_value (flag_type sample_duration) (V_duration (-5400000000000) :: unit flag_val)"
    by (simp add: sample_duration_def int64_ok_def)
  from init_sets_flag [where reg = "[hash_flag_name sample_hash ''wait'' \<mapsto> sample_duration]" and
      hash = sample_hash and n = "''wait''" and lib = sample_lib and order = "\<lambda>r. []" and p = "''prog''" and
      before = "[''in.txt'']" and behind = "[''out.txt'']", OF _ _ this]
  show ?thesis unfolding text_of by (simp add: plain_name_def)
qed

text \<open>
  Switching a flag off by name: \<open>flags_cli_set\<close> without a value and with an unknown name
  that starts with \<open>no\<close> or \<open>disable\<close> sets the boolean flag of the remaining name (with
  \<open>enable\<close> for \<open>disable\<close>) to false; \<open>init\<close> asks only for names that exist, so
  there such an argument stays in the list and sets nothing.
\<close>

theorem alternate_names:
  assumes "reg (hash_flag_name hash n) = None" "plain_name n" "\<not> starts_with n ''no-''"
    and "reg (hash_flag_name hash (alternate_flag_name n)) = Some f" "flag_type f = F_bool"
  shows "flags_cli_set hash lib n None rest reg =
      Inr (reg(hash_flag_name hash (alternate_flag_name n) \<mapsto> set_value (V_bool False) f), False) \<and>
    (\<exists>s ans out. init hash lib order reg [p, ''--'' @ n] = (Inr (ans, out), s) \<and>
       flag_map s = reg \<and> take (argc s) (argv s) = [p, ''--'' @ n])"
proof
  show "flags_cli_set hash lib n None rest reg =
      Inr (reg(hash_flag_name hash (alternate_flag_name n) \<mapsto> set_value (V_bool False) f), False)"
    using assms(1,4,5)
    by (simp add: flags_cli_set_def parse_value_def parse_bool_def true_words_def false_words_def)
  have "consume_args hash lib reg [] [''--'' @ n] = (Inr (), reg, [''--'' @ n])"
    using assms(1) parse_flag_plain [OF assms(2,3)] by (simp add: flags_exists_def)
  from init_consume [OF this, of order p]
  show "\<exists>s ans out. init hash lib order reg [p, ''--'' @ n] = (Inr (ans, out), s) \<and>
      flag_map s = reg \<and> take (argc s) (argv s) = [p, ''--'' @ n]"
    by auto
qed

theorem alternate_names_witness:
  "\<exists>s ans out. init sample_hash sample_lib (\<lambda>r. []) [hash_flag_name sample_hash ''fast'' \<mapsto> sample_switch]
      [''prog'', ''--nofast''] = (Inr (ans, out), s) \<and>
    flag_map s = [hash_flag_name sample_hash ''fast'' \<mapsto> sample_switch] \<and>
    take (argc s) (argv s) = [''prog'', ''--nofast'']"
proof -
  let ?reg = "[hash_flag_name sample_hash ''fast'' \<mapsto> sample_switch]"
  have "hash_flag_name sample_hash ''nofast'' \<noteq> hash_flag_name sample_hash ''fast''"
    by (simp add: hash_flag_name_def alt_name_def sample_hash_def code_def)
  then have "?reg (hash_flag_name sample_hash ''nofast'') = None" by simp
  moreover have "?reg (hash_flag_name sample_hash (alternate_flag_name ''nofast'')) = Some sample_switch"
    by (simp add: alternate_flag_name_def)
  ultimately show ?thesis
    using alternate_names [of ?reg sample_hash "''nofast''" sample_switch sample_lib "[]" "\<lambda>r. []" "''prog''"]
    by (simp add: plain_name_def sample_switch_def)
qed

lemma foldl_max_length:
  "foldl (\<lambda>m f. max m (length (flag_name f))) k fs = Max (insert k ((\<lambda>f. length (flag_name f)) ` set fs))"
proof (induction fs arbitrary: k)
  case (Cons f fs)
  then show ?case
    by (cases "fs = []") (simp_all add: insert_commute max.assoc)
qed simp

text \<open>
  the help text does not depend on the order in which the map of flags is iterated, when
  the registered flags have different names.
\<close>

theorem print_flags_order:
  assumes "mset fs = mset gs" "inj_on flag_name (set fs)"
  shows "print_flags lib fs = print_flags lib gs"
proof -
  let ?k = "\<lambda>f. map schar (flag_name f)"
  have "inj schar" by (simp add: inj_def)
  then have "inj_on ?k (set fs)"
    using assms(2) by (auto simp: inj_on_def)
  then have "sort_flags fs = sort_flags gs"
    using sort_key_inj_key_eq [of fs "sort_flags gs" ?k] assms(1) by (simp add: sort_flags_def)
  moreover have "set fs = set gs" using assms(1) by (rule mset_eq_setD)
  ultimately show ?thesis
    by (simp add: print_flags_def foldl_max_length)
qed

theorem print_flags_order_witness:
  "print_flags sample_lib [sample_duration, sample_switch] = print_flags sample_lib [sample_switch, sample_duration]"
  by (rule print_flags_order) (simp_all add: sample_duration_def sample_switch_def)

end
