(* ===== verification/System_Errors.thy ===== *)
theory System_Errors
  imports Prelude
begin

text \<open>
  Error codes of the operating system and of the libraries, and the liblw errors they are
  reported as: \<open>check_system_error\<close> (\<open>src/lw/err/system.cpp\<close>), \<open>check_gai_error\<close>
  (\<open>src/lw/net/socket.cpp\<close>) and the OpenSSL checks (\<open>src/lw/net/internal/errors.cpp\<close>).

  The codes have the numbers Linux gives them on x86-64, beside their names. A \<open>switch\<close> of
  C++ needs its cases to be different numbers; \<open>system_codes_distinct\<close> shows that they are,
  so that the class of a code does not depend on the order of the groups.
\<close>

named_theorems errno_defs \<open>the numbers of the error codes\<close>

section \<open>System errors\<close>

definition aborted_codes :: "(string \<times> int) list" where
  "aborted_codes =
    [(''EAGAIN'', 11), (''ECONNABORTED'', 103), (''EDEADLK'', 35), (''ENETRESET'', 102),
     (''ERESTART'', 85)]"

definition already_exists_codes :: "(string \<times> int) list" where
  "already_exists_codes =
    [(''EALREADY'', 114), (''EEXIST'', 17), (''EINPROGRESS'', 115)]"

definition cancelled_codes :: "(string \<times> int) list" where
  "cancelled_codes =
    [(''ECANCELED'', 125), (''ECONNRESET'', 104), (''EINTR'', 4), (''ENOLINK'', 67)]"

definition deadline_exceeded_codes :: "(string \<times> int) list" where
  "deadline_exceeded_codes =
    [(''ETIME'', 62), (''ETIMEDOUT'', 110)]"

definition failed_precondition_codes :: "(string \<times> int) list" where
  "failed_precondition_codes =
    [(''EADDRINUSE'', 98), (''EADDRNOTAVAIL'', 99), (''EBADFD'', 77), (''ECHILD'', 10),
     (''EISCONN'', 106), (''EISDIR'', 21), (''EISNAM'', 120), (''EKEYEXPIRED'', 127),
     (''ENODATA'', 61), (''ENONET'', 64), (''ENOPKG'', 65), (''ENOTBLK'', 15),
     (''ENOTCONN'', 107), (''ENOTEMPTY'', 39), (''ENOTTY'', 25), (''ENOTUNIQ'', 76),
     (''EPIPE'', 32), (''ESHUTDOWN'', 108), (''EUNATCH'', 49)]"

definition internal_codes :: "(string \<times> int) list" where
  "internal_codes =
    [(''EBADE'', 52), (''ECOMM'', 70), (''EHWPOISON'', 133), (''EIDRM'', 43), (''EIO'', 5),
     (''EL2HLT'', 51), (''EL2NSYNC'', 45), (''EL3HLT'', 46), (''EL3RST'', 47), (''ELIBACC'', 79),
     (''ELIBBAD'', 80), (''ELIBSCN'', 81), (''ELIBEXEC'', 83), (''ENOTRECOVERABLE'', 131),
     (''ERFKILL'', 132)]"

definition invalid_argument_codes :: "(string \<times> int) list" where
  "invalid_argument_codes =
    [(''E2BIG'', 7), (''EBADF'', 9), (''EBADMSG'', 74), (''EBADR'', 53), (''EBADRQC'', 56),
     (''EBADSLT'', 57), (''EDESTADDRREQ'', 89), (''EFAULT'', 14), (''EILSEQ'', 84),
     (''EINVAL'', 22), (''ENAMETOOLONG'', 36), (''ENOEXEC'', 8), (''ENOTDIR'', 20),
     (''ENOSTR'', 60), (''ENOTSOCK'', 88), (''EPROTOTYPE'', 91), (''ESPIPE'', 29),
     (''ESTALE'', 116)]"

definition not_found_codes :: "(string \<times> int) list" where
  "not_found_codes =
    [(''ENODEV'', 19), (''ENOENT'', 2), (''ENOMSG'', 42), (''ENXIO'', 6), (''ESRCH'', 3)]"

definition out_of_range_codes :: "(string \<times> int) list" where
  "out_of_range_codes =
    [(''ECHRNG'', 44), (''EDOM'', 33), (''ERANGE'', 34)]"

definition permission_denied_codes :: "(string \<times> int) list" where
  "permission_denied_codes =
    [(''EACCES'', 13), (''ECONNREFUSED'', 111), (''EKEYREJECTED'', 129), (''EKEYREVOKED'', 128),
     (''EPERM'', 1), (''EROFS'', 30)]"

definition resource_exhausted_codes :: "(string \<times> int) list" where
  "resource_exhausted_codes =
    [(''EDQUOT'', 122), (''EFBIG'', 27), (''ELIBMAX'', 82), (''ELOOP'', 40), (''EMFILE'', 24),
     (''EMLINK'', 31), (''EMSGSIZE'', 90), (''ENFILE'', 23), (''ENOBUFS'', 105),
     (''ENOKEY'', 126), (''ENOLCK'', 37), (''ENOMEM'', 12), (''ENOSPC'', 28), (''ENOSR'', 63),
     (''EOVERFLOW'', 75), (''ETOOMANYREFS'', 109), (''EUSERS'', 87), (''EXFULL'', 54)]"

definition unavailable_codes :: "(string \<times> int) list" where
  "unavailable_codes =
    [(''EBUSY'', 16), (''EHOSTDOWN'', 112), (''EHOSTUNREACH'', 113), (''ENETDOWN'', 100),
     (''ENETUNREACH'', 101), (''ENOPROTOOPT'', 92), (''ETXTBSY'', 26)]"

definition unimplemented_codes :: "(string \<times> int) list" where
  "unimplemented_codes =
    [(''EAFNOSUPPORT'', 97), (''ENOSYS'', 38), (''ENOTSUP'', 95), (''EPFNOSUPPORT'', 96),
     (''EPROTONOSUPPORT'', 93), (''ESOCKTNOSUPPORT'', 94)]"

lemmas code_groups_def [errno_defs] =
  aborted_codes_def already_exists_codes_def cancelled_codes_def deadline_exceeded_codes_def
  failed_precondition_codes_def internal_codes_def invalid_argument_codes_def
  not_found_codes_def out_of_range_codes_def
  permission_denied_codes_def resource_exhausted_codes_def unavailable_codes_def unimplemented_codes_def

definition system_error_table :: "((string \<times> int) list \<times> error) list" where
  "system_error_table =
     [(aborted_codes, Aborted),
      (already_exists_codes, AlreadyExists),
      (cancelled_codes, Cancelled),
      (deadline_exceeded_codes, DeadlineExceeded),
      (failed_precondition_codes, FailedPrecondition),
      (internal_codes, Internal),
      (invalid_argument_codes, InvalidArgument),
      (not_found_codes, NotFound),
      (out_of_range_codes, OutOfRange),
      (permission_denied_codes, PermissionDenied),
      (resource_exhausted_codes, ResourceExhausted),
      (unavailable_codes, Unavailable),
      (unimplemented_codes, Unimplemented)]"

fun lookup_code :: "((string \<times> int) list \<times> error) list \<Rightarrow> int \<Rightarrow> error option" where
  "lookup_code [] c = None"
| "lookup_code ((codes, e) # groups) c =
     (if List.member (map snd codes) c then Some e else lookup_code groups c)"

text \<open>The class a code is reported as; \<open>None\<close> for 0, which is no error.\<close>

definition system_error_class :: "int \<Rightarrow> error option" where
  "system_error_class err_code =
     (if err_code = 0 then None
      else case lookup_code system_error_table err_code of
          Some e \<Rightarrow> Some e
        | None \<Rightarrow> Some Internal)"

definition check_system_error :: "int \<Rightarrow> unit res" where
  "check_system_error err_code =
     (case system_error_class err_code of None \<Rightarrow> Inr () | Some e \<Rightarrow> Inl (Err e))"

text \<open>
  The idiom of every system call in the library: report \<open>errno\<close>, and an internal error
  when it is not set.
\<close>

definition system_failure :: "int \<Rightarrow> fault" where
  "system_failure err = (case check_system_error err of Inl f \<Rightarrow> f | Inr u \<Rightarrow> Err Internal)"

abbreviation EAGAIN :: int where "EAGAIN \<equiv> 11"
abbreviation EMSGSIZE :: int where "EMSGSIZE \<equiv> 90"
abbreviation EINPROGRESS :: int where "EINPROGRESS \<equiv> 115"

section \<open>Address lookup\<close>

definition gai_table :: "((string \<times> int) list \<times> error) list" where
  "gai_table =
     [([(''EAI_BADFLAGS'', -1), (''EAI_MEMORY'', -10)], Internal),
      ([(''EAI_NONAME'', -2), (''EAI_SOCKTYPE'', -7)], InvalidArgument),
      ([(''EAI_ADDRFAMILY'', -9), (''EAI_NODATA'', -5), (''EAI_SERVICE'', -8)], NotFound),
      ([(''EAI_AGAIN'', -3), (''EAI_FAIL'', -4)], Unavailable),
      ([(''EAI_FAMILY'', -6)], Unimplemented)]"

definition check_gai_error :: "int \<Rightarrow> int \<Rightarrow> unit res" where
  "check_gai_error errno err =
     (if err = 0 then Inr ()
      else if err = -11 then Inl (system_failure errno)
      else case lookup_code gai_table err of
          Some e \<Rightarrow> Inl (Err e)
        | None \<Rightarrow> Inl (Err Internal))"

section \<open>OpenSSL\<close>

text \<open>\<open>ssl_err\<close> is the code at the front of the error queue of OpenSSL.\<close>

definition check_openssl_error :: "64 word \<Rightarrow> unit res" where
  "check_openssl_error err_code = (if err_code = 0 then Inr () else Inl (Err Internal))"

definition check_all_errors :: "64 word \<Rightarrow> int \<Rightarrow> fault" where
  "check_all_errors ssl_err errno =
     (case check_openssl_error ssl_err of
        Inl f \<Rightarrow> f
      | Inr u \<Rightarrow> (case check_system_error errno of Inl f \<Rightarrow> f | Inr u \<Rightarrow> Err Internal))"

section \<open>The groups are disjoint\<close>

definition table_codes :: "((string \<times> int) list \<times> error) list \<Rightarrow> int list" where
  "table_codes t = concat (map (\<lambda>g. map snd (fst g)) t)"

lemma lookup_code_distinct:
  assumes "distinct (table_codes t)" "(codes, e) \<in> set t" "(n, c) \<in> set codes"
  shows "lookup_code t c = Some e"
  using assms
proof (induction t)
  case (Cons g t)
  show ?case
  proof (cases "(codes, e) = g")
    case True
    with Cons.prems(3) show ?thesis by (force simp flip: True)
  next
    case False
    with Cons.prems have later: "(codes, e) \<in> set t" by auto
    with Cons.prems(3) have "c \<in> set (table_codes t)" by (force simp: table_codes_def)
    with Cons.prems(1) have "c \<notin> set (map snd (fst g))" by (auto simp: table_codes_def)
    with Cons later show ?thesis by (cases g) (simp add: table_codes_def)
  qed
qed simp

lemma lookup_code_None_iff: "lookup_code t c = None \<longleftrightarrow> c \<notin> set (table_codes t)"
  by (induction t c rule: lookup_code.induct) (auto simp: table_codes_def)

lemma system_codes_distinct: "distinct (table_codes system_error_table)" "0 \<notin> set (table_codes system_error_table)"
  by (simp_all add: table_codes_def system_error_table_def errno_defs)

lemma system_failure_Err: "\<exists>e. system_failure c = Err e"
  by (auto simp: system_failure_def check_system_error_def split: option.splits)

end
