(* ===== verification/Socket.thy ===== *)
theory Socket
  imports System_Errors Buffers
begin

text \<open>
  Sockets, \<open>src/lw/net/socket.h\<close> and \<open>src/lw/net/socket.cpp\<close>.

  The kernel is outside of the library: its calls are the fields of the record \<open>kernel\<close>, on a
  state of any type \<open>'k\<close>. \<open>k_errno\<close> is \<open>errno\<close> after the last call, and \<open>k_wait fd\<close>
  the state in which a coroutine is resumed that awaits \<open>fd_readable(fd)\<close> or
  \<open>fd_writable(fd)\<close>. What the theorems need to know of a kernel are named predicates on this
  record; \<open>pipe_kernel\<close> is a concrete one on which they are evaluated.

  A socket is its descriptor, where 0 stands for closed. The coroutines retry as long as the
  kernel asks them to wait, which may be forever: they are functions to \<open>option\<close>, \<open>None\<close>
  for a coroutine that never finishes. A buffer handed to \<open>send\<close> is the bytes it
  holds, \<open>None\<close> when it has a capacity and a null pointer; one handed to \<open>receive\<close> is
  its capacity and whether its pointer is null.
\<close>

record 'k kernel =
  k_errno :: "'k \<Rightarrow> int"
  k_wait :: "int \<Rightarrow> 'k \<Rightarrow> 'k"
  k_getaddrinfo :: "string option \<Rightarrow> string \<Rightarrow> 'k \<Rightarrow> (int \<times> nat list) \<times> 'k"
  k_socket :: "nat \<Rightarrow> 'k \<Rightarrow> int \<times> 'k"
  k_connect :: "int \<Rightarrow> nat \<Rightarrow> 'k \<Rightarrow> int \<times> 'k"
  k_so_error :: "int \<Rightarrow> 'k \<Rightarrow> (int \<times> int) \<times> 'k"
  k_reuse_address :: "int \<Rightarrow> 'k \<Rightarrow> int \<times> 'k"
  k_bind :: "int \<Rightarrow> nat \<Rightarrow> 'k \<Rightarrow> int \<times> 'k"
  k_listen :: "int \<Rightarrow> int \<Rightarrow> 'k \<Rightarrow> int \<times> 'k"
  k_accept :: "int \<Rightarrow> 'k \<Rightarrow> int \<times> 'k"
  k_get_flags :: "int \<Rightarrow> 'k \<Rightarrow> int \<times> 'k"
  k_set_nonblocking :: "int \<Rightarrow> int \<Rightarrow> 'k \<Rightarrow> int \<times> 'k"
  k_send :: "int \<Rightarrow> byte list \<Rightarrow> 'k \<Rightarrow> int \<times> 'k"
  k_recv :: "int \<Rightarrow> nat \<Rightarrow> 'k \<Rightarrow> (int \<times> byte list) \<times> 'k"
  k_close :: "int \<Rightarrow> 'k \<Rightarrow> 'k"

text \<open>A socket together with the kernel.\<close>

record 'k sock =
  socket_fd :: int
  os :: 'k

definition is_open :: "'k sock \<Rightarrow> bool" where
  "is_open s \<longleftrightarrow> 0 < socket_fd s"

definition should_wait :: "int \<Rightarrow> bool" where
  "should_wait err \<longleftrightarrow> err = EAGAIN"

section \<open>Life of a socket\<close>

definition close_socket :: "'k kernel \<Rightarrow> ('k sock, unit) prog" where
  "close_socket K s =
     (if socket_fd s = 0 then (Inl (Err FailedPrecondition), s)
      else (Inr (), \<lparr>socket_fd = 0, os = k_close K (socket_fd s) (os s)\<rparr>))"

text \<open>Move construction: the descriptor of the new socket and of the other one.\<close>

definition socket_move :: "int \<Rightarrow> int \<times> int" where
  "socket_move other = (other, 0)"

definition socket_move_assign :: "'k kernel \<Rightarrow> int \<Rightarrow> int \<Rightarrow> 'k \<Rightarrow> (int \<times> int) \<times> 'k" where
  "socket_move_assign K this other k =
     (let k' = (if 0 < this then os (snd (close_socket K \<lparr>socket_fd = this, os = k\<rparr>)) else k)
      in ((other, 0), k'))"

definition socket_destroy :: "'k kernel \<Rightarrow> int \<Rightarrow> 'k \<Rightarrow> 'k" where
  "socket_destroy K fd k =
     (if fd \<noteq> 0 then os (snd (close_socket K \<lparr>socket_fd = fd, os = k\<rparr>)) else k)"

section \<open>Connecting\<close>

fun connect_loop :: "'k kernel \<Rightarrow> nat list \<Rightarrow> ('k sock, unit) prog" where
  "connect_loop K [] s = (Inr (), s)"
| "connect_loop K (a # addresses) s =
     (case k_socket K a (os s) of (fd, k1) \<Rightarrow>
        if fd \<le> 0 then connect_loop K addresses (s\<lparr>os := k1\<rparr>)
        else case k_connect K fd a k1 of (conn_result, k2) \<Rightarrow>
          if conn_result = -1 then
            if k_errno K k2 \<noteq> EINPROGRESS
            then connect_loop K addresses (s\<lparr>os := k_close K fd k2\<rparr>)
            else case k_so_error K fd (k_wait K fd k2) of ((r, err), k3) \<Rightarrow>
              if r \<noteq> 0 then (Inl (system_failure (k_errno K k3)), s\<lparr>os := k3\<rparr>)
              else if err \<noteq> 0 then connect_loop K addresses (s\<lparr>os := k_close K fd k3\<rparr>)
              else (Inr (), \<lparr>socket_fd = fd, os = k3\<rparr>)
          else (Inr (), \<lparr>socket_fd = fd, os = k2\<rparr>))"

definition connect :: "'k kernel \<Rightarrow> string \<Rightarrow> string \<Rightarrow> ('k sock, unit) prog" where
  "connect K hostname service s =
     (if is_open s then (Inl (Err FailedPrecondition), s)
      else case k_getaddrinfo K (Some hostname) service (os s) of ((err, addresses), k) \<Rightarrow>
        case check_gai_error (k_errno K k) err of
          Inl f \<Rightarrow> (Inl f, s\<lparr>os := k\<rparr>)
        | Inr u \<Rightarrow>
            (case connect_loop K addresses (s\<lparr>os := k\<rparr>) of
               (Inl f, s') \<Rightarrow> (Inl f, s')
             | (Inr u, s') \<Rightarrow>
                 if socket_fd s' = 0 then (Inl (Err Internal), s') else (Inr (), s')))"

section \<open>Sending\<close>

partial_function (option) do_send ::
  "'k kernel \<Rightarrow> int \<Rightarrow> byte list \<Rightarrow> 'k \<Rightarrow> (nat res \<times> 'k) option" where
  "do_send K fd bytes k =
     (case k_send K fd bytes k of (bytes_sent, k') \<Rightarrow>
        if 0 < bytes_sent then Some (Inr (nat bytes_sent), k')
        else if should_wait (k_errno K k') then do_send K fd bytes (k_wait K fd k')
        else if k_errno K k' = EMSGSIZE then
          (if length bytes < 2 then Some (Inl (Err ResourceExhausted), k')
           else
             let half_size = length bytes div 2
             in Option.bind (do_send K fd (take half_size bytes) k') (\<lambda>(first_send, k1).
                case first_send of
                  Inl f \<Rightarrow> Some (Inl f, k1)
                | Inr n1 \<Rightarrow>
                    Option.bind (do_send K fd (drop half_size bytes) k1) (\<lambda>(second_send, k2).
                    Some (map_res (\<lambda>n2. n1 + n2) second_send, k2))))
        else Some (Inl (system_failure (k_errno K k')), k'))"

definition send :: "'k kernel \<Rightarrow> byte list option \<Rightarrow> 'k sock \<Rightarrow> (nat res \<times> 'k sock) option" where
  "send K bytes s =
     (if \<not> is_open s then Some (Inl (Err FailedPrecondition), s)
      else if bytes = Some [] then Some (Inl (Err InvalidArgument), s)
      else case bytes of
          None \<Rightarrow> Some (Inl (Err InvalidArgument), s)
        | Some xs \<Rightarrow>
            map_option (\<lambda>(r, k). (r, s\<lparr>os := k\<rparr>)) (do_send K (socket_fd s) xs (os s)))"

section \<open>Receiving\<close>

partial_function (option) do_recv ::
  "'k kernel \<Rightarrow> nat \<Rightarrow> 'k sock \<Rightarrow> (byte list res \<times> 'k sock) option" where
  "do_recv K n s =
     (case k_recv K (socket_fd s) n (os s) of ((bytes_received, bytes), k) \<Rightarrow>
        if 0 < bytes_received then Some (Inr bytes, s\<lparr>os := k\<rparr>)
        else if bytes_received = 0 then
          (case close_socket K (s\<lparr>os := k\<rparr>) of
             (Inl f, s') \<Rightarrow> Some (Inl f, s')
           | (Inr u, s') \<Rightarrow> Some (Inr [], s'))
        else if should_wait (k_errno K k) then
          do_recv K n (s\<lparr>os := k_wait K (socket_fd s) k\<rparr>)
        else Some (Inl (system_failure (k_errno K k)), s\<lparr>os := k\<rparr>))"

definition receive :: "'k kernel \<Rightarrow> bool \<Rightarrow> nat \<Rightarrow> 'k sock \<Rightarrow> (byte list res \<times> 'k sock) option" where
  "receive K data_null n s =
     (if \<not> is_open s then Some (Inl (Err FailedPrecondition), s)
      else if n = 0 then Some (Inl (Err InvalidArgument), s)
      else if data_null then Some (Inl (Err InvalidArgument), s)
      else do_recv K n s)"

section \<open>Listening\<close>

definition enable_socket_reuse :: "'k kernel \<Rightarrow> int \<Rightarrow> 'k \<Rightarrow> unit res \<times> 'k" where
  "enable_socket_reuse K fd k =
     (case k_reuse_address K fd k of (r, k') \<Rightarrow>
        if r = -1 then (Inl (system_failure (k_errno K k')), k') else (Inr (), k'))"

fun bind_loop :: "'k kernel \<Rightarrow> nat list \<Rightarrow> ('k sock, unit) prog" where
  "bind_loop K [] s = (Inr (), s)"
| "bind_loop K (a # addresses) s =
     (case k_socket K a (os s) of (fd, k1) \<Rightarrow>
        if fd \<le> 0 then bind_loop K addresses (s\<lparr>os := k1\<rparr>)
        else case enable_socket_reuse K fd k1 of
            (Inl f, k2) \<Rightarrow> (Inl f, s\<lparr>os := k2\<rparr>)
          | (Inr u, k2) \<Rightarrow>
              (case k_bind K fd a k2 of (r, k3) \<Rightarrow>
                 if r = -1 then bind_loop K addresses (s\<lparr>os := k_close K fd k3\<rparr>)
                 else (Inr (), \<lparr>socket_fd = fd, os = k3\<rparr>)))"

definition listen_socket :: "'k kernel \<Rightarrow> int \<Rightarrow> string \<Rightarrow> string \<Rightarrow> ('k sock, unit) prog" where
  "listen_socket K backlog hostname service s =
     (if is_open s then (Inl (Err FailedPrecondition), s)
      else case k_getaddrinfo K (if hostname = [] then None else Some hostname) service (os s) of
          ((err, addresses), k) \<Rightarrow>
            (case check_gai_error (k_errno K k) err of
               Inl f \<Rightarrow> (Inl f, s\<lparr>os := k\<rparr>)
             | Inr u \<Rightarrow>
                 (case bind_loop K addresses (s\<lparr>os := k\<rparr>) of
                    (Inl f, s') \<Rightarrow> (Inl f, s')
                  | (Inr u, s') \<Rightarrow>
                      if \<not> is_open s' then (Inl (Err Unavailable), s')
                      else case k_listen K (socket_fd s') backlog (os s') of (r, k') \<Rightarrow>
                        if r = -1 then (Inl (system_failure (k_errno K k')), s'\<lparr>os := k'\<rparr>)
                        else (Inr (), s'\<lparr>os := k'\<rparr>))))"

section \<open>Accepting\<close>

partial_function (option) do_accept :: "'k kernel \<Rightarrow> int \<Rightarrow> 'k \<Rightarrow> (int res \<times> 'k) option" where
  "do_accept K fd k =
     (case k_accept K fd k of (new_sock, k1) \<Rightarrow>
        if 0 < new_sock then
          (case k_get_flags K new_sock k1 of (flgs, k2) \<Rightarrow>
             if flgs = -1 then Some (Inl (system_failure (k_errno K k2)), k2)
             else case k_set_nonblocking K new_sock flgs k2 of (r, k3) \<Rightarrow>
               if r = -1 then Some (Inl (system_failure (k_errno K k3)), k3)
               else Some (Inr new_sock, k3))
        else if should_wait (k_errno K k1) then do_accept K fd (k_wait K fd k1)
        else Some (Inl (system_failure (k_errno K k1)), k1))"

definition accept :: "'k kernel \<Rightarrow> 'k sock \<Rightarrow> (int res \<times> 'k sock) option" where
  "accept K s =
     (if \<not> is_open s then Some (Inl (Err FailedPrecondition), s)
      else map_option (\<lambda>(r, k). (r, s\<lparr>os := k\<rparr>)) (do_accept K (socket_fd s) (os s)))"

section \<open>A kernel to evaluate on\<close>

text \<open>
  One connection that takes messages of at most \<open>lim\<close> bytes: what has been sent, how often it
  still asks a sender or a receiver to wait, the packets that arrive, and the open descriptors.
  The first address of a lookup can be neither connected nor bound, the second one can.
\<close>

record pipe =
  p_errno :: int
  p_sent :: "byte list"
  p_send_busy :: nat
  p_packets :: "byte list list"
  p_recv_busy :: nat
  p_descriptors :: "int list"

definition pipe_send :: "nat \<Rightarrow> int \<Rightarrow> byte list \<Rightarrow> pipe \<Rightarrow> int \<times> pipe" where
  "pipe_send lim fd xs k =
     (if 0 < p_send_busy k then (-1, k\<lparr>p_errno := EAGAIN\<rparr>)
      else if length xs \<le> lim then (int (length xs), k\<lparr>p_sent := p_sent k @ xs\<rparr>)
      else (-1, k\<lparr>p_errno := EMSGSIZE\<rparr>))"

fun next_packet :: "nat \<Rightarrow> byte list list \<Rightarrow> byte list \<times> byte list list" where
  "next_packet n [] = ([], [])"
| "next_packet n ([] # ps) = next_packet n ps"
| "next_packet n ((x # xs) # ps) = (take n (x # xs), drop n (x # xs) # ps)"

definition pipe_recv :: "int \<Rightarrow> nat \<Rightarrow> pipe \<Rightarrow> (int \<times> byte list) \<times> pipe" where
  "pipe_recv fd n k =
     (if 0 < p_recv_busy k then ((-1, []), k\<lparr>p_errno := EAGAIN\<rparr>)
      else case next_packet n (p_packets k) of (bs, ps) \<Rightarrow>
        ((int (length bs), bs), k\<lparr>p_packets := ps\<rparr>))"

definition pipe_wait :: "int \<Rightarrow> pipe \<Rightarrow> pipe" where
  "pipe_wait fd k = k\<lparr>p_send_busy := p_send_busy k - 1, p_recv_busy := p_recv_busy k - 1\<rparr>"

definition pipe_open :: "pipe \<Rightarrow> int \<times> pipe" where
  "pipe_open k =
     (let fd = 1 + foldr max (p_descriptors k) 2
      in (fd, k\<lparr>p_descriptors := fd # p_descriptors k\<rparr>))"

definition pipe_kernel :: "nat \<Rightarrow> pipe kernel" where
  "pipe_kernel lim =
     \<lparr>k_errno = p_errno, k_wait = pipe_wait,
      k_getaddrinfo = (\<lambda>host serv k. ((0, [0, 1]), k)),
      k_socket = (\<lambda>a k. pipe_open k),
      k_connect = (\<lambda>fd a k. if a = 0 then (-1, k\<lparr>p_errno := 111\<rparr>) else (0, k)),
      k_so_error = (\<lambda>fd k. ((0, 0), k)),
      k_reuse_address = (\<lambda>fd k. (0, k)),
      k_bind = (\<lambda>fd a k. if a = 0 then (-1, k\<lparr>p_errno := 98\<rparr>) else (0, k)),
      k_listen = (\<lambda>fd n k. (0, k)),
      k_accept = (\<lambda>fd k. pipe_open k),
      k_get_flags = (\<lambda>fd k. (0, k)),
      k_set_nonblocking = (\<lambda>fd fl k. (0, k)),
      k_send = pipe_send lim, k_recv = pipe_recv,
      k_close = (\<lambda>fd k. k\<lparr>p_descriptors := filter (\<lambda>d. d \<noteq> fd) (p_descriptors k)\<rparr>)\<rparr>"

section \<open>Sending everything\<close>

text \<open>
  A kernel that takes whole messages of at most \<open>lim\<close> bytes on a descriptor, refuses longer
  ones with \<open>EMSGSIZE\<close>, and asks to wait only finitely often in a row. \<open>wire\<close> is what has
  been handed to the peer so far.
\<close>

definition takes_messages :: "'k kernel \<Rightarrow> int \<Rightarrow> nat \<Rightarrow> ('k \<Rightarrow> byte list) \<Rightarrow> ('k \<Rightarrow> nat) \<Rightarrow> bool" where
  "takes_messages K fd lim wire delay \<longleftrightarrow>
     (\<forall>xs k. xs \<noteq> [] \<longrightarrow>
        (case k_send K fd xs k of (r, k') \<Rightarrow>
           if delay k = 0 then
             if length xs \<le> lim then r = int (length xs) \<and> wire k' = wire k @ xs
             else r = -1 \<and> k_errno K k' = EMSGSIZE \<and> wire k' = wire k
           else r = -1 \<and> k_errno K k' = EAGAIN \<and>
             wire (k_wait K fd k') = wire k \<and> delay (k_wait K fd k') < delay k))"

lemma takes_messagesD:
  assumes "takes_messages K fd lim wire delay" "xs \<noteq> []" "k_send K fd xs k = (r, k')"
  shows "delay k = 0 \<Longrightarrow> length xs \<le> lim \<Longrightarrow> r = int (length xs) \<and> wire k' = wire k @ xs"
    and "delay k = 0 \<Longrightarrow> lim < length xs \<Longrightarrow> r = -1 \<and> k_errno K k' = EMSGSIZE \<and> wire k' = wire k"
    and "0 < delay k \<Longrightarrow> r = -1 \<and> k_errno K k' = EAGAIN \<and>
      wire (k_wait K fd k') = wire k \<and> delay (k_wait K fd k') < delay k"
proof -
  have "if delay k = 0 then
      if length xs \<le> lim then r = int (length xs) \<and> wire k' = wire k @ xs
      else r = -1 \<and> k_errno K k' = EMSGSIZE \<and> wire k' = wire k
    else r = -1 \<and> k_errno K k' = EAGAIN \<and>
      wire (k_wait K fd k') = wire k \<and> delay (k_wait K fd k') < delay k"
    using assms(1) [unfolded takes_messages_def, rule_format, OF assms(2), of k] assms(3) by simp
  then show "delay k = 0 \<Longrightarrow> length xs \<le> lim \<Longrightarrow> r = int (length xs) \<and> wire k' = wire k @ xs"
    and "delay k = 0 \<Longrightarrow> lim < length xs \<Longrightarrow> r = -1 \<and> k_errno K k' = EMSGSIZE \<and> wire k' = wire k"
    and "0 < delay k \<Longrightarrow> r = -1 \<and> k_errno K k' = EAGAIN \<and>
      wire (k_wait K fd k') = wire k \<and> delay (k_wait K fd k') < delay k"
    by (simp_all split: if_splits)
qed

lemma do_send_all:
  assumes "takes_messages K fd lim wire delay" "0 < lim" "xs \<noteq> []"
  shows "\<exists>k'. do_send K fd xs k = Some (Inr (length xs), k') \<and> wire k' = wire k @ xs"
  using assms(3)
proof (induction "(length xs, delay k)" arbitrary: xs k
    rule: wf_induct_rule [OF wf_lex_prod [OF wf_less_than wf_less_than]])
  case 1
  obtain r k1 where s: "k_send K fd xs k = (r, k1)" by (cases "k_send K fd xs k")
  note law = takes_messagesD [OF assms(1) \<open>xs \<noteq> []\<close> s]
  consider "0 < delay k" | "delay k = 0" "length xs \<le> lim" | "delay k = 0" "lim < length xs"
    by linarith
  then show ?case
  proof cases
    case 1
    from law(3) [OF this] have w: "r = -1" "k_errno K k1 = EAGAIN"
      "wire (k_wait K fd k1) = wire k" "delay (k_wait K fd k1) < delay k" by auto
    from "1.hyps" [of xs "k_wait K fd k1"] w \<open>xs \<noteq> []\<close> obtain k' where
      "do_send K fd xs (k_wait K fd k1) = Some (Inr (length xs), k')" "wire k' = wire k @ xs" by auto
    with w s show ?thesis by (subst do_send.simps) (simp add: should_wait_def)
  next
    case 2
    from law(1) [OF this] s \<open>xs \<noteq> []\<close> show ?thesis
      by (subst do_send.simps) auto
  next
    case 3
    from law(2) [OF this] have w: "r = -1" "k_errno K k1 = EMSGSIZE" "wire k1 = wire k" by auto
    let ?h = "length xs div 2"
    from 3 assms(2) have len: "2 \<le> length xs" by simp
    then have half: "0 < ?h" "?h < length xs" by auto
    from "1.hyps" [of "take ?h xs" k1] half \<open>xs \<noteq> []\<close> obtain k2 where
      k2: "do_send K fd (take ?h xs) k1 = Some (Inr ?h, k2)" "wire k2 = wire k1 @ take ?h xs"
      by (auto simp: min_def)
    have "length xs - ?h < length xs" using half by arith
    with "1.hyps" [of "drop ?h xs" k2] half obtain k3 where
      k3: "do_send K fd (drop ?h xs) k2 = Some (Inr (length xs - ?h), k3)" "wire k3 = wire k2 @ drop ?h xs"
      by auto
    from s w k2 k3 half len show ?thesis
      by (subst do_send.simps) (simp add: should_wait_def Let_def)
  qed
qed


lemma pipe_takes_messages: "takes_messages (pipe_kernel lim) fd lim p_sent p_send_busy"
  by (simp add: takes_messages_def pipe_kernel_def pipe_send_def pipe_wait_def)


section \<open>Descriptors\<close>

text \<open>
  What the calls do to the set of open descriptors: \<open>socket\<close> adds the one it returns,
  \<open>close\<close> removes one, the others leave it alone.
\<close>

definition keeps_descriptors :: "'k kernel \<Rightarrow> ('k \<Rightarrow> int set) \<Rightarrow> bool" where
  "keeps_descriptors K fds \<longleftrightarrow>
     (\<forall>a k. fst (k_socket K a k) \<le> 0 \<and> fds (snd (k_socket K a k)) = fds k \<or>
            0 < fst (k_socket K a k) \<and> fst (k_socket K a k) \<notin> fds k \<and>
            fds (snd (k_socket K a k)) = insert (fst (k_socket K a k)) (fds k)) \<and>
     (\<forall>fd k. fds (k_close K fd k) = fds k - {fd}) \<and>
     (\<forall>fd k. fds (k_wait K fd k) = fds k) \<and>
     (\<forall>h v k. fds (snd (k_getaddrinfo K h v k)) = fds k) \<and>
     (\<forall>fd a k. fds (snd (k_connect K fd a k)) = fds k) \<and>
     (\<forall>fd k. fds (snd (k_so_error K fd k)) = fds k) \<and>
     (\<forall>fd k. fds (snd (k_reuse_address K fd k)) = fds k) \<and>
     (\<forall>fd a k. fds (snd (k_bind K fd a k)) = fds k) \<and>
     (\<forall>fd n k. fds (snd (k_listen K fd n k)) = fds k)"

text \<open>The option calls, whose failure is thrown right away, work.\<close>

definition options_work :: "'k kernel \<Rightarrow> bool" where
  "options_work K \<longleftrightarrow>
     (\<forall>fd k. fst (fst (k_so_error K fd k)) = 0) \<and> (\<forall>fd k. fst (k_reuse_address K fd k) \<noteq> -1)"

text \<open>
  The outcome of one of the two loops over the addresses: the socket has taken a new descriptor
  or none, and no other one is left open.
\<close>

definition took_descriptor :: "('k \<Rightarrow> int set) \<Rightarrow> int set \<Rightarrow> 'k sock \<Rightarrow> bool" where
  "took_descriptor fds S s \<longleftrightarrow>
     (if socket_fd s = 0 then fds (os s) = S
      else 0 < socket_fd s \<and> socket_fd s \<notin> S \<and> fds (os s) = insert (socket_fd s) S)"

lemma socket_cases:
  assumes "keeps_descriptors K fds" "k_socket K a k = (fd, k')"
  obtains "fd \<le> 0" "fds k' = fds k" | "0 < fd" "fd \<notin> fds k" "fds k' = insert fd (fds k)"
  using assms unfolding keeps_descriptors_def by (metis fst_conv snd_conv)

lemma keeps_descriptorsD:
  assumes "keeps_descriptors K fds"
  shows "fds (k_close K fd k) = fds k - {fd}" "fds (k_wait K fd k) = fds k"
    "k_getaddrinfo K h v k = (ga, k') \<Longrightarrow> fds k' = fds k"
    "k_connect K fd a k = (r, k') \<Longrightarrow> fds k' = fds k"
    "k_so_error K fd k = (e, k') \<Longrightarrow> fds k' = fds k"
    "k_reuse_address K fd k = (r, k') \<Longrightarrow> fds k' = fds k"
    "k_bind K fd a k = (r, k') \<Longrightarrow> fds k' = fds k"
    "k_listen K fd n k = (r, k') \<Longrightarrow> fds k' = fds k"
  using assms unfolding keeps_descriptors_def by (metis snd_conv)+

lemma connect_loop_descriptors:
  assumes "keeps_descriptors K fds" "options_work K" "socket_fd s = 0"
  shows "\<exists>s'. connect_loop K as s = (Inr (), s') \<and> took_descriptor fds (fds (os s)) s'"
  using assms(3)
proof (induction as arbitrary: s)
  case (Cons a as)
  obtain fd k1 where s1: "k_socket K a (os s) = (fd, k1)" by fastforce
  note D = keeps_descriptorsD [OF assms(1)]
  from assms(1) s1 show ?case
  proof (cases rule: socket_cases)
    case 1
    with Cons.IH [of "s\<lparr>os := k1\<rparr>"] Cons.prems s1 show ?thesis by simp
  next
    case 2
    obtain r k2 where s2: "k_connect K fd a k1 = (r, k2)" by fastforce
    note fds2 = D(4) [OF s2]
    obtain e k3 where s3: "k_so_error K fd (k_wait K fd k2) = (e, k3)" by fastforce
    note fds3 = D(5) [OF s3] D(2) [of fd k2]
    obtain e1 e2 where e: "e = (e1, e2)" by (cases e)
    have "e1 = 0" using assms(2) s3 e unfolding options_work_def by (metis fst_conv)
    have retry: "\<exists>s'. connect_loop K as (s\<lparr>os := k_close K fd k\<rparr>) = (Inr (), s') \<and>
        took_descriptor fds (fds (os s)) s'" if "fds k = insert fd (fds (os s))" for k
      using Cons.IH [of "s\<lparr>os := k_close K fd k\<rparr>"] Cons.prems D(1) [of fd k] that 2 by simp
    from 2 s1 s2 s3 e \<open>e1 = 0\<close> fds2 fds3 retry [of k2] retry [of k3] show ?thesis
      by (auto simp: took_descriptor_def)
  qed
qed (simp add: took_descriptor_def)

lemma bind_loop_descriptors:
  assumes "keeps_descriptors K fds" "options_work K" "socket_fd s = 0"
  shows "\<exists>s'. bind_loop K as s = (Inr (), s') \<and> took_descriptor fds (fds (os s)) s'"
  using assms(3)
proof (induction as arbitrary: s)
  case (Cons a as)
  obtain fd k1 where s1: "k_socket K a (os s) = (fd, k1)" by fastforce
  note D = keeps_descriptorsD [OF assms(1)]
  from assms(1) s1 show ?case
  proof (cases rule: socket_cases)
    case 1
    with Cons.IH [of "s\<lparr>os := k1\<rparr>"] Cons.prems s1 show ?thesis by simp
  next
    case 2
    obtain r k2 where s2: "k_reuse_address K fd k1 = (r, k2)" by fastforce
    have "r \<noteq> -1" using assms(2) s2 unfolding options_work_def by (metis fst_conv)
    then have reuse: "enable_socket_reuse K fd k1 = (Inr (), k2)"
      using s2 by (simp add: enable_socket_reuse_def)
    obtain b k3 where s3: "k_bind K fd a k2 = (b, k3)" by fastforce
    have fds3: "fds k3 = insert fd (fds (os s))" using D(6) [OF s2] D(7) [OF s3] 2 by simp
    from Cons.IH [of "s\<lparr>os := k_close K fd k3\<rparr>"] Cons.prems D(1) [of fd k3] fds3 2
    have "\<exists>s'. bind_loop K as (s\<lparr>os := k_close K fd k3\<rparr>) = (Inr (), s') \<and>
        took_descriptor fds (fds (os s)) s'" by simp
    with 2 s1 s3 reuse fds3 show ?thesis by (auto simp: took_descriptor_def)
  qed
qed (simp add: took_descriptor_def)

lemma connect_descriptors:
  assumes "keeps_descriptors K fds" "options_work K" "socket_fd s = 0"
  shows "took_descriptor fds (fds (os s)) (snd (connect K hostname service s)) \<and>
    (isl (fst (connect K hostname service s)) \<longleftrightarrow> socket_fd (snd (connect K hostname service s)) = 0)"
proof -
  have closed: "\<not> is_open s" using assms(3) by (simp add: is_open_def)
  obtain err as k where g: "k_getaddrinfo K (Some hostname) service (os s) = ((err, as), k)"
    by (metis prod.exhaust)
  obtain s' where "connect_loop K as (s\<lparr>os := k\<rparr>) = (Inr (), s')" "took_descriptor fds (fds k) s'"
    using connect_loop_descriptors [OF assms(1,2), of "s\<lparr>os := k\<rparr>" as] assms(3) by auto
  with g closed keeps_descriptorsD(3) [OF assms(1) g] assms(3) show ?thesis
    by (auto simp: connect_def took_descriptor_def split: sum.splits)
qed

lemma listen_descriptors:
  assumes "keeps_descriptors K fds" "options_work K" "socket_fd s = 0"
  shows "took_descriptor fds (fds (os s)) (snd (listen_socket K backlog hostname service s)) \<and>
    (fst (listen_socket K backlog hostname service s) = Inr () \<longrightarrow>
       0 < socket_fd (snd (listen_socket K backlog hostname service s)))"
proof -
  have closed: "\<not> is_open s" using assms(3) by (simp add: is_open_def)
  let ?h = "if hostname = [] then None else Some hostname"
  obtain err as k where g: "k_getaddrinfo K ?h service (os s) = ((err, as), k)"
    by (metis prod.exhaust)
  obtain s' where s': "bind_loop K as (s\<lparr>os := k\<rparr>) = (Inr (), s')" "took_descriptor fds (fds k) s'"
    using bind_loop_descriptors [OF assms(1,2), of "s\<lparr>os := k\<rparr>" as] assms(3) by auto
  obtain r k' where l: "k_listen K (socket_fd s') backlog (os s') = (r, k')" by fastforce
  from g closed keeps_descriptorsD(3) [OF assms(1) g] s' l keeps_descriptorsD(8) [OF assms(1) l] assms(3)
  show ?thesis
    by (auto simp: listen_socket_def took_descriptor_def is_open_def split: sum.splits if_splits)
qed

text \<open>
  Connecting and binding leak no descriptors. When the option calls of the kernel work,
  a closed socket that connects or listens ends with exactly one new open descriptor, its own,
  or, where the call throws without one, with none; every socket tried on the way is closed.
\<close>

theorem no_descriptor_leaks:
  assumes "keeps_descriptors K fds" "options_work K" "socket_fd s = 0"
  shows "took_descriptor fds (fds (os s)) (snd (connect K hostname service s)) \<and>
    took_descriptor fds (fds (os s)) (snd (listen_socket K backlog hostname service s)) \<and>
    (isl (fst (connect K hostname service s)) \<longleftrightarrow> socket_fd (snd (connect K hostname service s)) = 0)"
  using connect_descriptors [OF assms] listen_descriptors [OF assms] by blast

lemma foldr_max_ge: "x \<in> set xs \<Longrightarrow> x \<le> foldr max xs (b :: int)" "b \<le> foldr max xs b"
  by (induction xs) auto

lemma pipe_open_fresh:
  "fst (pipe_open k) \<notin> set (p_descriptors k)" "0 < fst (pipe_open k)"
  using foldr_max_ge(1) [of "1 + foldr max (p_descriptors k) 2" "p_descriptors k" 2]
    foldr_max_ge(2) [of 2 "p_descriptors k"]
  by (auto simp: pipe_open_def Let_def)

lemma pipe_keeps_descriptors:
  "keeps_descriptors (pipe_kernel lim) (\<lambda>k. set (p_descriptors k))" "options_work (pipe_kernel lim)"
  using pipe_open_fresh
  by (auto simp: keeps_descriptors_def options_work_def pipe_kernel_def pipe_wait_def pipe_open_def Let_def)

theorem no_descriptor_leaks_witness:
  "took_descriptor (\<lambda>k. set (p_descriptors k)) {5}
     (snd (connect (pipe_kernel 2) ''host'' ''80''
        \<lparr>socket_fd = 0, os = \<lparr>p_errno = 0, p_sent = [], p_send_busy = 0, p_packets = [],
          p_recv_busy = 0, p_descriptors = [5]\<rparr>\<rparr>))"
  using no_descriptor_leaks [OF pipe_keeps_descriptors, of
      "\<lparr>socket_fd = 0, os = \<lparr>p_errno = 0, p_sent = [], p_send_busy = 0, p_packets = [],
        p_recv_busy = 0, p_descriptors = [5]\<rparr>\<rparr>" 2 "''host''" "''80''" 1]
  by simp

section \<open>Receiving what arrives\<close>

text \<open>
  A kernel that delivers a stream of bytes on a descriptor: \<open>incoming\<close> is what is still to
  come; as long as that is not empty a call returns some of it, then it reports the end. It
  asks to wait only finitely often in a row.
\<close>

locale recv_kernel =
  fixes K :: "'k kernel" and fd :: int and incoming :: "'k \<Rightarrow> byte list" and delay :: "'k \<Rightarrow> nat"
  assumes recv_some: "0 < n \<Longrightarrow> delay k = 0 \<Longrightarrow> incoming k \<noteq> [] \<Longrightarrow>
      \<exists>m k'. 0 < m \<and> m \<le> n \<and> m \<le> length (incoming k) \<and>
        k_recv K fd n k = ((int m, take m (incoming k)), k') \<and> incoming k' = drop m (incoming k)"
    and recv_end: "0 < n \<Longrightarrow> delay k = 0 \<Longrightarrow> incoming k = [] \<Longrightarrow> \<exists>k'. k_recv K fd n k = ((0, []), k')"
    and recv_wait: "0 < n \<Longrightarrow> 0 < delay k \<Longrightarrow>
      \<exists>bs k'. k_recv K fd n k = ((-1, bs), k') \<and> k_errno K k' = EAGAIN \<and>
        incoming (k_wait K fd k') = incoming k \<and> delay (k_wait K fd k') < delay k"
begin

lemma do_recv_some:
  assumes "0 < n" "socket_fd s = fd" "incoming (os s) \<noteq> []"
  shows "\<exists>m k'. 0 < m \<and> m \<le> n \<and> m \<le> length (incoming (os s)) \<and>
    do_recv K n s = Some (Inr (take m (incoming (os s))), s\<lparr>os := k'\<rparr>) \<and>
    incoming k' = drop m (incoming (os s))"
  using assms(2,3)
proof (induction "delay (os s)" arbitrary: s rule: less_induct)
  case less
  show ?case
  proof (cases "delay (os s) = 0")
    case True
    from recv_some [OF assms(1) this less.prems(2)] obtain m k' where m: "0 < m" "m \<le> n"
      "m \<le> length (incoming (os s))" "incoming k' = drop m (incoming (os s))"
      "k_recv K fd n (os s) = ((int m, take m (incoming (os s))), k')" by blast
    then have "do_recv K n s = Some (Inr (take m (incoming (os s))), s\<lparr>os := k'\<rparr>)"
      by (subst do_recv.simps) (simp add: less.prems(1))
    with m show ?thesis by blast
  next
    case False
    with recv_wait [OF assms(1), of "os s"] obtain bs k1 where
      w: "k_recv K fd n (os s) = ((-1, bs), k1)" "k_errno K k1 = EAGAIN"
      "incoming (k_wait K fd k1) = incoming (os s)" "delay (k_wait K fd k1) < delay (os s)" by blast
    have "do_recv K n s = do_recv K n (s\<lparr>os := k_wait K fd k1\<rparr>)"
      using w(1,2) by (subst do_recv.simps) (simp add: less.prems(1) should_wait_def)
    with less.hyps [of "s\<lparr>os := k_wait K fd k1\<rparr>"] w(3,4) less.prems show ?thesis by simp
  qed
qed

text \<open>At the end of the stream the socket is closed and an empty result returned.\<close>

lemma do_recv_end:
  assumes "0 < n" "0 < fd" "socket_fd s = fd" "incoming (os s) = []"
  shows "\<exists>k'. do_recv K n s = Some (Inr [], \<lparr>socket_fd = 0, os = k'\<rparr>)"
  using assms(3,4)
proof (induction "delay (os s)" arbitrary: s rule: less_induct)
  case less
  show ?case
  proof (cases "delay (os s) = 0")
    case True
    from recv_end [OF assms(1) this less.prems(2)] obtain k' where
      "k_recv K fd n (os s) = ((0, []), k')" by blast
    then show ?thesis
      using assms(2) by (subst do_recv.simps) (simp add: less.prems(1) close_socket_def)
  next
    case False
    with recv_wait [OF assms(1), of "os s"] obtain bs k1 where
      w: "k_recv K fd n (os s) = ((-1, bs), k1)" "k_errno K k1 = EAGAIN"
      "incoming (k_wait K fd k1) = incoming (os s)" "delay (k_wait K fd k1) < delay (os s)" by blast
    have "do_recv K n s = do_recv K n (s\<lparr>os := k_wait K fd k1\<rparr>)"
      using w(1,2) by (subst do_recv.simps) (simp add: less.prems(1) should_wait_def)
    with less.hyps [of "s\<lparr>os := k_wait K fd k1\<rparr>"] w(3,4) less.prems show ?thesis by simp
  qed
qed

end

lemma next_packet_spec:
  assumes "next_packet n ps = (bs, ps')" "0 < n"
  shows "concat ps = bs @ concat ps'" "length bs \<le> n" "concat ps \<noteq> [] \<Longrightarrow> bs \<noteq> []"
  using assms
proof (induction n ps rule: next_packet.induct)
  case 1
  { case 1 then show ?case by simp next case 2 then show ?case by simp next case 3 then show ?case by simp }
next
  case (2 n ps)
  { case 1 then show ?case using 2 by simp next case 2 then show ?case using "2.IH" by simp
    next case 3 then show ?case using "2.IH"(3) by (metis append_Nil concat.simps(2) next_packet.simps(2)) }
next
  case (3 n x xs ps)
  { case 1 then show ?case by auto next case 2 then show ?case by auto
    next case 3 then show ?case by auto }
qed

interpretation pipe_stream: recv_kernel "pipe_kernel lim" fd "\<lambda>k. concat (p_packets k)" p_recv_busy for lim fd
proof
  fix n :: nat and k :: pipe
  obtain bs ps where np: "next_packet n (p_packets k) = (bs, ps)" by fastforce
  show "\<exists>m k'. 0 < m \<and> m \<le> n \<and> m \<le> length (concat (p_packets k)) \<and>
      k_recv (pipe_kernel lim) fd n k = ((int m, take m (concat (p_packets k))), k') \<and>
      concat (p_packets k') = drop m (concat (p_packets k))"
    if "0 < n" "p_recv_busy k = 0" "concat (p_packets k) \<noteq> []"
    using next_packet_spec [OF np that(1)] that np
    by (intro exI [of _ "length bs"] exI [of _ "k\<lparr>p_packets := ps\<rparr>"])
      (simp add: pipe_kernel_def pipe_recv_def)
  show "\<exists>k'. k_recv (pipe_kernel lim) fd n k = ((0, []), k')"
    if "0 < n" "p_recv_busy k = 0" "concat (p_packets k) = []"
    using next_packet_spec [OF np that(1)] that np by (simp add: pipe_kernel_def pipe_recv_def)
  show "\<exists>bs k'. k_recv (pipe_kernel lim) fd n k = ((-1, bs), k') \<and> k_errno (pipe_kernel lim) k' = EAGAIN \<and>
      concat (p_packets (k_wait (pipe_kernel lim) fd k')) = concat (p_packets k) \<and>
      p_recv_busy (k_wait (pipe_kernel lim) fd k') < p_recv_busy k"
    if "0 < n" "0 < p_recv_busy k"
    using that by (simp add: pipe_kernel_def pipe_recv_def pipe_wait_def)
qed

end
