(* ===== verification/Co_Reader.thy ===== *)
theory Co_Reader
  imports Socket
begin

text \<open>
  Buffered reading, \<open>src/lw/io/co/co.h\<close> and \<open>src/lw/io/co/co.cpp\<close>: \<open>CoReader\<close> reads
  blocks from a source into one buffer with a read window and a write window in it.

  The source is a type parameter of the class that satisfies the concept \<open>CoReadable\<close>; here
  it is a record of operations on a state of any type. Its contract is the locale
  \<open>co_source\<close>; a socket on a kernel that delivers a stream satisfies it (the sublocale at the
  end). The three flags that size the buffers are an argument.

  \<open>pending\<close> abstracts a reader to the bytes that are still to be read, those in the read
  window followed by those still in the source. \<open>read_until\<close> on a reader is \<open>scan\<close> on
  this sequence, however the source cuts it into blocks.
\<close>

record reader_flags =
  initial_read_buffer_size :: nat
  maximum_read_buffer_size :: nat
  read_block_size :: nat

record 's source =
  src_read :: "nat \<Rightarrow> ('s, byte list) prog"
  src_good :: "'s \<Rightarrow> bool"
  src_eof :: "'s \<Rightarrow> bool"

record 's reader =
  rd_heap :: heap
  rd_source :: 's
  rd_buffer :: buffer
  rd_read :: buffer
  rd_write :: buffer

section \<open>Making room\<close>

text \<open>
  \<open>while (new_size < desired) new_size *= 2\<close> on 64 bits. After 64 rounds the number is 0 and
  stays there, so that a loop that has not ended then runs forever.
\<close>

fun grow_size :: "nat \<Rightarrow> nat \<Rightarrow> nat \<Rightarrow> nat option" where
  "grow_size fuel n desired =
     (if desired \<le> n then Some n
      else case fuel of 0 \<Rightarrow> None | Suc f \<Rightarrow> grow_size f (n * 2 mod 2 ^ 64) desired)"

declare grow_size.simps [simp del]

definition realloc_buffers ::
  "reader_flags \<Rightarrow> (nat \<Rightarrow> byte) \<Rightarrow> nat \<Rightarrow> ('s reader, unit) prog" where
  "realloc_buffers fl junk desired_total_size r =
     (if maximum_read_buffer_size fl < desired_total_size
      then (Inl (Err ResourceExhausted), r)
      else case grow_size 64 (cap (rd_buffer r) * 2 mod 2 ^ 64) desired_total_size of
          None \<Rightarrow> (Inl Does_not_return, r)
        | Some n \<Rightarrow>
            (case buffer_alloc junk (min n (maximum_read_buffer_size fl)) (rd_heap r) of (new_buff, h1) \<Rightarrow>
             case bind_res (buffer_contents h1 (rd_read r)) (\<lambda>xs.
                  bind_res (buffer_copy_n xs (cap (rd_read r)) new_buff h1) (\<lambda>h2.
                  bind_res (trim_prefix new_buff (cap (rd_read r))) (\<lambda>w.
                  bind_res (move_assign (rd_buffer r) new_buff h2) (\<lambda>(b, _, h3).
                  Inr (r\<lparr>rd_heap := h3, rd_buffer := b,
                         rd_read := buffer_wrap (data_ptr new_buff) (cap (rd_read r)) False,
                         rd_write := w\<rparr>))))) of
               Inl f \<Rightarrow> (Inl f, r)
             | Inr r' \<Rightarrow> (Inr (), r')))"

text \<open>
  \<open>read.data() - buffer.data()\<close>. Before the first read the first pointer is null; the
  difference is then outside of what C++ defines and negative on the platforms in use.
\<close>

definition front_space :: "'s reader \<Rightarrow> int res" where
  "front_space r =
     (case (data_ptr (rd_read r), data_ptr (rd_buffer r)) of
        (Ptr b i, Ptr c j) \<Rightarrow> if b = c then Inr (int i - int j) else Inl Undefined_behaviour
      | (Null, Ptr c j) \<Rightarrow> Inr (-1)
      | (Null, Null) \<Rightarrow> Inr 0
      | (Ptr b i, Null) \<Rightarrow> Inl Undefined_behaviour)"

definition adjust_buffers ::
  "reader_flags \<Rightarrow> (nat \<Rightarrow> byte) \<Rightarrow> nat \<Rightarrow> ('s reader, unit) prog" where
  "adjust_buffers fl junk desired_write_size r =
     (if desired_write_size \<le> cap (rd_write r) then (Inr (), r)
      else
        let additional_space = desired_write_size - cap (rd_write r)
        in case front_space r of
             Inl f \<Rightarrow> (Inl f, r)
           | Inr front \<Rightarrow>
               if front < int additional_space
               then realloc_buffers fl junk (cap (rd_buffer r) + additional_space) r
               else case bind_res (buffer_contents (rd_heap r) (rd_read r)) (\<lambda>xs.
                         bind_res (buffer_copy_n xs (cap (rd_read r)) (rd_buffer r) (rd_heap r)) (\<lambda>h.
                         map_res (\<lambda>w. r\<lparr>rd_heap := h,
                             rd_read := buffer_wrap (data_ptr (rd_buffer r)) (cap (rd_read r)) False,
                             rd_write := w\<rparr>)
                           (trim_prefix (rd_buffer r) (cap (rd_read r))))) of
                      Inl f \<Rightarrow> (Inl f, r)
                    | Inr r' \<Rightarrow> (Inr (), r'))"

section \<open>Reading\<close>

definition reader_new :: "reader_flags \<Rightarrow> (nat \<Rightarrow> byte) \<Rightarrow> 's \<Rightarrow> heap \<Rightarrow> 's reader" where
  "reader_new fl junk src h =
     (case buffer_alloc junk (initial_read_buffer_size fl) h of (b, h') \<Rightarrow>
        \<lparr>rd_heap = h', rd_source = src, rd_buffer = b, rd_read = buffer_default,
         rd_write = buffer_default\<rparr>)"

definition reader_eof :: "'s source \<Rightarrow> 's reader \<Rightarrow> bool" where
  "reader_eof S r \<longleftrightarrow> buffer_empty (rd_read r) \<and> src_eof S (rd_source r)"

definition reader_good :: "'s source \<Rightarrow> 's reader \<Rightarrow> bool" where
  "reader_good S r \<longleftrightarrow> \<not> buffer_empty (rd_read r) \<or> src_good S (rd_source r)"

text \<open>
  The source writes what it read to the memory of the write window; \<open>bytes\<close> is that.
\<close>

definition load_buffer ::
  "'s source \<Rightarrow> reader_flags \<Rightarrow> (nat \<Rightarrow> byte) \<Rightarrow> nat \<Rightarrow> ('s reader, unit) prog" where
  "load_buffer S fl junk limit r =
     (case (if cap (rd_write r) < limit then adjust_buffers fl junk limit r else (Inr (), r)) of
        (Inl f, r1) \<Rightarrow> (Inl f, r1)
      | (Inr _, r1) \<Rightarrow>
          (case src_read S limit (rd_source r1) of
             (Inl f, s) \<Rightarrow> (Inl f, r1\<lparr>rd_source := s\<rparr>)
           | (Inr bytes, s) \<Rightarrow>
               (case write_bytes (rd_heap r1) (data_ptr (rd_write r1)) bytes of
                  Inl f \<Rightarrow> (Inl f, r1\<lparr>rd_source := s\<rparr>)
                | Inr h \<Rightarrow>
                    (case trim_prefix (rd_write r1) (length bytes) of
                       Inl f \<Rightarrow> (Inl f, r1\<lparr>rd_source := s, rd_heap := h\<rparr>)
                     | Inr w \<Rightarrow>
                         (Inr (), r1\<lparr>rd_source := s, rd_heap := h, rd_write := w,
                            rd_read := buffer_wrap (data_ptr (rd_read r1))
                                         (cap (rd_read r1) + length bytes) False\<rparr>)))))"

text \<open>The first \<open>n\<close> bytes of the read window as the result, the window behind them.\<close>

definition take_result :: "nat \<Rightarrow> ('s reader, buffer) prog" where
  "take_result n r =
     (case trim_prefix (rd_read r) n of
        Inl f \<Rightarrow> (Inl f, r)
      | Inr w \<Rightarrow> (Inr (buffer_wrap (data_ptr (rd_read r)) n False), r\<lparr>rd_read := w\<rparr>))"

definition read :: "'s source \<Rightarrow> reader_flags \<Rightarrow> (nat \<Rightarrow> byte) \<Rightarrow> nat \<Rightarrow> ('s reader, buffer) prog" where
  "read S fl junk n r =
     (case (if cap (rd_read r) < n then load_buffer S fl junk (n - cap (rd_read r)) r else (Inr (), r)) of
        (Inl f, r1) \<Rightarrow> (Inl f, r1)
      | (Inr _, r1) \<Rightarrow> take_result (min n (cap (rd_read r1))) r1)"

text \<open>
  The loop of \<open>read_until\<close> at index \<open>i\<close>, with \<open>pos\<close> characters of the pattern matched. At
  the limit the coroutine ends without a result, which is undefined.
\<close>

function read_until_loop ::
  "'s source \<Rightarrow> reader_flags \<Rightarrow> (nat \<Rightarrow> byte) \<Rightarrow> byte list \<Rightarrow> nat \<Rightarrow> nat \<Rightarrow> nat \<Rightarrow> ('s reader, buffer) prog" where
  "read_until_loop S fl junk str limit i pos r =
     (if \<not> i < limit then (Inl Undefined_behaviour, r)
      else if cap (rd_read r) \<le> i \<and> \<not> reader_good S r then (Inr buffer_default, r)
      else case (if cap (rd_read r) \<le> i then load_buffer S fl junk (limit - i) r else (Inr (), r)) of
          (Inl f, r1) \<Rightarrow> (Inl f, r1)
        | (Inr _, r1) \<Rightarrow>
            (case buffer_index (rd_heap r1) (rd_read r1) i of
               Inl f \<Rightarrow> (Inl f, r1)
             | Inr c \<Rightarrow>
                 if \<not> pos < length str then (Inl Undefined_behaviour, r1)
                 else if c = str ! pos then
                   if pos + 1 = length str then take_result (i + 1) r1
                   else read_until_loop S fl junk str limit (i + 1) (pos + 1) r1
                 else read_until_loop S fl junk str limit (i + 1) 0 r1))"
  by pat_completeness auto
termination
  by (relation "measure (\<lambda>(S, fl, junk, str, limit, i, pos, r). limit - i)") auto

declare read_until_loop.simps [simp del]

definition read_until ::
  "'s source \<Rightarrow> reader_flags \<Rightarrow> (nat \<Rightarrow> byte) \<Rightarrow> byte list \<Rightarrow> nat \<Rightarrow> ('s reader, buffer) prog" where
  "read_until S fl junk str limit r =
     read_until_loop S fl junk str (if limit = 0 then read_block_size fl else limit) 0 0 r"

text \<open>The overload for a single byte.\<close>

function read_until_byte_loop ::
  "'s source \<Rightarrow> reader_flags \<Rightarrow> (nat \<Rightarrow> byte) \<Rightarrow> byte \<Rightarrow> nat \<Rightarrow> nat \<Rightarrow> ('s reader, buffer) prog" where
  "read_until_byte_loop S fl junk c limit i r =
     (if \<not> i < limit then (Inl Undefined_behaviour, r)
      else if cap (rd_read r) \<le> i \<and> \<not> reader_good S r then (Inr buffer_default, r)
      else case (if cap (rd_read r) \<le> i then load_buffer S fl junk (limit - i) r else (Inr (), r)) of
          (Inl f, r1) \<Rightarrow> (Inl f, r1)
        | (Inr _, r1) \<Rightarrow>
            (case buffer_index (rd_heap r1) (rd_read r1) i of
               Inl f \<Rightarrow> (Inl f, r1)
             | Inr x \<Rightarrow>
                 if x = c then take_result (i + 1) r1
                 else read_until_byte_loop S fl junk c limit (i + 1) r1))"
  by pat_completeness auto
termination
  by (relation "measure (\<lambda>(S, fl, junk, c, limit, i, r). limit - i)") auto

declare read_until_byte_loop.simps [simp del]

definition read_until_byte ::
  "'s source \<Rightarrow> reader_flags \<Rightarrow> (nat \<Rightarrow> byte) \<Rightarrow> byte \<Rightarrow> nat \<Rightarrow> ('s reader, buffer) prog" where
  "read_until_byte S fl junk c limit r =
     read_until_byte_loop S fl junk c (if limit = 0 then read_block_size fl else limit) 0 r"

lemma read_until_byte_loop_eq:
  "read_until_byte_loop S fl junk c limit i r = read_until_loop S fl junk [c] limit i 0 r"
proof (induction "limit - i" arbitrary: i r rule: less_induct)
  case less
  show ?case
  proof (cases "i < limit")
    case True
    then have "read_until_byte_loop S fl junk c limit (i + 1) r1 =
        read_until_loop S fl junk [c] limit (i + 1) 0 r1" for r1
      by (intro less.hyps) simp
    then show ?thesis
      by (subst read_until_byte_loop.simps, subst read_until_loop.simps)
        (simp split: sum.split prod.split)
  qed (simp add: read_until_byte_loop.simps read_until_loop.simps)
qed

section \<open>Growing\<close>

lemma grow_size_ok:
  assumes "0 < n" "desired \<le> n * 2 ^ fuel" "desired \<le> 2 ^ 63" "n < 2 ^ 64"
  shows "\<exists>m. grow_size fuel n desired = Some m \<and> desired \<le> m"
  using assms
proof (induction fuel arbitrary: n)
  case 0
  then show ?case by (subst grow_size.simps) simp
next
  case (Suc f)
  show ?case
  proof (cases "desired \<le> n")
    case True
    then show ?thesis by (subst grow_size.simps) simp
  next
    case False
    then have "n * 2 mod 2 ^ 64 = n * 2" using Suc.prems(3) by simp
    with False Suc.IH [of "n * 2"] Suc.prems show ?thesis
      by (subst grow_size.simps) (simp add: mult.assoc)
  qed
qed

text \<open>An empty buffer never grows: doubling 0 does not end.\<close>

lemma grow_size_zero: "0 < desired \<Longrightarrow> grow_size fuel 0 desired = None"
  by (induction fuel) (subst grow_size.simps, simp)+

section \<open>The windows\<close>

text \<open>The bytes of the read window.\<close>

definition window :: "'s reader \<Rightarrow> byte list" where
  "window r = (case buffer_contents (rd_heap r) (rd_read r) of Inr xs \<Rightarrow> xs | Inl f \<Rightarrow> [])"

text \<open>
  The read window lies in the buffer with the write window behind it, up to the end of the
  buffer; before the first read both are empty and point nowhere.
\<close>

definition reader_ok :: "'s reader \<Rightarrow> bool" where
  "reader_ok r \<longleftrightarrow>
     (\<exists>b bs. data_ptr (rd_buffer r) = Ptr b 0 \<and> own_data (rd_buffer r) \<and>
        blocks (rd_heap r) b = Some bs \<and> length bs = cap (rd_buffer r) \<and> 0 < cap (rd_buffer r) \<and>
        b < fresh (rd_heap r) \<and>
        (data_ptr (rd_read r) = Null \<and> cap (rd_read r) = 0 \<and> cap (rd_write r) = 0 \<or>
         (\<exists>i. data_ptr (rd_read r) = Ptr b i \<and> data_ptr (rd_write r) = Ptr b (i + cap (rd_read r)) \<and>
            i + cap (rd_read r) + cap (rd_write r) = cap (rd_buffer r))))"

lemma contents_in_block:
  "data_ptr w = Ptr b i \<Longrightarrow> blocks h b = Some bs \<Longrightarrow> i + cap w \<le> length bs \<Longrightarrow>
   buffer_contents h w = Inr (take (cap w) (drop i bs))"
  by (simp add: buffer_contents_def read_bytes_def)

lemma contents_empty: "cap w = 0 \<Longrightarrow> buffer_contents h w = Inr []"
  by (simp add: buffer_contents_def read_bytes_def)

lemma window_at:
  "data_ptr (rd_read r) = Ptr b i \<Longrightarrow> blocks (rd_heap r) b = Some bs \<Longrightarrow>
   i + cap (rd_read r) \<le> length bs \<Longrightarrow> window r = take (cap (rd_read r)) (drop i bs)"
  by (simp add: window_def contents_in_block)

lemma reader_ok_cases:
  assumes "reader_ok r"
  obtains (unread) b bs where "data_ptr (rd_buffer r) = Ptr b 0" "own_data (rd_buffer r)"
      "blocks (rd_heap r) b = Some bs" "length bs = cap (rd_buffer r)" "0 < cap (rd_buffer r)"
      "b < fresh (rd_heap r)" "data_ptr (rd_read r) = Null" "cap (rd_read r) = 0" "cap (rd_write r) = 0"
      "window r = []" "buffer_contents (rd_heap r) (rd_read r) = Inr []"
  | (windows) b bs i where "data_ptr (rd_buffer r) = Ptr b 0" "own_data (rd_buffer r)"
      "blocks (rd_heap r) b = Some bs" "length bs = cap (rd_buffer r)" "0 < cap (rd_buffer r)"
      "b < fresh (rd_heap r)" "data_ptr (rd_read r) = Ptr b i"
      "data_ptr (rd_write r) = Ptr b (i + cap (rd_read r))"
      "i + cap (rd_read r) + cap (rd_write r) = cap (rd_buffer r)"
      "window r = take (cap (rd_read r)) (drop i bs)"
      "buffer_contents (rd_heap r) (rd_read r) = Inr (window r)"
proof -
  from assms obtain b bs where b: "data_ptr (rd_buffer r) = Ptr b 0" "own_data (rd_buffer r)"
      "blocks (rd_heap r) b = Some bs" "length bs = cap (rd_buffer r)" "0 < cap (rd_buffer r)"
      "b < fresh (rd_heap r)"
    and w: "data_ptr (rd_read r) = Null \<and> cap (rd_read r) = 0 \<and> cap (rd_write r) = 0 \<or>
         (\<exists>i. data_ptr (rd_read r) = Ptr b i \<and> data_ptr (rd_write r) = Ptr b (i + cap (rd_read r)) \<and>
            i + cap (rd_read r) + cap (rd_write r) = cap (rd_buffer r))"
    unfolding reader_ok_def by blast
  from w show thesis
  proof
    assume "data_ptr (rd_read r) = Null \<and> cap (rd_read r) = 0 \<and> cap (rd_write r) = 0"
    with b contents_empty [of "rd_read r"] show thesis
      by (intro unread [of b bs]) (auto simp: window_def)
  next
    assume "\<exists>i. data_ptr (rd_read r) = Ptr b i \<and> data_ptr (rd_write r) = Ptr b (i + cap (rd_read r)) \<and>
            i + cap (rd_read r) + cap (rd_write r) = cap (rd_buffer r)"
    then obtain i where i: "data_ptr (rd_read r) = Ptr b i" "data_ptr (rd_write r) = Ptr b (i + cap (rd_read r))"
      "i + cap (rd_read r) + cap (rd_write r) = cap (rd_buffer r)" by blast
    have "buffer_contents (rd_heap r) (rd_read r) = Inr (take (cap (rd_read r)) (drop i bs))"
      using i b by (intro contents_in_block) auto
    with b i show thesis by (intro windows [of b bs i]) (auto simp: window_def)
  qed
qed

lemma reader_window:
  assumes "reader_ok r"
  shows "buffer_contents (rd_heap r) (rd_read r) = Inr (window r)" "length (window r) = cap (rd_read r)"
  using assms by (cases rule: reader_ok_cases; simp)+

lemma reader_ok_new:
  "0 < initial_read_buffer_size fl \<Longrightarrow> reader_ok (reader_new fl junk src h) \<and> window (reader_new fl junk src h) = []"
  by (auto simp: reader_ok_def reader_new_def buffer_alloc_def new_array_def buffer_default_def
      window_def contents_empty)

text \<open>Writing at the start of a block that is long enough.\<close>

lemma write_front:
  "blocks h b = Some bs \<Longrightarrow> length xs \<le> length bs \<Longrightarrow>
   write_bytes h (Ptr b 0) xs = Inr (h\<lparr>blocks := (blocks h)(b \<mapsto> xs @ drop (length xs) bs)\<rparr>)"
  by (cases h) (auto simp: write_bytes_def fun_upd_idem)

lemma realloc_buffers_ok:
  assumes "reader_ok r" "cap (rd_buffer r) < desired" "desired \<le> maximum_read_buffer_size fl"
    "maximum_read_buffer_size fl \<le> 2 ^ 63"
  shows "\<exists>r'. realloc_buffers fl junk desired r = (Inr (), r') \<and> reader_ok r' \<and> window r' = window r \<and>
    rd_source r' = rd_source r \<and> cap (rd_read r') = cap (rd_read r) \<and>
    desired \<le> cap (rd_read r') + cap (rd_write r') \<and> (\<exists>p. data_ptr (rd_write r') = p \<and> p \<noteq> Null)"
proof -
  let ?n = "cap (rd_read r)" and ?h = "rd_heap r"
  obtain b bs where b: "data_ptr (rd_buffer r) = Ptr b 0" "own_data (rd_buffer r)" "blocks ?h b = Some bs"
    "0 < cap (rd_buffer r)" "b < fresh ?h" "?n \<le> cap (rd_buffer r)"
    using assms(1) by (cases rule: reader_ok_cases) auto
  have c: "cap (rd_buffer r) < 2 ^ 63" using assms by linarith
  have "\<exists>m. grow_size 64 (cap (rd_buffer r) * 2 mod 2 ^ 64) desired = Some m \<and> desired \<le> m"
    using assms b(4) c by (intro grow_size_ok) auto
  then obtain m where m: "grow_size 64 (cap (rd_buffer r) * 2 mod 2 ^ 64) desired = Some m" "desired \<le> m" by blast
  let ?m = "min m (maximum_read_buffer_size fl)"
  have m': "desired \<le> ?m" using m assms by simp
  then have nm: "\<not> ?m < ?n" using b(6) assms(2) by linarith
  let ?new = "\<lparr>cap = ?m, data_ptr = Ptr (fresh ?h) 0, own_data = True\<rparr>"
  let ?j = "map junk [0..<?m]"
  let ?h1 = "?h\<lparr>blocks := (blocks ?h)(fresh ?h \<mapsto> ?j), fresh := Suc (fresh ?h)\<rparr>"
  let ?j' = "window r @ drop ?n ?j"
  let ?h2 = "?h1\<lparr>blocks := (blocks ?h1)(fresh ?h \<mapsto> ?j')\<rparr>"
  let ?h3 = "?h2\<lparr>blocks := (blocks ?h2)(b := None)\<rparr>"
  have win: "buffer_contents ?h1 (rd_read r) = Inr (window r)"
    using assms(1) by (cases rule: reader_ok_cases) (auto simp: contents_in_block contents_empty)
  have len: "length (window r) = ?n" using reader_window [OF assms(1)] by simp
  have copy: "buffer_copy_n (window r) ?n ?new ?h1 = Inr ?h2"
    using len b(6) m' assms(2) write_front [of ?h1 "fresh ?h" ?j "window r"]
    by (simp add: buffer_copy_n_def buffer_size_def)
  have trim: "trim_prefix ?new ?n = Inr \<lparr>cap = ?m - ?n, data_ptr = Ptr (fresh ?h) ?n, own_data = False\<rparr>"
    using nm by (simp add: trim_prefix_def buffer_wrap_def)
  have move: "move_assign (rd_buffer r) ?new ?h2 = Inr (?new, ?new\<lparr>own_data := False\<rparr>, ?h3)"
    using b by (simp add: move_assign_def delete_array_def)
  let ?r = "r\<lparr>rd_heap := ?h3, rd_buffer := ?new, rd_read := buffer_wrap (Ptr (fresh ?h) 0) ?n False,
    rd_write := \<lparr>cap = ?m - ?n, data_ptr = Ptr (fresh ?h) ?n, own_data = False\<rparr>\<rparr>"
  have "realloc_buffers fl junk desired r = (Inr (), ?r)"
    using assms(3) m win copy trim move
    by (simp add: realloc_buffers_def buffer_alloc_def new_array_def)
  moreover have new: "blocks ?h3 (fresh ?h) = Some ?j'" using b(5) by simp
  moreover have "reader_ok ?r"
    using new len b(6) m' assms(2) by (auto simp: reader_ok_def buffer_wrap_def)
  moreover have "window ?r = window r"
    using new len by (subst window_at [of ?r "fresh ?h" 0 ?j']) (simp_all add: buffer_wrap_def)
  ultimately show ?thesis
    using m' b(6) assms(2) by (intro exI [of _ ?r]) (auto simp: buffer_wrap_def)
qed

lemma adjust_buffers_ok:
  assumes "reader_ok r" "cap (rd_write r) < lim" "cap (rd_buffer r) + lim \<le> maximum_read_buffer_size fl"
    "maximum_read_buffer_size fl \<le> 2 ^ 63"
  shows "\<exists>r'. adjust_buffers fl junk lim r = (Inr (), r') \<and> reader_ok r' \<and> window r' = window r \<and>
    rd_source r' = rd_source r \<and> cap (rd_read r') = cap (rd_read r) \<and>
    lim \<le> cap (rd_write r') \<and> (\<exists>p. data_ptr (rd_write r') = p \<and> p \<noteq> Null)"
proof -
  let ?add = "lim - cap (rd_write r)"
  let ?n = "cap (rd_read r)"
  have realloc: ?thesis if "adjust_buffers fl junk lim r =
      realloc_buffers fl junk (cap (rd_buffer r) + ?add) r" "?n + cap (rd_write r) \<le> cap (rd_buffer r)"
    using realloc_buffers_ok [OF assms(1), of "cap (rd_buffer r) + ?add" fl junk] assms that by fastforce
  from assms(1) show ?thesis
  proof (cases rule: reader_ok_cases)
    case (unread b bs)
    with assms(2) show ?thesis
      by (intro realloc) (auto simp: adjust_buffers_def front_space_def Let_def)
  next
    case (windows b bs i)
    show ?thesis
    proof (cases "i < ?add")
      case True
      with windows assms(2) show ?thesis
        by (intro realloc) (auto simp: adjust_buffers_def front_space_def Let_def)
    next
      case False
      let ?bs = "window r @ drop ?n bs"
      let ?h = "(rd_heap r)\<lparr>blocks := (blocks (rd_heap r))(b \<mapsto> ?bs)\<rparr>"
      let ?r = "r\<lparr>rd_heap := ?h, rd_read := buffer_wrap (Ptr b 0) ?n False,
        rd_write := \<lparr>cap = cap (rd_buffer r) - ?n, data_ptr = Ptr b ?n, own_data = False\<rparr>\<rparr>"
      have len: "length (window r) = ?n" using reader_window [OF assms(1)] by simp
      have copy: "buffer_copy_n (window r) ?n (rd_buffer r) (rd_heap r) = Inr ?h"
        using windows(1-5,9) len write_front [of "rd_heap r" b bs "window r"]
        by (simp add: buffer_copy_n_def buffer_size_def)
      have "trim_prefix (rd_buffer r) ?n =
          Inr \<lparr>cap = cap (rd_buffer r) - ?n, data_ptr = Ptr b ?n, own_data = False\<rparr>"
        using windows(1,9) by (simp add: trim_prefix_def buffer_wrap_def)
      with copy windows(1,7,11) False assms(2) have "adjust_buffers fl junk lim r = (Inr (), ?r)"
        by (simp add: adjust_buffers_def front_space_def Let_def)
      moreover have "reader_ok ?r"
        using windows len by (auto simp: reader_ok_def buffer_wrap_def)
      moreover have "window ?r = window r"
        using len windows(4,9) by (subst window_at [of ?r b 0 ?bs]) (simp_all add: buffer_wrap_def)
      ultimately show ?thesis
        using False windows(9) by (intro exI [of _ ?r]) (auto simp: buffer_wrap_def)
    qed
  qed
qed

text \<open>There is room to read \<open>lim\<close> more bytes without growing beyond the limit.\<close>

definition has_room :: "reader_flags \<Rightarrow> nat \<Rightarrow> 's reader \<Rightarrow> bool" where
  "has_room fl lim r \<longleftrightarrow>
     maximum_read_buffer_size fl \<le> 2 ^ 63 \<and>
     (lim \<le> cap (rd_write r) \<or> cap (rd_buffer r) + lim \<le> maximum_read_buffer_size fl)"

lemma load_buffer_ok:
  assumes "reader_ok r" "has_room fl lim r" "0 < lim"
    "src_read S lim (rd_source r) = (Inr bytes, s')" "length bytes \<le> lim"
  shows "\<exists>r'. load_buffer S fl junk lim r = (Inr (), r') \<and> reader_ok r' \<and> window r' = window r @ bytes \<and>
    rd_source r' = s' \<and> has_room fl (lim - length bytes) r'"
proof -
  let ?adj = "if cap (rd_write r) < lim then adjust_buffers fl junk lim r else (Inr (), r)"
  have "\<exists>r1. ?adj = (Inr (), r1) \<and> reader_ok r1 \<and> window r1 = window r \<and> rd_source r1 = rd_source r \<and>
      lim \<le> cap (rd_write r1)"
    using adjust_buffers_ok [OF assms(1), of lim fl junk] assms(1,2)
    by (auto simp: has_room_def not_less)
  then obtain r1 where r1: "?adj = (Inr (), r1)" "reader_ok r1" "window r1 = window r"
    "rd_source r1 = rd_source r" "lim \<le> cap (rd_write r1)" by blast
  from r1(2) show ?thesis
  proof (cases rule: reader_ok_cases)
    case (unread b bs)
    with r1(5) assms(3) show ?thesis by simp
  next
    case (windows b bs i)
    let ?n = "cap (rd_read r1)" and ?k = "length bytes"
    let ?bs = "take (i + ?n) bs @ bytes @ drop (i + ?n + ?k) bs"
    let ?h = "(rd_heap r1)\<lparr>blocks := (blocks (rd_heap r1))(b \<mapsto> ?bs)\<rparr>"
    let ?r = "r1\<lparr>rd_source := s', rd_heap := ?h,
      rd_write := buffer_wrap (Ptr b (i + ?n + ?k)) (cap (rd_write r1) - ?k) False,
      rd_read := buffer_wrap (Ptr b i) (?n + ?k) False\<rparr>"
    have fits: "i + ?n + ?k \<le> length bs" "?k \<le> cap (rd_write r1)"
      using windows(4,9) r1(5) assms(5) by auto
    have "write_bytes (rd_heap r1) (Ptr b (i + ?n)) bytes = Inr ?h"
      using windows(3) fits by (cases "rd_heap r1") (auto simp: write_bytes_def fun_upd_idem)
    then have "load_buffer S fl junk lim r = (Inr (), ?r)"
      using r1(1,4) assms(4) windows(7,8) fits(2)
      by (simp add: load_buffer_def trim_prefix_def)
    moreover have "reader_ok ?r"
      using windows fits by (auto simp: reader_ok_def buffer_wrap_def)
    moreover have "window ?r = window r1 @ bytes"
    proof -
      have "take (?n + ?k) (drop i ?bs) = take ?n (drop i bs) @ bytes"
        using fits by (simp add: drop_take)
      with fits windows(10) show ?thesis
        by (subst window_at [of ?r b i ?bs]) (simp_all add: buffer_wrap_def)
    qed
    moreover have "has_room fl (lim - ?k) ?r"
      using assms(2) r1(5) by (auto simp: has_room_def buffer_wrap_def)
    ultimately show ?thesis using r1(3) by auto
  qed
qed

lemma take_result_ok:
  assumes "reader_ok r" "n \<le> cap (rd_read r)" "0 < n"
  shows "\<exists>w r'. take_result n r = (Inr w, r') \<and> reader_ok r' \<and> rd_source r' = rd_source r \<and>
    buffer_contents (rd_heap r') w = Inr (take n (window r)) \<and> window r' = drop n (window r)"
  using assms(1)
proof (cases rule: reader_ok_cases)
  case unread
  with assms(2,3) show ?thesis by simp
next
  case (windows b bs i)
  let ?w = "buffer_wrap (Ptr b i) n False"
  let ?r = "r\<lparr>rd_read := buffer_wrap (Ptr b (i + n)) (cap (rd_read r) - n) False\<rparr>"
  have "take_result n r = (Inr ?w, ?r)"
    using windows(7) assms(2) by (simp add: take_result_def trim_prefix_def)
  moreover have "reader_ok ?r"
    using windows assms(2) by (auto simp: reader_ok_def buffer_wrap_def)
  moreover have "buffer_contents (rd_heap r) ?w = Inr (take n (window r))"
    using windows assms(2,3) contents_in_block [of ?w b i "rd_heap r" bs]
    by (simp add: buffer_wrap_def min_def)
  moreover have "window ?r = drop n (window r)"
    using windows(3,4,9,10) assms(2)
    by (subst window_at [of ?r b "i + n" bs]) (simp_all add: buffer_wrap_def drop_take add.commute)
  ultimately show ?thesis by auto
qed

lemma window_index:
  assumes "reader_ok r" "i < cap (rd_read r)"
  shows "buffer_index (rd_heap r) (rd_read r) i = Inr (window r ! i)"
  using assms(1)
proof (cases rule: reader_ok_cases)
  case (windows b bs j)
  with assms(2) show ?thesis
    by (simp add: buffer_index_def read_byte_block)
qed (use assms(2) in simp)

section \<open>Reading up to a pattern\<close>

text \<open>
  What \<open>read_until\<close> means on a sequence of bytes: the number of bytes up to the end of the
  pattern. The scan does not go back: after a mismatch it continues behind the byte that did
  not match, with nothing matched.
\<close>

fun scan :: "byte list \<Rightarrow> nat \<Rightarrow> byte list \<Rightarrow> nat option" where
  "scan pat pos [] = None"
| "scan pat pos (x # xs) =
     (if x = pat ! pos
      then if Suc pos = length pat then Some 1 else map_option Suc (scan pat (Suc pos) xs)
      else map_option Suc (scan pat 0 xs))"

text \<open>A pattern whose start is repeated before it is missed.\<close>

lemma scan_no_restart: "scan [13, 10, 13, 10] 0 [13, 13, 10, 13, 10] = None"
  by simp

lemma scan_bounds: "scan pat pos xs = Some k \<Longrightarrow> 0 < k \<and> k \<le> length xs"
  by (induction pat pos xs arbitrary: k rule: scan.induct) (auto split: if_splits)

lemma scan_ends_in_pattern:
  "scan pat pos xs = Some k \<Longrightarrow> pos < length pat \<Longrightarrow> \<exists>u. take pos pat @ take k xs = u @ pat"
proof (induction pat pos xs arbitrary: k rule: scan.induct)
  case (2 pat pos x xs)
  have more: "take (Suc pos) pat = take pos pat @ [pat ! pos]"
    using "2.prems"(2) by (rule take_Suc_conv_app_nth)
  consider "x = pat ! pos" "Suc pos = length pat" "k = 1"
    | j where "x = pat ! pos" "Suc pos \<noteq> length pat" "k = Suc j" "scan pat (Suc pos) xs = Some j"
    | j where "x \<noteq> pat ! pos" "k = Suc j" "scan pat 0 xs = Some j"
    using "2.prems"(1) by (auto split: if_splits)
  then show ?case
  proof cases
    case 1
    with more show ?thesis by (intro exI [of _ "[]"]) simp
  next
    case 2
    with "2.IH"(1) [OF 2(1,2,4)] "2.prems"(2) more show ?thesis by auto
  next
    case 3
    with "2.IH"(2) [OF 3(1,3)] "2.prems"(2) obtain u where "take j xs = u @ pat" by auto
    with 3 show ?thesis by (intro exI [of _ "take pos pat @ [x] @ u"]) simp
  qed
qed simp

lemma read_until_loop_step:
  assumes "i < limit" "\<not> (cap (rd_read r) \<le> i \<and> \<not> reader_good S r)" "pos < length str"
    "(if cap (rd_read r) \<le> i then load_buffer S fl junk (limit - i) r else (Inr (), r)) = (Inr (), r1)"
    "buffer_index (rd_heap r1) (rd_read r1) i = Inr c"
  shows "read_until_loop S fl junk str limit i pos r =
    (if c = str ! pos
     then if pos + 1 = length str then take_result (i + 1) r1
          else read_until_loop S fl junk str limit (i + 1) (pos + 1) r1
     else read_until_loop S fl junk str limit (i + 1) 0 r1)"
  by (subst read_until_loop.simps)
    (simp only: assms if_False if_True not_True_eq_False not_False_eq_True prod.case sum.case)

text \<open>The bytes still to be read, and a reader that can read up to \<open>limit\<close> of them.\<close>

definition pending :: "('s \<Rightarrow> byte list) \<Rightarrow> 's reader \<Rightarrow> byte list" where
  "pending incoming r = window r @ incoming (rd_source r)"

definition ready :: "('s \<Rightarrow> bool) \<Rightarrow> reader_flags \<Rightarrow> nat \<Rightarrow> 's reader \<Rightarrow> bool" where
  "ready ok fl limit r \<longleftrightarrow> reader_ok r \<and> ok (rd_source r) \<and> has_room fl (limit - cap (rd_read r)) r"

text \<open>
  The contract of a source: as long as there is something to come it is good and a read
  returns at least one byte of it, in order.
\<close>

locale co_source =
  fixes S :: "'s source" and incoming :: "'s \<Rightarrow> byte list" and ok :: "'s \<Rightarrow> bool"
  assumes source_read: "ok s \<Longrightarrow> 0 < n \<Longrightarrow> incoming s \<noteq> [] \<Longrightarrow>
      \<exists>m s'. 0 < m \<and> m \<le> n \<and> m \<le> length (incoming s) \<and>
        src_read S n s = (Inr (take m (incoming s)), s') \<and> incoming s' = drop m (incoming s) \<and> ok s'"
    and source_good: "ok s \<Longrightarrow> incoming s \<noteq> [] \<Longrightarrow> src_good S s"
begin

text \<open>Loading a block moves bytes from the source to the window and changes nothing pending.\<close>

lemma load_more:
  assumes "ready ok fl limit r" "cap (rd_read r) < limit" "incoming (rd_source r) \<noteq> []"
  shows "\<exists>r'. load_buffer S fl junk (limit - cap (rd_read r)) r = (Inr (), r') \<and> ready ok fl limit r' \<and>
    pending incoming r' = pending incoming r \<and> cap (rd_read r) < cap (rd_read r')"
proof -
  let ?lim = "limit - cap (rd_read r)" and ?s = "rd_source r"
  from source_read [of ?s ?lim] assms obtain m s' where m: "0 < m" "m \<le> ?lim" "m \<le> length (incoming ?s)"
    "src_read S ?lim ?s = (Inr (take m (incoming ?s)), s')" "incoming s' = drop m (incoming ?s)" "ok s'"
    by (auto simp: ready_def)
  have r: "reader_ok r" "has_room fl ?lim r" using assms(1) by (auto simp: ready_def)
  have tk: "length (take m (incoming ?s)) = m" using m(3) by simp
  have "0 < ?lim" using assms(2) by simp
  from load_buffer_ok [OF r this m(4), of junk, unfolded tk, OF m(2)] obtain r' where
    r': "load_buffer S fl junk ?lim r = (Inr (), r')" "reader_ok r'" "window r' = window r @ take m (incoming ?s)"
    "rd_source r' = s'" "has_room fl (?lim - m) r'"
    by blast
  have len: "cap (rd_read r') = cap (rd_read r) + m"
    using reader_window(2) [OF r(1)] reader_window(2) [OF r'(2)] r'(3) m(3) by simp
  have "?lim - m = limit - cap (rd_read r')" using len by simp
  with r' m len show ?thesis by (auto simp: ready_def pending_def)
qed

lemma read_until_loop_scan:
  assumes "ready ok fl limit r" "scan pat pos (drop i (pending incoming r)) = Some k" "i + k \<le> limit"
    "pos < length pat" "i \<le> cap (rd_read r)"
  shows "\<exists>w r'. read_until_loop S fl junk pat limit i pos r = (Inr w, r') \<and>
    buffer_contents (rd_heap r') w = Inr (take (i + k) (pending incoming r)) \<and>
    pending incoming r' = drop (i + k) (pending incoming r) \<and> reader_ok r' \<and> ok (rd_source r')"
  using assms
proof (induction k arbitrary: i pos r)
  case 0
  with scan_bounds show ?case by blast
next
  case (Suc k)
  have lim: "i < limit" using Suc.prems(3) by simp
  have more: "i < length (pending incoming r)"
    using scan_bounds [OF Suc.prems(2)] by simp
  have len: "length (window r) = cap (rd_read r)"
    using Suc.prems(1) reader_window(2) by (auto simp: ready_def)
  have "\<exists>r1. (if cap (rd_read r) \<le> i then load_buffer S fl junk (limit - i) r else (Inr (), r)) = (Inr (), r1) \<and>
      ready ok fl limit r1 \<and> pending incoming r1 = pending incoming r \<and> i < cap (rd_read r1) \<and>
      \<not> (cap (rd_read r) \<le> i \<and> \<not> reader_good S r)"
  proof (cases "cap (rd_read r) \<le> i")
    case True
    with Suc.prems(5) have i: "cap (rd_read r) = i" by simp
    with more len have inc: "incoming (rd_source r) \<noteq> []" by (auto simp: pending_def)
    with load_more [OF Suc.prems(1), of junk] lim i source_good Suc.prems(1) show ?thesis
      by (fastforce simp: ready_def reader_good_def)
  next
    case False
    with Suc.prems(1) show ?thesis by auto
  qed
  then obtain r1 where
    r1: "(if cap (rd_read r) \<le> i then load_buffer S fl junk (limit - i) r else (Inr (), r)) = (Inr (), r1)"
    "ready ok fl limit r1" "pending incoming r1 = pending incoming r" "i < cap (rd_read r1)"
    "\<not> (cap (rd_read r) \<le> i \<and> \<not> reader_good S r)" by blast
  have ok1: "reader_ok r1" "ok (rd_source r1)" using r1(2) by (auto simp: ready_def)
  have len1: "length (window r1) = cap (rd_read r1)" using reader_window(2) [OF ok1(1)] .
  have idx: "buffer_index (rd_heap r1) (rd_read r1) i = Inr (pending incoming r ! i)"
  proof -
    have "pending incoming r1 ! i = window r1 ! i" using r1(4) len1 by (simp add: pending_def nth_append)
    with window_index [OF ok1(1) r1(4)] r1(3) show ?thesis by simp
  qed
  have drop: "drop i (pending incoming r) = pending incoming r ! i # drop (Suc i) (pending incoming r)"
    using more by (simp add: Cons_nth_drop_Suc)
  have step: "read_until_loop S fl junk pat limit i pos r =
      (if pending incoming r ! i = pat ! pos
       then if pos + 1 = length pat then take_result (i + 1) r1
            else read_until_loop S fl junk pat limit (i + 1) (pos + 1) r1
       else read_until_loop S fl junk pat limit (i + 1) 0 r1)"
    by (rule read_until_loop_step [OF lim r1(5) Suc.prems(4) r1(1) idx])
  have "0 < length pat" using Suc.prems(4) by linarith
  then have "pending incoming r ! i = pat ! pos \<and> Suc pos = length pat \<and> k = 0 \<or>
      (\<exists>pos'. read_until_loop S fl junk pat limit i pos r = read_until_loop S fl junk pat limit (i + 1) pos' r1 \<and>
         scan pat pos' (drop (Suc i) (pending incoming r1)) = Some k \<and> pos' < length pat)"
    using Suc.prems(2,4) step r1(3) unfolding drop
    by (cases "pending incoming r ! i = pat ! pos"; cases "Suc pos = length pat") auto
  then consider "pending incoming r ! i = pat ! pos" "Suc pos = length pat" "k = 0"
    | pos' where "read_until_loop S fl junk pat limit i pos r = read_until_loop S fl junk pat limit (i + 1) pos' r1"
        "scan pat pos' (drop (Suc i) (pending incoming r1)) = Some k" "pos' < length pat"
    by blast
  then show ?case
  proof cases
    case 1
    from take_result_ok [OF ok1(1), of "i + 1"] r1(4) obtain w r' where
      w: "take_result (i + 1) r1 = (Inr w, r')" "reader_ok r'" "rd_source r' = rd_source r1"
      "buffer_contents (rd_heap r') w = Inr (take (i + 1) (window r1))" "window r' = drop (i + 1) (window r1)" by auto
    have "take (i + 1) (pending incoming r1) = take (i + 1) (window r1)"
      "pending incoming r' = drop (i + 1) (pending incoming r1)"
      using r1(4) len1 w(3,5) by (simp_all add: pending_def)
    with 1 step w ok1 r1(3) show ?thesis by auto
  next
    case 2
    from Suc.IH [OF r1(2), of pos' "i + 1"] 2 Suc.prems(3) r1(3,4) show ?thesis by auto
  qed
qed

end

section \<open>Sockets as sources\<close>

definition socket_source :: "'k kernel \<Rightarrow> 'k sock source" where
  "socket_source K =
     \<lparr>src_read = (\<lambda>n s. case receive K False n s of None \<Rightarrow> (Inl Does_not_return, s) | Some a \<Rightarrow> a),
      src_good = is_open, src_eof = is_open\<rparr>"

sublocale recv_kernel \<subseteq> sock: co_source "socket_source K" "\<lambda>s. incoming (os s)" "\<lambda>s. socket_fd s = fd \<and> 0 < fd"
proof
  fix s :: "'k sock" and n :: nat
  assume ok: "socket_fd s = fd \<and> 0 < fd" and inc: "incoming (os s) \<noteq> []"
  then show "src_good (socket_source K) s" by (simp add: socket_source_def is_open_def)
  assume n: "0 < n"
  from do_recv_some [OF n _ inc] ok obtain m k' where m: "0 < m" "m \<le> n" "m \<le> length (incoming (os s))"
    "do_recv K n s = Some (Inr (take m (incoming (os s))), s\<lparr>os := k'\<rparr>)"
    "incoming k' = drop m (incoming (os s))" by auto
  have "src_read (socket_source K) n s = (Inr (take m (incoming (os s))), s\<lparr>os := k'\<rparr>)"
    using m(4) n ok by (simp add: socket_source_def receive_def is_open_def)
  with m ok show "\<exists>m s'. 0 < m \<and> m \<le> n \<and> m \<le> length (incoming (os s)) \<and>
      src_read (socket_source K) n s = (Inr (take m (incoming (os s))), s') \<and>
      incoming (os s') = drop m (incoming (os s)) \<and> (socket_fd s' = fd \<and> 0 < fd)"
    by (intro exI [of _ m] exI [of _ "s\<lparr>os := k'\<rparr>"]) simp
qed

text \<open>
  C9: reading up to a pattern gives the bytes of the stream up to the first place where the
  scan completes the pattern, and these end with the pattern; what is still to be read
  afterwards is exactly the rest of the stream. This holds however the source cuts the stream
  into blocks and wherever the reader has to move or enlarge its buffer on the way, for every
  source that keeps its contract and a pattern that is completed within the limit.
\<close>

theorem read_until_reads:
  assumes "co_source S incoming ok" "reader_ok r" "ok (rd_source r)" "pat \<noteq> []"
    and "scan pat 0 (pending incoming r) = Some k"
    and "k \<le> (if limit = 0 then read_block_size fl else limit)"
    and "has_room fl (if limit = 0 then read_block_size fl else limit) r"
  shows "\<exists>w r' u. read_until S fl junk pat limit r = (Inr w, r') \<and>
    buffer_contents (rd_heap r') w = Inr (take k (pending incoming r)) \<and>
    take k (pending incoming r) = u @ pat \<and>
    pending incoming r' = drop k (pending incoming r) \<and> reader_ok r' \<and> ok (rd_source r')"
proof -
  let ?l = "if limit = 0 then read_block_size fl else limit"
  have "ready ok fl ?l r"
    using assms(2,3,7) by (auto simp: ready_def has_room_def)
  from co_source.read_until_loop_scan [OF assms(1) this, of pat 0 0 k junk] scan_ends_in_pattern [OF assms(5)] assms(4-6)
  show ?thesis by (fastforce simp: read_until_def)
qed

theorem read_until_reads_witness:
  "\<exists>w r'. read_until (socket_source (pipe_kernel 9))
      \<lparr>initial_read_buffer_size = 2, maximum_read_buffer_size = 100, read_block_size = 20\<rparr> (\<lambda>i. 0) [13, 10] 0
      (reader_new \<lparr>initial_read_buffer_size = 2, maximum_read_buffer_size = 100, read_block_size = 20\<rparr> (\<lambda>i. 0)
        \<lparr>socket_fd = 3, os = \<lparr>p_errno = 0, p_sent = [], p_send_busy = 0,
          p_packets = [[7, 7, 13], [], [10, 8]], p_recv_busy = 2, p_descriptors = [3]\<rparr>\<rparr>
        \<lparr>blocks = Map.empty, fresh = 0\<rparr>) = (Inr w, r') \<and>
    buffer_contents (rd_heap r') w = Inr [7, 7, 13, 10] \<and>
    pending (\<lambda>s. concat (p_packets (os s))) r' = [8]"
proof -
  let ?fl = "\<lparr>initial_read_buffer_size = 2, maximum_read_buffer_size = 100, read_block_size = 20\<rparr>"
  let ?s = "\<lparr>socket_fd = 3, os = \<lparr>p_errno = 0, p_sent = [], p_send_busy = 0,
    p_packets = [[7, 7, 13], [], [10, 8 :: byte]], p_recv_busy = 2, p_descriptors = [3]\<rparr>\<rparr>"
  let ?r = "reader_new ?fl (\<lambda>i. 0) ?s \<lparr>blocks = Map.empty, fresh = 0\<rparr>"
  have r: "reader_ok ?r" "window ?r = []" using reader_ok_new [of ?fl "\<lambda>i. 0" ?s "\<lparr>blocks = Map.empty, fresh = 0\<rparr>"]
    by simp_all
  have fields: "rd_source ?r = ?s" "cap (rd_buffer ?r) = 2"
    by (simp_all add: reader_new_def buffer_alloc_def new_array_def)
  have p: "pending (\<lambda>s. concat (p_packets (os s))) ?r = [7, 7, 13, 10, 8]"
    using r(2) fields by (simp add: pending_def)
  have found: "scan [13, 10] 0 (pending (\<lambda>s. concat (p_packets (os s))) ?r) = Some 4"
    unfolding p by simp
  have room: "has_room ?fl (if 0 = (0::nat) then read_block_size ?fl else 0) ?r"
    using fields by (simp add: has_room_def)
  have open_socket: "socket_fd (rd_source ?r) = 3 \<and> 0 < (3 :: int)" using fields by simp
  from read_until_reads [OF pipe_stream.sock.co_source_axioms [of 9 3] r(1) open_socket _ found _ room, of "\<lambda>i. 0"]
  show ?thesis unfolding p by (auto simp: eval_nat_numeral)
qed

end
