(* ===== verification/Futures.thy ===== *)
theory Futures
  imports Prelude
begin

text \<open>
  Futures and promises, \<open>src/lw/co/future.h\<close>.

  A promise and its future share a state; here the shared states are a map from addresses. The
  scheduler of the awaiting thread is a parameter: \<open>sch\<close> is what \<open>schedule\<close> does with a
  suspended coroutine, on a state of any type. Coroutine handles have any type too.

  The first part takes every member function as one step, which is what a program on a single
  thread sees. There a promise with its future is a \<open>cell\<close>: written once, with at most one
  waiter, which is scheduled exactly when the cell is written. The second part splits the
  member functions into their accesses to the shared state, as two threads see them.
\<close>

section \<open>Shared states\<close>

record ('v, 'h) promise_state =
  state_set :: bool
  future_suspended :: bool
  state_exception :: "fault option"
  state_value :: "'v option"
  state_handle :: "'h option"
  chain_state :: "nat option"

record ('v, 'h, 'q) world =
  shared :: "nat \<rightharpoonup> ('v, 'h) promise_state"
  next_state :: nat
  sched :: 'q

record promise =
  future_obtained :: bool
  promise_addr :: "nat option"

definition new_state :: "('v, 'h) promise_state" where
  "new_state = \<lparr>state_set = False, future_suspended = False, state_exception = None,
     state_value = None, state_handle = None, chain_state = None\<rparr>"

text \<open>The end of the chain of a state; a chain that runs in a circle has none.\<close>

partial_function (option) chain_end ::
  "(nat \<rightharpoonup> ('v, 'h) promise_state) \<Rightarrow> nat \<Rightarrow> nat option" where
  "chain_end st a =
     (case st a of
        None \<Rightarrow> None
      | Some s \<Rightarrow> (case chain_state s of None \<Rightarrow> Some a | Some b \<Rightarrow> chain_end st b))"

section \<open>Promises\<close>

definition promise_new :: "('v, 'h, 'q) world \<Rightarrow> promise \<times> ('v, 'h, 'q) world" where
  "promise_new w =
     (\<lparr>future_obtained = False, promise_addr = Some (next_state w)\<rparr>,
      w\<lparr>shared := (shared w)(next_state w \<mapsto> new_state), next_state := Suc (next_state w)\<rparr>)"

text \<open>Move construction and assignment: the promise that takes over and what is left.\<close>

definition promise_move :: "promise \<Rightarrow> promise \<times> promise" where
  "promise_move other = (other, other\<lparr>promise_addr := None\<rparr>)"

definition get_future :: "promise \<Rightarrow> nat res \<times> promise" where
  "get_future p =
     (if future_obtained p then (Inl (Err FailedPrecondition), p)
      else case promise_addr p of
          None \<Rightarrow> (Inl Undefined_behaviour, p\<lparr>future_obtained := True\<rparr>)
        | Some a \<Rightarrow> (Inr a, p\<lparr>future_obtained := True\<rparr>))"

text \<open>
  \<open>_claim_state_set\<close>, then the write \<open>wr\<close> to the shared states, then \<open>_schedule_task\<close>.
\<close>

definition update_state ::
  "nat \<Rightarrow> (('v, 'h) promise_state \<Rightarrow> ('v, 'h) promise_state) \<Rightarrow>
   (nat \<rightharpoonup> ('v, 'h) promise_state) \<Rightarrow> (nat \<rightharpoonup> ('v, 'h) promise_state)" where
  "update_state a g st = (case st a of None \<Rightarrow> st | Some s \<Rightarrow> st(a \<mapsto> g s))"

definition schedule_task ::
  "('h \<Rightarrow> ('q, unit) prog) \<Rightarrow> nat \<Rightarrow> (('v, 'h, 'q) world, unit) prog" where
  "schedule_task sch a w =
     (case shared w a of
        None \<Rightarrow> (Inl Undefined_behaviour, w)
      | Some s \<Rightarrow>
          if future_suspended s then
            case state_handle s of
              None \<Rightarrow> (Inl Undefined_behaviour, w)
            | Some h \<Rightarrow> (case sch h (sched w) of (r, q) \<Rightarrow> (r, w\<lparr>sched := q\<rparr>))
          else (Inr (), w))"

definition claim_state_set :: "nat \<Rightarrow> (('v, 'h, 'q) world, unit) prog" where
  "claim_state_set a w =
     (case shared w a of
        None \<Rightarrow> (Inl Undefined_behaviour, w)
      | Some s \<Rightarrow>
          if state_set s then (Inl (Err FailedPrecondition), w)
          else (Inr (), w\<lparr>shared := update_state a (\<lambda>s. s\<lparr>state_set := True\<rparr>) (shared w)\<rparr>))"

definition set_state ::
  "('h \<Rightarrow> ('q, unit) prog) \<Rightarrow> promise \<Rightarrow>
   (nat \<Rightarrow> (nat \<rightharpoonup> ('v, 'h) promise_state) \<Rightarrow> (nat \<rightharpoonup> ('v, 'h) promise_state)) \<Rightarrow>
   (('v, 'h, 'q) world, unit) prog" where
  "set_state sch p wr w =
     (case promise_addr p of
        None \<Rightarrow> (Inl Undefined_behaviour, w)
      | Some a \<Rightarrow>
          (case chain_end (shared w) a of
             None \<Rightarrow> (Inl Does_not_return, w)
           | Some b \<Rightarrow>
               bind_prog (claim_state_set b)
                 (\<lambda>_. bind_prog (modify (\<lambda>w. w\<lparr>shared := wr b (shared w)\<rparr>)) (\<lambda>_. schedule_task sch b)) w))"

text \<open>
  The value is forwarded; \<open>leave\<close> is what that does to the states the value comes from:
  nothing for a value that is not in a shared state.
\<close>

definition do_set_value ::
  "('h \<Rightarrow> ('q, unit) prog) \<Rightarrow> promise \<Rightarrow> 'v \<Rightarrow>
   ((nat \<rightharpoonup> ('v, 'h) promise_state) \<Rightarrow> (nat \<rightharpoonup> ('v, 'h) promise_state)) \<Rightarrow>
   (('v, 'h, 'q) world, unit) prog" where
  "do_set_value sch p v leave =
     set_state sch p (\<lambda>b st. leave (update_state b (\<lambda>s. s\<lparr>state_value := Some v\<rparr>) st))"

definition set_value_of ::
  "('h \<Rightarrow> ('q, unit) prog) \<Rightarrow> promise \<Rightarrow> 'v \<Rightarrow> (('v, 'h, 'q) world, unit) prog" where
  "set_value_of sch p v = do_set_value sch p v id"

definition set_exception ::
  "('h \<Rightarrow> ('q, unit) prog) \<Rightarrow> promise \<Rightarrow> fault \<Rightarrow> (('v, 'h, 'q) world, unit) prog" where
  "set_exception sch p e =
     set_state sch p (\<lambda>b. update_state b (\<lambda>s. s\<lparr>state_exception := Some e\<rparr>))"

text \<open>
  \<open>return_value(Future<T>&&)\<close>: what the other future has, or a link to wait for it. A value
  that is moved out of a state leaves \<open>mv\<close> of it behind.
\<close>

definition return_future ::
  "('v \<Rightarrow> 'v) \<Rightarrow> ('h \<Rightarrow> ('q, unit) prog) \<Rightarrow> promise \<Rightarrow> nat \<Rightarrow> (('v, 'h, 'q) world, unit) prog" where
  "return_future mv sch p f w =
     (case shared w f of
        None \<Rightarrow> (Inl Undefined_behaviour, w)
      | Some s \<Rightarrow>
          if state_set s then
            case state_exception s of
              Some e \<Rightarrow> set_exception sch p e w
            | None \<Rightarrow>
                (case state_value s of
                   Some v \<Rightarrow>
                     do_set_value sch p v (update_state f (\<lambda>s. s\<lparr>state_value := Some (mv v)\<rparr>)) w
                 | None \<Rightarrow> (Inl Undefined_behaviour, w))
          else (Inr (), w\<lparr>shared := (shared w)(f \<mapsto> s\<lparr>chain_state := promise_addr p\<rparr>)\<rparr>))"

section \<open>Futures\<close>

definition await_ready :: "nat \<Rightarrow> (('v, 'h, 'q) world, bool) prog" where
  "await_ready f w =
     (case shared w f of None \<Rightarrow> (Inl Undefined_behaviour, w) | Some s \<Rightarrow> (Inr (state_set s), w))"

definition await_suspend :: "nat \<Rightarrow> 'h \<Rightarrow> (('v, 'h, 'q) world, bool) prog" where
  "await_suspend f h w =
     (case shared w f of
        None \<Rightarrow> (Inl Undefined_behaviour, w)
      | Some s \<Rightarrow>
          (Inr (\<not> state_set s),
           w\<lparr>shared := (shared w)(f \<mapsto>
               s\<lparr>state_handle := Some h, future_suspended := \<not> state_set s\<rparr>)\<rparr>))"

definition await_resume :: "('v \<Rightarrow> 'v) \<Rightarrow> nat \<Rightarrow> (('v, 'h, 'q) world, 'v) prog" where
  "await_resume mv f w =
     (case chain_end (shared w) f of
        None \<Rightarrow> (Inl Does_not_return, w)
      | Some a \<Rightarrow>
          (case shared w a of
             None \<Rightarrow> (Inl Undefined_behaviour, w)
           | Some s \<Rightarrow>
               if \<not> state_set s then (Inl (Err FailedPrecondition), w)
               else case state_exception s of
                   Some e \<Rightarrow> (Inl e, w)
                 | None \<Rightarrow>
                     (case state_value s of
                        Some v \<Rightarrow> (Inr v, w\<lparr>shared := (shared w)(a \<mapsto> s\<lparr>state_value := Some (mv v)\<rparr>)\<rparr>)
                      | None \<Rightarrow> (Inl Undefined_behaviour, w))))"

text \<open>\<open>make_resolved_future\<close>, with a value and with an exception.\<close>

definition make_resolved_future ::
  "('h \<Rightarrow> ('q, unit) prog) \<Rightarrow> 'v res \<Rightarrow> (('v, 'h, 'q) world, nat) prog" where
  "make_resolved_future sch out w =
     (case promise_new w of (p, w1) \<Rightarrow>
        (case (case out of Inr v \<Rightarrow> set_value_of sch p v w1 | Inl e \<Rightarrow> set_exception sch p e w1) of
           (Inl e, w2) \<Rightarrow> (Inl e, w2)
         | (Inr _, w2) \<Rightarrow> (fst (get_future p), w2)))"

section \<open>A promise is a cell that is written once\<close>

datatype ('v, 'h) cell = Empty "'h option" | Full "'v res"

datatype ('v, 'h) fop = Is_ready | Suspend 'h | Resume | Fulfil "'v res"
datatype 'v fanswer = A_bool "bool res" | A_value "'v res" | A_done "unit res"

fun cell_step ::
  "('v \<Rightarrow> 'v) \<Rightarrow> ('h \<Rightarrow> ('q, unit) prog) \<Rightarrow> ('v, 'h) fop \<Rightarrow> ('v, 'h) cell \<times> 'q \<Rightarrow>
   'v fanswer \<times> ('v, 'h) cell \<times> 'q" where
  "cell_step mv sch Is_ready (c, q) =
     (A_bool (Inr (case c of Full r \<Rightarrow> True | Empty w \<Rightarrow> False)), (c, q))"
| "cell_step mv sch (Suspend h) (Empty w, q) = (A_bool (Inr True), (Empty (Some h), q))"
| "cell_step mv sch (Suspend h) (Full r, q) = (A_bool (Inr False), (Full r, q))"
| "cell_step mv sch Resume (Empty w, q) = (A_value (Inl (Err FailedPrecondition)), (Empty w, q))"
| "cell_step mv sch Resume (Full r, q) = (A_value r, (Full (map_res mv r), q))"
| "cell_step mv sch (Fulfil out) (Full r, q) =
     (A_done (Inl (Err FailedPrecondition)), (Full r, q))"
| "cell_step mv sch (Fulfil out) (Empty None, q) = (A_done (Inr ()), (Full out, q))"
| "cell_step mv sch (Fulfil out) (Empty (Some h), q) =
     (A_done (fst (sch h q)), (Full out, snd (sch h q)))"

text \<open>
  The operations through a promise \<open>p\<close> and the future \<open>f\<close> that waits for it.
\<close>

fun future_step ::
  "('v \<Rightarrow> 'v) \<Rightarrow> ('h \<Rightarrow> ('q, unit) prog) \<Rightarrow> promise \<Rightarrow> nat \<Rightarrow> ('v, 'h) fop \<Rightarrow>
   ('v, 'h, 'q) world \<Rightarrow> 'v fanswer \<times> ('v, 'h, 'q) world" where
  "future_step mv sch p f Is_ready w = (case await_ready f w of (r, w') \<Rightarrow> (A_bool r, w'))"
| "future_step mv sch p f (Suspend h) w = (case await_suspend f h w of (r, w') \<Rightarrow> (A_bool r, w'))"
| "future_step mv sch p f Resume w = (case await_resume mv f w of (r, w') \<Rightarrow> (A_value r, w'))"
| "future_step mv sch p f (Fulfil (Inr v)) w =
     (case set_value_of sch p v w of (r, w') \<Rightarrow> (A_done r, w'))"
| "future_step mv sch p f (Fulfil (Inl e)) w =
     (case set_exception sch p e w of (r, w') \<Rightarrow> (A_done r, w'))"

definition cell_of :: "('v, 'h) promise_state \<Rightarrow> ('v, 'h) cell" where
  "cell_of s =
     (if state_set s then
        Full (case state_exception s of Some e \<Rightarrow> Inl e | None \<Rightarrow> Inr (the (state_value s)))
      else Empty (if future_suspended s then state_handle s else None))"

definition state_ok :: "('v, 'h) promise_state \<Rightarrow> bool" where
  "state_ok s \<longleftrightarrow>
     (state_set s \<longrightarrow> state_exception s \<noteq> None \<or> state_value s \<noteq> None) \<and>
     (\<not> state_set s \<longrightarrow> state_exception s = None \<and> state_value s = None) \<and>
     (future_suspended s \<longrightarrow> state_handle s \<noteq> None)"

text \<open>\<open>p\<close> is the promise that is followed to the state of \<open>f\<close>, directly or along a chain.\<close>

definition linked :: "promise \<Rightarrow> nat \<Rightarrow> ('v, 'h, 'q) world \<Rightarrow> bool" where
  "linked p f w \<longleftrightarrow>
     (\<exists>a s. promise_addr p = Some a \<and> chain_end (shared w) a = Some f \<and> chain_end (shared w) f = Some f \<and>
        shared w f = Some s \<and> state_ok s)"

definition cell_at :: "nat \<Rightarrow> ('v, 'h, 'q) world \<Rightarrow> ('v, 'h) cell \<times> 'q" where
  "cell_at f w = (cell_of (the (shared w f)), sched w)"

lemmas chain_end_induct = chain_end.raw_induct [rotated, consumes 1, case_names step]

text \<open>Updates that leave the chain links alone leave the ends of chains alone.\<close>

lemma chain_end_update:
  "chain_end st a = Some b \<Longrightarrow> st c = Some s \<Longrightarrow> chain_state s' = chain_state s \<Longrightarrow>
   chain_end (st(c \<mapsto> s')) a = Some b"
proof (induction st a b rule: chain_end_induct)
  case (step ce st a b)
  have IH: "chain_end (st(c \<mapsto> s')) x = Some y" if "ce st x = Some y" for x y
    using step.IH [OF that step.prems] .
  from step.hyps step.prems IH show ?case
    by (subst chain_end.simps) (auto split: option.splits)
qed

lemma chain_end_Some: "chain_end st a = Some b \<Longrightarrow> \<exists>s. st b = Some s \<and> chain_state s = None"
proof (induction st a b rule: chain_end_induct)
  case (step ce st a b)
  then show ?case by (auto split: option.splits)
qed

text \<open>One operation of the program is one operation of the cell.\<close>

lemma linkedE:
  assumes "linked p f w"
  obtains a s where "promise_addr p = Some a" "chain_end (shared w) a = Some f"
    "chain_end (shared w) f = Some f" "shared w f = Some s" "state_ok s" "chain_state s = None"
  using assms chain_end_Some unfolding linked_def by fastforce

lemma linked_update:
  assumes "linked p f w" "shared w f = Some s" "chain_state s' = chain_state s" "state_ok s'"
  shows "linked p f (w\<lparr>shared := (shared w)(f \<mapsto> s')\<rparr>)"
  using assms unfolding linked_def by (auto intro: chain_end_update)

lemma linked_sched [simp]: "linked p f (w\<lparr>sched := q\<rparr>) = linked p f w"
  by (simp add: linked_def)

lemma set_state_linked:
  assumes "linked p f w" "shared w f = Some s"
  shows "set_state sch p (\<lambda>b. update_state b g) w =
    (if state_set s then (Inl (Err FailedPrecondition), w)
     else schedule_task sch f (w\<lparr>shared := (shared w)(f \<mapsto> g (s\<lparr>state_set := True\<rparr>))\<rparr>))"
  using assms
  by (auto elim!: linkedE simp: set_state_def claim_state_set_def update_state_def bind_prog_def)

lemma fulfil_simulates:
  assumes ok: "linked p f w" and s: "shared w f = Some s"
    and g: "cell_of (g (s\<lparr>state_set := True\<rparr>)) = Full out" "state_ok (g (s\<lparr>state_set := True\<rparr>))"
      "chain_state (g (s\<lparr>state_set := True\<rparr>)) = chain_state s"
      "future_suspended (g (s\<lparr>state_set := True\<rparr>)) = future_suspended s"
      "state_handle (g (s\<lparr>state_set := True\<rparr>)) = state_handle s"
  shows "\<exists>w'. (case set_state sch p (\<lambda>b. update_state b g) w of (r, w') \<Rightarrow> (A_done r, w')) =
      (fst (cell_step mv sch (Fulfil out) (cell_at f w)), w') \<and>
    cell_at f w' = snd (cell_step mv sch (Fulfil out) (cell_at f w)) \<and> linked p f w'"
proof (cases "state_set s")
  case True
  with ok s show ?thesis
    by (auto simp: set_state_linked cell_at_def cell_of_def split: option.splits)
next
  case False
  let ?w = "w\<lparr>shared := (shared w)(f \<mapsto> g (s\<lparr>state_set := True\<rparr>))\<rparr>"
  have l: "linked p f ?w" using linked_update [OF ok s g(3) g(2)] .
  have "state_ok s" using ok s by (auto elim: linkedE)
  with False l s g set_state_linked [OF ok s, of sch g] show ?thesis
    by (auto simp: schedule_task_def cell_at_def cell_of_def [of s] state_ok_def split: prod.splits)
qed

lemma future_simulates:
  assumes ok: "linked p f w"
  shows "\<exists>w'. future_step mv sch p f x w = (fst (cell_step mv sch x (cell_at f w)), w') \<and>
    cell_at f w' = snd (cell_step mv sch x (cell_at f w)) \<and> linked p f w'"
proof -
  obtain s where s: "shared w f = Some s" "state_ok s" "chain_state s = None"
      "chain_end (shared w) f = Some f"
    using ok by (auto elim: linkedE)
  note upd = linked_update [OF ok s(1)]
  show ?thesis
  proof (cases x)
    case Is_ready
    with s ok show ?thesis by (auto simp: await_ready_def cell_at_def cell_of_def split: option.splits)
  next
    case (Suspend h)
    have "linked p f (snd (await_suspend f h w))"
      using s upd by (simp add: await_suspend_def state_ok_def)
    with Suspend s show ?thesis
      by (cases "state_set s")
        (auto simp: await_suspend_def cell_at_def cell_of_def split: option.splits)
  next
    case Resume
    show ?thesis
    proof (cases "state_set s \<and> state_exception s = None")
      case True
      with s obtain v where v: "state_value s = Some v" by (auto simp: state_ok_def)
      have "linked p f (w\<lparr>shared := (shared w)(f \<mapsto> s\<lparr>state_value := Some (mv v)\<rparr>)\<rparr>)"
        using s True upd by (simp add: state_ok_def)
      with Resume True s v show ?thesis
        by (simp add: await_resume_def cell_at_def cell_of_def)
    next
      case False
      with Resume s ok show ?thesis
        by (auto simp: await_resume_def cell_at_def cell_of_def)
    qed
  next
    case (Fulfil out)
    show ?thesis
    proof (cases "state_set s")
      case True
      with Fulfil s ok show ?thesis
        by (cases out)
          (auto simp: set_exception_def set_value_of_def do_set_value_def set_state_linked
            cell_at_def cell_of_def split: option.splits)
    next
      case False
      with Fulfil s fulfil_simulates [OF ok s(1), of _ out sch mv] show ?thesis
        by (cases out)
          (auto simp: set_exception_def set_value_of_def do_set_value_def cell_of_def state_ok_def)
    qed
  qed
qed

interpretation future_cell: simulation "future_step mv sch p f" "cell_step mv sch" "cell_at f" "linked p f"
  by unfold_locales (rule future_simulates)

text \<open>
  C6: a new promise and the future obtained from it are a cell. Whatever sequence of
  \<open>await_ready\<close>, \<open>await_suspend\<close>, \<open>await_resume\<close>, \<open>set_value\<close> and \<open>set_exception\<close> a thread runs
  on them, each call answers what the cell answers: the outcome is accepted once, later ones
  are refused with \<open>FailedPrecondition\<close>, as is reading before there is one, and what the
  scheduler was asked to run is the waiter at the moment of the write, once.
\<close>

theorem promise_is_cell:
  "case promise_new w of (p, w1) \<Rightarrow>
     (case get_future p of
        (Inl e, p') \<Rightarrow> False
      | (Inr f, p') \<Rightarrow>
          (case run_ops (future_step mv sch p' f) xs w1 of (answers, w2) \<Rightarrow>
             (answers, cell_at f w2) = run_ops (cell_step mv sch) xs (Empty None, sched w)) \<and>
          fst (get_future p') = Inl (Err FailedPrecondition))"
proof -
  let ?f = "next_state w"
  let ?p = "\<lparr>future_obtained = True, promise_addr = Some ?f\<rparr>"
  let ?w = "snd (promise_new w)"
  have "linked ?p ?f ?w"
    by (simp add: linked_def promise_new_def new_state_def state_ok_def chain_end.simps)
  moreover have "cell_at ?f ?w = (Empty None, sched w)"
    by (simp add: cell_at_def promise_new_def new_state_def cell_of_def)
  ultimately show ?thesis
    using future_cell.run_simulates [of ?p ?f ?w mv sch xs]
    by (auto simp: promise_new_def get_future_def split: prod.splits)
qed

text \<open>A promise whose future was returned from a coroutine fulfils the coroutine's promise.\<close>

lemma chain_end_relink:
  "chain_end st b = Some g \<Longrightarrow> st f = Some s \<Longrightarrow> chain_state s = None \<Longrightarrow> g \<noteq> f \<Longrightarrow>
   chain_end (st(f \<mapsto> s')) b = Some g"
proof (induction st b g rule: chain_end_induct)
  case (step ce st b g)
  have IH: "chain_end (st(f \<mapsto> s')) x = Some g" if "ce st x = Some g" for x
    using step.IH [OF that step.prems] .
  from step.hyps step.prems IH show ?case
    by (subst chain_end.simps) (auto split: option.splits)
qed

lemma chain_end_link:
  "chain_end st a = Some f \<Longrightarrow> st' = st(f \<mapsto> s') \<Longrightarrow> chain_state s' = Some b \<Longrightarrow>
   chain_end st' b = Some g \<Longrightarrow> chain_end st' a = Some g"
proof (induction st a f rule: chain_end_induct)
  case (step ce st a f)
  have IH: "chain_end st' x = Some g" if "ce st x = Some f" for x
    using step.IH [OF that step.prems] .
  have "st' a = (if a = f then Some s' else st a)" using step.prems(1) by simp
  with step.hyps step.prems(2,3) IH show ?case
    by (subst chain_end.simps) (auto split: option.splits if_splits)
qed

text \<open>
  A coroutine that returns a pending future hands its own promise over. After
  \<open>return_value\<close> the promise behind the returned future is a cell together with the future of
  the coroutine: every sequence of operations on the two is answered as by that cell, so the
  coroutine's waiter is scheduled when the inner promise is fulfilled and reads its value.
\<close>

theorem returned_future_is_cell:
  assumes inner: "linked p f w" and outer: "linked p' f' w" and "f \<noteq> f'"
    and pending: "fst (await_ready f w) = Inr False"
  shows "case return_future mv sch p' f w of (r, w1) \<Rightarrow> r = Inr () \<and>
    (case run_ops (future_step mv sch p f') xs w1 of (answers, w2) \<Rightarrow>
       (answers, cell_at f' w2) = run_ops (cell_step mv sch) xs (cell_at f' w))"
proof -
  obtain a s where a: "promise_addr p = Some a" "chain_end (shared w) a = Some f"
      "shared w f = Some s" "chain_state s = None"
    using inner by (rule linkedE)
  obtain b t where b: "promise_addr p' = Some b" "chain_end (shared w) b = Some f'"
      "chain_end (shared w) f' = Some f'" "shared w f' = Some t" "state_ok t"
    using outer by (rule linkedE)
  define w1 where "w1 = w\<lparr>shared := (shared w)(f \<mapsto> s\<lparr>chain_state := Some b\<rparr>)\<rparr>"
  have "chain_end (shared w1) f' = Some f'" "chain_end (shared w1) b = Some f'"
    using a(3,4) b(2,3) \<open>f \<noteq> f'\<close> by (auto simp: w1_def intro: chain_end_relink)
  moreover from this(2) have "chain_end (shared w1) a = Some f'"
    using a(2) by (auto simp: w1_def intro: chain_end_link)
  ultimately have "linked p f' w1" and at: "cell_at f' w1 = cell_at f' w"
    using a(1) b(4,5) \<open>f \<noteq> f'\<close> by (auto simp: w1_def linked_def cell_at_def)
  moreover have "return_future mv sch p' f w = (Inr (), w1)"
    using pending a(3) b(1) by (auto simp: return_future_def await_ready_def w1_def)
  ultimately show ?thesis
    using future_cell.run_simulates [of p f' w1 mv sch xs] by (auto split: prod.splits)
qed

theorem returned_future_is_cell_witness:
  "let st = [0 \<mapsto> new_state, 1 \<mapsto> (new_state :: (nat, nat) promise_state)];
       w = \<lparr>shared = st, next_state = 2, sched = ([] :: nat list)\<rparr>;
       sch = (\<lambda>h q. (Inr (), q @ [h]));
       p = \<lparr>future_obtained = True, promise_addr = Some 0\<rparr>;
       p' = \<lparr>future_obtained = True, promise_addr = Some 1\<rparr>;
       (r, w1) = return_future id sch p' 0 w;
       (answers, w2) = run_ops (future_step id sch p 1) [Suspend 7, Fulfil (Inr 5), Resume] w1
   in r = Inr () \<and> answers = [A_bool (Inr True), A_done (Inr ()), A_value (Inr 5)] \<and> sched w2 = [7]"
proof -
  define w :: "(nat, nat, nat list) world" where
    "w = \<lparr>shared = [0 \<mapsto> new_state, 1 \<mapsto> new_state], next_state = 2, sched = []\<rparr>"
  let ?sch = "\<lambda>h q. (Inr (), q @ [h])"
  have "linked \<lparr>future_obtained = True, promise_addr = Some 0\<rparr> 0 w"
    "linked \<lparr>future_obtained = True, promise_addr = Some 1\<rparr> 1 w"
    "fst (await_ready 0 w) = Inr False"
    by (simp_all add: w_def linked_def new_state_def state_ok_def chain_end.simps await_ready_def)
  note cell = returned_future_is_cell [OF this(1,2) _ this(3), of id ?sch
      "[Suspend 7, Fulfil (Inr 5), Resume]"]
  have "cell_at 1 w = (Empty None, [])"
    by (simp add: w_def cell_at_def cell_of_def new_state_def)
  with cell show ?thesis
    unfolding w_def by (auto simp: Let_def cell_at_def split: prod.splits)
qed

section \<open>Two threads\<close>

text \<open>
  The accesses of \<open>set_value\<close> on one thread and of \<open>co_await\<close> on another, each access a step of
  its own: the setter claims the flag, writes the value and looks for a waiter; the awaiter
  reads the flag (\<open>await_ready\<close>), stores its handle, reads the flag again, stores the negation
  in \<open>future_suspended\<close> and either stays suspended until it is scheduled or goes on to
  \<open>await_resume\<close>. \<open>woken\<close> counts the schedulings that have not been run yet.
\<close>

datatype setter = Claim | Write | Look | Set | Refused
datatype 'v awaiter = Ready | Arm | Test | Store bool | Suspended | Take | Awaited "'v res"

record ('v, 'h) handoff =
  shared_st :: "('v, 'h) promise_state"
  setter :: setter
  awaiter :: "'v awaiter"
  woken :: nat

definition handoff_start :: "('v, 'h) handoff" where
  "handoff_start = \<lparr>shared_st = new_state, setter = Claim, awaiter = Ready, woken = 0\<rparr>"

definition take_outcome :: "('v, 'h) promise_state \<Rightarrow> 'v res" where
  "take_outcome s =
     (if \<not> state_set s then Inl (Err FailedPrecondition)
      else case state_exception s of
          Some e \<Rightarrow> Inl e
        | None \<Rightarrow> (case state_value s of Some v \<Rightarrow> Inr v | None \<Rightarrow> Inl Undefined_behaviour))"

inductive handoff_step :: "'v \<Rightarrow> 'h \<Rightarrow> ('v, 'h) handoff \<Rightarrow> ('v, 'h) handoff \<Rightarrow> bool"
  for v :: 'v and h :: 'h where
  claim: "setter c = Claim \<Longrightarrow> handoff_step v h c
    (if state_set (shared_st c) then c\<lparr>setter := Refused\<rparr>
     else c\<lparr>shared_st := (shared_st c)\<lparr>state_set := True\<rparr>, setter := Write\<rparr>)"
| store_value: "setter c = Write \<Longrightarrow> handoff_step v h c
    (c\<lparr>shared_st := (shared_st c)\<lparr>state_value := Some v\<rparr>, setter := Look\<rparr>)"
| look: "setter c = Look \<Longrightarrow> handoff_step v h c
    (c\<lparr>setter := Set, woken := (if future_suspended (shared_st c) then Suc (woken c) else woken c)\<rparr>)"
| ready: "awaiter c = Ready \<Longrightarrow> handoff_step v h c
    (c\<lparr>awaiter := (if state_set (shared_st c) then Take else Arm)\<rparr>)"
| arm: "awaiter c = Arm \<Longrightarrow> handoff_step v h c
    (c\<lparr>shared_st := (shared_st c)\<lparr>state_handle := Some h\<rparr>, awaiter := Test\<rparr>)"
| test: "awaiter c = Test \<Longrightarrow> handoff_step v h c (c\<lparr>awaiter := Store (\<not> state_set (shared_st c))\<rparr>)"
| store: "awaiter c = Store b \<Longrightarrow> handoff_step v h c
    (c\<lparr>shared_st := (shared_st c)\<lparr>future_suspended := b\<rparr>, awaiter := (if b then Suspended else Take)\<rparr>)"
| resume: "awaiter c = Suspended \<Longrightarrow> 0 < woken c \<Longrightarrow> handoff_step v h c
    (c\<lparr>awaiter := Take, woken := woken c - 1\<rparr>)"
| take: "awaiter c = Take \<Longrightarrow> handoff_step v h c (c\<lparr>awaiter := Awaited (take_outcome (shared_st c))\<rparr>)"

definition handoff_ok :: "'v \<Rightarrow> 'h \<Rightarrow> ('v, 'h) handoff \<Rightarrow> bool" where
  "handoff_ok v h c \<longleftrightarrow>
     (let s = shared_st c; armed = (future_suspended s \<longrightarrow> setter c = Set)
      in setter c \<noteq> Refused \<and> state_exception s = None \<and> state_set s = (setter c \<noteq> Claim) \<and>
         state_value s = (if setter c = Look \<or> setter c = Set then Some v else None) \<and>
         (case awaiter c of
            Ready \<Rightarrow> \<not> future_suspended s \<and> woken c = 0
          | Arm \<Rightarrow> \<not> future_suspended s \<and> woken c = 0
          | Test \<Rightarrow> \<not> future_suspended s \<and> woken c = 0 \<and> state_handle s = Some h
          | Store b \<Rightarrow> \<not> future_suspended s \<and> woken c = 0 \<and> state_handle s = Some h \<and> (b \<or> state_set s)
          | Suspended \<Rightarrow> future_suspended s \<and> state_handle s = Some h \<and>
              (woken c = 0 \<or> woken c = 1 \<and> setter c = Set)
          | Take \<Rightarrow> woken c = 0 \<and> state_set s \<and> armed
          | Awaited r \<Rightarrow> woken c = 0 \<and> state_set s \<and> armed \<and>
              r \<in> {Inr v} \<union> (if future_suspended s then {} else {Inl Undefined_behaviour})))"

lemma handoff_step_ok: "handoff_step v h c c' \<Longrightarrow> handoff_ok v h c \<Longrightarrow> handoff_ok v h c'"
proof (induction rule: handoff_step.induct)
  case (claim c)
  then show ?case by (simp add: handoff_ok_def Let_def split: awaiter.splits if_splits) blast
next
  case (store_value c)
  then show ?case by (simp add: handoff_ok_def Let_def split: awaiter.splits if_splits) blast
next
  case (look c)
  then show ?case by (simp add: handoff_ok_def Let_def split: awaiter.splits if_splits) blast
qed (auto simp: handoff_ok_def Let_def take_outcome_def split: if_splits)

lemma handoff_reach_ok:
  "(handoff_step v h)\<^sup>*\<^sup>* handoff_start c \<Longrightarrow> handoff_ok v h c"
  by (induction rule: rtranclp_induct)
    (simp_all add: handoff_step_ok, simp add: handoff_ok_def handoff_start_def new_state_def)

text \<open>Every step takes one of the threads forward.\<close>

primrec setter_left :: "setter \<Rightarrow> nat" where
  "setter_left Claim = 3" | "setter_left Write = 2" | "setter_left Look = 1"
| "setter_left Set = 0" | "setter_left Refused = 0"

primrec awaiter_left :: "'v awaiter \<Rightarrow> nat" where
  "awaiter_left Ready = 6" | "awaiter_left Arm = 5" | "awaiter_left Test = 4"
| "awaiter_left (Store b) = 3" | "awaiter_left Suspended = 2" | "awaiter_left Take = 1"
| "awaiter_left (Awaited r) = 0"

definition steps_left :: "('v, 'h) handoff \<Rightarrow> nat" where
  "steps_left c = setter_left (setter c) + awaiter_left (awaiter c)"

lemma handoff_step_left: "handoff_step v h c c' \<Longrightarrow> steps_left c' < steps_left c"
  by (induction rule: handoff_step.induct) (auto simp: steps_left_def)

lemma handoff_steps_left: "(handoff_step v h ^^ n) c c' \<Longrightarrow> n + steps_left c' \<le> steps_left c"
  by (induction n arbitrary: c') (auto dest!: handoff_step_left, fastforce)

text \<open>
  The same steps as functions, one per thread, and a run under a given order of the threads
  (\<open>True\<close> for the setter).
\<close>

definition setter_move :: "'v \<Rightarrow> ('v, 'h) handoff \<Rightarrow> ('v, 'h) handoff option" where
  "setter_move v c =
     (case setter c of
        Claim \<Rightarrow> Some (if state_set (shared_st c) then c\<lparr>setter := Refused\<rparr>
          else c\<lparr>shared_st := (shared_st c)\<lparr>state_set := True\<rparr>, setter := Write\<rparr>)
      | Write \<Rightarrow> Some (c\<lparr>shared_st := (shared_st c)\<lparr>state_value := Some v\<rparr>, setter := Look\<rparr>)
      | Look \<Rightarrow> Some (c\<lparr>setter := Set,
          woken := (if future_suspended (shared_st c) then Suc (woken c) else woken c)\<rparr>)
      | _ \<Rightarrow> None)"

definition awaiter_move :: "'h \<Rightarrow> ('v, 'h) handoff \<Rightarrow> ('v, 'h) handoff option" where
  "awaiter_move h c =
     (case awaiter c of
        Ready \<Rightarrow> Some (c\<lparr>awaiter := (if state_set (shared_st c) then Take else Arm)\<rparr>)
      | Arm \<Rightarrow> Some (c\<lparr>shared_st := (shared_st c)\<lparr>state_handle := Some h\<rparr>, awaiter := Test\<rparr>)
      | Test \<Rightarrow> Some (c\<lparr>awaiter := Store (\<not> state_set (shared_st c))\<rparr>)
      | Store b \<Rightarrow> Some (c\<lparr>shared_st := (shared_st c)\<lparr>future_suspended := b\<rparr>,
          awaiter := (if b then Suspended else Take)\<rparr>)
      | Suspended \<Rightarrow> (if 0 < woken c then Some (c\<lparr>awaiter := Take, woken := woken c - 1\<rparr>) else None)
      | Take \<Rightarrow> Some (c\<lparr>awaiter := Awaited (take_outcome (shared_st c))\<rparr>)
      | Awaited r \<Rightarrow> None)"

lemma handoff_step_iff:
  "handoff_step v h c c' \<longleftrightarrow> setter_move v c = Some c' \<or> awaiter_move h c = Some c'"
proof
  show "handoff_step v h c c' \<Longrightarrow> setter_move v c = Some c' \<or> awaiter_move h c = Some c'"
    by (induction rule: handoff_step.induct) (auto simp: setter_move_def awaiter_move_def)
  show "setter_move v c = Some c' \<or> awaiter_move h c = Some c' \<Longrightarrow> handoff_step v h c c'"
    by (auto simp: setter_move_def awaiter_move_def handoff_step.simps
        split: setter.splits awaiter.splits if_splits)
qed

lemma handoff_stuck:
  "(\<nexists>c'. handoff_step v h c c') \<longleftrightarrow> setter c \<in> {Set, Refused} \<and>
    (awaiter c = Suspended \<and> woken c = 0 \<or> (\<exists>r. awaiter c = Awaited r))"
  by (auto simp: handoff_step_iff setter_move_def awaiter_move_def
      split: setter.splits awaiter.splits)

primrec handoff_run ::
  "'v \<Rightarrow> 'h \<Rightarrow> bool list \<Rightarrow> ('v, 'h) handoff \<Rightarrow> ('v, 'h) handoff option" where
  "handoff_run v h [] c = Some c"
| "handoff_run v h (b # bs) c =
     Option.bind (if b then setter_move v c else awaiter_move h c) (handoff_run v h bs)"

lemma handoff_run_steps:
  "handoff_run v h bs c = Some c' \<Longrightarrow> (handoff_step v h ^^ length bs) c c'"
proof (induction bs arbitrary: c)
  case (Cons b bs)
  then obtain c1 where "handoff_step v h c c1" "handoff_run v h bs c1 = Some c'"
    by (auto simp: bind_eq_Some_conv handoff_step_iff split: if_splits)
  with Cons.IH show ?case using relpowp_Suc_I2 [of "handoff_step v h"] by (metis length_Cons)
qed auto

lemmas handoff_eval = setter_move_def awaiter_move_def handoff_start_def new_state_def take_outcome_def

text \<open>
  C21: however the accesses of \<open>set_value\<close> and \<open>co_await\<close> on two threads interleave, the two
  come to rest within nine steps; the promise is never refused; the waiting coroutine is
  scheduled at most once, only while it is suspended and only when the value is there to be
  taken, so one that was suspended and resumed has the value; and once neither thread can move
  the setter has returned and the awaiter has an outcome or is suspended.
\<close>

theorem handoff_outcomes:
  assumes "(handoff_step v h ^^ n) handoff_start c"
  shows "n \<le> 9 \<and> setter c \<noteq> Refused \<and> woken c \<le> 1 \<and>
    (0 < woken c \<longrightarrow> awaiter c = Suspended \<and> state_handle (shared_st c) = Some h \<and>
       take_outcome (shared_st c) = Inr v) \<and>
    (\<forall>r. awaiter c = Awaited r \<and> future_suspended (shared_st c) \<longrightarrow> r = Inr v) \<and>
    ((\<nexists>c'. handoff_step v h c c') \<longrightarrow> setter c = Set \<and>
       (awaiter c = Suspended \<and> woken c = 0 \<or> (\<exists>r. awaiter c = Awaited r)))"
proof -
  have "n \<le> 9"
    using handoff_steps_left [OF assms] by (simp add: steps_left_def handoff_start_def)
  moreover have "handoff_ok v h c"
    using handoff_reach_ok relpowp_imp_rtranclp [OF assms] by metis
  then have "setter c \<noteq> Refused" "woken c \<le> 1"
    "0 < woken c \<longrightarrow> awaiter c = Suspended \<and> state_handle (shared_st c) = Some h \<and>
       take_outcome (shared_st c) = Inr v"
    "\<forall>r. awaiter c = Awaited r \<and> future_suspended (shared_st c) \<longrightarrow> r = Inr v"
    by (auto simp: handoff_ok_def Let_def take_outcome_def split: awaiter.splits)
  ultimately show ?thesis using handoff_stuck [of v h c] by auto
qed

theorem handoff_outcomes_witness:
  "\<exists>c. (handoff_step (5 :: nat) (7 :: nat) ^^ 9) handoff_start c \<and> awaiter c = Awaited (Inr 5)"
proof -
  define bs where "bs = [False, False, False, False, True, True, True, False, False]"
  have bs: "length bs = 9" by (simp add: bs_def)
  obtain c where c: "handoff_run (5 :: nat) (7 :: nat) bs handoff_start = Some c"
      "awaiter c = Awaited (take_outcome (shared_st c))" "future_suspended (shared_st c)"
    by (simp add: handoff_eval bs_def)
  have step: "(handoff_step 5 7 ^^ 9) handoff_start c"
    using handoff_run_steps [OF c(1)] unfolding bs .
  have "\<forall>r. awaiter c = Awaited r \<and> future_suspended (shared_st c) \<longrightarrow> r = Inr 5"
    using handoff_outcomes [OF step] by (elim conjE)
  with c(2,3) step show ?thesis by metis
qed

text \<open>
  Two orders of the accesses break the hand-over. When the value is set between the
  awaiter's second look at the flag and its store of \<open>future_suspended\<close>, both threads come to
  rest with the value there and the coroutine suspended with nobody to schedule it. When the
  awaiter looks between the claim and the write of the value, it goes on to read a value that
  is not there.
\<close>

theorem handoff_races:
  "(\<exists>c. (handoff_step v h)\<^sup>*\<^sup>* handoff_start c \<and> (\<nexists>c'. handoff_step v h c c') \<and>
      take_outcome (shared_st c) = Inr v \<and> awaiter c = Suspended) \<and>
   (\<exists>c. (handoff_step v h)\<^sup>*\<^sup>* handoff_start c \<and> awaiter c = Awaited (Inl Undefined_behaviour))"
proof
  obtain c where c: "handoff_run v h [False, False, False, True, True, True, False] handoff_start = Some c"
      "setter_move v c = None" "awaiter_move h c = None"
      "take_outcome (shared_st c) = Inr v" "awaiter c = Suspended"
    by (simp add: handoff_eval)
  then show "\<exists>c. (handoff_step v h)\<^sup>*\<^sup>* handoff_start c \<and> (\<nexists>c'. handoff_step v h c c') \<and>
      take_outcome (shared_st c) = Inr v \<and> awaiter c = Suspended"
    using relpowp_imp_rtranclp [OF handoff_run_steps [OF c(1)]] by (auto simp: handoff_step_iff)
next
  obtain c where c: "handoff_run v h [True, False, False] handoff_start = Some c"
      "awaiter c = Awaited (Inl Undefined_behaviour)"
    by (simp add: handoff_eval)
  then show "\<exists>c. (handoff_step v h)\<^sup>*\<^sup>* handoff_start c \<and> awaiter c = Awaited (Inl Undefined_behaviour)"
    using relpowp_imp_rtranclp [OF handoff_run_steps [OF c(1)]] by blast
qed

end
