(* ===== verification/Circular_Queue.thy ===== *)
theory Circular_Queue
  imports Prelude
begin

text \<open>
  The circular queue (\<open>src/lw/memory/circular_queue.h\<close>): a fixed number of slots, the
  position where the next element is written (\<open>head\<close>), the position of the oldest one
  (\<open>tail\<close>) and the number of elements.

  The vector is only reserved, never resized; the model takes the reserved storage as the
  array of slots it is used as, a slot is \<open>None\<close> as long as nothing has been moved into it.
  Taking an index modulo a capacity of zero is undefined behaviour.

  The locale \<open>bounded_queue\<close> is what a client of the queue relies on: a first-in first-out
  sequence with a bound. It proves that any sequence of operations gives the answers of the
  abstract queue; the circular queue is an instance of it.
\<close>

section \<open>The queue\<close>

record 'a circular_queue =
  cq_size :: nat
  cq_capacity :: nat
  cq_buffer :: "'a option list"
  cq_head :: nat
  cq_tail :: nat

definition queue_new :: "nat \<Rightarrow> 'a circular_queue" where
  "queue_new capacity = \<lparr>cq_size = 0, cq_capacity = capacity,
     cq_buffer = replicate capacity None, cq_head = 0, cq_tail = 0\<rparr>"

definition queue_empty :: "'a circular_queue \<Rightarrow> bool" where
  "queue_empty q \<longleftrightarrow> cq_size q = 0"

definition queue_full :: "'a circular_queue \<Rightarrow> bool" where
  "queue_full q \<longleftrightarrow> cq_size q = cq_capacity q"

definition next_index :: "'a circular_queue \<Rightarrow> nat \<Rightarrow> nat res" where
  "next_index q idx = (if cq_capacity q = 0 then Inl Undefined_behaviour
     else Inr ((idx + 1) mod cq_capacity q))"

definition pop_front :: "('a circular_queue, 'a) prog" where
  "pop_front q =
     (if queue_empty q then (Inl (Err FailedPrecondition), q)
      else case next_index q (cq_tail q) of
          Inl f \<Rightarrow> (Inl f, q)
        | Inr t \<Rightarrow>
            (case cq_buffer q ! cq_tail q of
               None \<Rightarrow> (Inl Undefined_behaviour, q)
             | Some v \<Rightarrow> (Inr v, q\<lparr>cq_tail := t, cq_size := cq_size q - 1,
                 cq_buffer := (cq_buffer q)[cq_tail q := None]\<rparr>)))"

definition try_push_back :: "'a \<Rightarrow> ('a circular_queue, bool) prog" where
  "try_push_back v q =
     (if queue_full q then (Inr False, q)
      else case next_index q (cq_head q) of
          Inl f \<Rightarrow> (Inl f, q)
        | Inr h \<Rightarrow> (Inr True, q\<lparr>cq_head := h, cq_buffer := (cq_buffer q)[cq_head q := Some v],
            cq_size := cq_size q + 1\<rparr>))"

definition push_back :: "'a \<Rightarrow> ('a circular_queue, unit) prog" where
  "push_back v q = (case try_push_back v q of
       (Inr True, q') \<Rightarrow> (Inr (), q')
     | (Inr False, q') \<Rightarrow> (Inl (Err ResourceExhausted), q')
     | (Inl f, q') \<Rightarrow> (Inl f, q'))"

text \<open>
  The move constructor and the move assignment: the new queue and what is left of the old
  one. Neither of them touches a \<open>_size\<close>: it keeps the value it has, which is 0 in a queue
  under construction.
\<close>

definition moved_from :: "'a circular_queue \<Rightarrow> 'a circular_queue" where
  "moved_from q = q\<lparr>cq_capacity := 0, cq_buffer := [], cq_head := 0, cq_tail := 0\<rparr>"

definition queue_move :: "'a circular_queue \<Rightarrow> 'a circular_queue \<times> 'a circular_queue" where
  "queue_move other = (\<lparr>cq_size = 0, cq_capacity = cq_capacity other, cq_buffer = cq_buffer other,
     cq_head = cq_head other, cq_tail = cq_tail other\<rparr>, moved_from other)"

definition queue_move_assign ::
    "'a circular_queue \<Rightarrow> 'a circular_queue \<Rightarrow> 'a circular_queue \<times> 'a circular_queue" where
  "queue_move_assign q other = (q\<lparr>cq_capacity := cq_capacity other, cq_buffer := cq_buffer other,
     cq_head := cq_head other, cq_tail := cq_tail other\<rparr>, moved_from other)"

section \<open>The interface: a bounded first-in first-out queue\<close>

datatype 'a queue_op = Push 'a | Pop
datatype 'a queue_answer = Pushed "bool res" | Popped "'a res"

text \<open>The abstract queue: a list with a bound.\<close>

fun list_step :: "nat \<Rightarrow> 'a queue_op \<Rightarrow> 'a list \<Rightarrow> 'a queue_answer \<times> 'a list" where
  "list_step cap (Push v) xs =
     (if length xs = cap then (Pushed (Inr False), xs) else (Pushed (Inr True), xs @ [v]))"
| "list_step cap Pop [] = (Popped (Inl (Err FailedPrecondition)), [])"
| "list_step cap Pop (x # xs) = (Popped (Inr x), xs)"

locale bounded_queue =
  fixes push :: "'a \<Rightarrow> 'q \<Rightarrow> bool res \<times> 'q"
    and pop :: "'q \<Rightarrow> 'a res \<times> 'q"
    and contents :: "'q \<Rightarrow> 'a list"
    and bound :: "'q \<Rightarrow> nat"
    and invar :: "'q \<Rightarrow> bool"
  assumes push_full: "invar q \<Longrightarrow> length (contents q) = bound q \<Longrightarrow> push v q = (Inr False, q)"
    and push_room: "invar q \<Longrightarrow> length (contents q) \<noteq> bound q \<Longrightarrow>
      \<exists>q'. push v q = (Inr True, q') \<and> invar q' \<and> contents q' = contents q @ [v] \<and> bound q' = bound q"
    and pop_none: "invar q \<Longrightarrow> contents q = [] \<Longrightarrow> pop q = (Inl (Err FailedPrecondition), q)"
    and pop_some: "invar q \<Longrightarrow> contents q = x # xs \<Longrightarrow>
      \<exists>q'. pop q = (Inr x, q') \<and> invar q' \<and> contents q' = xs \<and> bound q' = bound q"
    and bounded: "invar q \<Longrightarrow> length (contents q) \<le> bound q"
begin

definition op_step :: "'a queue_op \<Rightarrow> 'q \<Rightarrow> 'a queue_answer \<times> 'q" where
  "op_step oper q = (case oper of
       Push v \<Rightarrow> (case push v q of (r, q') \<Rightarrow> (Pushed r, q'))
     | Pop \<Rightarrow> (case pop q of (r, q') \<Rightarrow> (Popped r, q')))"

lemma step_simulates:
  assumes "invar q"
  shows "\<exists>q'. op_step oper q = (fst (list_step (bound q) oper (contents q)), q') \<and> invar q' \<and>
    contents q' = snd (list_step (bound q) oper (contents q)) \<and> bound q' = bound q"
proof (cases oper)
  case (Push v)
  then show ?thesis
    using push_full [OF assms, of v] push_room [OF assms, of v] assms by (auto simp: op_step_def)
next
  case Pop
  then show ?thesis
    using pop_none [OF assms] pop_some [OF assms] assms
    by (cases "contents q") (auto simp: op_step_def)
qed

lemma ops_simulate:
  "invar q \<Longrightarrow> \<exists>q'. run_ops op_step ops q = (fst (run_ops (list_step (bound q)) ops (contents q)), q') \<and>
     invar q' \<and> contents q' = snd (run_ops (list_step (bound q)) ops (contents q)) \<and> bound q' = bound q"
proof (induction ops arbitrary: q)
  case (Cons oper ops)
  obtain q1 where q1: "op_step oper q = (fst (list_step (bound q) oper (contents q)), q1)" "invar q1"
    "contents q1 = snd (list_step (bound q) oper (contents q))" "bound q1 = bound q"
    using step_simulates [OF Cons.prems] by blast
  with Cons.IH [OF q1(2)] show ?case by (auto simp: case_prod_unfold Let_def)
qed auto

end

section \<open>The circular queue is one\<close>

definition slot :: "'a circular_queue \<Rightarrow> nat \<Rightarrow> nat" where
  "slot q i = (cq_tail q + i) mod cq_capacity q"

definition queue_contents :: "'a circular_queue \<Rightarrow> 'a list" where
  "queue_contents q = map (\<lambda>i. the (cq_buffer q ! slot q i)) [0 ..< cq_size q]"

definition queue_ok :: "'a circular_queue \<Rightarrow> bool" where
  "queue_ok q \<longleftrightarrow> length (cq_buffer q) = cq_capacity q \<and> cq_size q \<le> cq_capacity q \<and>
     (0 < cq_capacity q \<longrightarrow> cq_tail q < cq_capacity q \<and> cq_head q = slot q (cq_size q)) \<and>
     (\<forall>i < cq_size q. cq_buffer q ! slot q i \<noteq> None)"

lemma length_contents [simp]: "length (queue_contents q) = cq_size q"
  by (simp add: queue_contents_def)

lemma contents_nth: "i < cq_size q \<Longrightarrow> queue_contents q ! i = the (cq_buffer q ! slot q i)"
  by (simp add: queue_contents_def)

lemma slot_less: "0 < cq_capacity q \<Longrightarrow> slot q i < cq_capacity q"
  by (simp add: slot_def)

lemma slot_distinct:
  assumes "i \<le> j" "j < cq_capacity q" "slot q i = slot q j"
  shows "i = j"
proof -
  have "cq_tail q + j = cq_tail q + i + (j - i)" using assms(1) by simp
  then have "(j - i) mod cq_capacity q = 0"
    using assms(3) unfolding slot_def
    by (metis add_diff_cancel_left' mod_eq_dvd_iff_nat dvd_imp_mod_0 le_add1)
  then show ?thesis using assms(1,2) by simp
qed

lemma push_room_circular:
  assumes ok: "queue_ok q" and room: "cq_size q \<noteq> cq_capacity q"
  shows "\<exists>q'. try_push_back v q = (Inr True, q') \<and> queue_ok q' \<and>
    queue_contents q' = queue_contents q @ [v] \<and> cq_capacity q' = cq_capacity q"
proof -
  let ?n = "cq_size q" and ?h = "cq_head q"
  have lt: "?n < cq_capacity q" and pos: "0 < cq_capacity q" using ok room by (auto simp: queue_ok_def)
  define q' where "q' = q\<lparr>cq_head := (?h + 1) mod cq_capacity q,
    cq_buffer := (cq_buffer q)[?h := Some v], cq_size := ?n + 1\<rparr>"
  have push: "try_push_back v q = (Inr True, q')"
    using room pos by (simp add: try_push_back_def queue_full_def next_index_def q'_def)
  have h: "?h = slot q ?n" "?h < length (cq_buffer q)"
    using ok pos slot_less [OF pos] by (auto simp: queue_ok_def)
  have slots: "slot q' i = slot q i" for i by (simp add: slot_def q'_def)
  have new: "cq_buffer q' = (cq_buffer q)[?h := Some v]" "cq_size q' = Suc ?n" by (simp_all add: q'_def)
  have other: "slot q i \<noteq> ?h" if "i < ?n" for i
    using slot_distinct [of i ?n q] that lt h by auto
  have cell: "cq_buffer q' ! slot q' i = (if i = ?n then Some v else cq_buffer q ! slot q i)" if "i \<le> ?n" for i
    unfolding slots new using that h other [of i] by auto
  have "queue_ok q'"
    unfolding queue_ok_def
  proof (intro conjI impI allI)
    show "cq_head q' = slot q' (cq_size q')"
      by (simp add: h slot_def q'_def mod_Suc_eq)
    show "cq_buffer q' ! slot q' i \<noteq> None" if "i < cq_size q'" for i
      using that ok cell [of i] by (auto simp: q'_def queue_ok_def)
  qed (use ok lt pos in \<open>auto simp: q'_def queue_ok_def\<close>)
  moreover have "queue_contents q' = queue_contents q @ [v]"
    by (rule nth_equalityI) (auto simp: contents_nth cell nth_append new(2) less_Suc_eq)
  ultimately show ?thesis using push by (auto simp: q'_def)
qed

lemma pop_some_circular:
  assumes ok: "queue_ok q" and some: "queue_contents q = x # xs"
  shows "\<exists>q'. pop_front q = (Inr x, q') \<and> queue_ok q' \<and> queue_contents q' = xs \<and>
    cq_capacity q' = cq_capacity q"
proof -
  let ?n = "cq_size q" and ?t = "cq_tail q"
  have n: "0 < ?n" using some length_contents [of q] by simp
  then have pos: "0 < cq_capacity q" using ok by (auto simp: queue_ok_def)
  have t: "slot q 0 = ?t" "?t < length (cq_buffer q)"
    using ok pos by (auto simp: slot_def queue_ok_def)
  have first: "cq_buffer q ! ?t = Some x"
    using ok n t(1) contents_nth [OF n] some unfolding queue_ok_def by (metis nth_Cons_0 option.collapse)
  define q' where "q' = q\<lparr>cq_tail := (?t + 1) mod cq_capacity q, cq_size := ?n - 1,
    cq_buffer := (cq_buffer q)[?t := None]\<rparr>"
  have pop: "pop_front q = (Inr x, q')"
    using n pos first by (simp add: pop_front_def queue_empty_def next_index_def q'_def)
  have slots: "slot q' i = slot q (Suc i)" for i
    by (simp add: slot_def q'_def mod_simps)
  have new: "cq_buffer q' = (cq_buffer q)[?t := None]" "cq_size q' = ?n - 1" by (simp_all add: q'_def)
  have le: "?n \<le> cq_capacity q" using ok by (simp add: queue_ok_def)
  have other: "slot q (Suc i) \<noteq> ?t" if "Suc i < ?n" for i
    using slot_distinct [of 0 "Suc i" q] that le t(1) by auto
  have cell: "cq_buffer q' ! slot q' i = cq_buffer q ! slot q (Suc i)" if "Suc i < ?n" for i
    unfolding slots new using other [OF that] by simp
  have "queue_ok q'"
    unfolding queue_ok_def
  proof (intro conjI impI allI)
    show "cq_head q' = slot q' (cq_size q')"
      using ok n pos by (simp add: slots new(2)) (simp add: q'_def queue_ok_def)
    show "cq_buffer q' ! slot q' i \<noteq> None" if "i < cq_size q'" for i
      using that ok cell [of i] by (simp add: new(2) queue_ok_def)
  qed (use ok pos in \<open>auto simp: q'_def queue_ok_def\<close>)
  moreover have "queue_contents q' = xs"
  proof (rule nth_equalityI)
    show len: "length (queue_contents q') = length xs"
      using some length_contents [of q] by (simp add: new(2))
    show "queue_contents q' ! i = xs ! i" if "i < length (queue_contents q')" for i
    proof -
      have i: "Suc i < ?n" using that by (simp add: new(2))
      have "queue_contents q' ! i = the (cq_buffer q ! slot q (Suc i))"
        using that cell [OF i] by (simp add: contents_nth)
      also have "\<dots> = queue_contents q ! Suc i" using i by (simp add: contents_nth)
      finally show ?thesis using some by simp
    qed
  qed
  ultimately show ?thesis using pop by (auto simp: q'_def)
qed

interpretation cq: bounded_queue try_push_back pop_front queue_contents cq_capacity queue_ok
proof unfold_locales
  fix q :: "'a circular_queue" and v x :: 'a and xs
  assume ok: "queue_ok q"
  show "length (queue_contents q) = cq_capacity q \<Longrightarrow> try_push_back v q = (Inr False, q)"
    by (simp add: try_push_back_def queue_full_def)
  show "length (queue_contents q) \<noteq> cq_capacity q \<Longrightarrow> \<exists>q'. try_push_back v q = (Inr True, q') \<and> queue_ok q' \<and>
      queue_contents q' = queue_contents q @ [v] \<and> cq_capacity q' = cq_capacity q"
    using push_room_circular [OF ok] by simp
  show "queue_contents q = [] \<Longrightarrow> pop_front q = (Inl (Err FailedPrecondition), q)"
    using length_contents [of q] by (simp add: pop_front_def queue_empty_def)
  show "queue_contents q = x # xs \<Longrightarrow> \<exists>q'. pop_front q = (Inr x, q') \<and> queue_ok q' \<and>
      queue_contents q' = xs \<and> cq_capacity q' = cq_capacity q"
    using pop_some_circular [OF ok] by simp
  show "length (queue_contents q) \<le> cq_capacity q" using ok by (simp add: queue_ok_def)
qed

section \<open>Properties\<close>

lemma queue_new_ok: "queue_ok (queue_new n)" "queue_contents (queue_new n) = []" "cq_capacity (queue_new n) = n"
  by (auto simp: queue_ok_def queue_new_def queue_contents_def slot_def)


text \<open>
  Moving a queue loses its elements: the queue constructed from a well-formed queue has
  the slots but a size of 0, so it reads as empty, and a pop of what is left of the old one,
  which still counts its elements, reaches undefined behaviour.
\<close>

theorem queue_move_loses:
  assumes "queue_ok q" "queue_contents q \<noteq> []"
  shows "queue_contents (fst (queue_move q)) = [] \<and> fst (pop_front (fst (queue_move q))) = Inl (Err FailedPrecondition) \<and>
    fst (pop_front (snd (queue_move q))) = Inl Undefined_behaviour"
proof -
  have "cq_size q \<noteq> 0" using assms(2) length_contents [of q] by (cases "queue_contents q") auto
  then show ?thesis
    by (simp add: queue_move_def moved_from_def queue_contents_def pop_front_def queue_empty_def next_index_def)
qed

lemma queue_move_loses_witness:
  "queue_contents (snd (try_push_back (7 :: nat) (queue_new 2))) = [7] \<and>
   queue_contents (fst (queue_move (snd (try_push_back (7 :: nat) (queue_new 2))))) = []"
proof -
  obtain q where q: "try_push_back (7 :: nat) (queue_new 2) = (Inr True, q)" "queue_ok q" "queue_contents q = [7]"
    using push_room_circular [OF queue_new_ok(1) [of 2], of "7 :: nat"] queue_new_ok(2) [of 2]
    by (auto simp: queue_new_def)
  then show ?thesis using queue_move_loses [of q] by simp
qed

end
