(* ===== verification/Scheduler.thy ===== *)
theory Scheduler
  imports System_Errors Circular_Queue "HOL-Library.AList"
begin

text \<open>
  The event loop: \<open>src/lw/co/events.h\<close>, \<open>src/lw/co/systems/epoll.h\<close> and \<open>epoll.cpp\<close>,
  \<open>src/lw/co/scheduler.h\<close> and \<open>scheduler.cpp\<close>, \<open>src/lw/co/time.cpp\<close>.

  The kernel is a parameter, the record \<open>poll_kernel\<close> of the calls the code makes on a state
  of any type; \<open>p_wait\<close> answers \<open>None\<close> when it blocks for ever. Coroutines are a parameter
  too: \<open>resume h\<close> is what happens to the scheduler and to the rest of the program, the field
  \<open>the_rest\<close>, when \<open>h\<close> is resumed until it suspends again. A coroutine calls the operations
  below; nothing else is assumed of it but what the predicates \<open>keeps_work\<close> and \<open>only_adds\<close>
  say.

  The callbacks of the loop are the two the library makes: resuming a coroutine and draining
  the queue.
\<close>

unbundle bit_operations_syntax

section \<open>Events\<close>

type_synonym event = "16 word"

abbreviation READABLE :: event where "READABLE \<equiv> 1"
abbreviation WRITABLE :: event where "WRITABLE \<equiv> 2"
abbreviation READ_CLOSED :: event where "READ_CLOSED \<equiv> 4"
abbreviation PEER_CLOSED :: event where "PEER_CLOSED \<equiv> 8"
abbreviation POLLPRI :: event where "POLLPRI \<equiv> 16"
abbreviation ERROR :: event where "ERROR \<equiv> 32"
abbreviation EDGE_TRIGGER :: event where "EDGE_TRIGGER \<equiv> 64"
abbreviation ONE_SHOT :: event where "ONE_SHOT \<equiv> 128"
abbreviation WAKE_UP :: event where "WAKE_UP \<equiv> 256"
abbreviation EXCLUSIVE :: event where "EXCLUSIVE \<equiv> 512"

definition event_or :: "event \<Rightarrow> event \<Rightarrow> event" where "event_or lhs rhs = lhs OR rhs"
definition event_plus :: "event \<Rightarrow> event \<Rightarrow> event" where "event_plus lhs rhs = lhs OR rhs"
definition event_minus :: "event \<Rightarrow> event \<Rightarrow> event" where "event_minus lhs rhs = lhs AND NOT rhs"
definition event_and :: "event \<Rightarrow> event \<Rightarrow> bool" where "event_and lhs rhs \<longleftrightarrow> lhs AND rhs \<noteq> 0"

text \<open>The bits of \<open><sys/epoll.h>\<close>.\<close>

definition epoll_bits :: "(event \<times> 32 word) list" where
  "epoll_bits =
     [(READABLE, 0x001), (WRITABLE, 0x004), (READ_CLOSED, 0x2000), (PEER_CLOSED, 0x010),
      (POLLPRI, 0x002), (ERROR, 0x008), (EDGE_TRIGGER, 0x80000000), (ONE_SHOT, 0x40000000),
      (WAKE_UP, 0x20000000), (EXCLUSIVE, 0x10000000)]"

definition co_event_to_epoll_event :: "event \<Rightarrow> 32 word" where
  "co_event_to_epoll_event events =
     fold (\<lambda>(e, bit) ret. if event_and events e then ret OR bit else ret) epoll_bits 0"

section \<open>The poller\<close>

record 'k poll_kernel =
  p_errno :: "'k \<Rightarrow> int"
  p_create :: "'k \<Rightarrow> int \<times> 'k"
  p_add :: "int \<Rightarrow> int \<Rightarrow> 32 word \<Rightarrow> 'k \<Rightarrow> int \<times> 'k"
  p_del :: "int \<Rightarrow> int \<Rightarrow> 'k \<Rightarrow> int \<times> 'k"
  p_wait :: "int \<Rightarrow> nat \<Rightarrow> int \<Rightarrow> 'k \<Rightarrow> (int \<times> int list) option \<times> 'k"
  p_eventfd :: "'k \<Rightarrow> int \<times> 'k"
  p_read8 :: "int \<Rightarrow> 'k \<Rightarrow> int \<times> 'k"
  p_write8 :: "int \<Rightarrow> int \<Rightarrow> 'k \<Rightarrow> int \<times> 'k"
  p_timerfd :: "bool \<Rightarrow> 'k \<Rightarrow> int \<times> 'k"
  p_settime :: "int \<Rightarrow> int \<times> int \<Rightarrow> 'k \<Rightarrow> int \<times> 'k"
  p_close :: "int \<Rightarrow> 'k \<Rightarrow> 'k"

record ('c, 'k) poll =
  epoll_fd :: int
  callbacks :: "(int \<times> 'c \<times> bool) list"
  pk :: 'k

definition epoll_new :: "'k poll_kernel \<Rightarrow> 'k \<Rightarrow> ('c, 'k) poll res \<times> 'k" where
  "epoll_new K k =
     (case p_create K k of (fd, k') \<Rightarrow>
        if fd \<le> 0 then (Inl (system_failure (p_errno K k')), k')
        else (Inr \<lparr>epoll_fd = fd, callbacks = [], pk = k'\<rparr>, k'))"

definition epoll_destroy :: "'k poll_kernel \<Rightarrow> ('c, 'k, 'm) poll_scheme \<Rightarrow> 'k" where
  "epoll_destroy K s = (if 0 < epoll_fd s then p_close K (epoll_fd s) (pk s) else pk s)"

definition has_pending_items :: "('c, 'k, 'm) poll_scheme \<Rightarrow> bool" where
  "has_pending_items s \<longleftrightarrow> callbacks s \<noteq> []"

definition epoll_add ::
  "'k poll_kernel \<Rightarrow> int \<Rightarrow> event \<Rightarrow> 'c \<Rightarrow> (('c, 'k, 'm) poll_scheme, unit) prog" where
  "epoll_add K fd events callback s =
     (if map_of (callbacks s) fd \<noteq> None then (Inl (Err AlreadyExists), s)
      else case p_add K (epoll_fd s) fd (co_event_to_epoll_event events) (pk s) of (r, k) \<Rightarrow>
        if r \<noteq> 0 then (Inl (system_failure (p_errno K k)), s\<lparr>pk := k\<rparr>)
        else (Inr (), s\<lparr>pk := k,
          callbacks := (fd, callback, event_and events ONE_SHOT) # callbacks s\<rparr>))"

definition epoll_remove :: "'k poll_kernel \<Rightarrow> int \<Rightarrow> (('c, 'k, 'm) poll_scheme, unit) prog" where
  "epoll_remove K fd s =
     (if map_of (callbacks s) fd = None then (Inl (Err FailedPrecondition), s)
      else case p_del K (epoll_fd s) fd (pk s) of (r, k) \<Rightarrow>
        (if r \<noteq> 0 then Inl (system_failure (p_errno K k)) else Inr (),
         s\<lparr>pk := k, callbacks := AList.delete fd (callbacks s)\<rparr>))"

text \<open>Every exception out of a callback becomes an \<open>Internal\<close> error.\<close>

definition callback_fault :: "fault \<Rightarrow> fault" where
  "callback_fault f =
     (if f \<in> {Undefined_behaviour, Does_not_return, Terminates} then f else Err Internal)"

definition fire ::
  "'k poll_kernel \<Rightarrow> ('c \<Rightarrow> (('c, 'k, 'm) poll_scheme, unit) prog) \<Rightarrow> int \<Rightarrow>
   (('c, 'k, 'm) poll_scheme, unit) prog" where
  "fire K call fd s =
     (case map_of (callbacks s) fd of
        None \<Rightarrow> (Inl (Err Internal), s)
      | Some (callback, one_shot) \<Rightarrow>
          (case (if one_shot then bind_prog (epoll_remove K fd) (\<lambda>_. call callback) s
                 else call callback s) of
             (Inl f, s') \<Rightarrow> (Inl (callback_fault f), s')
           | (Inr u, s') \<Rightarrow> (Inr (), s')))"

primrec fire_all ::
  "'k poll_kernel \<Rightarrow> ('c \<Rightarrow> (('c, 'k, 'm) poll_scheme, unit) prog) \<Rightarrow> int list \<Rightarrow>
   (('c, 'k, 'm) poll_scheme, unit) prog" where
  "fire_all K call [] = ret ()"
| "fire_all K call (fd # fds) = bind_prog (fire K call fd) (\<lambda>_. fire_all K call fds)"

definition do_wait ::
  "'k poll_kernel \<Rightarrow> nat \<Rightarrow> ('c \<Rightarrow> (('c, 'k, 'm) poll_scheme, unit) prog) \<Rightarrow> int \<Rightarrow>
   (('c, 'k, 'm) poll_scheme, nat) prog" where
  "do_wait K buffer_size call timeout_ms s =
     (case p_wait K (epoll_fd s) buffer_size timeout_ms (pk s) of
        (None, k) \<Rightarrow> (Inl Does_not_return, s\<lparr>pk := k\<rparr>)
      | (Some (available, fds), k) \<Rightarrow>
          if available < 0 then (Inl (system_failure (p_errno K k)), s\<lparr>pk := k\<rparr>)
          else if buffer_size < nat available then (Inl (Err Internal), s\<lparr>pk := k\<rparr>)
          else bind_prog (fire_all K call (take (nat available) fds))
                 (\<lambda>_. ret (nat available)) (s\<lparr>pk := k\<rparr>))"

definition epoll_wait ::
  "'k poll_kernel \<Rightarrow> nat \<Rightarrow> ('c \<Rightarrow> (('c, 'k, 'm) poll_scheme, unit) prog) \<Rightarrow>
   (('c, 'k, 'm) poll_scheme, nat) prog" where
  "epoll_wait K buffer_size call = do_wait K buffer_size call (-1)"

definition try_wait ::
  "'k poll_kernel \<Rightarrow> nat \<Rightarrow> ('c \<Rightarrow> (('c, 'k, 'm) poll_scheme, unit) prog) \<Rightarrow>
   (('c, 'k, 'm) poll_scheme, nat) prog" where
  "try_wait K buffer_size call = do_wait K buffer_size call 0"

text \<open>The timeout is a duration in nanoseconds; the cast to milliseconds truncates.\<close>

definition wait_for ::
  "'k poll_kernel \<Rightarrow> nat \<Rightarrow> ('c \<Rightarrow> (('c, 'k, 'm) poll_scheme, unit) prog) \<Rightarrow> int \<Rightarrow>
   (('c, 'k, 'm) poll_scheme, nat) prog" where
  "wait_for K buffer_size call timeout s =
     (let timeout_ms = sgn timeout * (\<bar>timeout\<bar> div 1000000)
      in if timeout_ms \<le> 0 then (Inl (Err InvalidArgument), s)
         else if 2 ^ 31 - 1 < timeout_ms then (Inl (Err InvalidArgument), s)
         else do_wait K buffer_size call timeout_ms s)"

section \<open>The scheduler\<close>

datatype 'h callback = Resume_coro 'h | Drain_queue

record ('h, 'k, 'p) scheduler = "('h callback, 'k) poll" +
  continue_polling :: bool
  coro_queue :: "'h circular_queue"
  notification_fd :: int
  the_rest :: 'p

definition create_eventfd :: "'k poll_kernel \<Rightarrow> (('c, 'k, 'm) poll_scheme, int) prog" where
  "create_eventfd K s =
     (case p_eventfd K (pk s) of (fd, k) \<Rightarrow>
        (if fd \<le> 0 then Inl (system_failure (p_errno K k)) else Inr fd, s\<lparr>pk := k\<rparr>))"

definition clear_eventfd :: "'k poll_kernel \<Rightarrow> int \<Rightarrow> (('c, 'k, 'm) poll_scheme, unit) prog" where
  "clear_eventfd K fd s =
     (case p_read8 K fd (pk s) of (n, k) \<Rightarrow>
        (if n < 8 then Inl (system_failure (p_errno K k)) else Inr (), s\<lparr>pk := k\<rparr>))"

definition ping_eventfd :: "'k poll_kernel \<Rightarrow> int \<Rightarrow> (('c, 'k, 'm) poll_scheme, unit) prog" where
  "ping_eventfd K fd s =
     (case p_write8 K fd 1 (pk s) of (n, k) \<Rightarrow>
        (if n < 8 then Inl (system_failure (p_errno K k)) else Inr (), s\<lparr>pk := k\<rparr>))"

text \<open>The constructor; \<open>registered\<close> when the thread already has a scheduler.\<close>

definition scheduler_new ::
  "'k poll_kernel \<Rightarrow> nat \<Rightarrow> bool \<Rightarrow> 'p \<Rightarrow> 'k \<Rightarrow> ('h, 'k, 'p) scheduler res \<times> 'k" where
  "scheduler_new K queue_size registered p k =
     (case epoll_new K k of
        (Inl f, k') \<Rightarrow> (Inl f, k')
      | (Inr e, k') \<Rightarrow>
          if registered then (Inl (Err FailedPrecondition), epoll_destroy K (e :: ('h callback, 'k) poll))
          else (Inr (poll.extend e (scheduler.fields True (queue_new queue_size) 0 p)), k'))"

definition scheduler_destroy :: "'k poll_kernel \<Rightarrow> ('h, 'k, 'p) scheduler \<Rightarrow> 'k" where
  "scheduler_destroy K s =
     epoll_destroy K (if notification_fd s \<noteq> 0
       then s\<lparr>notification_fd := 0, pk := p_close K (notification_fd s) (pk s)\<rparr> else s)"

definition this_thread ::
  "'k poll_kernel \<Rightarrow> nat \<Rightarrow> 't \<Rightarrow> 'p \<Rightarrow> 'k \<Rightarrow> ('t \<rightharpoonup> ('h, 'k, 'p) scheduler) \<Rightarrow>
   ('h, 'k, 'p) scheduler res \<times> ('t \<rightharpoonup> ('h, 'k, 'p) scheduler)" where
  "this_thread K queue_size t p k reg =
     (case reg t of
        Some s \<Rightarrow> (Inr s, reg)
      | None \<Rightarrow>
          (case fst (scheduler_new K queue_size (reg t \<noteq> None) p k) of
             Inl f \<Rightarrow> (Inl f, reg)
           | Inr s \<Rightarrow> (Inr s, reg(t \<mapsto> s))))"

definition for_thread :: "'t \<Rightarrow> ('t \<rightharpoonup> ('h, 'k, 'p) scheduler) \<Rightarrow> ('h, 'k, 'p) scheduler res" where
  "for_thread t reg = (case reg t of Some s \<Rightarrow> Inr s | None \<Rightarrow> Inl (Err NotFound))"

text \<open>\<open>_schedule_queue_drain\<close>: make the eventfd, register the callback, ping.\<close>

definition ensure_eventfd :: "'k poll_kernel \<Rightarrow> (('h, 'k, 'p) scheduler, unit) prog" where
  "ensure_eventfd K s =
     (if notification_fd s = 0
      then bind_prog (create_eventfd K) (\<lambda>fd. modify (notification_fd_update (\<lambda>_. fd))) s
      else (Inr (), s))"

definition register_drain :: "'k poll_kernel \<Rightarrow> (('h, 'k, 'p) scheduler, unit) prog" where
  "register_drain K s =
     (case epoll_add K (notification_fd s) (event_or READABLE ONE_SHOT) Drain_queue s of (r, s') \<Rightarrow>
        (if r = Inl (Err AlreadyExists) then Inr () else r, s'))"

definition schedule_queue_drain :: "'k poll_kernel \<Rightarrow> (('h, 'k, 'p) scheduler, unit) prog" where
  "schedule_queue_drain K =
     bind_prog (ensure_eventfd K)
       (\<lambda>_. bind_prog (register_drain K) (\<lambda>_ s. ping_eventfd K (notification_fd s) s))"

definition add_to_queue :: "'k poll_kernel \<Rightarrow> 'h \<Rightarrow> (('h, 'k, 'p) scheduler, unit) prog" where
  "add_to_queue K coro s =
     (case push_back coro (coro_queue s) of
        (Inl f, q) \<Rightarrow> (Inl f, s\<lparr>coro_queue := q\<rparr>)
      | (Inr u, q) \<Rightarrow> schedule_queue_drain K (s\<lparr>coro_queue := q\<rparr>))"

definition schedule_on ::
  "'k poll_kernel \<Rightarrow> 'h \<Rightarrow> int \<Rightarrow> event \<Rightarrow> (('h, 'k, 'p) scheduler, unit) prog" where
  "schedule_on K coro handle events = epoll_add K handle events (Resume_coro coro)"

text \<open>The awaitables \<open>next_tick()\<close>, \<open>fd_readable(fd)\<close> and \<open>fd_writable(fd)\<close>.\<close>

definition next_tick :: "'k poll_kernel \<Rightarrow> 'h \<Rightarrow> (('h, 'k, 'p) scheduler, unit) prog" where
  "next_tick K coro = add_to_queue K coro"

definition fd_readable :: "'k poll_kernel \<Rightarrow> int \<Rightarrow> 'h \<Rightarrow> (('h, 'k, 'p) scheduler, unit) prog" where
  "fd_readable K fd coro = schedule_on K coro fd (event_or READABLE ONE_SHOT)"

definition fd_writable :: "'k poll_kernel \<Rightarrow> int \<Rightarrow> 'h \<Rightarrow> (('h, 'k, 'p) scheduler, unit) prog" where
  "fd_writable K fd coro = schedule_on K coro fd (event_or WRITABLE ONE_SHOT)"

definition stop :: "'k poll_kernel \<Rightarrow> (('h, 'k, 'p) scheduler, unit) prog" where
  "stop K s = schedule_queue_drain K (s\<lparr>continue_polling := False\<rparr>)"

text \<open>The loop of the drain callback, \<open>limit - i\<close> rounds to go.\<close>

primrec drain_loop ::
  "('h \<Rightarrow> (('h, 'k, 'p) scheduler, unit) prog) \<Rightarrow> nat \<Rightarrow> (('h, 'k, 'p) scheduler, unit) prog" where
  "drain_loop resume 0 s = (Inr (), s)"
| "drain_loop resume (Suc n) s =
     (if queue_empty (coro_queue s) then (Inr (), s)
      else case pop_front (coro_queue s) of
          (Inl f, q) \<Rightarrow> (Inl f, s\<lparr>coro_queue := q\<rparr>)
        | (Inr h, q) \<Rightarrow> bind_prog (resume h) (\<lambda>_. drain_loop resume n) (s\<lparr>coro_queue := q\<rparr>))"

definition call ::
  "'k poll_kernel \<Rightarrow> ('h \<Rightarrow> (('h, 'k, 'p) scheduler, unit) prog) \<Rightarrow> 'h callback \<Rightarrow>
   (('h, 'k, 'p) scheduler, unit) prog" where
  "call K resume cb =
     (case cb of
        Resume_coro h \<Rightarrow> resume h
      | Drain_queue \<Rightarrow>
          (\<lambda>s. bind_prog (clear_eventfd K (notification_fd s))
             (\<lambda>_ s. drain_loop resume (cq_size (coro_queue s)) s) s))"

partial_function (option) scheduler_loop ::
  "'k poll_kernel \<Rightarrow> nat \<Rightarrow> ('h \<Rightarrow> (('h, 'k, 'p) scheduler, unit) prog) \<Rightarrow>
   ('h, 'k, 'p) scheduler \<Rightarrow> (unit res \<times> ('h, 'k, 'p) scheduler) option" where
  "scheduler_loop K buffer_size resume s =
     (if continue_polling s \<and> has_pending_items s then
        (case epoll_wait K buffer_size (call K resume) s of
           (Inl f, s') \<Rightarrow> Some (Inl f, s')
         | (Inr n, s') \<Rightarrow> scheduler_loop K buffer_size resume s')
      else Some (Inr (), s))"

declare scheduler_loop.simps [code]

text \<open>\<open>own\<close> when the calling thread is the one this scheduler is registered for.\<close>

definition scheduler_run ::
  "'k poll_kernel \<Rightarrow> nat \<Rightarrow> ('h \<Rightarrow> (('h, 'k, 'p) scheduler, unit) prog) \<Rightarrow> bool \<Rightarrow>
   ('h, 'k, 'p) scheduler \<Rightarrow> (unit res \<times> ('h, 'k, 'p) scheduler) option" where
  "scheduler_run K buffer_size resume own s =
     (let s' = s\<lparr>continue_polling := True\<rparr>
      in if \<not> own then Some (Inl (Err FailedPrecondition), s')
         else scheduler_loop K buffer_size resume s')"

section \<open>Tasks\<close>

text \<open>
  \<open>Task\<close> and \<open>TaskPromise\<close>, \<open>src/lw/co/task.h\<close>: the state they share and the handle of the
  coroutine. A callback has any type \<open>'c\<close>; \<open>return_void\<close> gives the one to be called.
\<close>

record 'c task_state =
  task_error :: "fault option"
  task_callback :: "'c option"
  task_finished :: bool

definition task_new :: "'c task_state" where
  "task_new = \<lparr>task_error = None, task_callback = None, task_finished = False\<rparr>"

definition task_unhandled_exception :: "fault \<Rightarrow> 'c task_state \<Rightarrow> 'c task_state" where
  "task_unhandled_exception e t = t\<lparr>task_error := Some e\<rparr>"

definition task_return_void :: "'c task_state \<Rightarrow> 'c option \<times> 'c task_state" where
  "task_return_void t = (task_callback t, t\<lparr>task_finished := True\<rparr>)"

definition task_valid :: "'c task_state \<Rightarrow> bool" where
  "task_valid t \<longleftrightarrow> task_error t \<noteq> None \<or> task_finished t"

definition task_then :: "'c \<Rightarrow> 'c task_state \<Rightarrow> 'c task_state" where
  "task_then callback t = t\<lparr>task_callback := Some callback\<rparr>"

definition task_get :: "'c task_state \<Rightarrow> unit res" where
  "task_get t =
     (if \<not> task_valid t then Inl (Err FailedPrecondition)
      else case task_error t of Some e \<Rightarrow> Inl e | None \<Rightarrow> Inr ())"

text \<open>The destructor is \<open>noexcept\<close>: what it throws ends the program.\<close>

definition task_destroy :: "'c task_state \<Rightarrow> unit res" where
  "task_destroy t = (case task_error t of Some e \<Rightarrow> Inl Terminates | None \<Rightarrow> Inr ())"

text \<open>\<open>schedule(task, callback)\<close>.\<close>

definition schedule_task_then ::
  "'k poll_kernel \<Rightarrow> 'h \<Rightarrow> 'c \<Rightarrow> 'c task_state \<Rightarrow>
   ('h, 'k, 'p) scheduler \<Rightarrow> (unit res \<times> 'c task_state) \<times> ('h, 'k, 'p) scheduler" where
  "schedule_task_then K handle callback t s =
     (case add_to_queue K handle s of (r, s') \<Rightarrow> ((r, task_then callback t), s'))"

section \<open>Sleeping\<close>

text \<open>The whole seconds and the rest, both rounded toward zero.\<close>

definition timer_value :: "int \<Rightarrow> int \<times> int" where
  "timer_value duration =
     (let seconds = sgn duration * (\<bar>duration\<bar> div 1000000000)
      in (seconds, duration - seconds * 1000000000))"

definition create_timerfd ::
  "'k poll_kernel \<Rightarrow> bool \<Rightarrow> int \<Rightarrow> (('c, 'k, 'm) poll_scheme, int) prog" where
  "create_timerfd K steady duration s =
     (case p_timerfd K steady (pk s) of (timer, k) \<Rightarrow>
        if timer \<le> 0 then (Inl (system_failure (p_errno K k)), s\<lparr>pk := k\<rparr>)
        else case p_settime K timer (timer_value duration) k of (r, k') \<Rightarrow>
               (if r \<noteq> 0 then Inl (system_failure (p_errno K k')) else Inr timer, s\<lparr>pk := k'\<rparr>))"

text \<open>\<open>SuspendFor\<close>: the duration and the timer, 0 before it is made.\<close>

definition sleep_suspend ::
  "'k poll_kernel \<Rightarrow> bool \<Rightarrow> int \<Rightarrow> int \<Rightarrow> 'h \<Rightarrow> (('h, 'k, 'p) scheduler, int) prog" where
  "sleep_suspend K steady duration timer coro =
     bind_prog (if timer = 0 then create_timerfd K steady duration else ret timer)
       (\<lambda>t. bind_prog (schedule_on K coro t (event_or READABLE ONE_SHOT)) (\<lambda>_. ret t))"

definition sleep_resume :: "'k poll_kernel \<Rightarrow> int \<Rightarrow> ('c, 'k, 'm) poll_scheme \<Rightarrow> ('c, 'k, 'm) poll_scheme" where
  "sleep_resume K timer s = s\<lparr>pk := p_close K timer (pk s)\<rparr>"

text \<open>
  a timer is set to exactly the duration asked for: the seconds and nanoseconds handed
  to the kernel add up to it and the nanoseconds are below a second, so that the kernel accepts
  the value for every duration that is not negative; the value is the one that disarms a timer
  exactly when the duration is zero.
\<close>

theorem timer_value_exact:
  "case timer_value d of (sec, ns) \<Rightarrow>
     sec * 1000000000 + ns = d \<and> \<bar>ns\<bar> < 1000000000 \<and> (0 \<le> ns \<and> 0 \<le> sec \<longleftrightarrow> 0 \<le> d) \<and>
     (sec = 0 \<and> ns = 0 \<longleftrightarrow> d = 0)"
proof -
  obtain q r where "\<bar>d\<bar> div 1000000000 = q" "\<bar>d\<bar> = q * 1000000000 + r" "0 \<le> r" "r < 1000000000" "0 \<le> q"
    by (metis abs_ge_zero div_mult_mod_eq pos_imp_zdiv_nonneg_iff pos_mod_bound pos_mod_sign zero_less_numeral)
  then show ?thesis
    by (cases d "0 :: int" rule: linorder_cases) (auto simp: timer_value_def Let_def)
qed

end
