(* ===== verification/Event_Loop.thy ===== *)
theory Event_Loop
  imports Scheduler
begin

text \<open>
  What the event loop of \<open>Scheduler\<close> guarantees: a coroutine in the queue is never forgotten.

  The record \<open>observer\<close> says what can be seen of a kernel state: the value of an eventfd, the
  descriptors that are open and those a poller watches. The locale \<open>event_kernel\<close> states
  what the manual pages of epoll and eventfd promise in these terms. \<open>base_ok\<close> is the
  invariant of a scheduler, \<open>armed\<close> that its queue is going to be drained, and \<open>advances\<close>
  what an operation or a coroutine may do to it.
\<close>

section \<open>The kernel as the loop sees it\<close>

record 'k observer =
  o_count :: "'k \<Rightarrow> int \<Rightarrow> nat"
  o_live :: "'k \<Rightarrow> int set"
  o_watched :: "'k \<Rightarrow> int \<Rightarrow> int set"

definition same_view :: "'k observer \<Rightarrow> 'k \<Rightarrow> 'k \<Rightarrow> bool" where
  "same_view V k k' \<longleftrightarrow>
     o_count V k' = o_count V k \<and> o_live V k' = o_live V k \<and> o_watched V k' = o_watched V k"

definition base_ok :: "'k observer \<Rightarrow> ('h, 'k, 'p) scheduler \<Rightarrow> bool" where
  "base_ok V s \<longleftrightarrow>
     queue_ok (coro_queue s) \<and> distinct (map fst (callbacks s)) \<and>
     fst ` set (callbacks s) = o_watched V (pk s) (epoll_fd s) \<and>
     fst ` set (callbacks s) \<subseteq> o_live V (pk s) \<and>
     (notification_fd s \<noteq> 0 \<longrightarrow> notification_fd s \<in> o_live V (pk s)) \<and>
     (\<forall>(fd, cb, one_shot) \<in> set (callbacks s).
        (cb = Drain_queue \<longleftrightarrow> fd = notification_fd s \<and> notification_fd s \<noteq> 0) \<and>
        (cb = Drain_queue \<longrightarrow> one_shot))"

definition armed :: "'k observer \<Rightarrow> ('h, 'k, 'p) scheduler \<Rightarrow> bool" where
  "armed V s \<longleftrightarrow> notification_fd s \<noteq> 0 \<and>
     (notification_fd s, Drain_queue, True) \<in> set (callbacks s) \<and>
     0 < o_count V (pk s) (notification_fd s)"

definition queued :: "('h, 'k, 'p) scheduler \<Rightarrow> 'h list" where
  "queued s = queue_contents (coro_queue s)"

definition advances :: "'k observer \<Rightarrow> ('h, 'k, 'p) scheduler \<Rightarrow> ('h, 'k, 'p) scheduler \<Rightarrow> bool" where
  "advances V s s' \<longleftrightarrow>
     base_ok V s' \<and> epoll_fd s' = epoll_fd s \<and> set (callbacks s) \<subseteq> set (callbacks s') \<and>
     (armed V s \<longrightarrow> armed V s') \<and>
     (\<exists>new. queued s' = queued s @ new \<and> (new \<noteq> [] \<longrightarrow> armed V s'))"

definition keeps_work ::
  "'k observer \<Rightarrow> ('h \<Rightarrow> (('h, 'k, 'p) scheduler, unit) prog) \<Rightarrow> bool" where
  "keeps_work V resume \<longleftrightarrow>
     (\<forall>h s s'. base_ok V s \<longrightarrow> resume h s = (Inr (), s') \<longrightarrow> advances V s s')"

definition sched_ok :: "'k observer \<Rightarrow> ('h, 'k, 'p) scheduler \<Rightarrow> bool" where
  "sched_ok V s \<longleftrightarrow> base_ok V s \<and> (queued s \<noteq> [] \<longrightarrow> armed V s)"

lemma advances_refl: "base_ok V s \<Longrightarrow> advances V s s"
  by (simp add: advances_def)

lemma advances_trans: "advances V s1 s2 \<Longrightarrow> advances V s2 s3 \<Longrightarrow> advances V s1 s3"
  unfolding advances_def by (fastforce intro: subset_trans)

lemma advances_sched_ok: "sched_ok V s \<Longrightarrow> advances V s s' \<Longrightarrow> sched_ok V s'"
  by (auto simp: sched_ok_def advances_def)

text \<open>A change of the kernel state that cannot be seen, or of the flag, changes nothing.\<close>

lemma base_ok_same_view:
  "same_view V (pk s) k \<Longrightarrow> base_ok V (s\<lparr>pk := k\<rparr>) = base_ok V s"
  by (simp add: base_ok_def same_view_def)

lemma armed_same_view: "same_view V (pk s) k \<Longrightarrow> armed V (s\<lparr>pk := k\<rparr>) = armed V s"
  by (simp add: armed_def same_view_def)

lemma flag_irrelevant [simp]:
  "base_ok V (s\<lparr>continue_polling := b\<rparr>) = base_ok V s"
  "armed V (s\<lparr>continue_polling := b\<rparr>) = armed V s"
  "queued (s\<lparr>continue_polling := b\<rparr>) = queued s"
  "queued (s\<lparr>pk := k\<rparr>) = queued s"
  "queued (s\<lparr>callbacks := c\<rparr>) = queued s"
  "queued (s\<lparr>notification_fd := n\<rparr>) = queued s"
  by (simp_all add: base_ok_def armed_def queued_def)

lemma map_of_entry:
  "distinct (map fst xs) \<Longrightarrow> map_of xs k = Some v \<longleftrightarrow> (k, v) \<in> set xs"
  by simp

text \<open>The rule for the loop of \<open>run\<close>.\<close>

lemma scheduler_loop_invariant:
  "scheduler_loop K n resume s = Some x \<Longrightarrow> x = (Inr (), s') \<Longrightarrow> I s \<Longrightarrow>
   (\<And>s m s1. I s \<Longrightarrow> epoll_wait K n (call K resume) s = (Inr m, s1) \<Longrightarrow> I s1) \<Longrightarrow>
   I s' \<and> \<not> (continue_polling s' \<and> has_pending_items s')"
proof (induction K n resume s x rule: scheduler_loop.raw_induct [rotated, consumes 1, case_names step])
  case (step loop K n resume s x)
  show ?case
  proof (cases "continue_polling s \<and> has_pending_items s")
    case True
    then obtain m s1 where s1: "epoll_wait K n (call K resume) s = (Inr m, s1)" "loop K n resume s1 = Some x"
      using step.hyps step.prems(1) by (auto split: prod.splits sum.splits)
    show ?thesis
      by (rule step.IH [OF s1(2) step.prems(1) step.prems(3) [OF step.prems(2) s1(1)] step.prems(3)])
  next
    case False
    then show ?thesis using step.hyps step.prems(1,2) by auto
  qed
qed

locale event_kernel =
  fixes K :: "'k poll_kernel" and V :: "'k observer"
  assumes add_law: "p_add K ep fd ev k = (r, k') \<Longrightarrow>
      o_count V k' = o_count V k \<and> o_live V k' = o_live V k \<and>
      o_watched V k' = (if r = 0 then (o_watched V k)(ep := insert fd (o_watched V k ep)) else o_watched V k)"
    and add_errno: "p_add K ep fd ev k = (r, k') \<Longrightarrow> r \<noteq> 0 \<Longrightarrow> fd \<notin> o_watched V k ep \<Longrightarrow>
      system_failure (p_errno K k') \<noteq> Err AlreadyExists"
    and del_law: "p_del K ep fd k = (r, k') \<Longrightarrow>
      o_count V k' = o_count V k \<and> o_live V k' = o_live V k \<and>
      o_watched V k' = (if r = 0 then (o_watched V k)(ep := o_watched V k ep - {fd}) else o_watched V k)"
    and wait_law: "p_wait K ep n t k = (x, k') \<Longrightarrow> same_view V k k'"
    and wait_blocks: "p_wait K ep n (-1) k = (None, k') \<Longrightarrow> fd \<in> o_watched V k ep \<Longrightarrow> o_count V k fd = 0"
    and wait_events: "p_wait K ep n t k = (Some (m, fds), k') \<Longrightarrow> 0 \<le> m \<Longrightarrow>
      length fds = nat m \<and> distinct fds \<and> set fds \<subseteq> o_watched V k ep"
    and eventfd_law: "p_eventfd K k = (fd, k') \<Longrightarrow> 0 < fd \<Longrightarrow>
      fd \<notin> o_live V k \<and> o_live V k' = insert fd (o_live V k) \<and> o_watched V k' = o_watched V k"
    and write_law: "p_write8 K fd 1 k = (r, k') \<Longrightarrow> 8 \<le> r \<Longrightarrow>
      0 < o_count V k' fd \<and> o_live V k' = o_live V k \<and> o_watched V k' = o_watched V k"
    and read_law: "p_read8 K fd k = (r, k') \<Longrightarrow>
      o_live V k' = o_live V k \<and> o_watched V k' = o_watched V k"
begin

text \<open>Registering a callback.\<close>

lemma epoll_add_ok:
  assumes "base_ok V s" "epoll_add K fd ev cb s = (Inr (), s')" "fd \<in> o_live V (pk s)"
    and "cb = Drain_queue \<longleftrightarrow> fd = notification_fd s \<and> notification_fd s \<noteq> 0"
    and "cb = Drain_queue \<longrightarrow> event_and ev ONE_SHOT"
  shows "base_ok V s' \<and> epoll_fd s' = epoll_fd s \<and> notification_fd s' = notification_fd s \<and>
    callbacks s' = (fd, cb, event_and ev ONE_SHOT) # callbacks s \<and>
    coro_queue s' = coro_queue s \<and> o_count V (pk s') = o_count V (pk s)"
proof -
  obtain r k where k: "p_add K (epoll_fd s) fd (co_event_to_epoll_event ev) (pk s) = (r, k)"
    by fastforce
  with assms(2) have fresh: "fd \<notin> fst ` set (callbacks s)" and "r = 0"
    and s': "s' = s\<lparr>pk := k, callbacks := (fd, cb, event_and ev ONE_SHOT) # callbacks s\<rparr>"
    by (auto simp: epoll_add_def map_of_eq_None_iff split: if_splits)
  with add_law [OF k] assms(1,3-5) show ?thesis
    by (auto simp: base_ok_def)
qed

lemma schedule_on_advances:
  assumes "base_ok V s" "schedule_on K h fd ev s = (Inr (), s')"
    and "fd \<in> o_live V (pk s)" "fd \<noteq> notification_fd s \<or> notification_fd s = 0"
  shows "advances V s s'"
  using epoll_add_ok [of s fd ev "Resume_coro h" s'] assms
  by (auto simp: schedule_on_def advances_def armed_def queued_def)

text \<open>Scheduling a drain arms the scheduler.\<close>

lemma ping_ok:
  assumes "base_ok V s" "ping_eventfd K (notification_fd s) s = (Inr (), s')"
    and "notification_fd s \<noteq> 0" "(notification_fd s, Drain_queue, True) \<in> set (callbacks s)"
  shows "base_ok V s' \<and> armed V s' \<and> (\<exists>k. s' = s\<lparr>pk := k\<rparr>)"
proof -
  obtain r k where k: "p_write8 K (notification_fd s) 1 (pk s) = (r, k)" by fastforce
  with assms(2) have "8 \<le> r" "s' = s\<lparr>pk := k\<rparr>" by (auto simp: ping_eventfd_def split: if_splits)
  with write_law [OF k] assms(1,3,4) show ?thesis by (auto simp: base_ok_def armed_def)
qed

lemma drain_registered:
  assumes "base_ok V s" "notification_fd s \<noteq> 0"
    and "register_drain K s = (Inr (), s')"
  shows "base_ok V s' \<and> epoll_fd s' = epoll_fd s \<and> notification_fd s' = notification_fd s \<and>
    (notification_fd s, Drain_queue, True) \<in> set (callbacks s') \<and>
    set (callbacks s) \<subseteq> set (callbacks s') \<and> coro_queue s' = coro_queue s"
proof (cases "map_of (callbacks s) (notification_fd s)")
  case None
  obtain r k where k: "p_add K (epoll_fd s) (notification_fd s)
      (co_event_to_epoll_event (event_or READABLE ONE_SHOT)) (pk s) = (r, k)" by fastforce
  have "notification_fd s \<notin> o_watched V (pk s) (epoll_fd s)"
    using None assms(1) by (auto simp: base_ok_def map_of_eq_None_iff)
  with add_errno [OF k] have "r \<noteq> 0 \<Longrightarrow> system_failure (p_errno K k) \<noteq> Err AlreadyExists" by blast
  with k None assms(3)
  have "epoll_add K (notification_fd s) (event_or READABLE ONE_SHOT) Drain_queue s = (Inr (), s')"
    by (auto simp: register_drain_def epoll_add_def split: if_splits)
  moreover have "event_and (event_or READABLE ONE_SHOT) ONE_SHOT"
    by (simp add: event_and_def event_or_def)
  moreover have "notification_fd s \<in> o_live V (pk s)"
    using assms(1,2) by (simp add: base_ok_def)
  ultimately show ?thesis
    using epoll_add_ok [OF assms(1), of "notification_fd s" "event_or READABLE ONE_SHOT" Drain_queue s'] assms(2)
    by auto
next
  case (Some e)
  obtain cb one_shot where e: "e = (cb, one_shot)" by fastforce
  with Some assms(1) have "(notification_fd s, cb, one_shot) \<in> set (callbacks s)"
    by (simp add: map_of_SomeD)
  with assms(1,2) have "(notification_fd s, Drain_queue, True) \<in> set (callbacks s)"
    by (fastforce simp: base_ok_def)
  moreover have "s' = s" using assms(3) Some by (simp add: register_drain_def epoll_add_def)
  ultimately show ?thesis using assms(1) by simp
qed

lemma notification_ok:
  assumes "base_ok V s" "ensure_eventfd K s = (Inr (), s1)"
  shows "base_ok V s1 \<and> notification_fd s1 \<noteq> 0 \<and> epoll_fd s1 = epoll_fd s \<and>
    callbacks s1 = callbacks s \<and> coro_queue s1 = coro_queue s"
proof (cases "notification_fd s = 0")
  case True
  obtain fd k where k: "p_eventfd K (pk s) = (fd, k)" by fastforce
  with True assms(2) have fd: "0 < fd" and s1: "s1 = s\<lparr>pk := k, notification_fd := fd\<rparr>"
    by (auto simp: ensure_eventfd_def bind_prog_def create_eventfd_def split: if_splits)
  have "fd \<notin> fst ` set (callbacks s)" using eventfd_law [OF k fd] assms(1) by (auto simp: base_ok_def)
  with eventfd_law [OF k fd] fd s1 True assms(1) show ?thesis
    by (force simp: base_ok_def)
qed (use assms in \<open>auto simp: ensure_eventfd_def\<close>)

lemma schedule_queue_drain_arms:
  assumes "base_ok V s" "schedule_queue_drain K s = (Inr (), s')"
  shows "base_ok V s' \<and> armed V s' \<and> epoll_fd s' = epoll_fd s \<and>
    set (callbacks s) \<subseteq> set (callbacks s') \<and> coro_queue s' = coro_queue s"
proof -
  obtain s1 s2 where s1: "ensure_eventfd K s = (Inr (), s1)" and s2: "register_drain K s1 = (Inr (), s2)"
      "ping_eventfd K (notification_fd s2) s2 = (Inr (), s')"
    using assms(2) by (auto simp: schedule_queue_drain_def bind_prog_eq_Inr_iff)
  note ok1 = notification_ok [OF assms(1) s1]
  have ok2: "base_ok V s2" "notification_fd s2 \<noteq> 0" "(notification_fd s2, Drain_queue, True) \<in> set (callbacks s2)"
    "epoll_fd s2 = epoll_fd s" "set (callbacks s) \<subseteq> set (callbacks s2)" "coro_queue s2 = coro_queue s"
    using drain_registered [of s1 s2] ok1 s2(1) by auto
  with ping_ok [OF ok2(1) s2(2) ok2(2,3)] show ?thesis by auto
qed

lemma base_ok_queue: "base_ok V s \<Longrightarrow> queue_ok q \<Longrightarrow> base_ok V (s\<lparr>coro_queue := q\<rparr>)"
  by (auto simp: base_ok_def)

lemma add_to_queue_ok:
  assumes "base_ok V s" "add_to_queue K h s = (Inr (), s')"
  shows "advances V s s' \<and> armed V s' \<and> queued s' = queued s @ [h]"
proof -
  obtain q where q: "push_back h (coro_queue s) = (Inr (), q)"
      "schedule_queue_drain K (s\<lparr>coro_queue := q\<rparr>) = (Inr (), s')"
    using assms(2) by (auto simp: add_to_queue_def split: prod.splits sum.splits)
  have "queue_ok (coro_queue s)" using assms(1) by (simp add: base_ok_def)
  then have "queue_ok q \<and> queue_contents q = queued s @ [h]"
    using q(1) cq.push_room [of "coro_queue s" h] cq.push_full [of "coro_queue s" h]
    by (cases "cq_size (coro_queue s) = cq_capacity (coro_queue s)")
      (auto simp: push_back_def queued_def split: prod.splits sum.splits bool.splits)
  with schedule_queue_drain_arms [OF base_ok_queue [OF assms(1)] q(2)] show ?thesis
    by (auto simp: advances_def queued_def)
qed

lemma stop_ok:
  assumes "base_ok V s" "stop K s = (Inr (), s')"
  shows "advances V s s'"
  using schedule_queue_drain_arms [of "s\<lparr>continue_polling := False\<rparr>" s'] assms
  by (auto simp: stop_def advances_def queued_def)

text \<open>Draining: the batch goes, what the coroutines have added meanwhile stays and is armed.\<close>

lemma drain_step:
  assumes keeps: "keeps_work V resume" and ok: "base_ok V s" and xs: "queued s = x # ys"
    and run: "drain_loop resume (Suc n) s = (Inr (), s')"
  shows "\<exists>q s1. queue_contents q = ys \<and> resume x (s\<lparr>coro_queue := q\<rparr>) = (Inr (), s1) \<and>
    drain_loop resume n s1 = (Inr (), s') \<and> advances V (s\<lparr>coro_queue := q\<rparr>) s1"
proof -
  have "queue_ok (coro_queue s)" using ok by (simp add: base_ok_def)
  then obtain q where q: "pop_front (coro_queue s) = (Inr x, q)" "queue_ok q" "queue_contents q = ys"
    using cq.pop_some [of "coro_queue s" x ys] xs by (auto simp: queued_def)
  have "\<not> queue_empty (coro_queue s)"
    using xs length_contents [of "coro_queue s"] by (auto simp: queued_def queue_empty_def)
  with run q(1) obtain s1 where s1: "resume x (s\<lparr>coro_queue := q\<rparr>) = (Inr (), s1)"
      "drain_loop resume n s1 = (Inr (), s')"
    by (auto simp: bind_prog_eq_Inr_iff)
  have "advances V (s\<lparr>coro_queue := q\<rparr>) s1"
    using keeps s1(1) base_ok_queue [OF ok q(2)] by (auto simp: keeps_work_def)
  with q(3) s1 show ?thesis by blast
qed

lemma drain_loop_ok:
  assumes keeps: "keeps_work V resume"
  shows "base_ok V s \<Longrightarrow> queued s = xs @ rest \<Longrightarrow>
    drain_loop resume (length xs) s = (Inr (), s') \<Longrightarrow>
    base_ok V s' \<and> epoll_fd s' = epoll_fd s \<and> set (callbacks s) \<subseteq> set (callbacks s') \<and>
    (armed V s \<longrightarrow> armed V s') \<and> (\<exists>new. queued s' = rest @ new \<and> (new \<noteq> [] \<longrightarrow> armed V s'))"
proof (induction xs arbitrary: s rest)
  case (Cons x xs)
  obtain q s1 where q: "queue_contents q = xs @ rest"
    and s1: "resume x (s\<lparr>coro_queue := q\<rparr>) = (Inr (), s1)" "drain_loop resume (length xs) s1 = (Inr (), s')"
    and adv: "advances V (s\<lparr>coro_queue := q\<rparr>) s1"
    using drain_step [OF keeps Cons.prems(1), of x "xs @ rest" "length xs" s'] Cons.prems(2,3) by auto
  then obtain new where new: "queued s1 = xs @ (rest @ new)" "new \<noteq> [] \<longrightarrow> armed V s1" "base_ok V s1"
    using q by (auto simp: advances_def queued_def)
  from Cons.IH [OF new(3,1) s1(2)] adv new(2) show ?case
    by (auto simp: advances_def armed_def)
qed auto

lemma epoll_remove_ok:
  assumes "base_ok V s" "epoll_remove K fd s = (Inr (), s')"
  shows "base_ok V s' \<and> epoll_fd s' = epoll_fd s \<and> notification_fd s' = notification_fd s \<and>
    set (callbacks s') = {e \<in> set (callbacks s). fst e \<noteq> fd} \<and> coro_queue s' = coro_queue s \<and>
    (fd \<noteq> notification_fd s \<longrightarrow> armed V s \<longrightarrow> armed V s') \<and> the_rest s' = the_rest s"
proof -
  obtain r k where k: "p_del K (epoll_fd s) fd (pk s) = (r, k)" by fastforce
  with assms(2) have "r = 0" and s': "s' = s\<lparr>pk := k, callbacks := AList.delete fd (callbacks s)\<rparr>"
    by (auto simp: epoll_remove_def split: if_splits)
  have gone: "set (AList.delete fd (callbacks s)) = {e \<in> set (callbacks s). fst e \<noteq> fd}"
    by (auto simp: AList.delete_eq)
  have "distinct (map fst (AList.delete fd (callbacks s)))"
    using assms(1) distinct_delete [of "callbacks s" fd] by (simp add: base_ok_def)
  with del_law [OF k] \<open>r = 0\<close> s' gone assms(1) show ?thesis
    by (auto simp: base_ok_def armed_def)
qed

lemma call_drain_ok:
  assumes "keeps_work V resume" "base_ok V s" "call K resume Drain_queue s = (Inr (), s')"
  shows "sched_ok V s' \<and> epoll_fd s' = epoll_fd s \<and> set (callbacks s) \<subseteq> set (callbacks s')"
proof -
  obtain r k where k: "p_read8 K (notification_fd s) (pk s) = (r, k)" by fastforce
  with assms(3) have drain: "drain_loop resume (cq_size (coro_queue s)) (s\<lparr>pk := k\<rparr>) = (Inr (), s')"
    by (auto simp: call_def clear_eventfd_def bind_prog_def split: if_splits)
  have "base_ok V (s\<lparr>pk := k\<rparr>)" using read_law [OF k] assms(2) by (auto simp: base_ok_def)
  moreover have "queued (s\<lparr>pk := k\<rparr>) = queued s @ []" by simp
  moreover have "cq_size (coro_queue s) = length (queued s)" by (simp add: queued_def)
  ultimately show ?thesis
    using drain_loop_ok [OF assms(1), of "s\<lparr>pk := k\<rparr>" "queued s" "[]" s'] drain
    by (auto simp: sched_ok_def)
qed

text \<open>One event. Only the callback that is called can leave the table.\<close>

lemma fire_ok:
  assumes keeps: "keeps_work V resume" and ok: "sched_ok V s"
    and fire: "fire K (call K resume) fd s = (Inr (), s')"
  shows "sched_ok V s' \<and> epoll_fd s' = epoll_fd s \<and>
    (\<forall>e \<in> set (callbacks s). fst e \<noteq> fd \<longrightarrow> e \<in> set (callbacks s'))"
proof -
  have base: "base_ok V s" using ok by (simp add: sched_ok_def)
  obtain cb one_shot where cb: "map_of (callbacks s) fd = Some (cb, one_shot)"
      "(if one_shot then bind_prog (epoll_remove K fd) (\<lambda>_. call K resume cb) s else call K resume cb s) = (Inr (), s')"
    using fire by (auto simp: fire_def split: option.splits prod.splits sum.splits)
  have entry: "(fd, cb, one_shot) \<in> set (callbacks s)" by (rule map_of_SomeD [OF cb(1)])
  obtain s1 where s1: "call K resume cb s1 = (Inr (), s')" "base_ok V s1" "epoll_fd s1 = epoll_fd s"
      "\<forall>e \<in> set (callbacks s). fst e \<noteq> fd \<longrightarrow> e \<in> set (callbacks s1)" "queued s1 = queued s"
      "cb \<noteq> Drain_queue \<longrightarrow> armed V s \<longrightarrow> armed V s1"
  proof (cases one_shot)
    case True
    then obtain s1 where s1: "epoll_remove K fd s = (Inr (), s1)" "call K resume cb s1 = (Inr (), s')"
      using cb(2) by (auto simp: bind_prog_eq_Inr_iff)
    have "cb \<noteq> Drain_queue \<longrightarrow> armed V s \<longrightarrow> fd \<noteq> notification_fd s"
      using entry base by (auto simp: armed_def base_ok_def)
    with epoll_remove_ok [OF base s1(1)] s1(2) that show ?thesis by (auto simp: queued_def)
  qed (use cb(2) base that in auto)
  show ?thesis
  proof (cases cb)
    case Drain_queue
    have "call K resume Drain_queue s1 = (Inr (), s')" using s1(1) Drain_queue by simp
    from call_drain_ok [OF keeps s1(2) this] have after: "sched_ok V s'" "epoll_fd s' = epoll_fd s1"
      "set (callbacks s1) \<subseteq> set (callbacks s')" by simp_all
    moreover have "\<forall>e \<in> set (callbacks s). fst e \<noteq> fd \<longrightarrow> e \<in> set (callbacks s')"
      using s1(4) after(3) by (meson subsetD)
    ultimately show ?thesis using s1(3) by simp
  next
    case (Resume_coro h)
    with s1(1) have "resume h s1 = (Inr (), s')" by (simp add: call_def)
    with keeps s1(2) have "advances V s1 s'" by (simp add: keeps_work_def)
    then have adv: "epoll_fd s' = epoll_fd s1" "set (callbacks s1) \<subseteq> set (callbacks s')" "advances V s1 s'"
      by (simp_all add: advances_def)
    have "sched_ok V s1" using ok s1(2,5,6) Resume_coro by (auto simp: sched_ok_def)
    then have "sched_ok V s'" using adv(3) by (rule advances_sched_ok)
    moreover have "\<forall>e \<in> set (callbacks s). fst e \<noteq> fd \<longrightarrow> e \<in> set (callbacks s')"
      using s1(4) adv(2) by (meson subsetD)
    ultimately show ?thesis using adv(1) s1(3) by simp
  qed
qed

lemma fire_all_ok:
  assumes keeps: "keeps_work V resume"
  shows "sched_ok V s \<Longrightarrow> fire_all K (call K resume) fds s = (Inr (), s') \<Longrightarrow>
    sched_ok V s' \<and> epoll_fd s' = epoll_fd s"
proof (induction fds arbitrary: s)
  case (Cons fd fds)
  then obtain s1 where s1: "fire K (call K resume) fd s = (Inr (), s1)"
      "fire_all K (call K resume) fds s1 = (Inr (), s')"
    by (auto simp: bind_prog_eq_Inr_iff)
  with Cons.IH fire_ok [OF keeps Cons.prems(1) s1(1)] show ?case by auto
qed auto

lemma wait_ok:
  assumes keeps: "keeps_work V resume" and ok: "sched_ok V s"
    and wait: "do_wait K n (call K resume) t s = (Inr m, s')"
  shows "sched_ok V s' \<and> epoll_fd s' = epoll_fd s"
proof -
  obtain x k where k: "p_wait K (epoll_fd s) n t (pk s) = (x, k)" by fastforce
  have "sched_ok V (s\<lparr>pk := k\<rparr>)"
    using wait_law [OF k] ok by (simp add: sched_ok_def base_ok_same_view armed_same_view)
  moreover obtain fds where "fire_all K (call K resume) fds (s\<lparr>pk := k\<rparr>) = (Inr (), s')"
    using wait k by (auto simp: do_wait_def bind_prog_eq_Inr_iff split: option.splits prod.splits if_splits)
  ultimately show ?thesis using fire_all_ok [OF keeps] by auto
qed

lemma wait_does_not_block:
  assumes "sched_ok V s" "queued s \<noteq> []"
  shows "fst (p_wait K (epoll_fd s) n (-1) (pk s)) \<noteq> None"
proof
  assume "fst (p_wait K (epoll_fd s) n (-1) (pk s)) = None"
  then obtain k where k: "p_wait K (epoll_fd s) n (-1) (pk s) = (None, k)" by (metis prod.collapse)
  have "(notification_fd s, Drain_queue, True) \<in> set (callbacks s)"
    and "0 < o_count V (pk s) (notification_fd s)"
    using assms by (auto simp: sched_ok_def armed_def)
  then have "notification_fd s \<in> fst ` set (callbacks s)" "0 < o_count V (pk s) (notification_fd s)"
    by (metis image_eqI fst_conv)+
  moreover have "fst ` set (callbacks s) = o_watched V (pk s) (epoll_fd s)"
    using assms(1) by (simp add: sched_ok_def base_ok_def)
  ultimately have "notification_fd s \<in> o_watched V (pk s) (epoll_fd s)" "0 < o_count V (pk s) (notification_fd s)"
    by simp_all
  with wait_blocks [OF k] show False by simp
qed

lemma scheduler_loop_ok:
  assumes "keeps_work V resume" "scheduler_loop K n resume s = Some (Inr (), s')" "sched_ok V s"
  shows "sched_ok V s' \<and> (continue_polling s' \<longrightarrow> queued s' = [] \<and> callbacks s' = [])"
proof -
  have "sched_ok V s' \<and> \<not> (continue_polling s' \<and> has_pending_items s')"
    using assms(3) by (intro scheduler_loop_invariant [OF assms(2)])
      (auto simp: epoll_wait_def dest: wait_ok [OF assms(1)])
  then show ?thesis by (auto simp: has_pending_items_def sched_ok_def armed_def)
qed

text \<open>A drain resumes the batch in order, when \<open>trace\<close> is what the coroutines leave of their runs.\<close>

lemma drain_loop_trace:
  assumes keeps: "keeps_work V resume"
    and logs: "\<And>h s s'. resume h s = (Inr (), s') \<Longrightarrow> trace (the_rest s') = trace (the_rest s) @ [h]"
  shows "base_ok V s \<Longrightarrow> queued s = xs @ rest \<Longrightarrow> drain_loop resume (length xs) s = (Inr (), s') \<Longrightarrow>
    trace (the_rest s') = trace (the_rest s) @ xs"
proof (induction xs arbitrary: s rest)
  case (Cons x xs)
  obtain q s1 where q: "queue_contents q = xs @ rest"
    and s1: "resume x (s\<lparr>coro_queue := q\<rparr>) = (Inr (), s1)" "drain_loop resume (length xs) s1 = (Inr (), s')"
    and adv: "advances V (s\<lparr>coro_queue := q\<rparr>) s1"
    using drain_step [OF keeps Cons.prems(1), of x "xs @ rest" "length xs" s'] Cons.prems(2,3) by auto
  then obtain new where "queued s1 = xs @ (rest @ new)" "base_ok V s1"
    using q by (auto simp: advances_def queued_def)
  from Cons.IH [OF this(2,1) s1(2)] logs [OF s1(1)] show ?case by simp
qed simp

lemma drain_batch:
  assumes "keeps_work V resume" "base_ok V s" "call K resume Drain_queue s = (Inr (), s')"
    and logs: "\<And>h s s'. resume h s = (Inr (), s') \<Longrightarrow> trace (the_rest s') = trace (the_rest s) @ [h]"
  shows "trace (the_rest s') = trace (the_rest s) @ queued s"
proof -
  obtain r k where k: "p_read8 K (notification_fd s) (pk s) = (r, k)" by fastforce
  with assms(3) have drain: "drain_loop resume (length (queued s)) (s\<lparr>pk := k\<rparr>) = (Inr (), s')"
    by (auto simp: call_def clear_eventfd_def bind_prog_def queued_def split: if_splits)
  have "base_ok V (s\<lparr>pk := k\<rparr>)" using read_law [OF k] assms(2) by (auto simp: base_ok_def)
  from drain_loop_trace [where trace = trace and xs = "queued s" and rest = "[]", OF assms(1) logs this] drain
  show ?thesis by simp
qed

end

section \<open>A kernel with eventfds only\<close>

record loop_os =
  los_next :: int
  los_watched :: "(int \<times> int) list"
  los_count :: "(int \<times> nat) list"

definition los_value :: "loop_os \<Rightarrow> int \<Rightarrow> nat" where
  "los_value k fd = (case map_of (los_count k) fd of Some n \<Rightarrow> n | None \<Rightarrow> 0)"

definition los_ready :: "loop_os \<Rightarrow> int \<Rightarrow> int list" where
  "los_ready k ep =
     remdups (map snd (filter (\<lambda>(p, fd). p = ep \<and> 0 < los_value k fd) (los_watched k)))"

definition loop_kernel :: "loop_os poll_kernel" where
  "loop_kernel = \<lparr>
     p_errno = (\<lambda>k. 22),
     p_create = (\<lambda>k. (los_next k, k\<lparr>los_next := los_next k + 1\<rparr>)),
     p_add = (\<lambda>ep fd ev k. if (ep, fd) \<in> set (los_watched k) then (-1, k)
       else (0, k\<lparr>los_watched := (ep, fd) # los_watched k\<rparr>)),
     p_del = (\<lambda>ep fd k. if (ep, fd) \<in> set (los_watched k)
       then (0, k\<lparr>los_watched := filter (\<lambda>w. w \<noteq> (ep, fd)) (los_watched k)\<rparr>) else (-1, k)),
     p_wait = (\<lambda>ep n t k.
       let fds = take n (los_ready k ep)
       in (if los_ready k ep = [] \<and> t < 0 then None else Some (int (length fds), fds), k)),
     p_eventfd = (\<lambda>k. (los_next k, k\<lparr>los_next := los_next k + 1\<rparr>)),
     p_read8 = (\<lambda>fd k. if los_value k fd = 0 then (-1, k) else (8, k\<lparr>los_count := (fd, 0) # los_count k\<rparr>)),
     p_write8 = (\<lambda>fd v k. (8, k\<lparr>los_count := (fd, los_value k fd + nat v) # los_count k\<rparr>)),
     p_timerfd = (\<lambda>b k. (-1, k)), p_settime = (\<lambda>fd t k. (-1, k)), p_close = (\<lambda>fd k. k)\<rparr>"

definition loop_view :: "loop_os observer" where
  "loop_view = \<lparr>o_count = los_value, o_live = (\<lambda>k. {0 <..< los_next k}),
     o_watched = (\<lambda>k ep. {fd. (ep, fd) \<in> set (los_watched k)})\<rparr>"

lemmas loop_defs = loop_kernel_def loop_view_def same_view_def

lemma los_ready_watched: "set (los_ready k ep) = {fd \<in> o_watched loop_view k ep. 0 < los_value k fd}"
  by (force simp: los_ready_def loop_view_def)

interpretation loop: event_kernel loop_kernel loop_view
proof unfold_locales
  fix ep fd t m r :: int and ev n fds x and k k' :: loop_os
  show "p_add loop_kernel ep fd ev k = (r, k') \<Longrightarrow>
      o_count loop_view k' = o_count loop_view k \<and> o_live loop_view k' = o_live loop_view k \<and>
      o_watched loop_view k' = (if r = 0 then (o_watched loop_view k)(ep := insert fd (o_watched loop_view k ep))
        else o_watched loop_view k)"
    by (auto simp: loop_defs los_value_def fun_eq_iff split: if_splits)
  show "p_add loop_kernel ep fd ev k = (r, k') \<Longrightarrow> r \<noteq> 0 \<Longrightarrow> fd \<notin> o_watched loop_view k ep \<Longrightarrow>
      system_failure (p_errno loop_kernel k') \<noteq> Err AlreadyExists"
    by (auto simp: loop_defs split: if_splits)
  show "p_del loop_kernel ep fd k = (r, k') \<Longrightarrow>
      o_count loop_view k' = o_count loop_view k \<and> o_live loop_view k' = o_live loop_view k \<and>
      o_watched loop_view k' = (if r = 0 then (o_watched loop_view k)(ep := o_watched loop_view k ep - {fd})
        else o_watched loop_view k)"
    by (auto simp: loop_defs los_value_def fun_eq_iff split: if_splits)
  show "p_wait loop_kernel ep n t k = (x, k') \<Longrightarrow> same_view loop_view k k'"
    by (auto simp: loop_defs Let_def split: if_splits)
  show "p_wait loop_kernel ep n (-1) k = (None, k') \<Longrightarrow> fd \<in> o_watched loop_view k ep \<Longrightarrow>
      o_count loop_view k fd = 0"
    using los_ready_watched [of k ep] by (auto simp: loop_defs Let_def split: if_splits)
  show "p_wait loop_kernel ep n t k = (Some (m, fds), k') \<Longrightarrow> 0 \<le> m \<Longrightarrow>
      length fds = nat m \<and> distinct fds \<and> set fds \<subseteq> o_watched loop_view k ep"
    using los_ready_watched [of k ep] set_take_subset [of n "los_ready k ep"]
    by (auto simp: loop_kernel_def Let_def los_ready_def split: if_splits)
  show "p_eventfd loop_kernel k = (fd, k') \<Longrightarrow> 0 < fd \<Longrightarrow>
      fd \<notin> o_live loop_view k \<and> o_live loop_view k' = insert fd (o_live loop_view k) \<and>
      o_watched loop_view k' = o_watched loop_view k"
    by (auto simp: loop_defs)
  show "p_write8 loop_kernel fd 1 k = (r, k') \<Longrightarrow> 8 \<le> r \<Longrightarrow>
      0 < o_count loop_view k' fd \<and> o_live loop_view k' = o_live loop_view k \<and>
      o_watched loop_view k' = o_watched loop_view k"
    by (auto simp: loop_defs los_value_def)
  show "p_read8 loop_kernel fd k = (r, k') \<Longrightarrow>
      o_live loop_view k' = o_live loop_view k \<and> o_watched loop_view k' = o_watched loop_view k"
    by (auto simp: loop_defs split: if_splits)
qed

section \<open>Properties\<close>

text \<open>
  C8: nothing is forgotten. For any kernel that keeps the promises of epoll and eventfd and
  any coroutines that only schedule work, a scheduler in order is in order after \<open>run\<close>; \<open>run\<close>
  is refused on a foreign thread; and when it returns without having been stopped, the queue
  is empty and nobody waits for an event.
\<close>

theorem run_leaves_no_work:
  assumes "event_kernel K V" "keeps_work V resume" "sched_ok V s"
    and "scheduler_run K n resume own s = Some (Inr (), s')"
  shows "own \<and> sched_ok V s' \<and> (continue_polling s' \<longrightarrow> queued s' = [] \<and> callbacks s' = [])"
proof -
  have own: "own" using assms(4) by (cases own) (simp_all add: scheduler_run_def)
  have "sched_ok V (s\<lparr>continue_polling := True\<rparr>)" using assms(3) by (simp add: sched_ok_def)
  moreover have "scheduler_loop K n resume (s\<lparr>continue_polling := True\<rparr>) = Some (Inr (), s')"
    using assms(4) own by (simp add: scheduler_run_def)
  ultimately show ?thesis using event_kernel.scheduler_loop_ok [OF assms(1,2)] own by blast
qed

text \<open>Coroutines that leave their handle in a list, on two scheduled ones.\<close>

definition log_resume :: "'h \<Rightarrow> (('h, 'k, 'h list) scheduler, unit) prog" where
  "log_resume h s = (Inr (), s\<lparr>the_rest := the_rest s @ [h]\<rparr>)"

definition two_scheduled :: "(nat, loop_os, nat list) scheduler" where
  "two_scheduled =
     snd (bind_prog (add_to_queue loop_kernel 7) (\<lambda>_. add_to_queue loop_kernel 8)
       (poll.extend \<lparr>epoll_fd = 3, callbacks = [], pk = \<lparr>los_next = 4, los_watched = [], los_count = []\<rparr>\<rparr>
          (scheduler.fields True (queue_new 4) 0 [])))"

lemma log_resume_keeps: "keeps_work V log_resume"
  unfolding keeps_work_def log_resume_def advances_def base_ok_def armed_def queued_def by auto

lemma two_scheduled_eq:
  "two_scheduled = \<lparr>epoll_fd = 3, callbacks = [(4, Drain_queue, True)],
     pk = \<lparr>los_next = 5, los_watched = [(3, 4)], los_count = [(4, 2), (4, 1)]\<rparr>,
     continue_polling = True,
     coro_queue = \<lparr>cq_size = 2, cq_capacity = 4, cq_buffer = [Some 7, Some 8, None, None],
       cq_head = 2, cq_tail = 0\<rparr>,
     notification_fd = 4, the_rest = []\<rparr>"
  by code_simp

lemma two_scheduled_ok: "sched_ok loop_view two_scheduled" "queued two_scheduled = [7, 8]"
proof -
  show q: "queued two_scheduled = [7, 8]"
    by (simp add: two_scheduled_eq queued_def queue_contents_def slot_def numeral_2_eq_2 upt_rec)
  have "queue_ok (coro_queue two_scheduled)"
    by (auto simp: two_scheduled_eq queue_ok_def slot_def less_Suc_eq numeral_2_eq_2)
  with q show "sched_ok loop_view two_scheduled"
    by (auto simp: sched_ok_def base_ok_def armed_def two_scheduled_eq loop_view_def los_value_def)
qed

theorem run_leaves_no_work_witness:
  "\<exists>s'. scheduler_run loop_kernel 32 log_resume True two_scheduled = Some (Inr (), s') \<and> the_rest s' = [7, 8] \<and>
     queued s' = []"
proof -
  have "\<exists>s'. scheduler_run loop_kernel 32 log_resume True two_scheduled = Some (Inr (), s')"
  proof -
    have "map_option fst (scheduler_run loop_kernel 32 log_resume True two_scheduled) = Some (Inr ())"
      by code_simp
    then show ?thesis by (cases "scheduler_run loop_kernel 32 log_resume True two_scheduled") auto
  qed
  then obtain s' where s': "scheduler_run loop_kernel 32 log_resume True two_scheduled = Some (Inr (), s')" ..
  have "map_option (\<lambda>x. (the_rest (snd x), continue_polling (snd x)))
      (scheduler_run loop_kernel 32 log_resume True two_scheduled) = Some ([7, 8], True)"
    by code_simp
  with s' have "the_rest s' = [7, 8]" "continue_polling s'" by simp_all
  with run_leaves_no_work [OF loop.event_kernel_axioms log_resume_keeps two_scheduled_ok(1) s'] s'
  show ?thesis by auto
qed

text \<open>
  C17: queued work is run, in order. While there is work in the queue of a scheduler in
  order, the wait of the event loop does not block; and the callback that drains the queue,
  when it returns, has resumed exactly the coroutines that were in the queue when it started,
  each once and in the order they were scheduled, whatever they have scheduled themselves.
\<close>

theorem queued_work_runs:
  assumes "event_kernel K V" "keeps_work V resume" "sched_ok V s" "queued s \<noteq> []"
    and logs: "\<And>h s s'. resume h s = (Inr (), s') \<Longrightarrow> trace (the_rest s') = trace (the_rest s) @ [h]"
  shows "fst (p_wait K (epoll_fd s) n (-1) (pk s)) \<noteq> None \<and>
    map_of (callbacks s) (notification_fd s) = Some (Drain_queue, True) \<and>
    (\<forall>s'. bind_prog (epoll_remove K (notification_fd s)) (\<lambda>_. call K resume Drain_queue) s = (Inr (), s') \<longrightarrow>
       trace (the_rest s') = trace (the_rest s) @ queued s)"
proof (intro conjI allI impI)
  have base: "base_ok V s" using assms(3) by (simp add: sched_ok_def)
  show "fst (p_wait K (epoll_fd s) n (-1) (pk s)) \<noteq> None"
    by (rule event_kernel.wait_does_not_block [OF assms(1,3,4)])
  have "(notification_fd s, Drain_queue, True) \<in> set (callbacks s)" "distinct (map fst (callbacks s))"
    using assms(3,4) by (simp_all add: sched_ok_def armed_def base_ok_def)
  then show "map_of (callbacks s) (notification_fd s) = Some (Drain_queue, True)" by simp
  fix s'
  assume "bind_prog (epoll_remove K (notification_fd s)) (\<lambda>_. call K resume Drain_queue) s = (Inr (), s')"
  then obtain s1 where s1: "epoll_remove K (notification_fd s) s = (Inr (), s1)"
      "call K resume Drain_queue s1 = (Inr (), s')"
    by (auto simp: bind_prog_eq_Inr_iff)
  have "base_ok V s1" "queued s1 = queued s" "the_rest s1 = the_rest s"
    using event_kernel.epoll_remove_ok [OF assms(1) base s1(1)] by (simp_all add: queued_def)
  with event_kernel.drain_batch [where trace = trace, OF assms(1,2) _ s1(2) logs]
  show "trace (the_rest s') = trace (the_rest s) @ queued s" by simp
qed

theorem queued_work_runs_witness:
  "fst (p_wait loop_kernel 3 32 (-1) (pk two_scheduled)) \<noteq> None \<and>
   (\<exists>s'. bind_prog (epoll_remove loop_kernel 4) (\<lambda>_. call loop_kernel log_resume Drain_queue) two_scheduled =
       (Inr (), s') \<and> the_rest s' = [7, 8])"
proof -
  let ?drain = "bind_prog (epoll_remove loop_kernel 4) (\<lambda>_. call loop_kernel log_resume Drain_queue) two_scheduled"
  have "fst ?drain = Inr ()" by code_simp
  then have drain: "?drain = (Inr (), snd ?drain)" by (metis prod.collapse)
  have fields: "epoll_fd two_scheduled = 3" "notification_fd two_scheduled = 4" "the_rest two_scheduled = []"
    by (simp_all add: two_scheduled_eq)
  have "queued two_scheduled \<noteq> []" by (simp add: two_scheduled_ok)
  note runs = queued_work_runs [where trace = "\<lambda>x. x" and n = 32,
      OF loop.event_kernel_axioms log_resume_keeps two_scheduled_ok(1) this]
  have "fst (p_wait loop_kernel 3 32 (-1) (pk two_scheduled)) \<noteq> None \<and> the_rest (snd ?drain) = [7, 8]"
    using runs drain unfolding fields two_scheduled_ok(2) by (auto simp: log_resume_def)
  with drain show ?thesis by metis
qed

end
