(* ===== verification/Generators.thy ===== *)
theory Generators
  imports Flag_Format
begin

text \<open>
  Generators and ranges, \<open>src/lw/co/generator.h\<close> and \<open>src/lw/co/sequences.h\<close>.

  The body of a generator is a function from the state the coroutine is suspended in to what
  happens when it is resumed: it yields a value and is suspended again, it returns, or it
  fails. Resuming a coroutine that has returned is undefined. The two ways of going through
  a generator, \<open>while (g.next())\<close> and \<open>for (x : g)\<close>, are loops that may not end; they are
  functions to \<open>option\<close>, and \<open>unfolds\<close> says which values a body yields before it returns.

  The ranges are bodies over the integer types. Arithmetic on them is undefined out of range
  for signed types of 32 bits and more, and wraps for the others.
\<close>

section \<open>Generators\<close>

datatype ('t, 'b) resumed = Yields 't 'b | Returns | Faults fault

record ('t, 'b) generator =
  gen_body :: 'b
  gen_done :: bool
  gen_value :: "'t option"

definition generator_new :: "'b \<Rightarrow> ('t, 'b) generator" where
  "generator_new b = \<lparr>gen_body = b, gen_done = False, gen_value = None\<rparr>"

text \<open>\<open>unhandled_exception\<close> ends the program.\<close>

definition generator_fault :: "fault \<Rightarrow> fault" where
  "generator_fault f = (if f \<in> {Undefined_behaviour, Does_not_return} then f else Terminates)"

definition generator_next ::
  "('b \<Rightarrow> ('t, 'b) resumed) \<Rightarrow> (('t, 'b) generator, bool) prog" where
  "generator_next body g =
     (if gen_done g then (Inl Undefined_behaviour, g)
      else case body (gen_body g) of
          Yields v b \<Rightarrow> (Inr True, g\<lparr>gen_body := b, gen_value := Some v\<rparr>)
        | Returns \<Rightarrow> (Inr False, g\<lparr>gen_done := True\<rparr>)
        | Faults f \<Rightarrow> (Inl (generator_fault f), g))"

definition generator_value :: "('t, 'b) generator \<Rightarrow> 't res" where
  "generator_value g = (case gen_value g of Some v \<Rightarrow> Inr v | None \<Rightarrow> Inl Undefined_behaviour)"

text \<open>An iterator points to its generator or is the end iterator, which points to nothing.\<close>

definition generator_begin ::
  "('b \<Rightarrow> ('t, 'b) resumed) \<Rightarrow> (('t, 'b) generator, bool) prog" where
  "generator_begin body g =
     (case (if gen_value g = None then generator_next body g else (Inr True, g)) of
        (Inl f, g') \<Rightarrow> (Inl f, g')
      | (Inr _, g') \<Rightarrow> (Inr (\<not> gen_done g'), g'))"

definition generator_end :: bool where
  "generator_end = False"

definition iterator_step ::
  "('b \<Rightarrow> ('t, 'b) resumed) \<Rightarrow> bool \<Rightarrow> (('t, 'b) generator, bool) prog" where
  "iterator_step body it g = (if it then generator_next body g else (Inr it, g))"

definition iterator_deref :: "bool \<Rightarrow> ('t, 'b) generator \<Rightarrow> 't res" where
  "iterator_deref it g = (if it then generator_value g else Inl Undefined_behaviour)"

section \<open>Going through a generator\<close>

partial_function (option) next_loop ::
  "('b \<Rightarrow> ('t, 'b) resumed) \<Rightarrow> ('t, 'b) generator \<Rightarrow> ('t list res \<times> ('t, 'b) generator) option" where
  "next_loop body g =
     (case generator_next body g of
        (Inl f, g') \<Rightarrow> Some (Inl f, g')
      | (Inr has_value, g') \<Rightarrow>
          if \<not> has_value then Some (Inr [], g')
          else case generator_value g' of
              Inl f \<Rightarrow> Some (Inl f, g')
            | Inr v \<Rightarrow>
                Option.bind (next_loop body g') (\<lambda>(r, g2). Some (map_res (\<lambda>vs. v # vs) r, g2)))"

partial_function (option) iterator_loop ::
  "('b \<Rightarrow> ('t, 'b) resumed) \<Rightarrow> bool \<Rightarrow> ('t, 'b) generator \<Rightarrow>
   ('t list res \<times> ('t, 'b) generator) option" where
  "iterator_loop body it g =
     (if it = generator_end then Some (Inr [], g)
      else case iterator_deref it g of
          Inl f \<Rightarrow> Some (Inl f, g)
        | Inr v \<Rightarrow>
            (case iterator_step body it g of
               (Inl f, g') \<Rightarrow> Some (Inl f, g')
             | (Inr it', g') \<Rightarrow>
                 Option.bind (iterator_loop body it' g')
                   (\<lambda>(r, g2). Some (map_res (\<lambda>vs. v # vs) r, g2))))"

definition range_for ::
  "('b \<Rightarrow> ('t, 'b) resumed) \<Rightarrow> ('t, 'b) generator \<Rightarrow> ('t list res \<times> ('t, 'b) generator) option" where
  "range_for body g =
     (case generator_begin body g of
        (Inl f, g') \<Rightarrow> Some (Inl f, g')
      | (Inr it, g') \<Rightarrow> iterator_loop body it g')"

declare next_loop.simps [code] iterator_loop.simps [code]

section \<open>Ranges\<close>

definition arith :: "num_type \<Rightarrow> int \<Rightarrow> int res" where
  "arith ty x =
     (if num_min ty \<le> x \<and> x \<le> num_max ty then Inr x
      else if num_signed ty \<and> 32 \<le> num_bits ty then Inl Undefined_behaviour
      else Inr ((x - num_min ty) mod 2 ^ num_bits ty + num_min ty))"

text \<open>
  Where a range is suspended: before its first step, or at a \<open>co_yield\<close> of the descending or of
  the ascending loop with the value of \<open>i\<close>.
\<close>

datatype range_state = Enter int | Down int | Up int

definition yield_if :: "bool \<Rightarrow> int \<Rightarrow> (int \<Rightarrow> range_state) \<Rightarrow> (int, range_state) resumed" where
  "yield_if b i st = (if b then Yields i (st i) else Returns)"

fun range_body :: "num_type \<Rightarrow> int \<Rightarrow> range_state \<Rightarrow> (int, range_state) resumed" where
  "range_body ty e (Enter b) =
     (if e < b then yield_if (b \<noteq> e) b Down else yield_if (b \<noteq> e) b Up)"
| "range_body ty e (Down i) =
     (case arith ty (i - 1) of Inl f \<Rightarrow> Faults f | Inr j \<Rightarrow> yield_if (j \<noteq> e) j Down)"
| "range_body ty e (Up i) =
     (case arith ty (i + 1) of Inl f \<Rightarrow> Faults f | Inr j \<Rightarrow> yield_if (j \<noteq> e) j Up)"

fun range_by_body :: "num_type \<Rightarrow> int \<Rightarrow> int \<Rightarrow> range_state \<Rightarrow> (int, range_state) resumed" where
  "range_by_body ty e inc (Enter b) =
     (if e < b then yield_if (e < b) b Down else yield_if (b < e) b Up)"
| "range_by_body ty e inc (Down i) =
     (case arith ty (i - inc) of Inl f \<Rightarrow> Faults f | Inr j \<Rightarrow> yield_if (e < j) j Down)"
| "range_by_body ty e inc (Up i) =
     (case arith ty (i + inc) of Inl f \<Rightarrow> Faults f | Inr j \<Rightarrow> yield_if (j < e) j Up)"

section \<open>What a body yields\<close>

inductive unfolds :: "('b \<Rightarrow> ('t, 'b) resumed) \<Rightarrow> 'b \<Rightarrow> 't list \<Rightarrow> bool" for body where
  unfolds_end: "body b = Returns \<Longrightarrow> unfolds body b []"
| unfolds_more: "body b = Yields v b' \<Longrightarrow> unfolds body b' vs \<Longrightarrow> unfolds body b (v # vs)"

inductive_simps unfolds_Cons: "unfolds body b (v # vs)"
inductive_simps unfolds_Nil: "unfolds body b []"

lemma unfolds_unique: "unfolds body b vs \<Longrightarrow> unfolds body b ws \<Longrightarrow> vs = ws"
proof (induction arbitrary: ws rule: unfolds.induct)
  case (unfolds_end b)
  then show ?case by (auto elim: unfolds.cases)
next
  case (unfolds_more b v b' vs)
  from unfolds_more.prems unfolds_more.hyps(1) obtain us where "ws = v # us" "unfolds body b' us"
    by (auto elim: unfolds.cases)
  then show ?case using unfolds_more.IH by simp
qed

lemma next_loop_unfolds:
  "unfolds body b vs \<Longrightarrow> gen_body g = b \<Longrightarrow> \<not> gen_done g \<Longrightarrow>
   \<exists>g'. next_loop body g = Some (Inr vs, g') \<and> gen_done g'"
proof (induction arbitrary: g rule: unfolds.induct)
  case (unfolds_end b)
  then show ?case by (subst next_loop.simps) (simp add: generator_next_def)
next
  case (unfolds_more b v b' vs)
  let ?g = "g\<lparr>gen_body := b', gen_value := Some v\<rparr>"
  obtain g' where "next_loop body ?g = Some (Inr vs, g')" "gen_done g'"
    using unfolds_more.IH [of ?g] unfolds_more.prems by auto
  then show ?case
    using unfolds_more.hyps(1) unfolds_more.prems
    by (subst next_loop.simps) (simp add: generator_next_def generator_value_def)
qed

lemma iterator_loop_unfolds:
  "unfolds body b vs \<Longrightarrow> gen_body g = b \<Longrightarrow> \<not> gen_done g \<Longrightarrow> gen_value g = Some v \<Longrightarrow>
   \<exists>g'. iterator_loop body True g = Some (Inr (v # vs), g') \<and> gen_done g'"
proof (induction arbitrary: g v rule: unfolds.induct)
  case (unfolds_end b)
  let ?g = "g\<lparr>gen_done := True\<rparr>"
  have "iterator_loop body False ?g = Some (Inr [], ?g)"
    by (subst iterator_loop.simps) (simp add: generator_end_def)
  with unfolds_end show ?case
    by (subst iterator_loop.simps)
      (simp add: generator_end_def iterator_deref_def iterator_step_def generator_next_def generator_value_def)
next
  case (unfolds_more b v' b' vs)
  let ?g = "g\<lparr>gen_body := b', gen_value := Some v'\<rparr>"
  obtain g' where "iterator_loop body True ?g = Some (Inr (v' # vs), g')" "gen_done g'"
    using unfolds_more.IH [of ?g v'] unfolds_more.prems by auto
  then show ?case
    using unfolds_more.hyps(1) unfolds_more.prems
    by (subst iterator_loop.simps)
      (simp add: generator_end_def iterator_deref_def iterator_step_def generator_next_def generator_value_def)
qed

lemma range_for_unfolds:
  assumes "unfolds body b vs"
  shows "\<exists>g'. range_for body (generator_new b) = Some (Inr vs, g') \<and> gen_done g'"
  using assms
proof (cases rule: unfolds.cases)
  case unfolds_end
  then show ?thesis
    by (simp add: range_for_def generator_begin_def generator_new_def generator_next_def iterator_loop.simps
        generator_end_def)
next
  case (unfolds_more v b' us)
  let ?g = "\<lparr>gen_body = b', gen_done = False, gen_value = Some v\<rparr>"
  obtain g' where "iterator_loop body True ?g = Some (Inr (v # us), g')" "gen_done g'"
    using iterator_loop_unfolds [OF unfolds_more(3), of ?g v] by auto
  with unfolds_more show ?thesis
    by (simp add: range_for_def generator_begin_def generator_new_def generator_next_def)
qed

text \<open>Conversely, a loop that returns has visited what the body yields.\<close>

lemma next_loop_sound:
  "next_loop body g = Some x \<Longrightarrow> x = (Inr vs, g') \<Longrightarrow> unfolds body (gen_body g) vs"
proof (induction body g x arbitrary: vs g' rule: next_loop.raw_induct [rotated, consumes 1, case_names step])
  case (step loop body g x)
  show ?case
  proof (cases "body (gen_body g)")
    case (Yields v b)
    with step.hyps step.prems obtain us where "vs = v # us"
      "loop body (g\<lparr>gen_body := b, gen_value := Some v\<rparr>) = Some (Inr us, g')"
      by (auto simp: generator_next_def generator_value_def map_res_eq_Inr_iff bind_eq_Some_conv split: if_splits)
    with step.IH [OF this(2) refl] Yields show ?thesis by (simp add: unfolds_Cons)
  next
    case Returns
    with step.hyps step.prems show ?thesis
      by (auto simp: generator_next_def unfolds_Nil split: if_splits)
  next
    case (Faults f)
    with step.hyps step.prems show ?thesis by (auto simp: generator_next_def split: if_splits)
  qed
qed

lemma iterator_loop_sound:
  "iterator_loop body it g = Some x \<Longrightarrow> x = (Inr vs, g') \<Longrightarrow>
   (\<not> it \<longrightarrow> vs = []) \<and>
   (it \<and> \<not> gen_done g \<longrightarrow> (\<exists>v us. gen_value g = Some v \<and> vs = v # us \<and> unfolds body (gen_body g) us))"
proof (induction body it g x arbitrary: vs g' rule: iterator_loop.raw_induct [rotated, consumes 1, case_names step])
  case (step loop body it g x)
  note eqs = generator_end_def iterator_deref_def iterator_step_def generator_next_def generator_value_def
    map_res_eq_Inr_iff bind_eq_Some_conv
  show ?case
  proof (cases "it \<and> \<not> gen_done g")
    case True
    then obtain v where v: "gen_value g = Some v"
      using step.hyps step.prems by (cases "gen_value g") (auto simp: eqs)
    show ?thesis
    proof (cases "body (gen_body g)")
      case (Yields v' b)
      with True v step.hyps step.prems obtain us where us: "vs = v # us"
        "loop body True (g\<lparr>gen_body := b, gen_value := Some v'\<rparr>) = Some (Inr us, g')"
        by (auto simp: eqs)
      with step.IH [OF us(2) refl] True v Yields show ?thesis by (auto simp: unfolds_Cons)
    next
      case Returns
      with True v step.hyps step.prems obtain us where us: "vs = v # us"
        "loop body False (g\<lparr>gen_done := True\<rparr>) = Some (Inr us, g')"
        by (auto simp: eqs)
      with step.IH [OF us(2) refl] True v Returns show ?thesis by (auto simp: unfolds_Nil)
    next
      case (Faults f)
      with True v step.hyps step.prems show ?thesis by (auto simp: eqs)
    qed
  next
    case False
    then show ?thesis using step.hyps step.prems by (auto simp: generator_end_def)
  qed
qed

lemma range_for_sound:
  assumes "range_for body (generator_new b) = Some (Inr vs, g')"
  shows "unfolds body b vs"
proof (cases "body b")
  case (Yields v b')
  with assms have "iterator_loop body True \<lparr>gen_body = b', gen_done = False, gen_value = Some v\<rparr> = Some (Inr vs, g')"
    by (simp add: range_for_def generator_begin_def generator_new_def generator_next_def)
  from iterator_loop_sound [OF this refl] Yields show ?thesis by (auto simp: unfolds_Cons)
next
  case Returns
  with assms show ?thesis
    by (simp add: range_for_def generator_begin_def generator_new_def generator_next_def iterator_loop.simps
        generator_end_def unfolds_Nil)
next
  case (Faults f)
  with assms show ?thesis
    by (simp add: range_for_def generator_begin_def generator_new_def generator_next_def)
qed

text \<open>A second \<open>begin()\<close> on a generator that has ended without a value resumes it once more.\<close>

lemma begin_again_undefined:
  assumes "body b = Returns"
  shows "fst (generator_begin body (snd (generator_begin body (generator_new b)))) = Inl Undefined_behaviour"
  using assms by (simp add: generator_begin_def generator_next_def generator_new_def)

section \<open>What the ranges yield\<close>

lemma arith_in_range: "num_fits ty x \<Longrightarrow> arith ty x = Inr x"
  by (simp add: arith_def num_fits_def)

lemma range_up:
  "i < e \<Longrightarrow> num_fits ty i \<Longrightarrow> num_fits ty e \<Longrightarrow> unfolds (range_body ty e) (Up i) [i + 1 .. e - 1]"
proof (induction "nat (e - i)" arbitrary: i rule: less_induct)
  case less
  have fits: "num_fits ty (i + 1)" using less.prems by (auto simp: num_fits_def)
  show ?case
  proof (cases "i + 1 = e")
    case True
    then show ?thesis using fits by (auto simp: unfolds_Nil arith_in_range yield_if_def)
  next
    case False
    with less.prems have "unfolds (range_body ty e) (Up (i + 1)) [i + 1 + 1 .. e - 1]"
      using less.hyps [of "i + 1"] fits by simp
    with False less.prems fits show ?thesis
      by (subst upto_rec1) (auto simp: unfolds_Cons arith_in_range yield_if_def)
  qed
qed

lemma range_down:
  "e < i \<Longrightarrow> num_fits ty i \<Longrightarrow> num_fits ty e \<Longrightarrow> unfolds (range_body ty e) (Down i) (rev [e + 1 .. i - 1])"
proof (induction "nat (i - e)" arbitrary: i rule: less_induct)
  case less
  have fits: "num_fits ty (i - 1)" using less.prems by (auto simp: num_fits_def)
  show ?case
  proof (cases "i - 1 = e")
    case True
    then show ?thesis using fits by (auto simp: unfolds_Nil arith_in_range yield_if_def)
  next
    case False
    with less.prems have "unfolds (range_body ty e) (Down (i - 1)) (rev [e + 1 .. i - 1 - 1])"
      using less.hyps [of "i - 1"] fits by simp
    with False less.prems fits show ?thesis
      by (subst upto_rec2) (auto simp: unfolds_Cons arith_in_range yield_if_def)
  qed
qed

lemma range_unfolds:
  assumes "num_fits ty b" "num_fits ty e"
  shows "unfolds (range_body ty e) (Enter b) (if e < b then rev [e + 1 .. b] else [b .. e - 1])"
proof (cases e b rule: linorder_cases)
  case less
  have "rev [e + 1 .. b] = b # rev [e + 1 .. b - 1]" using less by (subst upto_rec2) auto
  with less range_down [OF less assms] show ?thesis by (simp add: unfolds_Cons yield_if_def)
next
  case equal
  then show ?thesis by (simp add: unfolds_Nil yield_if_def)
next
  case greater
  have "[b .. e - 1] = b # [b + 1 .. e - 1]" using greater by (subst upto_rec1) auto
  with greater range_up [OF greater assms] show ?thesis by (simp add: unfolds_Cons yield_if_def)
qed

text \<open>With an increment: the multiples, and the first value that is not below the end.\<close>

definition steps_from :: "int \<Rightarrow> int \<Rightarrow> int \<Rightarrow> int list" where
  "steps_from b e inc = filter (\<lambda>x. inc dvd (x - b)) [b .. e - 1]"

definition first_past :: "int \<Rightarrow> int \<Rightarrow> int \<Rightarrow> int" where
  "first_past b e inc = b + inc * ((e - b + inc - 1) div inc)"

lemma steps_from_rec:
  assumes "0 < inc" "b < e"
  shows "steps_from b e inc = b # steps_from (b + inc) e inc"
proof -
  have none: "filter (\<lambda>x. inc dvd (x - b)) [b + 1 .. min (b + inc - 1) (e - 1)] = []"
    using assms by (auto simp: filter_empty_conv dest!: zdvd_imp_le)
  have split: "[b .. e - 1] = b # [b + 1 .. min (b + inc - 1) (e - 1)] @ [b + inc .. e - 1]"
  proof (cases "b + inc \<le> e - 1")
    case True
    then have "[b + 1 .. e - 1] = [b + 1 .. b + inc - 1] @ [b + inc .. e - 1]"
      using assms by (intro upto_split1) auto
    with True assms show ?thesis by (subst upto_rec1) auto
  next
    case False
    with assms show ?thesis by (subst upto_rec1) auto
  qed
  have "inc dvd (x - b) \<longleftrightarrow> inc dvd (x - (b + inc))" for x
    by (metis add_diff_cancel_left' diff_diff_add dvd_diff_commute dvd_add_right_iff diff_add_cancel dvd_refl)
  with none show ?thesis unfolding steps_from_def by (subst split) (simp del: upto.simps)
qed

lemma steps_from_end: "e \<le> b \<Longrightarrow> steps_from b e inc = []"
  by (simp add: steps_from_def)

lemma first_past_rec: "0 < inc \<Longrightarrow> first_past (b + inc) e inc = first_past b e inc"
proof -
  assume "0 < inc"
  then have "(e - b + inc - 1) div inc = (e - (b + inc) + inc - 1) div inc + 1"
    using div_add_self2 [of inc "e - (b + inc) + inc - 1"] by (simp add: algebra_simps)
  then show ?thesis by (simp add: first_past_def algebra_simps)
qed

lemma first_past_here:
  assumes "0 < inc" "e \<le> b" "b < e + inc"
  shows "first_past b e inc = b"
proof -
  have "(e - b + inc - 1) div inc = 0" using assms by (simp add: div_pos_pos_trivial)
  then show ?thesis by (simp add: first_past_def)
qed

lemma range_by_up:
  "0 < inc \<Longrightarrow> i < e \<Longrightarrow> num_fits ty i \<Longrightarrow> num_fits ty e \<Longrightarrow> first_past i e inc \<le> num_max ty \<Longrightarrow>
   unfolds (range_by_body ty e inc) (Up i) (steps_from (i + inc) e inc)"
proof (induction "nat (e - i)" arbitrary: i rule: less_induct)
  case less
  show ?case
  proof (cases "i + inc < e")
    case True
    then have "num_fits ty (i + inc)" using less.prems by (auto simp: num_fits_def)
    moreover have "unfolds (range_by_body ty e inc) (Up (i + inc)) (steps_from (i + inc + inc) e inc)"
      using less.hyps [of "i + inc"] less.prems True calculation by (simp add: first_past_rec)
    ultimately show ?thesis
      using True less.prems(1) by (simp add: steps_from_rec unfolds_Cons arith_in_range yield_if_def)
  next
    case False
    then have "first_past i e inc = i + inc"
      using first_past_rec [of inc i e] first_past_here [of inc e "i + inc"] less.prems by simp
    then have "num_fits ty (i + inc)" using less.prems False by (auto simp: num_fits_def)
    with False show ?thesis
      by (simp add: steps_from_end unfolds_Nil arith_in_range yield_if_def)
  qed
qed

lemma range_by_overflow:
  assumes wide: "num_signed ty" "32 \<le> num_bits ty"
  shows "unfolds body s vs \<Longrightarrow> body = range_by_body ty e inc \<Longrightarrow> s = Up i \<Longrightarrow>
    0 < inc \<Longrightarrow> i < e \<Longrightarrow> num_fits ty i \<Longrightarrow> num_fits ty e \<Longrightarrow> first_past i e inc \<le> num_max ty"
proof (induction arbitrary: i rule: unfolds.induct)
  case (unfolds_end s)
  then have "num_fits ty (i + inc) \<and> e \<le> i + inc"
    using wide by (auto simp: arith_def num_fits_def yield_if_def split: if_splits)
  moreover from this have "first_past i e inc = i + inc"
    using first_past_rec [of inc i e] first_past_here [of inc e "i + inc"] unfolds_end.prems by simp
  ultimately show ?case by (simp add: num_fits_def)
next
  case (unfolds_more s v s' vs)
  then have "num_fits ty (i + inc) \<and> i + inc < e \<and> s' = Up (i + inc)"
    using wide by (auto simp: arith_def num_fits_def yield_if_def split: if_splits)
  with unfolds_more show ?case by (simp add: first_past_rec)
qed

section \<open>Properties\<close>

text \<open>
  C28: both ways of going through a new generator, \<open>for (x : g)\<close> and \<open>while (g.next())\<close>, return
  exactly when the body of the coroutine returns after finitely many values, and they visit
  these values in the order they are yielded. The generator is never resumed after its end.
\<close>

theorem generator_loops_visit:
  "((\<exists>g. range_for body (generator_new b) = Some (Inr vs, g)) \<longleftrightarrow> unfolds body b vs) \<and>
   ((\<exists>g. next_loop body (generator_new b) = Some (Inr vs, g)) \<longleftrightarrow> unfolds body b vs)"
  using range_for_unfolds [of body b vs] range_for_sound [of body b vs]
    next_loop_unfolds [of body b vs "generator_new b"] next_loop_sound [of body "generator_new b" _ vs]
  by (auto simp: generator_new_def)

text \<open>
  A loop over \<open>range(b, e)\<close> ends for any two numbers of the type. It visits \<open>b\<close> up to
  but not including \<open>e\<close>, or \<open>b\<close> down to but not including \<open>e\<close> when \<open>e\<close> is smaller, and no
  arithmetic leaves the type, also at its ends.
\<close>

theorem range_enumerates:
  assumes "num_fits ty b" "num_fits ty e"
  shows "\<exists>g. range_for (range_body ty e) (generator_new (Enter b)) =
    Some (Inr (if e < b then rev [e + 1 .. b] else [b .. e - 1]), g)"
  using range_for_unfolds [OF range_unfolds [OF assms]] by blast

theorem range_enumerates_witness:
  "\<exists>g. range_for (range_body T_short (-32768)) (generator_new (Enter (-32765))) =
     Some (Inr [-32765, -32766, -32767], g)"
proof -
  have "num_fits T_short (-32765)" "num_fits T_short (-32768)"
    by (simp_all add: num_fits_def num_min_def num_max_def)
  from range_enumerates [OF this] show ?thesis by (simp add: upto_rec1)
qed

text \<open>
  A loop over \<open>range(b, e, inc)\<close> upwards visits the numbers from \<open>b\<close> below \<open>e\<close> that are a
  multiple of the increment away from \<open>b\<close>, provided that the first multiple that is not below
  \<open>e\<close> is a number of the type; on the signed types of 32 bits and more the loop returns only
  then, since it computes that number.
\<close>

theorem range_by_enumerates:
  assumes "num_fits ty b" "num_fits ty e" "0 < inc" "b < e"
  shows "(first_past b e inc \<le> num_max ty \<longrightarrow>
      (\<exists>g. range_for (range_by_body ty e inc) (generator_new (Enter b)) = Some (Inr (steps_from b e inc), g))) \<and>
    (num_signed ty \<and> 32 \<le> num_bits ty \<and>
      (\<exists>vs g. range_for (range_by_body ty e inc) (generator_new (Enter b)) = Some (Inr vs, g)) \<longrightarrow>
      first_past b e inc \<le> num_max ty)"
proof (intro conjI impI; (elim conjE exE)?)
  assume "first_past b e inc \<le> num_max ty"
  with range_by_up [of inc b e ty] assms
  have "unfolds (range_by_body ty e inc) (Enter b) (steps_from b e inc)"
    by (simp add: steps_from_rec unfolds_Cons yield_if_def)
  from range_for_unfolds [OF this]
  show "\<exists>g. range_for (range_by_body ty e inc) (generator_new (Enter b)) = Some (Inr (steps_from b e inc), g)"
    by blast
next
  fix vs g
  assume wide: "num_signed ty" "32 \<le> num_bits ty"
    and visits: "range_for (range_by_body ty e inc) (generator_new (Enter b)) = Some (Inr vs, g)"
  have "unfolds (range_by_body ty e inc) (Enter b) vs" by (rule range_for_sound [OF visits])
  with assms(4) obtain us where "unfolds (range_by_body ty e inc) (Up b) us"
    by (auto simp: yield_if_def elim: unfolds.cases)
  then show "first_past b e inc \<le> num_max ty"
    using range_by_overflow [OF wide _ refl refl assms(3,4,1,2)] by blast
qed

theorem range_by_enumerates_witness:
  "(\<exists>g. range_for (range_by_body T_int 10 3) (generator_new (Enter 0)) = Some (Inr [0, 3, 6, 9], g)) \<and>
   (\<nexists>vs g. range_for (range_by_body T_int 2147483647 2) (generator_new (Enter 0)) = Some (Inr vs, g))"
proof
  have bounds: "num_max T_int = 2147483647" "num_min T_int = -2147483648"
    by (simp_all add: num_min_def num_max_def)
  have "steps_from 0 10 3 = [0, 3, 6, 9]" by (simp add: steps_from_rec steps_from_end)
  moreover have "first_past 0 10 3 \<le> num_max T_int" by (simp add: first_past_def bounds)
  ultimately show "\<exists>g. range_for (range_by_body T_int 10 3) (generator_new (Enter 0)) = Some (Inr [0, 3, 6, 9], g)"
    using range_by_enumerates [of T_int 0 10 3] by (simp add: num_fits_def bounds)
  have "\<not> first_past 0 2147483647 2 \<le> num_max T_int" by (simp add: first_past_def bounds)
  then show "\<nexists>vs g. range_for (range_by_body T_int 2147483647 2) (generator_new (Enter 0)) = Some (Inr vs, g)"
    using range_by_enumerates [of T_int 0 2147483647 2] by (simp add: num_fits_def bounds)
qed

end
