(* ===== verification/Server.thy ===== *)
theory Server
  imports Socket
begin

text \<open>
  The server, \<open>src/lw/net/server.h\<close> and \<open>src/lw/net/server.cpp\<close>: the ports with their routers
  and sockets, and the operations that open and close them.

  Routers are a parameter: \<open>attach\<close> is what \<open>attach_routes()\<close> of a router answers, \<open>count\<close> its
  \<open>connection_count()\<close>. The event loop of the calling thread, with the accept loops scheduled on
  it, is the parameter \<open>loop\<close>, and \<open>stop\<close> is \<open>Scheduler::for_thread(...).stop()\<close>. The map of
  ports is an association list in the order in which the map is iterated. A socket pointer is
  \<open>None\<close> when it is null and otherwise the descriptor of the socket, 0 when it is closed.
\<close>

record 'r port_socket =
  ps_router :: 'r
  ps_socket :: "int option"

record ('r, 'k) server =
  sv_listening :: bool
  sv_running :: bool
  sv_ports :: "(nat \<times> 'r port_socket) list"
  sv_os :: 'k

definition server_new :: "'k \<Rightarrow> ('r, 'k) server" where
  "server_new k = \<lparr>sv_listening = False, sv_running = False, sv_ports = [], sv_os = k\<rparr>"

definition attach_router ::
  "('r \<Rightarrow> unit res) \<Rightarrow> nat \<Rightarrow> 'r option \<Rightarrow> (('r, 'k) server, unit) prog" where
  "attach_router attach port router s =
     (case router of
        None \<Rightarrow> (Inl (Err InvalidArgument), s)
      | Some r \<Rightarrow>
          if sv_listening s then (Inl (Err FailedPrecondition), s)
          else if map_of (sv_ports s) port \<noteq> None then (Inl (Err AlreadyExists), s)
          else (attach r, s\<lparr>sv_ports := (port, \<lparr>ps_router = r, ps_socket = None\<rparr>) # sv_ports s\<rparr>))"

section \<open>Listening\<close>

definition socket_of :: "'r port_socket \<Rightarrow> int" where
  "socket_of e = (case ps_socket e of None \<Rightarrow> 0 | Some fd \<Rightarrow> fd)"

fun listen_ports ::
  "'k kernel \<Rightarrow> int \<Rightarrow> (nat \<times> 'r port_socket) list \<Rightarrow> 'k \<Rightarrow>
   unit res \<times> (nat \<times> 'r port_socket) list \<times> 'k" where
  "listen_ports K backlog [] k = (Inr (), [], k)"
| "listen_ports K backlog ((port, e) # ports) k =
     (if is_open \<lparr>socket_fd = socket_of e, os = k\<rparr> then
        (case listen_ports K backlog ports k of (r, ports', k') \<Rightarrow>
           (r, (port, e\<lparr>ps_socket := Some (socket_of e)\<rparr>) # ports', k'))
      else
        case listen_socket K backlog ''localhost'' (nat_to_string port)
               \<lparr>socket_fd = socket_of e, os = k\<rparr> of
          (Inl f, sk) \<Rightarrow> (Inl f, (port, e\<lparr>ps_socket := Some (socket_fd sk)\<rparr>) # ports, os sk)
        | (Inr u, sk) \<Rightarrow>
            (case listen_ports K backlog ports (os sk) of (r, ports', k') \<Rightarrow>
               (r, (port, e\<lparr>ps_socket := Some (socket_fd sk)\<rparr>) # ports', k')))"

text \<open>Resetting the pointers, which destroys the sockets.\<close>

fun drop_sockets ::
  "'k kernel \<Rightarrow> (nat \<times> 'r port_socket) list \<Rightarrow> 'k \<Rightarrow> (nat \<times> 'r port_socket) list \<times> 'k" where
  "drop_sockets K [] k = ([], k)"
| "drop_sockets K ((port, e) # ports) k =
     (case drop_sockets K ports (socket_destroy K (socket_of e) k) of (ports', k') \<Rightarrow>
        ((port, e\<lparr>ps_socket := None\<rparr>) # ports', k'))"

definition server_listen :: "'k kernel \<Rightarrow> int \<Rightarrow> (('r, 'k) server, unit) prog" where
  "server_listen K backlog s =
     (if sv_listening s then (Inl (Err FailedPrecondition), s)
      else case listen_ports K backlog (sv_ports s) (sv_os s) of
          (Inr u, ports, k) \<Rightarrow> (Inr (), s\<lparr>sv_listening := True, sv_ports := ports, sv_os := k\<rparr>)
        | (Inl f, ports, k) \<Rightarrow>
            (case drop_sockets K ports k of (ports', k') \<Rightarrow>
               (Inl f, s\<lparr>sv_listening := False, sv_ports := ports', sv_os := k'\<rparr>)))"

section \<open>Closing\<close>

fun close_ports ::
  "'k kernel \<Rightarrow> (nat \<times> 'r port_socket) list \<Rightarrow> 'k \<Rightarrow> (nat \<times> 'r port_socket) list \<times> 'k" where
  "close_ports K [] k = ([], k)"
| "close_ports K ((port, e) # ports) k =
     (if is_open \<lparr>socket_fd = socket_of e, os = k\<rparr> then
        (case close_ports K ports (os (snd (close_socket K \<lparr>socket_fd = socket_of e, os = k\<rparr>))) of
           (ports', k') \<Rightarrow> ((port, e\<lparr>ps_socket := None\<rparr>) # ports', k'))
      else (case close_ports K ports k of (ports', k') \<Rightarrow> ((port, e) # ports', k')))"

definition force_close :: "'k kernel \<Rightarrow> ('k \<Rightarrow> unit res \<times> 'k) \<Rightarrow> (('r, 'k) server, unit) prog" where
  "force_close K stop_runner s =
     (if \<not> sv_running s then (Inr (), s)
      else case close_ports K (sv_ports s) (sv_os s) of (ports, k) \<Rightarrow>
        (case stop_runner k of (r, k') \<Rightarrow>
           (r, s\<lparr>sv_running := False, sv_listening := False, sv_ports := ports, sv_os := k'\<rparr>)))"

definition try_close ::
  "'k kernel \<Rightarrow> ('k \<Rightarrow> unit res \<times> 'k) \<Rightarrow> ('r \<Rightarrow> nat) \<Rightarrow> (('r, 'k) server, bool) prog" where
  "try_close K stop_runner count s =
     (if list_ex (\<lambda>(port, e). 0 < count (ps_router e)) (sv_ports s) then (Inr False, s)
      else bind_prog (force_close K stop_runner) (\<lambda>_. ret True) s)"

section \<open>Running\<close>

text \<open>The accept loop of one socket; \<open>handle\<close> schedules the router on the new connection.\<close>

partial_function (option) accept_loop ::
  "'k kernel \<Rightarrow> ('k \<Rightarrow> bool) \<Rightarrow> (int \<Rightarrow> ('k, unit) prog) \<Rightarrow> 'k sock \<Rightarrow> (unit res \<times> 'k sock) option" where
  "accept_loop K running handle s =
     (if \<not> running (os s) then Some (Inr (), s)
      else Option.bind (accept K s) (\<lambda>(r, s1).
        case r of
          Inl f \<Rightarrow> Some (Inl f, s1)
        | Inr client \<Rightarrow>
            (case handle client (os s1) of
               (Inl f, k) \<Rightarrow> Some (Inl f, s1\<lparr>os := k\<rparr>)
             | (Inr u, k) \<Rightarrow> accept_loop K running handle (s1\<lparr>os := k\<rparr>))))"

definition server_run :: "(('r, 'k) server, unit) prog \<Rightarrow> (('r, 'k) server, unit) prog" where
  "server_run loop s =
     (if \<not> sv_listening s then (Inl (Err FailedPrecondition), s)
      else if sv_running s then (Inl (Err FailedPrecondition), s)
      else case loop (s\<lparr>sv_running := True\<rparr>) of (r, s') \<Rightarrow> (r, s'\<lparr>sv_running := False\<rparr>))"

text \<open>
  The destructor, which is \<open>noexcept\<close>, and then the destruction of the map with its sockets.
\<close>

definition server_destroy ::
  "'k kernel \<Rightarrow> ('k \<Rightarrow> unit res \<times> 'k) \<Rightarrow> ('r \<Rightarrow> nat) \<Rightarrow> ('r, 'k) server \<Rightarrow> unit res \<times> 'k" where
  "server_destroy K stop_runner count s =
     (case bind_prog (try_close K stop_runner count)
             (\<lambda>closed. if closed then ret () else force_close K stop_runner) s of
        (Inl f, s') \<Rightarrow> (Inl Terminates, sv_os s')
      | (Inr u, s') \<Rightarrow> (Inr (), snd (drop_sockets K (sv_ports s') (sv_os s'))))"

section \<open>Descriptors of the server\<close>

definition open_fds :: "(nat \<times> 'r port_socket) list \<Rightarrow> int list" where
  "open_fds ports = filter (\<lambda>fd. fd \<noteq> 0) (map (\<lambda>(port, e). socket_of e) ports)"

text \<open>The descriptors are those that were open before the server, \<open>S\<close>, and those of its sockets.\<close>

definition holds_fds :: "('k \<Rightarrow> int set) \<Rightarrow> int set \<Rightarrow> (nat \<times> 'r port_socket) list \<Rightarrow> 'k \<Rightarrow> bool" where
  "holds_fds fds S ports k \<longleftrightarrow>
     distinct (open_fds ports) \<and> (\<forall>fd \<in> set (open_fds ports). 0 < fd) \<and>
     S \<inter> set (open_fds ports) = {} \<and> fds k = S \<union> set (open_fds ports)"

lemma open_fds_Cons:
  "open_fds ((port, e) # ports) = (if socket_of e = 0 then [] else [socket_of e]) @ open_fds ports"
  by (simp add: open_fds_def)

lemma open_fds_simps [simp]:
  "open_fds [] = []"
  "socket_of (e\<lparr>ps_socket := None\<rparr>) = 0"
  "socket_of (e\<lparr>ps_socket := Some fd\<rparr>) = fd"
  by (simp_all add: open_fds_def socket_of_def)

text \<open>The invariant of a list of ports is that of its first port on top of the rest.\<close>

lemma holds_fds_Nil: "holds_fds fds S [] k \<longleftrightarrow> fds k = S"
  by (simp add: holds_fds_def)

lemma holds_fds_closed:
  "socket_of e = 0 \<Longrightarrow> holds_fds fds S ((port, e) # ports) k \<longleftrightarrow> holds_fds fds S ports k"
  by (simp add: holds_fds_def open_fds_Cons)

lemma holds_fds_open:
  assumes "socket_of e \<noteq> 0"
  shows "holds_fds fds S ((port, e) # ports) k \<longleftrightarrow>
    0 < socket_of e \<and> socket_of e \<notin> S \<and> holds_fds fds (insert (socket_of e) S) ports k"
  using assms by (auto simp: holds_fds_def open_fds_Cons)

lemma took_holds:
  assumes "took_descriptor fds (fds k) sk" "holds_fds fds S ports k"
  shows "holds_fds fds S ((port, e\<lparr>ps_socket := Some (socket_fd sk)\<rparr>) # ports) (os sk)"
  using assms by (auto simp: took_descriptor_def holds_fds_def open_fds_Cons split: if_splits)

lemma listen_ports_holds:
  assumes K: "keeps_descriptors K fds" "options_work K"
  shows "holds_fds fds S ports k \<Longrightarrow> listen_ports K backlog ports k = (r, ports', k') \<Longrightarrow>
    holds_fds fds S ports' k' \<and> map fst ports' = map fst ports \<and>
    (r = Inr () \<longrightarrow> (\<forall>(port, e) \<in> set ports'. 0 < socket_of e))"
proof (induction ports arbitrary: S k r ports' k')
  case (Cons p ports)
  obtain port e where p: "p = (port, e)" by fastforce
  show ?case
  proof (cases "socket_of e = 0")
    case False
    obtain r1 ports1 k1 where rest: "listen_ports K backlog ports k = (r1, ports1, k1)" by (metis prod.exhaust)
    have "0 < socket_of e" "holds_fds fds (insert (socket_of e) S) ports k" "socket_of e \<notin> S"
      using Cons.prems(1) False by (simp_all add: p holds_fds_open)
    with Cons.IH [OF this(2) rest] Cons.prems(2) rest False show ?thesis
      by (auto simp: p is_open_def holds_fds_open)
  next
    case True
    let ?s = "\<lparr>socket_fd = socket_of e, os = k\<rparr>"
    obtain q sk where sk: "listen_socket K backlog ''localhost'' (nat_to_string port) ?s = (q, sk)" by fastforce
    have took: "took_descriptor fds (fds k) sk" "q = Inr () \<longrightarrow> 0 < socket_fd sk"
      using listen_descriptors [OF K, of ?s backlog "''localhost''" "nat_to_string port"] sk True by simp_all
    have here: "holds_fds fds S ((port, e\<lparr>ps_socket := Some (socket_fd sk)\<rparr>) # ports) (os sk)"
      using took_holds [OF took(1)] Cons.prems(1) True by (simp add: p holds_fds_closed)
    show ?thesis
    proof (cases q)
      case (Inl f)
      with here Cons.prems(2) sk True show ?thesis by (auto simp: p is_open_def)
    next
      case (Inr u)
      obtain r1 ports1 k1 where rest: "listen_ports K backlog ports (os sk) = (r1, ports1, k1)" by (metis prod.exhaust)
      have "holds_fds fds (insert (socket_fd sk) S) ports (os sk)" "socket_fd sk \<notin> S" "0 < socket_fd sk"
        using here took(2) Inr by (simp_all add: holds_fds_open)
      with Cons.IH [OF this(1) rest] Cons.prems(2) rest sk Inr True show ?thesis
        by (auto simp: p is_open_def holds_fds_open)
    qed
  qed
qed simp

lemma socket_destroy_fds:
  assumes "keeps_descriptors K fds"
  shows "fds (socket_destroy K fd k) = (if fd = 0 then fds k else fds k - {fd})"
  using keeps_descriptorsD(1) [OF assms] by (simp add: socket_destroy_def close_socket_def)

lemma holds_fds_release:
  assumes "holds_fds fds S ((port, e) # ports) k"
    "fds k' = (if socket_of e = 0 then fds k else fds k - {socket_of e})"
  shows "holds_fds fds S ports k'"
  using assms by (auto simp: holds_fds_def open_fds_Cons)

lemma drop_sockets_holds:
  assumes K: "keeps_descriptors K fds"
  shows "holds_fds fds S ports k \<Longrightarrow> drop_sockets K ports k = (ports', k') \<Longrightarrow>
    fds k' = S \<and> map fst ports' = map fst ports \<and> (\<forall>(port, e) \<in> set ports'. ps_socket e = None)"
proof (induction ports arbitrary: k ports' k')
  case (Cons p ports)
  obtain port e where p: "p = (port, e)" by fastforce
  obtain ports1 k1 where rest: "drop_sockets K ports (socket_destroy K (socket_of e) k) = (ports1, k1)" by fastforce
  have "holds_fds fds S ports (socket_destroy K (socket_of e) k)"
    using holds_fds_release [OF Cons.prems(1) [unfolded p]] socket_destroy_fds [OF K] by blast
  from Cons.IH [OF this rest] rest Cons.prems(2) show ?case by (auto simp: p)
qed (simp add: holds_fds_Nil)

lemma close_ports_holds:
  assumes K: "keeps_descriptors K fds"
  shows "holds_fds fds S ports k \<Longrightarrow> close_ports K ports k = (ports', k') \<Longrightarrow>
    fds k' = S \<and> map fst ports' = map fst ports \<and> open_fds ports' = []"
proof (induction ports arbitrary: k ports' k')
  case (Cons p ports)
  obtain port e where p: "p = (port, e)" by fastforce
  let ?k = "if 0 < socket_of e then k_close K (socket_of e) k else k"
  obtain ports1 k1 where rest: "close_ports K ports ?k = (ports1, k1)" by fastforce
  have sign: "0 < socket_of e \<longleftrightarrow> socket_of e \<noteq> 0"
    using Cons.prems(1) by (cases "socket_of e = 0") (auto simp: p holds_fds_open)
  then have "fds ?k = (if socket_of e = 0 then fds k else fds k - {socket_of e})"
    using keeps_descriptorsD(1) [OF K] by simp
  from holds_fds_release [OF Cons.prems(1) [unfolded p] this] have "holds_fds fds S ports ?k" .
  from Cons.IH [OF this rest] rest Cons.prems(2) sign show ?case
    by (auto simp: p is_open_def close_socket_def open_fds_Cons split: if_splits)
qed (simp add: holds_fds_Nil)

definition server_ok :: "('k \<Rightarrow> int set) \<Rightarrow> int set \<Rightarrow> ('r, 'k) server \<Rightarrow> bool" where
  "server_ok fds S s \<longleftrightarrow> holds_fds fds S (sv_ports s) (sv_os s) \<and>
     (\<not> sv_listening s \<longrightarrow> open_fds (sv_ports s) = [])"

lemma no_sockets: "(\<forall>(port, e) \<in> set ports. ps_socket e = None) \<Longrightarrow> open_fds ports = []"
  by (induction ports) (auto simp: open_fds_Cons socket_of_def)

lemma holds_no_sockets: "open_fds ports = [] \<Longrightarrow> holds_fds fds S ports k \<longleftrightarrow> fds k = S"
  by (simp add: holds_fds_def)

lemma attach_router_ok:
  "server_ok fds S s \<Longrightarrow> server_ok fds S (snd (attach_router attach port router s))"
  by (auto simp: attach_router_def server_ok_def holds_fds_def open_fds_Cons socket_of_def split: option.splits)

lemma server_listen_ok:
  assumes "keeps_descriptors K fds" "options_work K" "server_ok fds S s"
  shows "server_ok fds S (snd (server_listen K backlog s))"
proof (cases "sv_listening s")
  case False
  obtain r ports k where l: "listen_ports K backlog (sv_ports s) (sv_os s) = (r, ports, k)" by (metis prod.exhaust)
  obtain ports' k' where d: "drop_sockets K ports k = (ports', k')" by fastforce
  have ports: "holds_fds fds S ports k"
    using listen_ports_holds [OF assms(1,2) _ l] assms(3) by (simp add: server_ok_def)
  from drop_sockets_holds [OF assms(1) this d] have "fds k' = S" "open_fds ports' = []"
    by (auto intro: no_sockets)
  with l d ports False show ?thesis
    by (cases r) (simp_all add: server_listen_def server_ok_def holds_no_sockets)
qed (use assms in \<open>simp add: server_listen_def\<close>)

lemma force_close_ok:
  assumes "keeps_descriptors K fds" "\<And>k. fds (snd (stop_runner k)) = fds k" "server_ok fds S s"
  shows "server_ok fds S (snd (force_close K stop_runner s)) \<and>
    (sv_running s \<longrightarrow> open_fds (sv_ports (snd (force_close K stop_runner s))) = [] \<and>
       \<not> sv_listening (snd (force_close K stop_runner s)))"
proof (cases "sv_running s")
  case True
  obtain ports k where c: "close_ports K (sv_ports s) (sv_os s) = (ports, k)" by fastforce
  have "fds k = S" "open_fds ports = []"
    using close_ports_holds [OF assms(1) _ c] assms(3) by (auto simp: server_ok_def)
  with c True assms(2) [of k] show ?thesis
    by (cases "stop_runner k") (simp add: force_close_def server_ok_def holds_no_sockets)
qed (use assms in \<open>simp add: force_close_def\<close>)

lemma try_close_ok:
  assumes "keeps_descriptors K fds" "\<And>k. fds (snd (stop_runner k)) = fds k" "server_ok fds S s"
  shows "server_ok fds S (snd (try_close K stop_runner count s))"
proof (cases "list_ex (\<lambda>(port, e). 0 < count (ps_router e)) (sv_ports s)")
  case False
  have "snd (try_close K stop_runner count s) = snd (force_close K stop_runner s)"
    using False by (cases "force_close K stop_runner s"; cases "fst (force_close K stop_runner s)")
      (auto simp: try_close_def bind_prog_def)
  then show ?thesis using force_close_ok [OF assms] by simp
qed (use assms in \<open>simp add: try_close_def\<close>)

section \<open>Properties\<close>

text \<open>The operations of a server in any order.\<close>

datatype 'r server_op = Attach nat "'r option" | Listen | Run | Try_close | Force_close

fun server_step ::
  "'k kernel \<Rightarrow> int \<Rightarrow> ('k \<Rightarrow> unit res \<times> 'k) \<Rightarrow> ('r \<Rightarrow> unit res) \<Rightarrow> ('r \<Rightarrow> nat) \<Rightarrow>
   (('r, 'k) server, unit) prog \<Rightarrow> 'r server_op \<Rightarrow> ('r, 'k) server \<Rightarrow> ('r, 'k) server" where
  "server_step K backlog stop_runner attach count loop (Attach port router) s =
     snd (attach_router attach port router s)"
| "server_step K backlog stop_runner attach count loop Listen s = snd (server_listen K backlog s)"
| "server_step K backlog stop_runner attach count loop Run s = snd (server_run loop s)"
| "server_step K backlog stop_runner attach count loop Try_close s = snd (try_close K stop_runner count s)"
| "server_step K backlog stop_runner attach count loop Force_close s = snd (force_close K stop_runner s)"

definition loop_keeps ::
  "('k \<Rightarrow> int set) \<Rightarrow> (('r, 'k) server, unit) prog \<Rightarrow> bool" where
  "loop_keeps fds loop \<longleftrightarrow> (\<forall>S s. server_ok fds S s \<longrightarrow> server_ok fds S (snd (loop s)))"

lemma server_step_ok:
  assumes "keeps_descriptors K fds" "options_work K" "\<And>k. fds (snd (stop_runner k)) = fds k"
    "loop_keeps fds loop" "server_ok fds S s"
  shows "server_ok fds S (server_step K backlog stop_runner attach count loop x s)"
proof (cases x)
  case Run
  have "server_ok fds S (s\<lparr>sv_running := True\<rparr>)" using assms(5) by (simp add: server_ok_def)
  then have "server_ok fds S (snd (loop (s\<lparr>sv_running := True\<rparr>)))" using assms(4) by (simp add: loop_keeps_def)
  with Run assms(5) show ?thesis
    by (cases "loop (s\<lparr>sv_running := True\<rparr>)") (simp add: server_run_def server_ok_def)
qed (simp_all add: attach_router_ok [OF assms(5)] server_listen_ok [OF assms(1,2,5)]
    force_close_ok [OF assms(1,3,5)] try_close_ok [OF assms(1,3,5)])

lemma server_steps_ok:
  assumes "keeps_descriptors K fds" "options_work K" "\<And>k. fds (snd (stop_runner k)) = fds k"
    "loop_keeps fds loop"
  shows "server_ok fds S s \<Longrightarrow> server_ok fds S (fold (server_step K backlog stop_runner attach count loop) xs s)"
  using server_step_ok [OF assms] by (induction xs arbitrary: s) auto

lemma server_destroy_fds:
  assumes "keeps_descriptors K fds" "\<And>k. fds (snd (stop_runner k)) = fds k" "server_ok fds S s"
    and "server_destroy K stop_runner count s = (Inr (), k)"
  shows "fds k = S"
proof -
  obtain s' where s': "bind_prog (try_close K stop_runner count)
      (\<lambda>closed. if closed then ret () else force_close K stop_runner) s = (Inr (), s')"
      "k = snd (drop_sockets K (sv_ports s') (sv_os s'))"
    using assms(4) by (auto simp: server_destroy_def split: prod.splits sum.splits)
  then obtain c s1 where s1: "try_close K stop_runner count s = (Inr c, s1)"
      "(if c then ret () else force_close K stop_runner) s1 = (Inr (), s')"
    by (auto simp: bind_prog_eq_Inr_iff)
  have "server_ok fds S s1" using try_close_ok [OF assms(1-3), of count] s1(1) by simp
  then have "server_ok fds S s'"
    using s1(2) force_close_ok [OF assms(1,2), of S s1] by (cases c) auto
  then have "holds_fds fds S (sv_ports s') (sv_os s')" by (simp add: server_ok_def)
  with drop_sockets_holds [OF assms(1) this] s'(2) show ?thesis
    by (cases "drop_sockets K (sv_ports s') (sv_os s')") auto
qed


text \<open>A server with one port, whose socket is bound, on the kernel of \<open>Socket\<close>.\<close>

definition idle :: "'k \<Rightarrow> unit res \<times> 'k" where
  "idle k = (Inr (), k)"

definition empty_pipe :: pipe where
  "empty_pipe = \<lparr>p_errno = 0, p_sent = [], p_send_busy = 0, p_packets = [], p_recv_busy = 0, p_descriptors = [5]\<rparr>"

abbreviation pipe_fds :: "pipe \<Rightarrow> int set" where
  "pipe_fds k \<equiv> set (p_descriptors k)"

abbreviation pipe_step :: "nat server_op \<Rightarrow> (nat, pipe) server \<Rightarrow> (nat, pipe) server" where
  "pipe_step \<equiv> server_step (pipe_kernel 2) 1 idle (\<lambda>r. Inr ()) (\<lambda>r. 0) idle"

definition one_port :: "(nat, pipe) server" where
  "one_port = fold pipe_step [Attach 80 (Some 0)] (server_new empty_pipe)"

lemma idle_keeps: "pipe_fds (snd (idle k)) = pipe_fds k" "loop_keeps pipe_fds idle"
  by (simp_all add: idle_def loop_keeps_def)

lemma one_port_ok: "server_ok pipe_fds {5} one_port" "\<not> sv_listening one_port" "\<not> sv_running one_port"
  by (simp_all add: one_port_def server_new_def attach_router_def server_ok_def holds_fds_def
      open_fds_Cons socket_of_def empty_pipe_def)


text \<open>
  \<open>listen\<close> opens all ports or none. On a server that is not listening it either succeeds,
  and then the server listens and each of its ports, the same as before, has an open socket;
  or it throws, and then the server does not listen and no port has a socket.
\<close>

theorem listen_all_or_none:
  assumes "keeps_descriptors K fds" "options_work K" "server_ok fds S s" "\<not> sv_listening s"
  shows "case server_listen K backlog s of
      (Inr u, s') \<Rightarrow> sv_listening s' \<and> map fst (sv_ports s') = map fst (sv_ports s) \<and>
        (\<forall>(port, e) \<in> set (sv_ports s'). 0 < socket_of e)
    | (Inl f, s') \<Rightarrow> \<not> sv_listening s' \<and> map fst (sv_ports s') = map fst (sv_ports s) \<and>
        (\<forall>(port, e) \<in> set (sv_ports s'). ps_socket e = None) \<and> fds (sv_os s') = S"
proof -
  obtain r ports k where l: "listen_ports K backlog (sv_ports s) (sv_os s) = (r, ports, k)" by (metis prod.exhaust)
  obtain ports' k' where d: "drop_sockets K ports k = (ports', k')" by fastforce
  have "holds_fds fds S (sv_ports s) (sv_os s)" using assms(3) by (simp add: server_ok_def)
  note ports = listen_ports_holds [OF assms(1,2) this l]
  from ports drop_sockets_holds [OF assms(1) _ d] l d assms(4) show ?thesis
    by (cases r) (auto simp: server_listen_def)
qed

theorem listen_all_or_none_witness:
  "\<exists>s'. server_listen (pipe_kernel 2) 1 one_port = (Inr (), s') \<and>
     (\<forall>(port, e) \<in> set (sv_ports s'). 0 < socket_of e)"
proof -
  have "fst (server_listen (pipe_kernel 2) 1 one_port) = Inr ()" by code_simp
  then obtain s' where s': "server_listen (pipe_kernel 2) 1 one_port = (Inr (), s')" by (metis prod.collapse)
  with listen_all_or_none [OF pipe_keeps_descriptors one_port_ok(1,2), of 2 1] show ?thesis by auto
qed

text \<open>
  What \<open>try_close\<close> does. With a connection open it answers false and changes nothing. On
  a running server without connections it closes every socket and the server stops listening
  and running. On a server that is not running it changes nothing: one that listens keeps its
  sockets open, and the answer is true all the same.
\<close>

theorem try_close_outcome:
  assumes "keeps_descriptors K fds" "\<And>k. fds (snd (stop_runner k)) = fds k" "server_ok fds S s"
  shows "case try_close K stop_runner count s of (r, s') \<Rightarrow>
    if \<exists>(port, e) \<in> set (sv_ports s). 0 < count (ps_router e) then r = Inr False \<and> s' = s
    else if sv_running s then
      open_fds (sv_ports s') = [] \<and> fds (sv_os s') = S \<and> \<not> sv_listening s' \<and> \<not> sv_running s'
    else r = Inr True \<and> s' = s"
proof -
  obtain r1 s1 where s1: "force_close K stop_runner s = (r1, s1)" by fastforce
  have ok: "server_ok fds S s1" "sv_running s \<longrightarrow> open_fds (sv_ports s1) = [] \<and> \<not> sv_listening s1"
    using force_close_ok [OF assms] s1 by simp_all
  have run: "sv_running s \<longrightarrow> \<not> sv_running s1" "\<not> sv_running s \<longrightarrow> r1 = Inr () \<and> s1 = s"
    using s1 by (auto simp: force_close_def split: prod.splits if_splits)
  have any: "list_ex (\<lambda>(port, e). 0 < count (ps_router e)) (sv_ports s) \<longleftrightarrow>
      (\<exists>(port, e) \<in> set (sv_ports s). 0 < count (ps_router e))"
    by (simp add: list_ex_iff)
  show ?thesis
    using ok run s1 by (cases r1) (auto simp: try_close_def any bind_prog_def server_ok_def holds_no_sockets)
qed

theorem try_close_outcome_witness:
  "try_close (pipe_kernel 2) idle (\<lambda>r. 0) one_port = (Inr True, one_port)"
  using try_close_outcome [where K = "pipe_kernel 2" and count = "\<lambda>r. 0",
      OF pipe_keeps_descriptors(1) idle_keeps(1) one_port_ok(1)] one_port_ok(3)
  by (auto split: prod.splits)

end
