(* ===== verification/Tls.thy ===== *)
theory Tls
  imports Socket
begin

text \<open>
  TLS streams: \<open>src/lw/net/internal/tls_client.cpp\<close>, \<open>tls_context.cpp\<close>, \<open>src/lw/net/tls.cpp\<close> and
  \<open>tls_router.cpp\<close>.

  OpenSSL is a parameter, the record \<open>ssl\<close> of the calls the code makes on a state of any type;
  a call that fills a buffer answers its return value and the bytes. The stream underneath,
  a \<open>CoStream\<close>, is a parameter too. The handshake and the transfer of encrypted data are loops
  that may run for ever; they are functions to \<open>option\<close>.

  The locale \<open>wire_stream\<close> is the contract of the stream underneath: what is written arrives.
  The sockets of the library satisfy it. The locale \<open>bio_queue\<close> adds that of a memory BIO:
  what is written to it comes out in order, in pieces of at most the size asked for, and an
  empty one asks to retry.
\<close>

section \<open>The client\<close>

datatype tls_result = NEED_TO_READ | NEED_TO_WRITE | AGAIN | COMPLETED

record 's ssl =
  ssl_is_init_finished :: "'s \<Rightarrow> bool"
  ssl_do_handshake :: "'s \<Rightarrow> int \<times> 's"
  ssl_get_error :: "int \<Rightarrow> 's \<Rightarrow> int"
  ssl_read :: "nat \<Rightarrow> 's \<Rightarrow> (int \<times> byte list) \<times> 's"
  ssl_write :: "byte list \<Rightarrow> 's \<Rightarrow> int \<times> 's"
  bio_write_all :: "byte list \<Rightarrow> 's \<Rightarrow> bool \<times> 's"
  bio_read :: "nat \<Rightarrow> 's \<Rightarrow> (int \<times> byte list) \<times> 's"
  bio_should_retry :: "'s \<Rightarrow> bool"
  err_get_error :: "'s \<Rightarrow> 64 word"
  ssl_errno :: "'s \<Rightarrow> int"

abbreviation SSL_ERROR_NONE :: int where "SSL_ERROR_NONE \<equiv> 0"
abbreviation SSL_ERROR_WANT_READ :: int where "SSL_ERROR_WANT_READ \<equiv> 2"
abbreviation SSL_ERROR_WANT_WRITE :: int where "SSL_ERROR_WANT_WRITE \<equiv> 3"

definition all_errors :: "'s ssl \<Rightarrow> 's \<Rightarrow> fault" where
  "all_errors S s = check_all_errors (err_get_error S s) (ssl_errno S s)"

definition client_handshake :: "'s ssl \<Rightarrow> ('s, tls_result) prog" where
  "client_handshake S s =
     (if ssl_is_init_finished S s then (Inr COMPLETED, s)
      else case ssl_do_handshake S s of (r, s') \<Rightarrow>
        let err = ssl_get_error S r s'
        in if err = SSL_ERROR_NONE then (Inr AGAIN, s')
           else if err = SSL_ERROR_WANT_READ then (Inr NEED_TO_READ, s')
           else if err = SSL_ERROR_WANT_WRITE then (Inr NEED_TO_WRITE, s')
           else (Inl (Err Internal), s'))"

definition buffer_encrypted_data :: "'s ssl \<Rightarrow> byte list \<Rightarrow> ('s, tls_result \<times> nat) prog" where
  "buffer_encrypted_data S bytes s =
     (case bio_write_all S bytes s of (ok, s') \<Rightarrow>
        (if \<not> ok then Inl (all_errors S s') else Inr (COMPLETED, length bytes), s'))"

text \<open>The calls that read answer the bytes that end up in the buffer as well.\<close>

definition read_decrypted_data :: "'s ssl \<Rightarrow> nat \<Rightarrow> ('s, tls_result \<times> byte list) prog" where
  "read_decrypted_data S len s =
     (case ssl_read S len s of ((n, bytes), s') \<Rightarrow>
        (if n \<le> 0 then Inl (all_errors S s') else Inr (COMPLETED, take (nat n) bytes), s'))"

definition buffer_plaintext_data :: "'s ssl \<Rightarrow> byte list \<Rightarrow> ('s, tls_result \<times> nat) prog" where
  "buffer_plaintext_data S bytes s =
     (case ssl_write S bytes s of (n, s') \<Rightarrow>
        (if n \<le> 0 then
           if ssl_get_error S n s' = SSL_ERROR_WANT_READ then Inr (NEED_TO_READ, 0)
           else if ssl_get_error S n s' = SSL_ERROR_WANT_WRITE then Inr (NEED_TO_WRITE, 0)
           else Inl (all_errors S s')
         else Inr (COMPLETED, nat n), s'))"

definition read_encrypted_data :: "'s ssl \<Rightarrow> nat \<Rightarrow> ('s, tls_result \<times> byte list) prog" where
  "read_encrypted_data S len s =
     (case bio_read S len s of ((n, bytes), s') \<Rightarrow>
        (if n < 0 then
           if bio_should_retry S s' then Inr (AGAIN, []) else Inl (all_errors S s')
         else Inr (COMPLETED, take (nat n) bytes), s'))"

section \<open>The stream\<close>

record 'r raw =
  raw_read :: "nat \<Rightarrow> ('r, byte list) prog"
  raw_write :: "byte list \<Rightarrow> ('r, nat) prog"
  raw_good :: "'r \<Rightarrow> bool"
  raw_close :: "('r, unit) prog"

record ('s, 'r) tls =
  tls_client :: 's
  tls_raw :: 'r
  tls_buffer :: nat

text \<open>Calls on the client and on the stream underneath.\<close>

definition on_client :: "('s, 'a) prog \<Rightarrow> (('s, 'r) tls, 'a) prog" where
  "on_client m t = (case m (tls_client t) of (r, s) \<Rightarrow> (r, t\<lparr>tls_client := s\<rparr>))"

definition on_raw :: "('r, 'a) prog \<Rightarrow> (('s, 'r) tls, 'a) prog" where
  "on_raw m t = (case m (tls_raw t) of (r, s) \<Rightarrow> (r, t\<lparr>tls_raw := s\<rparr>))"

text \<open>The body of the loop of the handshake.\<close>

definition handshake_round :: "'s ssl \<Rightarrow> 'r raw \<Rightarrow> (('s, 'r) tls, tls_result) prog" where
  "handshake_round S R t =
     bind_prog (on_client (read_encrypted_data S (tls_buffer t))) (\<lambda>(res, out).
     bind_prog (if res = COMPLETED \<and> out \<noteq> [] then on_raw (raw_write R out) else ret 0) (\<lambda>_.
     bind_prog (on_client (client_handshake S)) (\<lambda>step.
     bind_prog
       (if step = NEED_TO_READ
        then bind_prog (on_raw (raw_read R (tls_buffer t))) (\<lambda>bytes.
               bind_prog (on_client (buffer_encrypted_data S bytes)) (\<lambda>_. ret ()))
        else ret ()) (\<lambda>_.
     on_client (client_handshake S))))) t"

partial_function (option) handshake_loop ::
  "'s ssl \<Rightarrow> 'r raw \<Rightarrow> ('s, 'r) tls \<Rightarrow> (unit res \<times> ('s, 'r) tls) option" where
  "handshake_loop S R t =
     (case handshake_round S R t of
        (Inl f, t') \<Rightarrow> Some (Inl f, t')
      | (Inr res, t') \<Rightarrow> if res \<noteq> COMPLETED then handshake_loop S R t' else Some (Inr (), t'))"

definition tls_handshake ::
  "'s ssl \<Rightarrow> 'r raw \<Rightarrow> ('s, 'r) tls \<Rightarrow> (unit res \<times> ('s, 'r) tls) option" where
  "tls_handshake S R t =
     (case on_client (client_handshake S) t of
        (Inl f, t') \<Rightarrow> Some (Inl f, t')
      | (Inr _, t') \<Rightarrow> handshake_loop S R t')"

definition tls_read :: "'s ssl \<Rightarrow> 'r raw \<Rightarrow> nat \<Rightarrow> (('s, 'r) tls, byte list) prog" where
  "tls_read S R len =
     bind_prog (on_raw (raw_read R len)) (\<lambda>wire.
     bind_prog (on_client (buffer_encrypted_data S wire)) (\<lambda>(res, n).
       if res = COMPLETED then
         if n \<noteq> length wire then lift_res (Inl (Err Internal))
         else bind_prog (on_client (read_decrypted_data S len)) (\<lambda>(res', plain).
                if res' \<noteq> COMPLETED then lift_res (Inl (Err Internal)) else ret plain)
       else if res = AGAIN then ret []
       else lift_res (Inl (Err Internal))))"

partial_function (option) transfer_loop ::
  "'s ssl \<Rightarrow> 'r raw \<Rightarrow> nat \<Rightarrow> nat \<Rightarrow> ('s, 'r) tls \<Rightarrow> (nat res \<times> ('s, 'r) tls) option" where
  "transfer_loop S R len transferred t =
     (if \<not> transferred < len then Some (Inr transferred, t)
      else case on_client (read_encrypted_data S (tls_buffer t)) t of
          (Inl f, t1) \<Rightarrow> Some (Inl f, t1)
        | (Inr (res, out), t1) \<Rightarrow>
            if res \<noteq> COMPLETED then Some (Inr transferred, t1)
            else case on_raw (raw_write R out) t1 of
                (Inl f, t2) \<Rightarrow> Some (Inl f, t2)
              | (Inr _, t2) \<Rightarrow> transfer_loop S R len (transferred + length out) t2)"

definition tls_write ::
  "'s ssl \<Rightarrow> 'r raw \<Rightarrow> byte list \<Rightarrow> ('s, 'r) tls \<Rightarrow> (nat res \<times> ('s, 'r) tls) option" where
  "tls_write S R bytes t =
     (case on_client (buffer_plaintext_data S bytes) t of
        (Inl f, t1) \<Rightarrow> Some (Inl f, t1)
      | (Inr (res, n), t1) \<Rightarrow>
          if res \<noteq> COMPLETED \<or> n \<noteq> length bytes then Some (Inl (Err Internal), t1)
          else transfer_loop S R (length bytes) 0 t1)"

text \<open>
  \<open>tls_wrap_connection\<close>: wrapping the stream, then the handshake. A null stream is \<open>None\<close>; the
  handler of the exception uses it when it is the wrapping that failed.
\<close>

definition tls_wrap_connection ::
  "'s ssl \<Rightarrow> 'r raw \<Rightarrow> ('s, 'r) tls res \<Rightarrow> (('s, 'r) tls option res) option" where
  "tls_wrap_connection S R wrapped =
     (case wrapped of
        Inl (Err e) \<Rightarrow> Some (Inl Undefined_behaviour)
      | Inl f \<Rightarrow> Some (Inl f)
      | Inr t \<Rightarrow>
          map_option
            (\<lambda>(r, t'). case r of
                Inr u \<Rightarrow> Inr (Some t')
              | Inl (Err e) \<Rightarrow>
                  (if raw_good R (tls_raw t')
                   then case on_raw (raw_close R) t' of
                       (Inl f, t2) \<Rightarrow> Inl f
                     | (Inr u, t2) \<Rightarrow> Inr (Some t2)
                   else Inr (Some t'))
              | Inl f \<Rightarrow> Inl f)
            (tls_handshake S R t))"

declare handshake_loop.simps [code] transfer_loop.simps [code]

text \<open>
  A read asks the stream underneath before the client: while that stream has nothing to give,
  plain text that the client has already decrypted, the rest of a record or the next one of the
  same piece, stays in the client and the read does not answer it.
\<close>

lemma read_waits_for_the_wire:
  assumes "raw_read R len (tls_raw t) = (Inl f, r)"
  shows "tls_read S R len t = (Inl f, t\<lparr>tls_raw := r\<rparr>)"
  using assms by (simp add: tls_read_def bind_prog_def on_raw_def)

text \<open>The least number of whole buffers of \<open>b\<close> bytes that is at least \<open>d\<close>.\<close>

definition whole_buffers :: "nat \<Rightarrow> nat \<Rightarrow> nat" where
  "whole_buffers b d = b * ((d + b - 1) div b)"

lemma whole_buffers_0: "0 < b \<Longrightarrow> whole_buffers b 0 = 0"
  by (simp add: whole_buffers_def)

lemma whole_buffers_step:
  assumes "0 < b" "0 < d"
  shows "whole_buffers b d = b + whole_buffers b (d - b)"
proof -
  have "(d + b - 1) div b = Suc ((d - 1) div b)"
    using assms div_add_self2 [of b "d - 1"] by simp
  moreover have "(d - b + b - 1) div b = (d - 1) div b"
    using assms by (cases "d < b") simp_all
  ultimately show ?thesis by (simp add: whole_buffers_def)
qed

lemma whole_buffers_ge: "0 < b \<Longrightarrow> d \<le> whole_buffers b d"
proof (induction d rule: less_induct)
  case (less d)
  show ?case
  proof (cases "d = 0")
    case False
    with less have "d - b \<le> whole_buffers b (d - b)" by simp
    then show ?thesis using whole_buffers_step [of b d] False less.prems by simp
  qed simp
qed

lemma take_length_min [simp]: "take (min (length xs) n) xs = take n xs"
  by (simp add: min_def)

section \<open>Handshakes\<close>

text \<open>A handshake that returns without an error is finished.\<close>

lemma client_handshake_completed:
  "client_handshake S s = (Inr COMPLETED, s') \<Longrightarrow> s' = s \<and> ssl_is_init_finished S s"
  by (auto simp: client_handshake_def Let_def split: prod.splits if_splits)

lemma handshake_round_completed:
  assumes "handshake_round S R t = (Inr COMPLETED, t')"
  shows "ssl_is_init_finished S (tls_client t')"
proof -
  obtain t1 where "on_client (client_handshake S) t1 = (Inr COMPLETED, t')"
    using assms by (auto simp: handshake_round_def bind_prog_eq_Inr_iff)
  then obtain s where "client_handshake S (tls_client t1) = (Inr COMPLETED, s)" "t' = t1\<lparr>tls_client := s\<rparr>"
    by (auto simp: on_client_def split: prod.splits)
  then show ?thesis using client_handshake_completed by fastforce
qed

lemma handshake_loop_completed:
  "handshake_loop S R t = Some x \<Longrightarrow> x = (Inr (), t') \<Longrightarrow> ssl_is_init_finished S (tls_client t')"
proof (induction S R t x rule: handshake_loop.raw_induct [rotated, consumes 1, case_names step])
  case (step loop S R t x)
  then show ?case
    by (auto split: prod.splits sum.splits if_splits dest: handshake_round_completed)
qed

lemma tls_handshake_completed:
  assumes "tls_handshake S R t = Some (Inr (), t')"
  shows "ssl_is_init_finished S (tls_client t')"
  using assms handshake_loop_completed [OF _ refl]
  by (auto simp: tls_handshake_def split: prod.splits sum.splits)

section \<open>The contract of the BIO\<close>

locale wire_stream =
  fixes R :: "'r raw" and sent :: "'r \<Rightarrow> byte list" and ok :: "'r \<Rightarrow> bool"
  assumes write_all: "ok r \<Longrightarrow> bytes \<noteq> [] \<Longrightarrow>
    \<exists>n r'. raw_write R bytes r = (Inr n, r') \<and> sent r' = sent r @ bytes \<and> ok r'"

locale bio_queue = wire_stream R sent ok
  for R :: "'r raw" and sent :: "'r \<Rightarrow> byte list" and ok :: "'r \<Rightarrow> bool" +
  fixes S :: "'s ssl" and out :: "'s \<Rightarrow> byte list"
  assumes read_some: "out s \<noteq> [] \<Longrightarrow> 0 < n \<Longrightarrow>
      \<exists>s'. bio_read S n s = ((int (length (take n (out s))), take n (out s)), s') \<and> out s' = drop n (out s)"
    and read_none: "out s = [] \<Longrightarrow> 0 < n \<Longrightarrow>
      \<exists>s' b. bio_read S n s = ((-1, b), s') \<and> bio_should_retry S s' \<and> out s' = []"
begin

lemma transfer_sends:
  "0 < tls_buffer t \<Longrightarrow> ok (tls_raw t) \<Longrightarrow> m = whole_buffers (tls_buffer t) (len - k) \<Longrightarrow>
   \<exists>t'. transfer_loop S R len k t = Some (Inr (k + length (take m (out (tls_client t)))), t') \<and>
     sent (tls_raw t') = sent (tls_raw t) @ take m (out (tls_client t)) \<and>
     out (tls_client t') = drop m (out (tls_client t)) \<and> tls_buffer t' = tls_buffer t \<and> ok (tls_raw t')"
proof (induction "len - k" arbitrary: k t m rule: less_induct)
  case less
  let ?B = "tls_buffer t" and ?T = "out (tls_client t)"
  show ?case
  proof (cases "k < len")
    case False
    with less.prems show ?thesis by (subst transfer_loop.simps) (simp add: whole_buffers_0)
  next
    case True
    then have m: "m = ?B + whole_buffers ?B (len - (k + ?B))"
      using less.prems whole_buffers_step [of ?B "len - k"] by simp
    show ?thesis
    proof (cases "?T = []")
      case True
      obtain s' b where "bio_read S ?B (tls_client t) = ((-1, b), s')" "bio_should_retry S s'" "out s' = []"
        using read_none [OF True less.prems(1)] by blast
      with True \<open>k < len\<close> less.prems(2) show ?thesis
        by (subst transfer_loop.simps) (simp add: on_client_def read_encrypted_data_def)
    next
      case False
      obtain s' where s': "bio_read S ?B (tls_client t) = ((int (length (take ?B ?T)), take ?B ?T), s')"
          "out s' = drop ?B ?T"
        using read_some [OF False less.prems(1)] by blast
      obtain n r' where r': "raw_write R (take ?B ?T) (tls_raw t) = (Inr n, r')"
          "sent r' = sent (tls_raw t) @ take ?B ?T" "ok r'"
        using write_all [OF less.prems(2), of "take ?B ?T"] False less.prems(1) by auto
      define t1 where "t1 = t\<lparr>tls_client := s', tls_raw := r'\<rparr>"
      let ?k = "k + length (take ?B ?T)"
      have step: "transfer_loop S R len k t = transfer_loop S R len ?k t1"
        using True s'(1) r'(1)
        by (subst transfer_loop.simps) (simp add: on_client_def on_raw_def read_encrypted_data_def t1_def)
      have "0 < length (take ?B ?T)" using False less.prems(1) by simp
      then have "len - ?k < len - k" using True by linarith
      from less.hyps [OF this, of t1] less.prems(1) r'(3) obtain t' where t':
        "transfer_loop S R len ?k t1 =
           Some (Inr (?k + length (take (whole_buffers ?B (len - ?k)) (drop ?B ?T))), t')"
        "sent (tls_raw t') = sent r' @ take (whole_buffers ?B (len - ?k)) (drop ?B ?T)"
        "out (tls_client t') = drop (whole_buffers ?B (len - ?k)) (drop ?B ?T)" "tls_buffer t' = ?B" "ok (tls_raw t')"
        by (auto simp: t1_def s'(2))
      have "take (whole_buffers ?B (len - ?k)) (drop ?B ?T) = take (m - ?B) (drop ?B ?T) \<and>
          drop (whole_buffers ?B (len - ?k)) (drop ?B ?T) = drop m ?T"
        using m by (cases "?B \<le> length ?T") (simp_all add: add.commute)
      moreover have "take m ?T = take ?B ?T @ take (m - ?B) (drop ?B ?T)"
        using m by (metis le_add1 le_add_diff_inverse take_add)
      ultimately show ?thesis using step t' r'(2) by simp
    qed
  qed
qed

lemma write_sends:
  assumes "0 < tls_buffer t" "ok (tls_raw t)" "bytes \<noteq> []"
    and "ssl_write S bytes (tls_client t) = (int (length bytes), s)"
  shows "\<exists>t'. tls_write S R bytes t = Some (Inr (length (take (whole_buffers (tls_buffer t) (length bytes)) (out s))), t') \<and>
    sent (tls_raw t') = sent (tls_raw t) @ take (whole_buffers (tls_buffer t) (length bytes)) (out s) \<and>
    out (tls_client t') = drop (whole_buffers (tls_buffer t) (length bytes)) (out s)"
  using transfer_sends [of "t\<lparr>tls_client := s\<rparr>" _ "length bytes" 0] assms
  by (auto simp: tls_write_def on_client_def buffer_plaintext_data_def)

end

section \<open>A cipher to evaluate on\<close>

text \<open>Every write becomes a record of its own, with a byte in front.\<close>

record toy_ssl =
  toy_out :: "byte list"

definition toy :: "toy_ssl ssl" where
  "toy = \<lparr>ssl_is_init_finished = (\<lambda>s. True), ssl_do_handshake = (\<lambda>s. (1, s)), ssl_get_error = (\<lambda>r s. 0),
     ssl_read = (\<lambda>n s. ((-1, []), s)),
     ssl_write = (\<lambda>bs s. (int (length bs), s\<lparr>toy_out := toy_out s @ 23 # bs\<rparr>)),
     bio_write_all = (\<lambda>bs s. (True, s)),
     bio_read = (\<lambda>n s. if toy_out s = [] then ((-1, []), s)
       else ((int (length (take n (toy_out s))), take n (toy_out s)), s\<lparr>toy_out := drop n (toy_out s)\<rparr>)),
     bio_should_retry = (\<lambda>s. True), err_get_error = (\<lambda>s. 0), ssl_errno = (\<lambda>s. 0)\<rparr>"

text \<open>A socket as the stream underneath.\<close>

definition socket_raw :: "'k kernel \<Rightarrow> 'k sock raw" where
  "socket_raw K = \<lparr>
     raw_read = (\<lambda>n s. case receive K False n s of None \<Rightarrow> (Inl Does_not_return, s) | Some x \<Rightarrow> x),
     raw_write = (\<lambda>bytes s. case send K (Some bytes) s of None \<Rightarrow> (Inl Does_not_return, s) | Some x \<Rightarrow> x),
     raw_good = is_open, raw_close = close_socket K\<rparr>"

lemma socket_wire:
  fixes K :: "'k kernel"
  assumes "takes_messages K fd lim delivered delay" "0 < lim" "0 < fd"
  shows "wire_stream (socket_raw K) (\<lambda>s. delivered (os s)) (\<lambda>s. socket_fd s = fd)"
proof
  fix s :: "'k sock" and bytes :: "byte list"
  assume s: "socket_fd s = fd" "bytes \<noteq> []"
  obtain k' where "do_send K fd bytes (os s) = Some (Inr (length bytes), k')" "delivered k' = delivered (os s) @ bytes"
    using do_send_all [OF assms(1,2) s(2)] by blast
  with s assms(3) show "\<exists>n s'. raw_write (socket_raw K) bytes s = (Inr n, s') \<and>
      delivered (os s') = delivered (os s) @ bytes \<and> socket_fd s' = fd"
    by (auto simp: socket_raw_def send_def is_open_def)
qed

interpretation pipe_wire: wire_stream "socket_raw (pipe_kernel (Suc lim))" "\<lambda>s. p_sent (os s)"
    "\<lambda>s. socket_fd s = int (Suc fd)" for lim fd
  by (rule socket_wire [OF pipe_takes_messages]) simp_all

interpretation tls_pipe: bio_queue "socket_raw (pipe_kernel (Suc lim))" "\<lambda>s. p_sent (os s)"
    "\<lambda>s. socket_fd s = int (Suc fd)" toy toy_out for lim fd
  by unfold_locales (auto simp: toy_def)

section \<open>Properties\<close>

text \<open>
  C30: what a write to a TLS stream puts on the wire. When OpenSSL has taken the bytes, the
  write returns; it has sent, in order, what OpenSSL had to send, but only up to the least
  number of whole write buffers that is at least the length of the plain text, and the rest of
  the encrypted data stays behind. It answers the number of encrypted bytes.
\<close>

theorem tls_write_sends:
  assumes "bio_queue R sent ok S out" "0 < tls_buffer t" "ok (tls_raw t)" "bytes \<noteq> []"
    and "ssl_write S bytes (tls_client t) = (int (length bytes), s)"
  shows "\<exists>t'. tls_write S R bytes t = Some (Inr (length (take (whole_buffers (tls_buffer t) (length bytes)) (out s))), t') \<and>
    sent (tls_raw t') = sent (tls_raw t) @ take (whole_buffers (tls_buffer t) (length bytes)) (out s) \<and>
    out (tls_client t') = drop (whole_buffers (tls_buffer t) (length bytes)) (out s) \<and>
    (out (tls_client t') = [] \<longleftrightarrow> length (out s) \<le> whole_buffers (tls_buffer t) (length bytes))"
  using bio_queue.write_sends [OF assms] by auto

theorem tls_write_sends_witness:
  "\<exists>t. tls_write toy (socket_raw (pipe_kernel 2)) [1, 2, 3, 4]
       \<lparr>tls_client = \<lparr>toy_out = []\<rparr>, tls_raw = \<lparr>socket_fd = 3, os = \<lparr>p_errno = 0, p_sent = [9], p_send_busy = 1,
         p_packets = [], p_recv_busy = 0, p_descriptors = [3]\<rparr>\<rparr>, tls_buffer = 4\<rparr> =
       Some (Inr (length [23, 1, 2, 3 :: byte]), t) \<and>
     p_sent (os (tls_raw t)) = [9, 23, 1, 2, 3] \<and> toy_out (tls_client t) = [4]"
proof -
  let ?t = "\<lparr>tls_client = \<lparr>toy_out = []\<rparr>, tls_raw = \<lparr>socket_fd = 3, os = \<lparr>p_errno = 0, p_sent = [9], p_send_busy = 1,
         p_packets = [], p_recv_busy = 0, p_descriptors = [3]\<rparr>\<rparr>, tls_buffer = 4\<rparr>"
  have w: "ssl_write toy [1, 2, 3, 4] (tls_client ?t) = (int (length [1, 2, 3, 4 :: byte]), \<lparr>toy_out = [23, 1, 2, 3, 4]\<rparr>)"
    by (simp add: toy_def)
  from tls_write_sends [OF tls_pipe.bio_queue_axioms [of 1 2] _ _ _ w] show ?thesis
    by (auto simp: whole_buffers_def numeral_2_eq_2)
qed

end
