(* ===== verification/Tuples.thy ===== *)
theory Tuples
  imports Prelude
begin

text \<open>
  Computation with lists of types, \<open>src/lw/base/tuple.h\<close>. A class template that takes a tuple
  apart by partial specialisation is a recursive function on lists of types; the compiler
  chooses the most specialised of the specialisations that match, which is the first equation
  that applies here. Types are named types, tuples, and types with qualifiers: \<open>const\<close>,
  \<open>volatile\<close> and references.
\<close>

datatype 'a cpp_type = Named 'a | Tuple "'a cpp_type list" | Qualified "'a cpp_type"

fun tuple_member_index :: "int \<Rightarrow> 'a \<Rightarrow> 'a list \<Rightarrow> int" where
  "tuple_member_index idx t [] = -1"
| "tuple_member_index idx t (m # rest) = (if m = t then idx else tuple_member_index (idx + 1) t rest)"

fun tuple_flatten :: "'a cpp_type \<Rightarrow> 'a cpp_type list \<Rightarrow> 'a cpp_type list" where
  "tuple_flatten (Tuple []) results = results"
| "tuple_flatten (Tuple (t # rest)) results = tuple_flatten (Tuple rest) (tuple_flatten t results)"
| "tuple_flatten t results = results @ [t]"

fun dedup_tuple :: "'a list \<Rightarrow> 'a list \<Rightarrow> 'a list" where
  "dedup_tuple [] results = results"
| "dedup_tuple (t # rest) results =
     (if tuple_member_index 0 t results = -1 then dedup_tuple rest (results @ [t])
      else dedup_tuple rest results)"

definition is_tuple_member :: "'a \<Rightarrow> 'a list \<Rightarrow> bool" where
  "is_tuple_member t ts \<longleftrightarrow> tuple_member_index 0 t ts \<noteq> -1"

definition flat_tuple :: "'a cpp_type list \<Rightarrow> 'a cpp_type list" where
  "flat_tuple ts = tuple_flatten (Tuple ts) []"

definition deduplicate_tuple :: "'a list \<Rightarrow> 'a list" where
  "deduplicate_tuple ts = dedup_tuple ts []"

definition apply_type_modification :: "('a \<Rightarrow> 'b) \<Rightarrow> 'a list \<Rightarrow> 'b list" where
  "apply_type_modification type_mod ts = map type_mod ts"

text \<open>\<open>std::remove_cvref\<close>.\<close>

fun remove_cvref :: "'a cpp_type \<Rightarrow> 'a cpp_type" where
  "remove_cvref (Qualified t) = remove_cvref t"
| "remove_cvref t = t"

definition sanitize_tuple :: "'a cpp_type list \<Rightarrow> 'a cpp_type list" where
  "sanitize_tuple ts = deduplicate_tuple (apply_type_modification remove_cvref (flat_tuple ts))"

section \<open>What they compute\<close>

text \<open>The members of a type from left to right, through tuples but not through qualifiers.\<close>

fun leaves :: "'a cpp_type \<Rightarrow> 'a cpp_type list" where
  "leaves (Tuple ts) = concat (map leaves ts)"
| "leaves t = [t]"

lemma tuple_member_index_iff: "0 \<le> idx \<Longrightarrow> tuple_member_index idx t ts = -1 \<longleftrightarrow> t \<notin> set ts"
  by (induction idx t ts rule: tuple_member_index.induct) auto

lemma is_tuple_member_iff [simp]: "is_tuple_member t ts \<longleftrightarrow> t \<in> set ts"
  by (simp add: is_tuple_member_def tuple_member_index_iff)

lemma tuple_flatten_leaves: "tuple_flatten t results = results @ leaves t"
  by (induction t results rule: tuple_flatten.induct) simp_all

lemma flat_tuple_leaves [simp]: "flat_tuple ts = concat (map leaves ts)"
  by (simp add: flat_tuple_def tuple_flatten_leaves)

text \<open>The first occurrence of every member.\<close>

lemma remdups_last: "remdups (xs @ [t]) = remdups (filter (\<lambda>x. x \<noteq> t) xs) @ [t]"
  by (induction xs) auto

lemma dedup_tuple_remdups:
  "dedup_tuple ts results = results @ rev (remdups (rev (filter (\<lambda>t. t \<notin> set results) ts)))"
  by (induction ts results rule: dedup_tuple.induct)
    (simp_all add: tuple_member_index_iff remdups_last rev_filter conj_commute)

lemma deduplicate_tuple_remdups: "deduplicate_tuple ts = rev (remdups (rev ts))"
  by (simp add: deduplicate_tuple_def dedup_tuple_remdups)

lemma sanitize_tuple_leaves:
  "sanitize_tuple ts = rev (remdups (rev (map remove_cvref (concat (map leaves ts)))))"
  by (simp add: sanitize_tuple_def apply_type_modification_def deduplicate_tuple_remdups)

text \<open>A qualified tuple is not taken apart, but loses its qualifiers.\<close>

fun is_tuple :: "'a cpp_type \<Rightarrow> bool" where
  "is_tuple (Tuple ts) = True"
| "is_tuple t = False"

lemma leaves_plain: "\<not> is_tuple t \<Longrightarrow> leaves t = [t]"
  by (cases t) simp_all

lemma leaves_not_tuple: "t \<in> set (leaves u) \<Longrightarrow> \<not> is_tuple t"
  by (induction u rule: leaves.induct) auto

lemma remove_cvref_idem [simp]: "remove_cvref (remove_cvref t) = remove_cvref t"
  by (induction t rule: remove_cvref.induct) simp_all

lemma concat_leaves_plain: "list_all (\<lambda>t. \<not> is_tuple t) ts \<Longrightarrow> concat (map leaves ts) = ts"
  by (induction ts) (simp_all add: leaves_plain)

lemma size_leaf: "t \<in> set (leaves u) \<Longrightarrow> size t \<le> size u"
proof (induction u rule: leaves.induct)
  case (1 us)
  then obtain v where "v \<in> set us" "size t \<le> size v" by auto
  with size_list_estimation' [of v us "size v" size] show ?case by simp
qed simp_all

lemma size_remove_cvref: "t \<noteq> remove_cvref t \<Longrightarrow> size (remove_cvref t) < size t"
  by (induction t rule: remove_cvref.induct) (fastforce simp: less_Suc_eq)+

lemma sanitize_plain:
  "distinct ts \<Longrightarrow> \<forall>t\<in>set ts. \<not> is_tuple t \<and> remove_cvref t = t \<Longrightarrow> sanitize_tuple ts = ts"
  using concat_leaves_plain [of ts] map_idI [of ts remove_cvref]
  by (simp add: sanitize_tuple_leaves list_all_iff distinct_remdups_id)

lemma set_sanitize_tuple: "set (sanitize_tuple ts) = remove_cvref ` (\<Union>t\<in>set ts. set (leaves t))"
  by (auto simp: sanitize_tuple_leaves)

text \<open>A tuple in a sanitized list comes from a larger one.\<close>

lemma sanitize_tuple_smaller:
  assumes "t \<in> set (sanitize_tuple ts)" "is_tuple t" "\<forall>t\<in>set ts. remove_cvref t = t"
  shows "\<exists>u\<in>set ts. is_tuple u \<and> size t < size u"
proof -
  obtain u v where u: "u \<in> set ts" "v \<in> set (leaves u)" "t = remove_cvref v"
    using assms(1) by (auto simp: set_sanitize_tuple)
  then have v: "v \<noteq> remove_cvref v" using leaves_not_tuple assms(2) by metis
  then have "is_tuple u" using u(1,2) leaves_plain [of u] assms(3) by (cases "is_tuple u") auto
  moreover have "size t < size u"
    using size_leaf [OF u(2)] size_remove_cvref [OF v] u(3) by simp
  ultimately show ?thesis using u(1) by blast
qed

lemma sanitized_twice_plain:
  assumes "sanitize_tuple ts = ts" "\<forall>t\<in>set ts. remove_cvref t = t" "t \<in> set ts"
  shows "\<not> is_tuple t"
  using assms(3)
proof (induction "size_list size ts - size t" arbitrary: t rule: less_induct)
  case less
  show ?case
  proof
    assume "is_tuple t"
    then obtain u where u: "u \<in> set ts" "is_tuple u" "size t < size u"
      using sanitize_tuple_smaller [of t ts] assms(1,2) less.prems by auto
    then have "size_list size ts - size u < size_list size ts - size t"
      using size_list_estimation' [of u ts "size u" size] by simp
    with less.hyps u show False by blast
  qed
qed

text \<open>
  What \<open>sanitize_tuple_t\<close> makes of a list of types: the types in it, nested tuples
  opened and qualifiers removed, each at its first occurrence. Sanitizing again changes
  nothing, unless a tuple was hidden behind qualifiers.
\<close>

theorem sanitize_tuple_members:
  "distinct (sanitize_tuple ts) \<and>
   sanitize_tuple ts = rev (remdups (rev (map remove_cvref (concat (map leaves ts))))) \<and>
   (sanitize_tuple (sanitize_tuple ts) = sanitize_tuple ts \<longleftrightarrow> \<not> list_ex is_tuple (sanitize_tuple ts))"
proof -
  let ?s = "sanitize_tuple ts"
  have s: "distinct ?s" "\<forall>t\<in>set ?s. remove_cvref t = t"
    by (auto simp: sanitize_tuple_leaves)
  then have "sanitize_tuple ?s = ?s \<longleftrightarrow> \<not> list_ex is_tuple ?s"
    using sanitize_plain [of ?s] sanitized_twice_plain [OF _ s(2)] by (auto simp: list_ex_iff)
  with s(1) show ?thesis by (simp add: sanitize_tuple_leaves)
qed

end
