(* ===== verification/Server_Resource.thy ===== *)
theory Server_Resource
  imports Tuples
begin

text \<open>
  Server resources, \<open>src/lw/net/server_resource.h\<close> and \<open>server_resource.cpp\<close>, with \<open>co::all\<close>
  of \<open>src/lw/co/future.h\<close>.

  A resource is identified by its type, and made by the factory registered for that type from
  the resources it depends on. A context makes every resource when it is first asked for.
  The calls of \<open>create_and_get\<close> in one context are coroutines of one thread that wait for each
  other; here they are a list of calls, each with the point at which it is suspended. A step
  runs one call from one \<open>co_await\<close> to the next, in any order: a \<open>co_await\<close> that does not
  suspend is one whose call is resumed next. A factory that is not asynchronous is one whose
  future is ready.

  Parameters are the factories, which work on a state of their own and answer the pointer they
  return or the exception of their future, and the order in which the compiler evaluates the
  arguments of \<open>make_tuple\<close> in \<open>co::all\<close>.
\<close>

section \<open>Resources, factories and the registry\<close>

text \<open>\<open>resource_context\<close> is set when the resource knows its context.\<close>

record 'r server_resource =
  resource_body :: 'r
  resource_context :: bool

record ('k, 'r, 'w) resource_factory =
  fac_dependencies :: "'k list"
  fac_make :: "'r server_resource list \<Rightarrow> 'w \<Rightarrow> 'r option res \<times> 'w"

type_synonym ('k, 'r, 'w) resource_registry = "'k \<rightharpoonup> ('k, 'r, 'w) resource_factory"

text \<open>
  \<open>create_resource_factory\<close> for a class that inherits from \<open>ServerResource<Ts...>\<close>: the
  dependencies are sanitized in the class and once more in \<open>ServerResourceFactoryTypes\<close>.
\<close>

definition create_resource_factory ::
  "'a cpp_type list \<Rightarrow> ('r server_resource list \<Rightarrow> 'w \<Rightarrow> 'r option res \<times> 'w) \<Rightarrow>
   ('a cpp_type, 'r, 'w) resource_factory" where
  "create_resource_factory ts mk =
     \<lparr>fac_dependencies = sanitize_tuple (sanitize_tuple ts), fac_make = mk\<rparr>"

definition register_server_resource ::
  "'k \<Rightarrow> ('k, 'r, 'w) resource_factory \<Rightarrow> ('k, 'r, 'w) resource_registry \<Rightarrow> bool \<times> ('k, 'r, 'w) resource_registry" where
  "register_server_resource k f reg =
     (True, case reg k of None \<Rightarrow> reg(k \<mapsto> f) | Some g \<Rightarrow> reg)"

text \<open>The look-up; the factory is called with the context by \<open>invoke\<close> below.\<close>

definition construct_server_resource ::
  "('k, 'r, 'w) resource_registry \<Rightarrow> 'k \<Rightarrow> ('k, 'r, 'w) resource_factory res" where
  "construct_server_resource reg k =
     (case reg k of None \<Rightarrow> Inl (Err NotFound) | Some f \<Rightarrow> Inr f)"

fun tuple_contains :: "'k \<Rightarrow> 'k list \<Rightarrow> bool" where
  "tuple_contains t [] = False"
| "tuple_contains t (u # rest) = (t = u \<or> tuple_contains t rest)"

lemma tuple_contains_member: "tuple_contains t ts = is_tuple_member t ts"
  by (induction ts) auto

section \<open>Calls\<close>

datatype ('k, 'r, 'w) point =
    Called
  | Await_notice bool
  | Await_all "('k, 'r, 'w) resource_factory" "nat list"
  | Await_factory "('k, 'r, 'w) resource_factory" "'r server_resource list"
  | Await_resource "'r server_resource res"
  | Returned "'r server_resource res"

record ('k, 'r, 'w) resource_call =
  call_key :: 'k
  call_point :: "('k, 'r, 'w) point"

text \<open>
  A context with the calls on it. An entry of \<open>construction\<close> is a promise, named by the call
  that put it there. \<open>outside\<close> is the state of the factories, \<open>invoked\<close> the list of the
  factories called so far.
\<close>

record ('k, 'r, 'w) resources =
  dependencies :: "'k \<rightharpoonup> 'r server_resource"
  construction :: "('k \<times> nat) list"
  calls :: "('k, 'r, 'w) resource_call list"
  outside :: 'w
  invoked :: "'k list"

definition resources_new :: "'w \<Rightarrow> ('k, 'r, 'w) resources" where
  "resources_new w = \<lparr>dependencies = Map.empty, construction = [], calls = [], outside = w, invoked = []\<rparr>"

definition move_call :: "nat \<Rightarrow> ('k, 'r, 'w) point \<Rightarrow> ('k, 'r, 'w) resources \<Rightarrow> ('k, 'r, 'w) resources" where
  "move_call i p m = m\<lparr>calls := (calls m)[i := (calls m ! i)\<lparr>call_point := p\<rparr>]\<rparr>"

definition new_calls :: "'k list \<Rightarrow> ('k, 'r, 'w) resources \<Rightarrow> ('k, 'r, 'w) resources" where
  "new_calls ks m = m\<lparr>calls := calls m @ map (\<lambda>k. \<lparr>call_key = k, call_point = Called\<rparr>) ks\<rparr>"

text \<open>\<open>_dependencies.at(idx)\<close>.\<close>

definition unsafe_get :: "'k \<Rightarrow> ('k, 'r, 'w) resources \<Rightarrow> 'r server_resource res" where
  "unsafe_get k m = (case dependencies m k of None \<Rightarrow> Inl Std_out_of_range | Some r \<Rightarrow> Inr r)"

text \<open>
  \<open>ServerResource::get\<close>, of a resource with dependencies \<open>ts\<close>; the program does not compile
  unless \<open>k\<close> is one of them.
\<close>

definition resource_get :: "'r server_resource \<Rightarrow> 'k \<Rightarrow> ('k, 'r, 'w) resources \<Rightarrow> 'r server_resource res" where
  "resource_get r k m = (if resource_context r then unsafe_get k m else Inl Undefined_behaviour)"

text \<open>The promise of a call that waits for a notice is fulfilled.\<close>

definition notify :: "nat \<Rightarrow> ('k, 'r, 'w) resource_call list \<Rightarrow> ('k, 'r, 'w) resource_call list" where
  "notify j cs =
     cs[j := (case call_point (cs ! j) of
                Await_notice b \<Rightarrow> (cs ! j)\<lparr>call_point := Await_notice True\<rparr>
              | _ \<Rightarrow> cs ! j)]"

text \<open>\<open>FetchDependenciesAndInvoke::invoke\<close>, until it waits for the dependencies.\<close>

definition invoke ::
  "nat \<Rightarrow> ('k, 'r, 'w) resource_factory \<Rightarrow> ('k, 'r, 'w) resources \<Rightarrow> ('k, 'r, 'w) resources" where
  "invoke i f m =
     (let n = length (calls m)
      in move_call i (Await_all f [n..<n + length (fac_dependencies f)]) (new_calls (fac_dependencies f) m))"

text \<open>\<open>create_and_get\<close>, until it is first suspended.\<close>

definition create_and_get ::
  "('k, 'r, 'w) resource_registry \<Rightarrow> nat \<Rightarrow> 'k \<Rightarrow> ('k, 'r, 'w) resources \<Rightarrow> ('k, 'r, 'w) resources" where
  "create_and_get reg i k m =
     (if dependencies m k \<noteq> None then move_call i (Returned (unsafe_get k m)) m
      else
        let m1 = m\<lparr>construction := construction m @ [(k, i)]\<rparr>
        in if k \<in> fst ` set (construction m) then move_call i (Await_notice False) m1
           else case construct_server_resource reg k of
               Inl e \<Rightarrow> move_call i (Returned (Inl e)) m1
             | Inr f \<Rightarrow> invoke i f m1)"

text \<open>
  \<open>co::all\<close>: the futures are awaited in the order \<open>ord\<close>; the first exception in that order is
  thrown, and a future that is not ready suspends. \<open>fut\<close> is what the futures hold.
\<close>

fun await_each :: "'a res option list \<Rightarrow> unit res option" where
  "await_each [] = Some (Inr ())"
| "await_each (None # fs) = None"
| "await_each (Some (Inl e) # fs) = Some (Inl e)"
| "await_each (Some (Inr v) # fs) = await_each fs"

definition await_all :: "('f list \<Rightarrow> 'f list) \<Rightarrow> ('f \<Rightarrow> 'a res option) \<Rightarrow> 'f list \<Rightarrow> 'a list res option" where
  "await_all ord fut fs =
     map_option (map_res (\<lambda>_. map (\<lambda>f. projr (the (fut f))) fs)) (await_each (map fut (ord fs)))"

definition answer_of :: "('k, 'r, 'w) resources \<Rightarrow> nat \<Rightarrow> 'r server_resource res option" where
  "answer_of m j = (case call_point (calls m ! j) of Returned r \<Rightarrow> Some r | _ \<Rightarrow> None)"

text \<open>The dependencies are there, or one of them has failed.\<close>

definition fetched ::
  "nat \<Rightarrow> ('k, 'r, 'w) resource_factory \<Rightarrow> 'r server_resource list res \<Rightarrow> ('k, 'r, 'w) resources \<Rightarrow>
   ('k, 'r, 'w) resources" where
  "fetched i f deps m =
     (case deps of
        Inl e \<Rightarrow> move_call i (Await_resource (Inl e)) m
      | Inr args \<Rightarrow> move_call i (Await_factory f args) (m\<lparr>invoked := invoked m @ [call_key (calls m ! i)]\<rparr>))"

text \<open>The future of the factory is resolved, and \<open>invoke\<close> returns.\<close>

definition made ::
  "nat \<Rightarrow> ('k, 'r, 'w) resource_factory \<Rightarrow> 'r server_resource list \<Rightarrow> ('k, 'r, 'w) resources \<Rightarrow>
   ('k, 'r, 'w) resources" where
  "made i f args m =
     (case fac_make f args (outside m) of
        (out, w) \<Rightarrow>
          move_call i (Await_resource (case out of
              Inl e \<Rightarrow> Inl e
            | Inr None \<Rightarrow> Inl Undefined_behaviour
            | Inr (Some b) \<Rightarrow> Inr \<lparr>resource_body = b, resource_context = True\<rparr>)) (m\<lparr>outside := w\<rparr>))"

text \<open>The resource is stored, everyone who waits for it is notified, and the entries are erased.\<close>

definition constructed ::
  "nat \<Rightarrow> 'k \<Rightarrow> 'r server_resource res \<Rightarrow> ('k, 'r, 'w) resources \<Rightarrow> ('k, 'r, 'w) resources" where
  "constructed i k out m =
     (case out of
        Inl e \<Rightarrow> move_call i (Returned (Inl e)) m
      | Inr r \<Rightarrow>
          let m1 = m\<lparr>dependencies := (dependencies m)(k \<mapsto> r)\<rparr>;
              m2 = m1\<lparr>calls := fold notify (map snd (filter (\<lambda>(k', j). k' = k) (construction m1))) (calls m1)\<rparr>;
              m3 = m2\<lparr>construction := filter (\<lambda>(k', j). k' \<noteq> k) (construction m2)\<rparr>
          in move_call i (Returned (unsafe_get k m3)) m3)"

text \<open>A call is resumed: the next state, or \<open>None\<close> while it waits and when it has returned.\<close>

definition resume_call ::
  "(nat list \<Rightarrow> nat list) \<Rightarrow> ('k, 'r, 'w) resource_registry \<Rightarrow> nat \<Rightarrow> ('k, 'r, 'w) resources \<Rightarrow>
   ('k, 'r, 'w) resources option" where
  "resume_call ord reg i m =
     (if i < length (calls m) then
        let k = call_key (calls m ! i)
        in case call_point (calls m ! i) of
            Called \<Rightarrow> Some (create_and_get reg i k m)
          | Await_notice b \<Rightarrow> if b then Some (move_call i (Returned (unsafe_get k m)) m) else None
          | Await_all f cs \<Rightarrow> map_option (\<lambda>deps. fetched i f deps m) (await_all ord (answer_of m) cs)
          | Await_factory f args \<Rightarrow> Some (made i f args m)
          | Await_resource out \<Rightarrow> Some (constructed i k out m)
          | Returned out \<Rightarrow> None
      else None)"

text \<open>\<open>progress\<close> resumes a call; \<open>resource_step\<close> does, or a request asks the context for a resource.\<close>

inductive progress for ord :: "nat list \<Rightarrow> nat list" and reg :: "('k, 'r, 'w) resource_registry" where
  "resume_call ord reg i m = Some m' \<Longrightarrow> progress ord reg m m'"

inductive resource_step for ord :: "nat list \<Rightarrow> nat list" and reg :: "('k, 'r, 'w) resource_registry" where
  resume: "progress ord reg m m' \<Longrightarrow> resource_step ord reg m m'"
| request: "resource_step ord reg m (new_calls [k] m)"

section \<open>Where the calls are\<close>

definition ncalls :: "('k, 'r, 'w) resources \<Rightarrow> nat" where
  "ncalls m = length (calls m)"

definition key_at :: "('k, 'r, 'w) resources \<Rightarrow> nat \<Rightarrow> 'k" where
  "key_at m i = call_key (calls m ! i)"

definition point_at :: "('k, 'r, 'w) resources \<Rightarrow> nat \<Rightarrow> ('k, 'r, 'w) point" where
  "point_at m i = call_point (calls m ! i)"

definition under_construction :: "('k, 'r, 'w) resources \<Rightarrow> 'k set" where
  "under_construction m = fst ` set (construction m)"

fun woken :: "('k, 'r, 'w) point \<Rightarrow> ('k, 'r, 'w) point" where
  "woken (Await_notice b) = Await_notice True"
| "woken p = p"

lemmas at_defs = ncalls_def key_at_def point_at_def

lemma update_at [simp]:
  "ncalls (m\<lparr>dependencies := d\<rparr>) = ncalls m" "key_at (m\<lparr>dependencies := d\<rparr>) = key_at m"
  "point_at (m\<lparr>dependencies := d\<rparr>) = point_at m"
  "ncalls (m\<lparr>construction := c\<rparr>) = ncalls m" "key_at (m\<lparr>construction := c\<rparr>) = key_at m"
  "point_at (m\<lparr>construction := c\<rparr>) = point_at m"
  "ncalls (m\<lparr>outside := w\<rparr>) = ncalls m" "key_at (m\<lparr>outside := w\<rparr>) = key_at m"
  "point_at (m\<lparr>outside := w\<rparr>) = point_at m"
  "ncalls (m\<lparr>invoked := l\<rparr>) = ncalls m" "key_at (m\<lparr>invoked := l\<rparr>) = key_at m"
  "point_at (m\<lparr>invoked := l\<rparr>) = point_at m"
  by (simp_all add: at_defs fun_eq_iff)

lemma update_under_construction [simp]:
  "under_construction (m\<lparr>dependencies := d\<rparr>) = under_construction m"
  "under_construction (m\<lparr>calls := cs\<rparr>) = under_construction m"
  "under_construction (m\<lparr>outside := w\<rparr>) = under_construction m"
  "under_construction (m\<lparr>invoked := l\<rparr>) = under_construction m"
  by (simp_all add: under_construction_def)

lemma list_update_nth: "xs[i := v] ! j = (if i = j \<and> j < length xs then v else xs ! j)"
  by (cases "i = j") (auto simp: list_update_beyond)

lemma move_call_at [simp]:
  "ncalls (move_call i p m) = ncalls m" "key_at (move_call i p m) = key_at m"
  "point_at (move_call i p m) j = (if i = j \<and> j < ncalls m then p else point_at m j)"
  "dependencies (move_call i p m) = dependencies m" "construction (move_call i p m) = construction m"
  "outside (move_call i p m) = outside m" "invoked (move_call i p m) = invoked m"
  "under_construction (move_call i p m) = under_construction m"
  by (simp_all add: at_defs fun_eq_iff move_call_def list_update_nth under_construction_def)

lemma new_calls_at [simp]:
  "ncalls (new_calls ks m) = ncalls m + length ks"
  "j < ncalls m \<Longrightarrow> key_at (new_calls ks m) j = key_at m j"
  "j < ncalls m \<Longrightarrow> point_at (new_calls ks m) j = point_at m j"
  "j < length ks \<Longrightarrow> key_at (new_calls ks m) (ncalls m + j) = ks ! j"
  "\<not> j < ncalls m \<Longrightarrow> j < ncalls m + length ks \<Longrightarrow> point_at (new_calls ks m) j = Called"
  "dependencies (new_calls ks m) = dependencies m" "construction (new_calls ks m) = construction m"
  "outside (new_calls ks m) = outside m" "invoked (new_calls ks m) = invoked m"
  "under_construction (new_calls ks m) = under_construction m"
  by (simp_all add: at_defs new_calls_def nth_append under_construction_def)

lemma notify_nth [simp]:
  "length (notify i cs) = length cs" "call_key (notify i cs ! j) = call_key (cs ! j)"
  "call_point (notify i cs ! j) = (if i = j \<and> j < length cs then woken (call_point (cs ! j)) else call_point (cs ! j))"
  by (auto simp: notify_def list_update_nth split: point.splits)

lemma woken_twice [simp]: "woken (woken p) = woken p"
  by (cases p) simp_all

lemma notify_all_nth [simp]:
  "length (fold notify js cs) = length cs" "call_key (fold notify js cs ! j) = call_key (cs ! j)"
  "call_point (fold notify js cs ! j) =
     (if j \<in> set js \<and> j < length cs then woken (call_point (cs ! j)) else call_point (cs ! j))"
  by (induction js arbitrary: cs) auto

lemma notify_all_at [simp]:
  "ncalls (m\<lparr>calls := fold notify js cs\<rparr>) = length cs"
  "key_at (m\<lparr>calls := fold notify js cs\<rparr>) = (\<lambda>j. call_key (cs ! j))"
  "point_at (m\<lparr>calls := fold notify js cs\<rparr>) j =
     (if j \<in> set js \<and> j < length cs then woken (call_point (cs ! j)) else call_point (cs ! j))"
  by (simp_all add: at_defs fun_eq_iff)

text \<open>One call resumed, by the point where it is.\<close>

lemma resume_call_at:
  "resume_call ord reg i m =
     (if i < ncalls m then
        (case point_at m i of
            Called \<Rightarrow> Some (create_and_get reg i (key_at m i) m)
          | Await_notice b \<Rightarrow> if b then Some (move_call i (Returned (unsafe_get (key_at m i) m)) m) else None
          | Await_all f cs \<Rightarrow> map_option (\<lambda>deps. fetched i f deps m) (await_all ord (answer_of m) cs)
          | Await_factory f args \<Rightarrow> Some (made i f args m)
          | Await_resource out \<Rightarrow> Some (constructed i (key_at m i) out m)
          | Returned out \<Rightarrow> None)
      else None)"
  unfolding resume_call_def at_defs Let_def by (rule refl)

lemma create_and_get_at:
  "create_and_get reg i k m =
     (if k \<in> dom (dependencies m) then move_call i (Returned (unsafe_get k m)) m
      else
        let m1 = m\<lparr>construction := construction m @ [(k, i)]\<rparr>
        in if k \<in> fst ` set (construction m) then move_call i (Await_notice False) m1
           else case construct_server_resource reg k of
               Inl e \<Rightarrow> move_call i (Returned (Inl e)) m1
             | Inr f \<Rightarrow> invoke i f m1)"
  unfolding create_and_get_def by (simp add: domIff)

lemma fetched_at:
  "fetched i f deps m =
     (case deps of
        Inl e \<Rightarrow> move_call i (Await_resource (Inl e)) m
      | Inr args \<Rightarrow> move_call i (Await_factory f args) (m\<lparr>invoked := invoked m @ [key_at m i]\<rparr>))"
  unfolding fetched_def key_at_def by (rule refl)

lemma invoke_at:
  "invoke i f m = move_call i (Await_all f [ncalls m..<ncalls m + length (fac_dependencies f)])
     (new_calls (fac_dependencies f) m)"
  unfolding invoke_def ncalls_def Let_def by (rule refl)

lemma new_calls_construction: "new_calls ks (m\<lparr>construction := c\<rparr>) = (new_calls ks m)\<lparr>construction := c\<rparr>"
  by (cases m) (simp add: new_calls_def)

lemma answer_of_at: "answer_of m j = (case point_at m j of Returned r \<Rightarrow> Some r | _ \<Rightarrow> None)"
  by (simp add: answer_of_def point_at_def)

section \<open>The invariant\<close>

text \<open>The call that constructs a resource, or failed to; the factory may have been called.\<close>

fun owns :: "('k, 'r, 'w) point \<Rightarrow> bool" where
  "owns (Await_all f cs) = True"
| "owns (Await_factory f args) = True"
| "owns (Await_resource out) = True"
| "owns (Returned out) = isl out"
| "owns p = False"

fun past_all :: "('k, 'r, 'w) point \<Rightarrow> bool" where
  "past_all (Await_all f cs) = False"
| "past_all p = owns p"

definition owners :: "('k, 'r, 'w) resources \<Rightarrow> nat set" where
  "owners m = {i. i < ncalls m \<and> owns (point_at m i)}"

fun point_ok :: "('k, 'r, 'w) resource_registry \<Rightarrow> ('k, 'r, 'w) resources \<Rightarrow> nat \<Rightarrow> ('k, 'r, 'w) point \<Rightarrow> bool" where
  "point_ok reg m i Called = True"
| "point_ok reg m i (Await_notice b) =
     (if b then key_at m i \<in> dom (dependencies m) else (key_at m i, i) \<in> set (construction m))"
| "point_ok reg m i (Await_all f cs) =
     (reg (key_at m i) = Some f \<and> (\<forall>j\<in>set cs. j < ncalls m) \<and> map (key_at m) cs = fac_dependencies f)"
| "point_ok reg m i (Await_factory f args) =
     (reg (key_at m i) = Some f \<and> map (dependencies m) (fac_dependencies f) = map Some args)"
| "point_ok reg m i (Await_resource out) =
     (\<forall>r. out = Inr r \<longrightarrow> resource_context r \<and>
        (\<exists>f. reg (key_at m i) = Some f \<and> set (fac_dependencies f) \<subseteq> dom (dependencies m)))"
| "point_ok reg m i (Returned out) = (\<forall>r. out = Inr r \<longrightarrow> dependencies m (key_at m i) = Some r)"

definition points_ok :: "('k, 'r, 'w) resource_registry \<Rightarrow> ('k, 'r, 'w) resources \<Rightarrow> bool" where
  "points_ok reg m \<longleftrightarrow> (\<forall>i<ncalls m. point_ok reg m i (point_at m i))"

definition entries_ok :: "('k, 'r, 'w) resources \<Rightarrow> bool" where
  "entries_ok m \<longleftrightarrow> (\<forall>k j. (k, j) \<in> set (construction m) \<longrightarrow> j < ncalls m \<and> key_at m j = k)"

definition owners_ok :: "('k, 'r, 'w) resources \<Rightarrow> bool" where
  "owners_ok m \<longleftrightarrow>
     under_construction m = key_at m ` owners m \<and> inj_on (key_at m) (owners m) \<and>
     dom (dependencies m) \<inter> under_construction m = {}"

text \<open>What is there was made from what was there before.\<close>

definition stored_ok :: "('k, 'r, 'w) resource_registry \<Rightarrow> ('k, 'r, 'w) resources \<Rightarrow> bool" where
  "stored_ok reg m \<longleftrightarrow>
     (\<exists>rank :: 'k \<Rightarrow> nat. \<forall>k r. dependencies m k = Some r \<longrightarrow> resource_context r \<and>
        (\<exists>f. reg k = Some f \<and> (\<forall>d\<in>set (fac_dependencies f). d \<in> dom (dependencies m) \<and> rank d < rank k)))"

definition invoked_ok :: "('k, 'r, 'w) resources \<Rightarrow> bool" where
  "invoked_ok m \<longleftrightarrow> distinct (invoked m) \<and>
     set (invoked m) \<subseteq> dom (dependencies m) \<union> key_at m ` {i \<in> owners m. past_all (point_at m i)}"

definition resources_ok :: "('k, 'r, 'w) resource_registry \<Rightarrow> ('k, 'r, 'w) resources \<Rightarrow> bool" where
  "resources_ok reg m \<longleftrightarrow>
     points_ok reg m \<and> entries_ok m \<and> owners_ok m \<and> stored_ok reg m \<and> invoked_ok m"

lemma resources_new_ok: "resources_ok reg (resources_new w)"
  by (simp add: resources_ok_def points_ok_def entries_ok_def owners_ok_def stored_ok_def invoked_ok_def
      resources_new_def at_defs owners_def under_construction_def)

text \<open>What a point needs is kept when calls and entries are added.\<close>

lemma point_ok_mono:
  assumes "point_ok reg m i p" "i < ncalls m" "ncalls m \<le> ncalls m'" "\<forall>j<ncalls m. key_at m' j = key_at m j"
    and "dependencies m \<subseteq>\<^sub>m dependencies m'"
    and "p = Await_notice False \<Longrightarrow> (key_at m i, i) \<in> set (construction m')"
  shows "point_ok reg m' i p"
proof (cases p)
  case (Await_all f cs)
  with assms(1,3,4) have "\<forall>j\<in>set cs. j < ncalls m' \<and> key_at m' j = key_at m j" by auto
  then have "map (key_at m') cs = map (key_at m) cs" "\<forall>j\<in>set cs. j < ncalls m'" by simp_all
  with assms(1,2,4) Await_all show ?thesis by simp
next
  case (Await_factory f args)
  with assms(1) have "map (dependencies m) (fac_dependencies f) = map Some args" by simp
  then have "map (dependencies m') (fac_dependencies f) = map Some args"
    using assms(5) by (fastforce simp: list_eq_iff_nth_eq map_le_def dom_def)
  with assms(1,2,4) Await_factory show ?thesis by simp
next
  case (Await_notice b)
  with assms show ?thesis using subsetD [OF map_le_implies_dom_le [OF assms(5)]] by simp
next
  case (Await_resource out)
  with assms show ?thesis using map_le_implies_dom_le [OF assms(5)] by fastforce
next
  case (Returned out)
  with assms show ?thesis by (auto simp: map_le_def dom_def)
qed simp

lemma point_ok_move [simp]: "point_ok reg (move_call i p m) j q = point_ok reg m j q"
  by (cases q) simp_all

lemma owners_move:
  "i < ncalls m \<Longrightarrow> owners (move_call i p m) = (if owns p then insert i (owners m) else owners m - {i})"
  by (auto simp: owners_def)

lemma owners_iff: "i \<in> owners m \<longleftrightarrow> i < ncalls m \<and> owns (point_at m i)"
  by (simp add: owners_def)

lemma past_all_owns: "past_all p \<Longrightarrow> owns p"
  by (cases p) simp_all

text \<open>A call moves on, and what it owns stays the same.\<close>

lemma move_call_ok:
  assumes "resources_ok reg m" "i < ncalls m" "point_ok reg m i p"
    and "owns p = owns (point_at m i)" "past_all (point_at m i) \<Longrightarrow> past_all p"
  shows "resources_ok reg (move_call i p m)"
proof -
  have o: "owners (move_call i p m) = owners m"
    using assms(2,4) by (auto simp: owners_def)
  have "invoked_ok (move_call i p m)"
    using assms(1,5) unfolding resources_ok_def invoked_ok_def o by auto
  moreover have "points_ok reg (move_call i p m)"
    using assms(1,3) by (auto simp: resources_ok_def points_ok_def)
  moreover have "owners_ok (move_call i p m) = owners_ok m" "entries_ok (move_call i p m) = entries_ok m"
    "stored_ok reg (move_call i p m) = stored_ok reg m"
    unfolding owners_ok_def entries_ok_def stored_ok_def o by simp_all
  ultimately show ?thesis using assms(1) by (simp add: resources_ok_def)
qed

text \<open>More calls, a state of the factories, and another entry for a resource under construction.\<close>

lemma owners_new_calls [simp]: "owners (new_calls ks m) = owners m"
proof -
  have "i < ncalls m + length ks \<and> owns (point_at (new_calls ks m) i) \<longleftrightarrow> i < ncalls m \<and> owns (point_at m i)" for i
    by (cases "i < ncalls m") auto
  then show ?thesis by (simp add: owners_def)
qed

lemma key_image_new_calls: "S \<subseteq> owners m \<Longrightarrow> key_at (new_calls ks m) ` S = key_at m ` S"
  by (intro image_cong refl) (auto simp: owners_def)

lemma new_calls_ok:
  assumes "resources_ok reg m"
  shows "resources_ok reg (new_calls ks m)"
proof -
  have "points_ok reg (new_calls ks m)"
    unfolding points_ok_def
  proof (intro allI impI)
    fix i assume i: "i < ncalls (new_calls ks m)"
    show "point_ok reg (new_calls ks m) i (point_at (new_calls ks m) i)"
    proof (cases "i < ncalls m")
      case True
      then have "point_ok reg m i (point_at m i)" using assms by (simp add: resources_ok_def points_ok_def)
      moreover from this have "point_at m i = Await_notice False \<Longrightarrow> (key_at m i, i) \<in> set (construction m)" by simp
      ultimately show ?thesis using True by (auto intro: point_ok_mono)
    qed (use i in simp)
  qed
  moreover have "{i \<in> owners m. past_all (point_at (new_calls ks m) i)} = {i \<in> owners m. past_all (point_at m i)}"
    by (auto simp: owners_def)
  then have "invoked_ok (new_calls ks m) = invoked_ok m"
    by (simp add: invoked_ok_def key_image_new_calls)
  moreover have "owners_ok (new_calls ks m) = owners_ok m"
    using inj_on_cong [of "owners m" "key_at (new_calls ks m)" "key_at m"]
    by (simp add: owners_ok_def key_image_new_calls owners_iff)
  moreover have "entries_ok m \<Longrightarrow> entries_ok (new_calls ks m)"
    by (fastforce simp: entries_ok_def)
  moreover have "stored_ok reg (new_calls ks m) = stored_ok reg m" by (simp add: stored_ok_def)
  ultimately show ?thesis using assms by (simp add: resources_ok_def)
qed

lemma owners_update [simp]:
  "owners (m\<lparr>dependencies := d\<rparr>) = owners m" "owners (m\<lparr>construction := c\<rparr>) = owners m"
  "owners (m\<lparr>outside := w\<rparr>) = owners m" "owners (m\<lparr>invoked := l\<rparr>) = owners m"
  by (simp_all add: owners_def)

lemma point_ok_update [simp]:
  "point_ok reg (m\<lparr>outside := w\<rparr>) i p = point_ok reg m i p"
  "point_ok reg (m\<lparr>invoked := l\<rparr>) i p = point_ok reg m i p"
  by (cases p; simp)+

lemma outside_ok [simp]: "resources_ok reg (m\<lparr>outside := w\<rparr>) = resources_ok reg m"
  by (simp add: resources_ok_def points_ok_def entries_ok_def owners_ok_def stored_ok_def invoked_ok_def)

lemma point_ok_entry:
  assumes "point_ok reg m i p" "i < ncalls m" "set (construction m) \<subseteq> set c"
  shows "point_ok reg (m\<lparr>construction := c\<rparr>) i p"
  by (rule point_ok_mono [OF assms(1,2)]) (use assms in auto)

lemma add_entry_ok:
  assumes "resources_ok reg m" "i < ncalls m" "key_at m i \<in> under_construction m"
  shows "resources_ok reg (m\<lparr>construction := construction m @ [(key_at m i, i)]\<rparr>)"
    (is "resources_ok reg ?m")
proof -
  have uc: "under_construction ?m = under_construction m"
    using assms(3) by (auto simp: under_construction_def)
  have "points_ok reg ?m"
    using assms(1) by (auto simp: resources_ok_def points_ok_def intro: point_ok_entry)
  moreover have "owners_ok ?m = owners_ok m"
    unfolding owners_ok_def uc by simp
  ultimately show ?thesis
    using assms by (auto simp: resources_ok_def entries_ok_def stored_ok_def invoked_ok_def)
qed

text \<open>A call takes on the construction of a resource.\<close>

lemma take_on_ok:
  assumes "resources_ok reg m" "i < ncalls m" "point_at m i = Called"
    and "key_at m i \<notin> dom (dependencies m)" "key_at m i \<notin> under_construction m"
    and "owns p" "point_ok reg m i p"
  shows "resources_ok reg (move_call i p (m\<lparr>construction := construction m @ [(key_at m i, i)]\<rparr>))"
    (is "resources_ok reg (move_call i p ?m)")
proof -
  have i: "i \<notin> owners m" using assms(3) by (simp add: owners_def)
  have o: "owners (move_call i p ?m) = insert i (owners m)" using assms(2,6) by (simp add: owners_move)
  have uc: "under_construction (move_call i p ?m) = insert (key_at m i) (under_construction m)"
    by (auto simp: under_construction_def)
  have "owners_ok (move_call i p ?m)"
    using assms(1,4,5) i unfolding resources_ok_def owners_ok_def o uc by auto
  moreover have "points_ok reg (move_call i p ?m)"
    using assms(1,7) by (auto simp: resources_ok_def points_ok_def intro: point_ok_entry)
  moreover have "invoked_ok (move_call i p ?m)"
    using assms(1) i unfolding resources_ok_def invoked_ok_def o by fastforce
  ultimately show ?thesis
    using assms(1,2) by (auto simp: resources_ok_def entries_ok_def stored_ok_def)
qed

lemma owner_key:
  assumes "resources_ok reg m" "i \<in> owners m"
  shows "key_at m i \<in> under_construction m" "key_at m i \<notin> dom (dependencies m)"
    "j \<in> owners m \<Longrightarrow> key_at m j = key_at m i \<Longrightarrow> j = i"
  using assms by (auto simp: resources_ok_def owners_ok_def inj_on_def)

text \<open>The factory of a resource is called.\<close>

lemma not_invoked:
  assumes "resources_ok reg m" "i \<in> owners m" "\<not> past_all (point_at m i)"
  shows "key_at m i \<notin> set (invoked m)"
proof
  assume "key_at m i \<in> set (invoked m)"
  then have "key_at m i \<in> dom (dependencies m) \<union> key_at m ` {i \<in> owners m. past_all (point_at m i)}"
    using assms(1) by (auto simp: resources_ok_def invoked_ok_def)
  then obtain j where "j \<in> owners m" "past_all (point_at m j)" "key_at m j = key_at m i"
    using owner_key(2) [OF assms(1,2)] by (metis (no_types, lifting) UnE imageE mem_Collect_eq)
  with owner_key(3) [OF assms(1,2)] assms(3) show False by blast
qed

lemma invoked_update_ok:
  assumes "resources_ok reg m" "i \<in> owners m" "past_all (point_at m i)" "key_at m i \<notin> set (invoked m)"
  shows "resources_ok reg (m\<lparr>invoked := invoked m @ [key_at m i]\<rparr>)"
  using assms
  by (auto simp: resources_ok_def points_ok_def entries_ok_def owners_ok_def stored_ok_def invoked_ok_def)

lemma move_call_invoked: "move_call i p (m\<lparr>invoked := l\<rparr>) = (move_call i p m)\<lparr>invoked := l\<rparr>"
  by (cases m) (simp add: move_call_def)

lemma call_factory_ok:
  assumes "resources_ok reg m" "i < ncalls m" "point_at m i = Await_all f cs" "point_ok reg m i (Await_factory f args)"
  shows "resources_ok reg (move_call i (Await_factory f args) (m\<lparr>invoked := invoked m @ [key_at m i]\<rparr>))"
proof -
  let ?m = "move_call i (Await_factory f args) m"
  have "resources_ok reg ?m" using assms by (intro move_call_ok) simp_all
  moreover have "key_at m i \<notin> set (invoked m)"
    using not_invoked [OF assms(1), of i] assms(2,3) by (simp add: owners_def)
  ultimately have "resources_ok reg (?m\<lparr>invoked := invoked ?m @ [key_at ?m i]\<rparr>)"
    using assms(2) by (intro invoked_update_ok) (simp_all add: owners_def)
  then show ?thesis by (simp add: move_call_invoked)
qed

text \<open>A resource is stored, and those who wait for it are woken.\<close>

lemma woken_owns [simp]: "owns (woken p) = owns p" "past_all (woken p) = past_all p"
  by (cases p; simp)+

lemma woken_ok:
  assumes "point_ok reg m i p" "i < ncalls m" "dependencies m \<subseteq>\<^sub>m dependencies m'" "ncalls m' = ncalls m"
    and "key_at m' = key_at m" "q = (if (k, i) \<in> set (construction m) then woken p else p)"
    and "k \<in> dom (dependencies m')" "(k, i) \<in> set (construction m) \<Longrightarrow> key_at m i = k"
    and "\<forall>k' j. k' \<noteq> k \<and> (k', j) \<in> set (construction m) \<longrightarrow> (k', j) \<in> set (construction m')"
  shows "point_ok reg m' i q"
proof (cases "\<exists>b. p = Await_notice b")
  case True
  then obtain b where b: "p = Await_notice b" by blast
  show ?thesis
  proof (cases "(k, i) \<in> set (construction m)")
    case True
    with assms b show ?thesis by simp
  next
    case False
    then have "(key_at m i, i) \<in> set (construction m')" if "p = Await_notice False"
      using that assms(1,9) by (metis point_ok.simps(2))
    then have "point_ok reg m' i p"
      by (intro point_ok_mono [OF assms(1,2)]) (simp_all add: assms(3-5))
    with False show ?thesis by (simp add: assms(6))
  qed
next
  case False
  then have "woken p = p" by (cases p) simp_all
  moreover have "point_ok reg m' i p"
    using False by (intro point_ok_mono [OF assms(1,2)]) (auto simp: assms(3-5))
  ultimately show ?thesis by (simp add: assms(6))
qed

lemma store_rank:
  assumes "stored_ok reg m" "k \<notin> dom (dependencies m)" "resource_context r" "reg k = Some f"
    and "set (fac_dependencies f) \<subseteq> dom (dependencies m)" "dependencies m' = (dependencies m)(k \<mapsto> r)"
  shows "stored_ok reg m'"
proof -
  obtain rank :: "'a \<Rightarrow> nat" where rank: "\<forall>k r. dependencies m k = Some r \<longrightarrow> resource_context r \<and>
      (\<exists>f. reg k = Some f \<and> (\<forall>d\<in>set (fac_dependencies f). d \<in> dom (dependencies m) \<and> rank d < rank k))"
    using assms(1) by (auto simp: stored_ok_def)
  define rank' where "rank' = rank(k := Suc (sum_list (map rank (fac_dependencies f))))"
  have new: "rank' d < rank' k \<and> d \<in> dom (dependencies m')" if "d \<in> set (fac_dependencies f)" for d
  proof -
    from that assms(2,5) have "d \<noteq> k" "d \<in> dom (dependencies m)" by auto
    with that show ?thesis
      using member_le_sum_list [of "rank d" "map rank (fac_dependencies f)"] by (auto simp: rank'_def assms(6))
  qed
  have old: "rank' d < rank' x \<and> d \<in> dom (dependencies m')"
    if "x \<in> dom (dependencies m)" "d \<in> dom (dependencies m)" "rank d < rank x" for x d
    using that assms(2) by (auto simp: rank'_def assms(6))
  have "\<forall>x y. dependencies m' x = Some y \<longrightarrow> resource_context y \<and>
      (\<exists>f. reg x = Some f \<and> (\<forall>d\<in>set (fac_dependencies f). d \<in> dom (dependencies m') \<and> rank' d < rank' x))"
  proof (intro allI impI)
    fix x y assume xy: "dependencies m' x = Some y"
    show "resource_context y \<and>
      (\<exists>f. reg x = Some f \<and> (\<forall>d\<in>set (fac_dependencies f). d \<in> dom (dependencies m') \<and> rank' d < rank' x))"
    proof (cases "x = k")
      case True
      with xy new assms(3,4,6) show ?thesis by auto
    next
      case False
      with xy have "dependencies m x = Some y" by (simp add: assms(6))
      with rank old show ?thesis by (metis domI)
    qed
  qed
  then show ?thesis unfolding stored_ok_def by blast
qed

lemma constructed_at:
  fixes m :: "('k, 'r, 'w) resources" and k r i
  defines "m' \<equiv> constructed i k (Inr r) m"
  shows "dependencies m' = (dependencies m)(k \<mapsto> r)" "ncalls m' = ncalls m" "key_at m' = key_at m"
    "invoked m' = invoked m" "construction m' = filter (\<lambda>(k', j). k' \<noteq> k) (construction m)"
    "i < ncalls m \<Longrightarrow> point_at m' j = (if j = i then Returned (Inr r)
       else if (k, j) \<in> set (construction m) \<and> j < ncalls m then woken (point_at m j) else point_at m j)"
proof -
  have "j \<in> set (map snd (filter (\<lambda>(k', j). k' = k) (construction m))) \<longleftrightarrow> (k, j) \<in> set (construction m)"
    by force
  then show "i < ncalls m \<Longrightarrow> point_at m' j = (if j = i then Returned (Inr r)
       else if (k, j) \<in> set (construction m) \<and> j < ncalls m then woken (point_at m j) else point_at m j)"
    by (simp add: m'_def constructed_def Let_def unsafe_get_def ncalls_def [of m] point_at_def [of m]
        del: set_map set_filter)
qed (simp_all add: m'_def constructed_def Let_def ncalls_def [of m] key_at_def [of m] fun_eq_iff)

lemma constructed_ok:
  assumes ok: "resources_ok reg m" and i: "i < ncalls m" and p: "point_at m i = Await_resource (Inr r)"
  shows "resources_ok reg (constructed i (key_at m i) (Inr r) m)" (is "resources_ok reg ?m")
proof -
  let ?k = "key_at m i"
  have own: "i \<in> owners m" using i p by (simp add: owners_def)
  note k = owner_key [OF ok own]
  have ent: "j < ncalls m \<and> key_at m j = k'" if "(k', j) \<in> set (construction m)" for k' j
    using ok that by (auto simp: resources_ok_def entries_ok_def)
  note deps = constructed_at(1) [of i ?k r m]
  have con: "(k', j) \<in> set (construction ?m) \<longleftrightarrow> (k', j) \<in> set (construction m) \<and> k' \<noteq> ?k" for k' j
    by (simp add: constructed_at)
  have pt: "point_at ?m j = (if j = i then Returned (Inr r)
      else if (?k, j) \<in> set (construction m) then woken (point_at m j) else point_at m j)" for j
    using i ent [of ?k j] by (simp add: constructed_at)
  note at = constructed_at(2-4) [of i ?k r m] pt
  have le: "dependencies m \<subseteq>\<^sub>m dependencies ?m" using k(2) by (auto simp: deps map_le_def)
  obtain f where f: "reg ?k = Some f" "set (fac_dependencies f) \<subseteq> dom (dependencies m)" "resource_context r"
    using ok i p by (fastforce simp: resources_ok_def points_ok_def)
  have o: "owners ?m = owners m - {i}" by (auto simp: owners_def at)
  have uc: "under_construction ?m = under_construction m - {?k}" 
    by (auto simp: under_construction_def con image_iff)
  have "points_ok reg ?m"
    unfolding points_ok_def at(1)
  proof (intro allI impI)
    fix j assume j: "j < ncalls m"
    show "point_ok reg ?m j (point_at ?m j)"
    proof (cases "j = i")
      case True
      then show ?thesis using at(2,4) deps by simp
    next
      case False
      have "point_ok reg m j (point_at m j)" using ok j by (simp add: resources_ok_def points_ok_def)
      then show ?thesis
        by (rule woken_ok [where k = ?k, OF _ j le at(1,2)]) (use False ent deps con in \<open>auto simp: at\<close>)
    qed
  qed
  moreover have "owners_ok ?m"
    using ok k own unfolding resources_ok_def owners_ok_def o uc at deps by (auto simp: inj_on_def)
  moreover have "invoked_ok ?m"
    using ok unfolding resources_ok_def invoked_ok_def o at deps by fastforce
  moreover have "entries_ok ?m" using ent by (auto simp: entries_ok_def con at)
  moreover have "stored_ok reg ?m"
    using store_rank [of reg m ?k r f ?m] k(2) f deps ok by (simp add: resources_ok_def)
  ultimately show ?thesis by (simp add: resources_ok_def)
qed

text \<open>Every step keeps the invariant.\<close>

lemma await_each_Inr: "await_each fs = Some (Inr u) \<longleftrightarrow> (\<forall>f\<in>set fs. \<exists>v. f = Some (Inr v))"
  by (induction fs rule: await_each.induct) auto

lemma await_all_Inr:
  assumes "set (ord fs) = set fs"
  shows "await_all ord fut fs = Some (Inr vs) \<longleftrightarrow> map fut fs = map (\<lambda>v. Some (Inr v)) vs"
proof -
  have "await_all ord fut fs = Some (Inr vs) \<longleftrightarrow>
      (\<forall>f\<in>set fs. \<exists>v. fut f = Some (Inr v)) \<and> vs = map (\<lambda>f. projr (the (fut f))) fs"
    by (auto simp: await_all_def map_res_eq_Inr_iff await_each_Inr assms)
  also have "\<dots> \<longleftrightarrow> map fut fs = map (\<lambda>v. Some (Inr v)) vs"
    by (auto simp: list_eq_iff_nth_eq all_set_conv_all_nth)
  finally show ?thesis .
qed

lemma not_isl_iff: "\<not> isl x \<longleftrightarrow> (\<exists>r. x = Inr r)"
  by (cases x) simp_all

lemma answer_of_Inr:
  "answer_of m j = Some (Inr r) \<longleftrightarrow> point_at m j = Returned (Inr r)"
  by (auto simp: answer_of_at split: point.splits)

lemma unsafe_get_Inr [simp]: "dependencies m k = Some r \<Longrightarrow> unsafe_get k m = Inr r"
  by (simp add: unsafe_get_def)

lemma create_and_get_ok:
  assumes ok: "resources_ok reg m" and i: "i < ncalls m" and p: "point_at m i = Called"
  shows "resources_ok reg (create_and_get reg i (key_at m i) m)"
proof -
  let ?k = "key_at m i" and ?m1 = "m\<lparr>construction := construction m @ [(key_at m i, i)]\<rparr>"
  consider (there) r where "dependencies m ?k = Some r"
    | (wait) "?k \<notin> dom (dependencies m)" "?k \<in> under_construction m"
    | (none) "?k \<notin> dom (dependencies m)" "?k \<notin> under_construction m" "reg ?k = None"
    | (build) f where "?k \<notin> dom (dependencies m)" "?k \<notin> under_construction m" "reg ?k = Some f"
    by (cases "reg ?k") auto
  then show ?thesis
  proof cases
    case there
    with ok i p have "resources_ok reg (move_call i (Returned (Inr r)) m)" by (intro move_call_ok) simp_all
    with there show ?thesis by (simp add: create_and_get_at domI)
  next
    case wait
    from p have "resources_ok reg (move_call i (Await_notice False) ?m1)"
      by (intro move_call_ok [OF add_entry_ok [OF ok i wait(2)]]) (simp_all add: i)
    with wait show ?thesis by (simp add: create_and_get_at under_construction_def)
  next
    case none
    with ok i p have "resources_ok reg (move_call i (Returned (Inl (Err NotFound))) ?m1)"
      by (intro take_on_ok) simp_all
    with none show ?thesis by (simp add: create_and_get_at construct_server_resource_def under_construction_def)
  next
    case build
    let ?ks = "fac_dependencies f"
    let ?p = "Await_all f [ncalls m..<ncalls m + length ?ks]" and ?m = "new_calls ?ks m"
    have "map (key_at ?m) [ncalls m..<ncalls m + length ?ks] = ?ks"
      by (rule nth_equalityI) simp_all
    with build i have "resources_ok reg (move_call i ?p
        (?m\<lparr>construction := construction ?m @ [(key_at ?m i, i)]\<rparr>))"
      by (intro take_on_ok new_calls_ok ok) (simp_all add: p)
    with build i show ?thesis
      by (simp add: create_and_get_at construct_server_resource_def under_construction_def invoke_at
          new_calls_construction)
  qed
qed

lemma fetched_ok:
  assumes ok: "resources_ok reg m" and i: "i < ncalls m" and p: "point_at m i = Await_all f cs"
    and ord: "\<forall>cs. set (ord cs) = set cs" and a: "await_all ord (answer_of m) cs = Some deps"
  shows "resources_ok reg (fetched i f deps m)"
proof (cases deps)
  case (Inl e)
  with ok i p show ?thesis by (auto simp: fetched_at intro!: move_call_ok)
next
  case (Inr args)
  have pt: "point_ok reg m j (point_at m j)" if "j < ncalls m" for j
    using ok that by (simp add: resources_ok_def points_ok_def)
  have all: "map (answer_of m) cs = map (\<lambda>v. Some (Inr v)) args"
    using a await_all_Inr [of ord cs "answer_of m" args] ord Inr by simp
  from pt [OF i] p have cs: "reg (key_at m i) = Some f" "\<forall>j\<in>set cs. j < ncalls m"
      "map (key_at m) cs = fac_dependencies f" by simp_all
  have "dependencies m (key_at m (cs ! n)) = Some (args ! n)" if "n < length cs" for n
  proof -
    from all that have "answer_of m (cs ! n) = Some (Inr (args ! n))"
      by (metis length_map nth_map)
    with pt [of "cs ! n"] cs(2) that show ?thesis by (simp add: answer_of_Inr)
  qed
  moreover have "length args = length cs" using all by (metis length_map)
  ultimately have "map (dependencies m) (map (key_at m) cs) = map Some args"
    by (simp add: list_eq_iff_nth_eq)
  with cs have "point_ok reg m i (Await_factory f args)" by simp
  from call_factory_ok [OF ok i p this] Inr show ?thesis by (simp add: fetched_at)
qed

lemma made_ok:
  assumes ok: "resources_ok reg m" and i: "i < ncalls m" and p: "point_at m i = Await_factory f args"
  shows "resources_ok reg (made i f args m)"
proof -
  have "point_ok reg m i (Await_factory f args)"
    using ok i p by (metis resources_ok_def points_ok_def)
  then have f: "reg (key_at m i) = Some f" "map (dependencies m) (fac_dependencies f) = map Some args"
    by simp_all
  have "set (fac_dependencies f) \<subseteq> dom (dependencies m)"
  proof
    fix d assume "d \<in> set (fac_dependencies f)"
    then have "dependencies m d \<in> set (map Some args)" by (metis f(2) image_eqI set_map)
    then show "d \<in> dom (dependencies m)" by auto
  qed
  with ok i p f(1) show ?thesis
    unfolding made_def
    by (auto split: prod.splits sum.splits option.splits intro!: move_call_ok)
qed

lemma resume_call_ok:
  assumes "resume_call ord reg i m = Some m'" "resources_ok reg m" "\<forall>cs. set (ord cs) = set cs"
  shows "resources_ok reg m'"
proof -
  have i: "i < ncalls m" using assms(1) by (auto simp: resume_call_at split: if_splits)
  have pt: "point_ok reg m i (point_at m i)"
    using assms(2) i by (simp add: resources_ok_def points_ok_def)
  note at = assms(1) [unfolded resume_call_at]
  show ?thesis
  proof (cases "point_at m i")
    case Called
    with at i create_and_get_ok [OF assms(2) i Called] show ?thesis by simp
  next
    case (Await_notice b)
    with at i pt obtain r where "m' = move_call i (Returned (Inr r)) m" "dependencies m (key_at m i) = Some r"
      by (auto split: if_splits)
    with assms(2) i Await_notice show ?thesis by (auto intro!: move_call_ok)
  next
    case (Await_all f cs)
    with at i obtain deps where "await_all ord (answer_of m) cs = Some deps" "m' = fetched i f deps m" by auto
    with fetched_ok [OF assms(2) i Await_all assms(3)] show ?thesis by simp
  next
    case (Await_factory f args)
    with at i made_ok [OF assms(2) i Await_factory] show ?thesis by simp
  next
    case (Await_resource out)
    with at i have m': "m' = constructed i (key_at m i) out m" by simp
    show ?thesis
    proof (cases out)
      case (Inl e)
      with m' assms(2) i Await_resource show ?thesis by (auto simp: constructed_def intro!: move_call_ok)
    next
      case (Inr r)
      with m' constructed_ok [OF assms(2) i] Await_resource show ?thesis by simp
    qed
  next
    case (Returned out)
    with at i show ?thesis by simp
  qed
qed

lemma resource_step_ok:
  "resource_step ord reg m m' \<Longrightarrow> \<forall>cs. set (ord cs) = set cs \<Longrightarrow> resources_ok reg m \<Longrightarrow> resources_ok reg m'"
  by (erule resource_step.cases) (auto elim: progress.cases intro: resume_call_ok new_calls_ok)

lemma resource_steps_ok:
  "(resource_step ord reg)\<^sup>*\<^sup>* m m' \<Longrightarrow> \<forall>cs. set (ord cs) = set cs \<Longrightarrow> resources_ok reg m \<Longrightarrow> resources_ok reg m'"
  by (induction rule: rtranclp_induct) (auto intro: resource_step_ok)

text \<open>A resource that is there stays there, and stays the same.\<close>

lemma fetched_dependencies [simp]: "dependencies (fetched i f deps m) = dependencies m"
  by (simp add: fetched_at split: sum.split)

lemma resume_call_dependencies:
  assumes "resume_call ord reg i m = Some m'" "resources_ok reg m"
  shows "dependencies m \<subseteq>\<^sub>m dependencies m'"
proof (cases "\<exists>r. i < ncalls m \<and> point_at m i = Await_resource (Inr r)")
  case True
  then obtain r where r: "i < ncalls m" "point_at m i = Await_resource (Inr r)" by blast
  then have "m' = constructed i (key_at m i) (Inr r) m" "i \<in> owners m"
    using assms(1) by (simp_all add: resume_call_at owners_def)
  with owner_key(2) [OF assms(2)] show ?thesis by (auto simp: constructed_at map_le_def)
next
  case False
  then have "dependencies m' = dependencies m"
    using assms(1)
    by (auto simp: resume_call_at create_and_get_at invoke_at made_def constructed_def Let_def
        split: if_splits point.splits sum.splits prod.splits)
  then show ?thesis by simp
qed

lemma resource_step_dependencies:
  "resource_step ord reg m m' \<Longrightarrow> resources_ok reg m \<Longrightarrow> dependencies m \<subseteq>\<^sub>m dependencies m'"
  by (erule resource_step.cases) (auto elim!: progress.cases intro: resume_call_dependencies)

lemma resource_steps_dependencies:
  "(resource_step ord reg)\<^sup>*\<^sup>* m m' \<Longrightarrow> \<forall>cs. set (ord cs) = set cs \<Longrightarrow> resources_ok reg m \<Longrightarrow>
   dependencies m \<subseteq>\<^sub>m dependencies m'"
proof (induction rule: rtranclp_induct)
  case (step m1 m2)
  from step.IH [OF step.prems] resource_step_dependencies [OF step.hyps(2) resource_steps_ok [OF step.hyps(1) step.prems]]
  show ?case by (rule map_le_trans)
qed simp

text \<open>A call that has returned stays where it is.\<close>

definition settled_in :: "('k, 'r, 'w) resources \<Rightarrow> ('k, 'r, 'w) resources \<Rightarrow> bool" where
  "settled_in m m' \<longleftrightarrow> ncalls m \<le> ncalls m' \<and>
     (\<forall>j<ncalls m. key_at m' j = key_at m j \<and> (\<forall>out. point_at m j = Returned out \<longrightarrow> point_at m' j = Returned out))"

lemma settled_in_trans: "settled_in a b \<Longrightarrow> settled_in b c \<Longrightarrow> settled_in a c"
  by (fastforce simp: settled_in_def)

lemma settled_move:
  "\<forall>out. point_at m i \<noteq> Returned out \<Longrightarrow> settled_in m (move_call i p m)"
  by (auto simp: settled_in_def)

lemma settled_update [simp]:
  "settled_in m (m'\<lparr>construction := c\<rparr>) = settled_in m m'" "settled_in m (m'\<lparr>invoked := l\<rparr>) = settled_in m m'"
  "settled_in m (m'\<lparr>outside := w\<rparr>) = settled_in m m'"
  by (simp_all add: settled_in_def)

lemma settled_new_calls: "settled_in m (new_calls ks m)"
  by (simp add: settled_in_def)

lemma settled_resume:
  assumes "resume_call ord reg i m = Some m'"
  shows "settled_in m m'"
proof -
  have i: "i < ncalls m" "\<forall>out. point_at m i \<noteq> Returned out"
    using assms by (auto simp: resume_call_at split: if_splits)
  have move: "settled_in m (move_call i p m1)" if "settled_in m m1" for p m1
    using that i by (auto simp: settled_in_def)
  have refl: "settled_in m m" by (simp add: settled_in_def)
  have "settled_in m (create_and_get reg i (key_at m i) m)"
    unfolding create_and_get_at invoke_at Let_def
    by (auto split: sum.splits intro!: move settled_in_trans [OF _ settled_new_calls] refl simp: refl)
  moreover have "settled_in m (fetched i f deps m)" for f deps
    by (cases deps) (auto simp: fetched_at refl intro!: move)
  moreover have "settled_in m (made i f args m)" for f args
    by (auto simp: made_def refl split: prod.splits intro!: move)
  moreover have "settled_in m (constructed i k out m)" for k out
  proof (cases out)
    case (Inr r)
    have "woken p = Returned x \<longleftrightarrow> p = Returned x" for p :: "('a, 'b, 'c) point" and x by (cases p) simp_all
    with i Inr show ?thesis by (auto simp: settled_in_def constructed_at)
  qed (simp add: constructed_def move refl)
  ultimately show ?thesis
    using assms i move [OF refl] by (auto simp: resume_call_at split: point.splits if_splits)
qed

lemma settled_steps: "(resource_step ord reg)\<^sup>*\<^sup>* m m' \<Longrightarrow> settled_in m m'"
proof (induction rule: rtranclp_induct)
  case (step m1 m2)
  from step.hyps(2) have "settled_in m1 m2"
    by (auto elim!: resource_step.cases progress.cases intro: settled_resume settled_new_calls)
  with step.IH show ?case by (rule settled_in_trans)
qed (simp add: settled_in_def)

section \<open>Properties\<close>

lemmas reachable_ok = resource_steps_ok [OF _ _ resources_new_ok]

lemma stored_dependencies:
  assumes "resources_ok reg m" "dependencies m k = Some r" "reg k = Some f" "d \<in> set (fac_dependencies f)"
  shows "\<exists>x. dependencies m d = Some x \<and> resource_get r d m = Inr x"
  using assms by (fastforce simp: resources_ok_def stored_ok_def resource_get_def)

text \<open>
  C15: a context has one instance of every resource. In whatever order the calls run and
  whatever fails, no factory is called twice, and it is called with the instances of the
  context. A resource once handed out stays in the context and is what every later call gets;
  it knows its context, so \<open>get\<close> finds the instance of every dependency.
\<close>

theorem one_instance:
  assumes ord: "\<forall>cs. set (ord cs) = set cs"
    and run: "(resource_step ord reg)\<^sup>*\<^sup>* (resources_new w) m" "(resource_step ord reg)\<^sup>*\<^sup>* m m'"
  shows "distinct (invoked m') \<and>
    (\<forall>i<ncalls m'. \<forall>f args. point_at m' i = Await_factory f args \<longrightarrow>
       reg (key_at m' i) = Some f \<and> map (dependencies m') (fac_dependencies f) = map Some args) \<and>
    (\<forall>i<ncalls m. \<forall>r. point_at m i = Returned (Inr r) \<longrightarrow>
       dependencies m' (key_at m i) = Some r \<and>
       (\<forall>f d. reg (key_at m i) = Some f \<and> d \<in> set (fac_dependencies f) \<longrightarrow>
          (\<exists>x. dependencies m' d = Some x \<and> resource_get r d m' = Inr x)))"
proof (intro conjI allI impI)
  note ok = reachable_ok [OF run(1) ord]
  note ok' = resource_steps_ok [OF run(2) ord ok]
  show "distinct (invoked m')" using ok' by (simp add: resources_ok_def invoked_ok_def)
  { fix i f args assume "i < ncalls m'" "point_at m' i = Await_factory f args"
    then have "point_ok reg m' i (Await_factory f args)"
      using ok' by (metis resources_ok_def points_ok_def)
    then show "reg (key_at m' i) = Some f" "map (dependencies m') (fac_dependencies f) = map Some args"
      by simp_all }
  fix i r assume "i < ncalls m" "point_at m i = Returned (Inr r)"
  then have "dependencies m (key_at m i) = Some r"
    using ok by (fastforce simp: resources_ok_def points_ok_def)
  with resource_steps_dependencies [OF run(2) ord ok] show r: "dependencies m' (key_at m i) = Some r"
    by (metis domI map_le_def)
  fix f d assume "reg (key_at m i) = Some f \<and> d \<in> set (fac_dependencies f)"
  with stored_dependencies [OF ok' r] show "\<exists>x. dependencies m' d = Some x \<and> resource_get r d m' = Inr x"
    by blast
qed

text \<open>A schedule as the list of the calls that are resumed.\<close>

fun run_calls ::
  "(nat list \<Rightarrow> nat list) \<Rightarrow> ('k, 'r, 'w) resource_registry \<Rightarrow> nat list \<Rightarrow> ('k, 'r, 'w) resources \<Rightarrow>
   ('k, 'r, 'w) resources option" where
  "run_calls ord reg [] m = Some m"
| "run_calls ord reg (i # is) m =
     (case resume_call ord reg i m of None \<Rightarrow> None | Some m' \<Rightarrow> run_calls ord reg is m')"

lemma run_calls_progress:
  "run_calls ord reg is m = Some m' \<Longrightarrow> (progress ord reg ^^ length is) m m'"
proof (induction "is" arbitrary: m)
  case (Cons i "is")
  then obtain m1 where "resume_call ord reg i m = Some m1" "run_calls ord reg is m1 = Some m'"
    by (auto split: option.splits)
  with Cons.IH have "progress ord reg m m1" "(progress ord reg ^^ length is) m1 m'"
    by (auto intro: progress.intros)
  then show ?case using relpowp_Suc_I2 by fastforce
qed simp

lemma progress_steps: "(progress ord reg ^^ n) m m' \<Longrightarrow> (resource_step ord reg)\<^sup>*\<^sup>* m m'"
  by (induction n arbitrary: m') (auto intro: resume rtranclp.rtrancl_into_rtrancl)

lemma run_calls_steps: "run_calls ord reg is m = Some m' \<Longrightarrow> (resource_step ord reg)\<^sup>*\<^sup>* m m'"
  by (rule progress_steps [OF run_calls_progress])

definition ex_reg :: "(nat, nat, nat) resource_registry" where
  "ex_reg = [0 \<mapsto> \<lparr>fac_dependencies = [], fac_make = (\<lambda>args w. (Inr (Some w), Suc w))\<rparr>,
     1 \<mapsto> \<lparr>fac_dependencies = [0], fac_make = (\<lambda>args w. (Inr (Some (10 * resource_body (hd args))), Suc w))\<rparr>]"

lemmas call_eval = resume_call_def create_and_get_def construct_server_resource_def invoke_def fetched_def
  made_def constructed_def notify_def unsafe_get_def await_all_def answer_of_def move_call_def new_calls_def
  resources_new_def Let_def

theorem one_instance_witness:
  "\<exists>m. (resource_step id ex_reg)\<^sup>*\<^sup>* (resources_new 7) m \<and> distinct (invoked m) \<and> invoked m = [0, 1] \<and>
     dependencies m 1 = Some \<lparr>resource_body = 70, resource_context = True\<rparr>"
proof -
  obtain m where m: "run_calls id ex_reg [0, 1, 1, 1, 1, 0, 0, 0] (new_calls [1] (resources_new 7)) = Some m"
      "invoked m = [0, 1]" "ncalls m = 2" "point_at m 0 = Returned (Inr \<lparr>resource_body = 70, resource_context = True\<rparr>)"
      "key_at m 0 = 1"
    by (simp add: ex_reg_def call_eval at_defs)
  have "(resource_step id ex_reg)\<^sup>*\<^sup>* (resources_new 7) m"
    using run_calls_steps [OF m(1)] request [of id ex_reg "resources_new 7" 1]
    by (rule converse_rtranclp_into_rtranclp [rotated])
  moreover from one_instance [OF _ this rtranclp.rtrancl_refl]
  have "distinct (invoked m)"
    and "\<forall>i<ncalls m. \<forall>r. point_at m i = Returned (Inr r) \<longrightarrow> dependencies m (key_at m i) = Some r"
    by auto
  moreover from this(2) [rule_format, OF _ m(4)] m(3,5)
  have "dependencies m 1 = Some \<lparr>resource_body = 70, resource_context = True\<rparr>" by simp
  ultimately show ?thesis using m(2) by blast
qed

text \<open>
  A failed construction answers one caller only. When a call has returned with an
  exception, every other call for the same resource, from before or from later, has not
  returned and never does; the resource is never there.
\<close>

theorem failed_construction_strands:
  assumes "\<forall>cs. set (ord cs) = set cs" "(resource_step ord reg)\<^sup>*\<^sup>* (resources_new w) m"
    and "i < ncalls m" "point_at m i = Returned (Inl e)"
    and "(resource_step ord reg)\<^sup>*\<^sup>* m m'" "j < ncalls m'" "key_at m' j = key_at m i" "j \<noteq> i"
  shows "dependencies m' (key_at m i) = None \<and> (point_at m' j = Called \<or> point_at m' j = Await_notice False)"
proof -
  have ok: "resources_ok reg m'"
    using reachable_ok [OF _ assms(1)] assms(2,5) by (meson rtranclp_trans)
  have i: "i < ncalls m'" "key_at m' i = key_at m i" "point_at m' i = Returned (Inl e)"
    using settled_steps [OF assms(5)] assms(3,4) by (auto simp: settled_in_def)
  then have own: "i \<in> owners m'" by (simp add: owners_def)
  have none: "dependencies m' (key_at m i) = None" using owner_key(2) [OF ok own] i(2) by auto
  have "j \<notin> owners m'" using owner_key(3) [OF ok own, of j] assms(7,8) i(2) by auto
  then have "\<not> owns (point_at m' j)" using assms(6) by (simp add: owners_def)
  moreover have "point_ok reg m' j (point_at m' j)"
    using ok assms(6) by (simp add: resources_ok_def points_ok_def)
  ultimately show ?thesis
    using none assms(7) by (cases "point_at m' j" rule: owns.cases) (auto split: if_splits simp: domIff not_isl_iff)
qed

theorem failed_construction_strands_witness:
  "\<exists>m. (resource_step id (Map.empty :: (nat, nat, nat) resource_registry))\<^sup>*\<^sup>* (resources_new 7) m \<and>
     point_at m 0 = Returned (Inl (Err NotFound)) \<and> point_at m 1 = Await_notice False \<and>
     dependencies m 5 = None \<and> (point_at m 1 = Called \<or> point_at m 1 = Await_notice False)"
proof -
  let ?reg = "Map.empty :: (nat, nat, nat) resource_registry"
  obtain m where m: "run_calls id ?reg [0, 1] (new_calls [5] (new_calls [5] (resources_new 7))) = Some m"
      "ncalls m = 2" "point_at m 0 = Returned (Inl (Err NotFound))" "point_at m 1 = Await_notice False"
      "key_at m 0 = 5" "key_at m 1 = 5"
    by (simp add: call_eval at_defs)
  have "(resource_step id ?reg)\<^sup>*\<^sup>* (resources_new 7) (new_calls [5] (new_calls [5] (resources_new 7)))"
    using request by (metis rtranclp.simps)
  with run_calls_steps [OF m(1)] have run: "(resource_step id ?reg)\<^sup>*\<^sup>* (resources_new 7) m" by (meson rtranclp_trans)
  have "dependencies m 5 = None \<and> (point_at m 1 = Called \<or> point_at m 1 = Await_notice False)"
    using failed_construction_strands [OF _ run _ m(3) rtranclp.rtrancl_refl, of 1] m(2,5,6) by simp
  with run m(3,4) show ?thesis by blast
qed

section \<open>Cycles\<close>

definition depends :: "('k, 'r, 'w) resource_registry \<Rightarrow> ('k \<times> 'k) set" where
  "depends reg = {(k, d). \<exists>f. reg k = Some f \<and> d \<in> set (fac_dependencies f)}"

lemma depends_rank:
  assumes "(k, d) \<in> (depends reg)\<^sup>+"
    and "\<forall>k r. D k = Some r \<longrightarrow> (\<exists>f. reg k = Some f \<and> (\<forall>d\<in>set (fac_dependencies f). d \<in> dom D \<and> rank d < (rank k :: nat)))"
    and "k \<in> dom D"
  shows "d \<in> dom D \<and> rank d < rank k"
  using assms(1)
proof (induction rule: trancl_induct)
  case (base d)
  with assms(2,3) show ?case by (fastforce simp: depends_def)
next
  case (step d e)
  then have "e \<in> dom D \<and> rank e < rank d" using assms(2) by (fastforce simp: depends_def)
  with step.IH show ?case by auto
qed

text \<open>
  A resource that depends on itself, directly or through others, is never made, and no
  call for it ever returns without an exception.
\<close>

theorem cyclic_resource_never_made:
  assumes "\<forall>cs. set (ord cs) = set cs" "(resource_step ord reg)\<^sup>*\<^sup>* (resources_new w) m"
    and "(k, k) \<in> (depends reg)\<^sup>+"
  shows "dependencies m k = None \<and> (\<forall>i<ncalls m. key_at m i = k \<longrightarrow> point_at m i \<noteq> Returned (Inr r))"
proof -
  note ok = reachable_ok [OF assms(2,1)]
  then obtain rank :: "'a \<Rightarrow> nat" where rank: "\<forall>k r. dependencies m k = Some r \<longrightarrow>
      (\<exists>f. reg k = Some f \<and> (\<forall>d\<in>set (fac_dependencies f). d \<in> dom (dependencies m) \<and> rank d < rank k))"
    unfolding resources_ok_def stored_ok_def by meson
  have none: "dependencies m k = None"
    using depends_rank [OF assms(3) rank] by (cases "dependencies m k") auto
  moreover have "dependencies m (key_at m i) = Some r" if "i < ncalls m" "point_at m i = Returned (Inr r)" for i
    using that ok by (fastforce simp: resources_ok_def points_ok_def)
  ultimately show ?thesis by auto
qed

theorem cyclic_resource_never_made_witness:
  "\<exists>m. (resource_step id [0 \<mapsto> \<lparr>fac_dependencies = [0 :: nat], fac_make = (\<lambda>args w. (Inr (Some w), w))\<rparr>])\<^sup>*\<^sup>*
       (resources_new (7 :: nat)) m \<and> point_at m 1 = Await_notice False \<and> dependencies m 0 = None"
proof -
  let ?reg = "[0 \<mapsto> \<lparr>fac_dependencies = [0 :: nat], fac_make = (\<lambda>args w. (Inr (Some w), w))\<rparr>] :: (nat, nat, nat) resource_registry"
  obtain m where m: "run_calls id ?reg [0, 1] (new_calls [0] (resources_new 7)) = Some m"
      "point_at m 1 = Await_notice False"
    by (simp add: call_eval at_defs)
  have run: "(resource_step id ?reg)\<^sup>*\<^sup>* (resources_new 7) m"
    using run_calls_steps [OF m(1)] request [of id ?reg "resources_new 7" 0]
    by (rule converse_rtranclp_into_rtranclp [rotated])
  have "(0, 0) \<in> (depends ?reg)\<^sup>+" by (rule trancl.r_into_trancl) (simp add: depends_def)
  from cyclic_resource_never_made [OF _ run this] m(2) run show ?thesis by auto
qed

end
