(* ===== verification/Resource_Progress.thy ===== *)
theory Resource_Progress
  imports Server_Resource
begin

text \<open>
  The calls on a context of server resources come to rest, and without cycles and failures
  every call has its resource then.
\<close>

section \<open>How much work is left\<close>

fun weight :: "('k, 'r, 'w) point \<Rightarrow> nat" where
  "weight Called = 4"
| "weight (Await_all f cs) = 3"
| "weight (Await_factory f args) = 2"
| "weight (Await_resource out) = 1"
| "weight (Await_notice b) = 1"
| "weight (Returned out) = 0"

definition pending :: "('k, 'r, 'w) resources \<Rightarrow> nat" where
  "pending m = (\<Sum>i<ncalls m. weight (point_at m i))"

definition fresh :: "('k, 'r, 'w) resource_registry \<Rightarrow> ('k, 'r, 'w) resources \<Rightarrow> 'k set" where
  "fresh reg m = dom reg - under_construction m - dom (dependencies m)"

definition calls_made :: "('k, 'r, 'w) resource_registry \<Rightarrow> 'k \<Rightarrow> nat" where
  "calls_made reg k = (case reg k of None \<Rightarrow> 0 | Some f \<Rightarrow> length (fac_dependencies f))"

definition work_left :: "('k, 'r, 'w) resource_registry \<Rightarrow> ('k, 'r, 'w) resources \<Rightarrow> nat" where
  "work_left reg m = pending m + 4 * (\<Sum>k\<in>fresh reg m. calls_made reg k)"

lemma pending_update [simp]:
  "pending (m\<lparr>dependencies := d\<rparr>) = pending m" "pending (m\<lparr>construction := c\<rparr>) = pending m"
  "pending (m\<lparr>outside := w\<rparr>) = pending m" "pending (m\<lparr>invoked := l\<rparr>) = pending m"
  by (simp_all add: pending_def)

lemma pending_move:
  assumes "i < ncalls m"
  shows "pending (move_call i p m) + weight (point_at m i) = pending m + weight p"
proof -
  have "(\<Sum>j\<in>{..<ncalls m} - {i}. weight (point_at (move_call i p m) j)) =
      (\<Sum>j\<in>{..<ncalls m} - {i}. weight (point_at m j))"
    by (rule sum.cong) auto
  then show ?thesis
    using assms by (simp add: pending_def sum.remove [of "{..<ncalls m}" i])
qed

lemma sum_new: "(\<Sum>j<a + b. f j) = (\<Sum>j<a. f j) + (\<Sum>j<b. f (a + j))" for f :: "nat \<Rightarrow> nat"
  by (induction b) simp_all

lemma pending_new_calls: "pending (new_calls ks m) = pending m + 4 * length ks"
  by (simp add: pending_def sum_new)

lemma weight_woken [simp]: "weight (woken p) = weight p"
  by (cases p) simp_all

lemma pending_constructed:
  assumes "i < ncalls m" "point_at m i = Await_resource (Inr r)"
  shows "pending m = Suc (pending (constructed i k (Inr r) m))"
proof -
  let ?m = "constructed i k (Inr r) m"
  have "(\<Sum>j\<in>{..<ncalls m} - {i}. weight (point_at ?m j)) = (\<Sum>j\<in>{..<ncalls m} - {i}. weight (point_at m j))"
    using assms(1) by (intro sum.cong) (auto simp: constructed_at)
  then show ?thesis
    using assms by (simp add: pending_def constructed_at sum.remove [of "{..<ncalls m}" i])
qed

lemma fresh_update [simp]:
  "fresh reg (move_call i p m) = fresh reg m" "fresh reg (new_calls ks m) = fresh reg m"
  "fresh reg (m\<lparr>outside := w\<rparr>) = fresh reg m" "fresh reg (m\<lparr>invoked := l\<rparr>) = fresh reg m"
  by (simp_all add: fresh_def)

lemma fresh_entry:
  "fresh reg (m\<lparr>construction := construction m @ [(k, i)]\<rparr>) = fresh reg m - {k}"
  by (auto simp: fresh_def under_construction_def)

lemma fresh_constructed:
  assumes "k \<in> under_construction m"
  shows "fresh reg (constructed i k (Inr r) m) = fresh reg m"
proof -
  have "under_construction (constructed i k (Inr r) m) = under_construction m - {k}"
    by (auto simp: under_construction_def constructed_at image_iff)
  with assms show ?thesis by (auto simp: fresh_def constructed_at)
qed

text \<open>Every resumption uses some of it up.\<close>

lemma move_call_work:
  "i < ncalls m \<Longrightarrow> weight p < weight (point_at m i) \<Longrightarrow> work_left reg (move_call i p m) < work_left reg m"
  using pending_move [of i m p] by (simp add: work_left_def)

lemma sum_fresh_remove:
  "finite (dom reg) \<Longrightarrow> k \<in> fresh reg m \<Longrightarrow>
   (\<Sum>x\<in>fresh reg m. calls_made reg x) = calls_made reg k + (\<Sum>x\<in>fresh reg m - {k}. calls_made reg x)"
  by (rule sum.remove) (auto simp: fresh_def)

lemma sum_fresh_le:
  "finite (dom reg) \<Longrightarrow> (\<Sum>x\<in>fresh reg m - {k}. calls_made reg x) \<le> (\<Sum>x\<in>fresh reg m. calls_made reg x)"
  by (rule sum_mono2) (auto simp: fresh_def)

lemma create_and_get_work:
  assumes "i < ncalls m" "point_at m i = Called" "finite (dom reg)"
  shows "work_left reg (create_and_get reg i (key_at m i) m) < work_left reg m"
proof -
  let ?k = "key_at m i"
  let ?m1 = "m\<lparr>construction := construction m @ [(?k, i)]\<rparr>"
  have w1: "work_left reg ?m1 \<le> work_left reg m"
    using sum_fresh_le [OF assms(3), of m ?k] by (simp add: work_left_def fresh_entry)
  have move: "work_left reg (move_call i p ?m1) < work_left reg m" if "weight p < 4" for p
    using move_call_work [of i ?m1 p reg] w1 assms that by simp
  consider (there) "?k \<in> dom (dependencies m)" | (wait) "?k \<notin> dom (dependencies m)" "?k \<in> fst ` set (construction m)"
    | (none) "?k \<notin> dom (dependencies m)" "?k \<notin> fst ` set (construction m)" "reg ?k = None"
    | (build) f where "?k \<notin> dom (dependencies m)" "?k \<notin> fst ` set (construction m)" "reg ?k = Some f"
    by (cases "reg ?k") auto
  then show ?thesis
  proof cases
    case there
    then show ?thesis using move_call_work [OF assms(1), of "Returned (unsafe_get ?k m)" reg] assms(2)
      by (simp add: create_and_get_at)
  next
    case wait
    then show ?thesis using move [of "Await_notice False"] by (simp add: create_and_get_at)
  next
    case none
    then show ?thesis using move [of "Returned (Inl (Err NotFound))"]
      by (simp add: create_and_get_at construct_server_resource_def)
  next
    case build
    let ?m2 = "new_calls (fac_dependencies f) ?m1"
    let ?p = "Await_all f [ncalls m..<ncalls m + length (fac_dependencies f)]"
    have "?k \<in> fresh reg m" using build by (simp add: fresh_def under_construction_def domI)
    from sum_fresh_remove [OF assms(3) this] build(3)
    have "4 * (\<Sum>x\<in>fresh reg m. calls_made reg x) =
        4 * length (fac_dependencies f) + 4 * (\<Sum>x\<in>fresh reg m - {?k}. calls_made reg x)"
      by (simp add: calls_made_def)
    then have "work_left reg ?m2 = work_left reg m"
      by (simp add: work_left_def pending_new_calls fresh_entry)
    moreover have "work_left reg (move_call i ?p ?m2) < work_left reg ?m2"
      using assms by (intro move_call_work) simp_all
    ultimately show ?thesis
      using build by (simp add: create_and_get_at construct_server_resource_def invoke_at)
  qed
qed

lemma resume_call_work:
  assumes "resume_call ord reg i m = Some m'" "resources_ok reg m" "finite (dom reg)"
  shows "work_left reg m' < work_left reg m"
proof -
  have i: "i < ncalls m" using assms(1) by (auto simp: resume_call_at split: if_splits)
  note at = assms(1) [unfolded resume_call_at]
  show ?thesis
  proof (cases "\<exists>r. point_at m i = Await_resource (Inr r)")
    case True
    then obtain r where r: "point_at m i = Await_resource (Inr r)" by blast
    with at i have "m' = constructed i (key_at m i) (Inr r) m" "i \<in> owners m" by (simp_all add: owners_def)
    with pending_constructed [OF i r, of "key_at m i"] fresh_constructed [OF owner_key(1) [OF assms(2)]]
    show ?thesis by (simp add: work_left_def)
  next
    case False
    have invoked: "work_left reg (move_call i p (m\<lparr>invoked := l\<rparr>)) < work_left reg m"
      and outside: "work_left reg (move_call i p (m\<lparr>outside := w\<rparr>)) < work_left reg m"
      if "weight p < weight (point_at m i)" for p l w
      using move_call_work [of i "m\<lparr>invoked := l\<rparr>" p reg] move_call_work [of i "m\<lparr>outside := w\<rparr>" p reg] i that
      by (simp_all add: work_left_def)
    have "work_left reg (fetched i f deps m) < work_left reg m" if "point_at m i = Await_all f cs" for f cs deps
      using that move_call_work [OF i] invoked by (cases deps) (simp_all add: fetched_at)
    with False at i show ?thesis
      using create_and_get_work [OF i _ assms(3)] move_call_work [OF i] outside
      by (auto simp: made_def constructed_def split: point.splits sum.splits prod.splits if_splits)
  qed
qed

lemma progress_work:
  assumes "(progress ord reg ^^ n) m m'" "resources_ok reg m" "finite (dom reg)" "\<forall>cs. set (ord cs) = set cs"
  shows "n + work_left reg m' \<le> work_left reg m \<and> resources_ok reg m'"
  using assms
proof (induction n arbitrary: m')
  case (Suc n)
  then obtain m1 where m1: "(progress ord reg ^^ n) m m1" "progress ord reg m1 m'" by auto
  then obtain i where i: "resume_call ord reg i m1 = Some m'" by (auto elim: progress.cases)
  have IH: "n + work_left reg m1 \<le> work_left reg m" "resources_ok reg m1"
    using Suc.IH [OF m1(1) Suc.prems(2-4)] by simp_all
  with resume_call_work [OF i IH(2) Suc.prems(3)] resume_call_ok [OF i IH(2) Suc.prems(4)]
  show ?case by simp
qed simp

section \<open>Dependencies without cycles\<close>

lemma finite_depends:
  assumes "finite (dom reg)"
  shows "finite (depends reg)"
proof -
  have "depends reg = (\<Union>k\<in>dom reg. {k} \<times> set (fac_dependencies (the (reg k))))"
    by (auto simp: depends_def)
  with assms show ?thesis by simp
qed

text \<open>No failure: every resource has a factory and no call has an exception.\<close>

fun sound :: "('k, 'r, 'w) point \<Rightarrow> bool" where
  "sound (Await_resource out) = (\<not> isl out)"
| "sound (Returned out) = (\<not> isl out)"
| "sound p = True"

definition all_sound :: "('k, 'r, 'w) resource_registry \<Rightarrow> ('k, 'r, 'w) resources \<Rightarrow> bool" where
  "all_sound reg m \<longleftrightarrow> (\<forall>i<ncalls m. key_at m i \<in> dom reg \<and> sound (point_at m i))"

definition factories_succeed :: "('k, 'r, 'w) resource_registry \<Rightarrow> bool" where
  "factories_succeed reg \<longleftrightarrow>
     (\<forall>k f args w. reg k = Some f \<longrightarrow> (\<exists>b w'. fac_make f args w = (Inr (Some b), w')))"

lemma all_sound_move:
  "all_sound reg m \<Longrightarrow> sound p \<Longrightarrow> all_sound reg (move_call i p m)"
  by (simp add: all_sound_def)

lemma all_sound_update [simp]:
  "all_sound reg (m\<lparr>dependencies := d\<rparr>) = all_sound reg m" "all_sound reg (m\<lparr>construction := c\<rparr>) = all_sound reg m"
  "all_sound reg (m\<lparr>outside := w\<rparr>) = all_sound reg m" "all_sound reg (m\<lparr>invoked := l\<rparr>) = all_sound reg m"
  by (simp_all add: all_sound_def)

lemma all_sound_new_calls:
  assumes "all_sound reg m" "set ks \<subseteq> dom reg"
  shows "all_sound reg (new_calls ks m)"
  unfolding all_sound_def
proof (intro allI impI)
  fix i assume i: "i < ncalls (new_calls ks m)"
  show "key_at (new_calls ks m) i \<in> dom reg \<and> sound (point_at (new_calls ks m) i)"
  proof (cases "i < ncalls m")
    case True
    with assms(1) show ?thesis by (simp add: all_sound_def)
  next
    case False
    with i obtain j where "i = ncalls m + j" "j < length ks" by (auto simp: nat_le_iff_add not_less)
    with assms(2) show ?thesis by (auto simp: subset_iff)
  qed
qed

lemma await_each_Inl: "await_each fs = Some (Inl e) \<Longrightarrow> Some (Inl e) \<in> set fs"
  by (induction fs rule: await_each.induct) auto

lemma await_each_None: "await_each fs = None \<Longrightarrow> None \<in> set fs"
  by (induction fs rule: await_each.induct) auto

lemma await_all_sound:
  assumes "await_all ord (answer_of m) cs = Some (Inl e)" "set (ord cs) = set cs" "\<forall>j\<in>set cs. j < ncalls m"
  shows "\<not> all_sound reg m"
proof -
  have "await_each (map (answer_of m) (ord cs)) = Some (Inl e)"
    using assms(1) by (auto simp: await_all_def)
  then obtain j where "j \<in> set cs" "answer_of m j = Some (Inl e)"
    using await_each_Inl assms(2) by fastforce
  then have "point_at m j = Returned (Inl e)" "j < ncalls m"
    using assms(3) by (auto simp: answer_of_at split: point.splits)
  then show ?thesis by (auto simp: all_sound_def)
qed

lemma all_sound_constructed:
  assumes "all_sound reg m" "i < ncalls m"
  shows "all_sound reg (constructed i k (Inr r) m)"
proof -
  have "sound (woken p) = sound p" for p :: "('a, 'b, 'c) point" by (cases p) simp_all
  with assms show ?thesis by (simp add: all_sound_def constructed_at)
qed

lemma resume_call_sound:
  assumes "resume_call ord reg i m = Some m'" "resources_ok reg m" "all_sound reg m"
    and ord: "\<forall>cs. set (ord cs) = set cs" and "factories_succeed reg"
    and deps: "\<forall>k f. reg k = Some f \<longrightarrow> set (fac_dependencies f) \<subseteq> dom reg"
  shows "all_sound reg m'"
proof -
  have i: "i < ncalls m" using assms(1) by (auto simp: resume_call_at split: if_splits)
  have pt: "point_ok reg m i (point_at m i)"
    using assms(2) i by (simp add: resources_ok_def points_ok_def)
  have k: "key_at m i \<in> dom reg" "sound (point_at m i)" using assms(3) i by (auto simp: all_sound_def)
  note at = assms(1) [unfolded resume_call_at]
  show ?thesis
  proof (cases "point_at m i")
    case Called
    with at i k(1) assms(3) deps show ?thesis
      by (auto simp: create_and_get_at invoke_at Let_def construct_server_resource_def unsafe_get_def
          intro!: all_sound_move all_sound_new_calls split: if_splits option.splits)
  next
    case (Await_notice b)
    with at i pt obtain r where "m' = move_call i (Returned (Inr r)) m" by (auto split: if_splits)
    with assms(3) show ?thesis by (simp add: all_sound_move)
  next
    case (Await_all f cs)
    with at i obtain dp where dp: "await_all ord (answer_of m) cs = Some dp" "m' = fetched i f dp m" by auto
    with await_all_sound [of ord m cs _ reg] ord pt Await_all assms(3) have "\<not> isl dp"
      by (cases dp) auto
    with dp(2) assms(3) show ?thesis by (auto simp: fetched_at not_isl_iff intro!: all_sound_move)
  next
    case (Await_factory f args)
    with pt have "reg (key_at m i) = Some f" by simp
    then obtain b w where "fac_make f args (outside m) = (Inr (Some b), w)"
      using assms(5) by (metis factories_succeed_def)
    with Await_factory at i assms(3) show ?thesis by (auto simp: made_def intro!: all_sound_move)
  next
    case (Await_resource out)
    with k(2) obtain r where "out = Inr r" by (auto simp: not_isl_iff)
    with Await_resource at i assms(3) show ?thesis by (auto intro: all_sound_constructed)
  next
    case (Returned out)
    with at i show ?thesis by simp
  qed
qed

text \<open>A call that cannot be resumed waits for another.\<close>

lemma stuck_waits:
  assumes "resume_call ord reg i m = None" "i < ncalls m" "resources_ok reg m" "all_sound reg m"
    and "\<forall>cs. set (ord cs) = set cs"
  shows "(\<exists>r. point_at m i = Returned (Inr r)) \<or>
    (\<exists>j<ncalls m. (\<forall>r. point_at m j \<noteq> Returned (Inr r)) \<and>
       ((key_at m i, key_at m j) \<in> depends reg \<or> key_at m j = key_at m i \<and> j \<in> owners m \<and> i \<notin> owners m))"
proof -
  have pt: "point_ok reg m i (point_at m i)"
    using assms(2,3) by (simp add: resources_ok_def points_ok_def)
  note at = assms(1) [unfolded resume_call_at]
  show ?thesis
  proof (cases "point_at m i")
    case (Await_notice b)
    with at assms(2) pt have "key_at m i \<in> under_construction m"
      by (force simp: under_construction_def split: if_splits)
    then obtain j where "j \<in> owners m" "key_at m j = key_at m i"
      using assms(3) by (auto simp: resources_ok_def owners_ok_def)
    with Await_notice show ?thesis by (auto simp: owners_def)
  next
    case (Await_all f cs)
    with at assms(2) have "await_each (map (answer_of m) (ord cs)) = None" by (simp add: await_all_def)
    then have "None \<in> set (map (answer_of m) (ord cs))" by (rule await_each_None)
    then obtain j where j: "j \<in> set cs" "answer_of m j = None" using assms(5) by auto
    from Await_all pt have f: "\<forall>j\<in>set cs. j < ncalls m" "reg (key_at m i) = Some f"
        "map (key_at m) cs = fac_dependencies f"
      by simp_all
    with j(1) have "(key_at m i, key_at m j) \<in> depends reg" by (auto simp: depends_def simp flip: f(3))
    with j f(1) show ?thesis by (auto simp: answer_of_at)
  next
    case (Returned out)
    with assms(2,4) show ?thesis by (auto simp: all_sound_def not_isl_iff)
  qed (use at assms(2) in simp_all)
qed

lemma rest_returned:
  assumes rest: "\<forall>i. resume_call ord reg i m = None"
    and ok: "resources_ok reg m" "all_sound reg m" "\<forall>cs. set (ord cs) = set cs"
    and "finite (dom reg)" "acyclic (depends reg)" "i < ncalls m"
  shows "\<exists>r. point_at m i = Returned (Inr r)"
proof -
  have "wf ((depends reg)\<inverse>)"
    using assms(5,6) by (intro finite_acyclic_wf_converse finite_depends)
  then have "\<forall>i<ncalls m. key_at m i = k \<longrightarrow> (\<exists>r. point_at m i = Returned (Inr r))" for k
  proof (induction k rule: wf_induct_rule)
    case (less k)
    have lower: "\<exists>r. point_at m j = Returned (Inr r)" if "j < ncalls m" "(k, key_at m j) \<in> depends reg" for j
      using less that by simp
    have owner: "\<exists>r. point_at m j = Returned (Inr r)" if "j \<in> owners m" "key_at m j = k" for j
      using stuck_waits [OF rest [rule_format] _ ok, of j] lower that by (auto simp: owners_iff)
    show ?case
      using stuck_waits [OF rest [rule_format] _ ok] lower owner by metis
  qed
  with assms(7) show ?thesis by blast
qed

lemma progress_sound:
  assumes "(progress ord reg ^^ n) m m'" "resources_ok reg m" "all_sound reg m" "\<forall>cs. set (ord cs) = set cs"
    and "factories_succeed reg" "\<forall>k f. reg k = Some f \<longrightarrow> set (fac_dependencies f) \<subseteq> dom reg"
  shows "all_sound reg m'"
  using assms(1)
proof (induction n arbitrary: m')
  case (Suc n)
  then obtain m1 where m1: "(progress ord reg ^^ n) m m1" "progress ord reg m1 m'" by auto
  then obtain i where i: "resume_call ord reg i m1 = Some m'" by (auto elim: progress.cases)
  have "resources_ok reg m1" using resource_steps_ok [OF progress_steps [OF m1(1)] assms(4,2)] .
  from resume_call_sound [OF i this Suc.IH [OF m1(1)] assms(4-6)] show ?case .
qed (use assms(3) in simp)

text \<open>
  C11: without cycles every request is served. When the dependencies of the registered
  resources are registered and have no cycle and the factories succeed, then in every order in
  which the calls for a list of resources are resumed they come to rest, after at most four
  resumptions for each request and each dependency of a registered resource; and when no call
  can be resumed, every call has returned the resource of the context.
\<close>

theorem requests_served:
  assumes "\<forall>cs. set (ord cs) = set cs" "finite (dom reg)" "acyclic (depends reg)" "factories_succeed reg"
    and "\<forall>k f. reg k = Some f \<longrightarrow> set (fac_dependencies f) \<subseteq> dom reg" "set ks \<subseteq> dom reg"
    and run: "(progress ord reg ^^ n) (new_calls ks (resources_new w)) m"
  shows "n \<le> 4 * (length ks + (\<Sum>k\<in>dom reg. calls_made reg k)) \<and>
    ((\<nexists>m'. progress ord reg m m') \<longrightarrow>
     (\<forall>i<length ks. \<exists>r. point_at m i = Returned (Inr r) \<and> dependencies m (ks ! i) = Some r))"
proof (intro conjI impI allI)
  let ?m0 = "new_calls ks (resources_new w) :: ('a, 'b, 'c) resources"
  have n0: "ncalls (resources_new w :: ('a, 'b, 'c) resources) = 0" by (simp add: ncalls_def resources_new_def)
  have ok0: "resources_ok reg ?m0" by (intro new_calls_ok resources_new_ok)
  note work = progress_work [OF run ok0 assms(2,1)]
  have "fresh reg ?m0 = dom reg"
    by (simp add: fresh_def under_construction_def resources_new_def)
  then have "work_left reg ?m0 = 4 * (length ks + (\<Sum>k\<in>dom reg. calls_made reg k))"
    by (simp add: work_left_def pending_new_calls pending_def n0)
  with work show "n \<le> 4 * (length ks + (\<Sum>k\<in>dom reg. calls_made reg k))" by simp
  have "all_sound reg ?m0"
    using assms(6) by (intro all_sound_new_calls) (simp_all add: all_sound_def n0)
  note sound = progress_sound [OF run ok0 this assms(1,4,5)]
  fix i assume rest: "\<nexists>m'. progress ord reg m m'" and i: "i < length ks"
  have "key_at ?m0 i = ks ! i"
    using i by (simp add: key_at_def new_calls_def resources_new_def)
  then have "i < ncalls m" "key_at m i = ks ! i"
    using settled_steps [OF progress_steps [OF run]] i n0 by (auto simp: settled_in_def)
  moreover have "\<forall>i. resume_call ord reg i m = None"
    using rest progress.intros by (metis option.exhaust)
  then obtain r where "point_at m i = Returned (Inr r)"
    using rest_returned work sound assms(1-3) \<open>i < ncalls m\<close> by blast
  moreover from this \<open>i < ncalls m\<close> have "dependencies m (key_at m i) = Some r"
    using work by (fastforce simp: resources_ok_def points_ok_def)
  ultimately show "\<exists>r. point_at m i = Returned (Inr r) \<and> dependencies m (ks ! i) = Some r" by auto
qed

lemma ex_reg_acyclic: "acyclic (depends ex_reg)"
proof (rule acyclicI_order [of _ id])
  show "id b < id a" if "(a, b) \<in> depends ex_reg" for a b
    using that by (auto simp: depends_def ex_reg_def split: if_splits)
qed

theorem requests_served_witness:
  "\<exists>m. (progress id ex_reg ^^ 10) (new_calls [1, 0] (resources_new 7)) m \<and>
     10 \<le> 4 * (length [1, 0 :: nat] + (\<Sum>k\<in>dom ex_reg. calls_made ex_reg k)) \<and>
     dependencies m 1 = Some \<lparr>resource_body = 70, resource_context = True\<rparr>"
proof -
  define l :: "nat list" where "l = [0, 1, 2, 1, 1, 1, 2, 0, 0, 0]"
  have len: "length l = 10" by (simp add: l_def)
  obtain m where m: "run_calls id ex_reg l (new_calls [1, 0] (resources_new 7)) = Some m" "ncalls m = 3"
      "point_at m 0 = Returned (Inr \<lparr>resource_body = 70, resource_context = True\<rparr>)"
      "\<exists>r. point_at m 1 = Returned r" "\<exists>r. point_at m 2 = Returned r"
    by (simp add: ex_reg_def call_eval at_defs l_def)
  have "resume_call id ex_reg i m = None" for i
  proof (cases "i < 3")
    case True
    then have "i = 0 \<or> i = 1 \<or> i = 2" by linarith
    with m(3-5) show ?thesis by (auto simp: resume_call_at)
  qed (simp add: resume_call_at m(2))
  then have rest: "\<nexists>m'. progress id ex_reg m m'" by (auto elim: progress.cases)
  have run: "(progress id ex_reg ^^ 10) (new_calls [1, 0] (resources_new 7)) m"
    using run_calls_progress [OF m(1)] unfolding len .
  have ex: "finite (dom ex_reg)" "factories_succeed ex_reg" "set [1, 0] \<subseteq> dom ex_reg"
      "\<forall>k f. ex_reg k = Some f \<longrightarrow> set (fac_dependencies f) \<subseteq> dom ex_reg"
    by (auto simp: ex_reg_def factories_succeed_def split: if_splits)
  from requests_served [OF _ ex(1) ex_reg_acyclic ex(2,4,3) run] rest
  have "10 \<le> 4 * (length [1, 0 :: nat] + (\<Sum>k\<in>dom ex_reg. calls_made ex_reg k))"
    and all: "\<forall>i<length [1, 0 :: nat]. \<exists>r. point_at m i = Returned (Inr r) \<and> dependencies m ([1, 0] ! i) = Some r"
    by simp_all
  moreover from all [rule_format, of 0] m(3)
  have "dependencies m 1 = Some \<lparr>resource_body = 70, resource_context = True\<rparr>" by simp
  ultimately show ?thesis using run by blast
qed

end
