(* ===== verification/String_Buffer.thy ===== *)
theory String_Buffer
  imports Prelude
begin

text \<open>
  The stream buffer of error messages, \<open>src/lw/io/stream/buffer.h\<close> and \<open>buffer.cpp\<close>: a
  \<open>std::streambuf\<close> whose pointers point into the memory of a \<open>std::string\<close>.

  A string keeps its characters and a terminating null in a block of memory; a short string
  in a block inside the object, a longer one in a block of its own. Pointers are a block and an
  offset, so that a pointer that is left behind when the string moves is seen. The capacity of
  short strings and the growth of the others are the standard library's, a parameter with the
  one law that the capacity asked for is there. Sizes stay below the largest \<open>size_t\<close>.
  Blocks are numbered by a counter, which is the state of everything that allocates. Access
  through a pointer that is not into the string of the buffer itself is \<open>Undefined_behaviour\<close>.
\<close>

section \<open>Strings in memory\<close>

datatype block = Local nat | Heap nat

type_synonym ptr = "block \<times> int"

record cpp_string =
  s_block :: block
  s_mem :: "char list"
  s_size :: nat

record string_lib =
  local_capacity :: nat
  new_capacity :: "nat \<Rightarrow> nat \<Rightarrow> nat"
  unset :: char

abbreviation NUL :: char where
  "NUL \<equiv> CHR 0x00"

definition str_text :: "cpp_string \<Rightarrow> string" where
  "str_text s = take (s_size s) (s_mem s)"

definition capacity :: "cpp_string \<Rightarrow> nat" where
  "capacity s = length (s_mem s) - 1"

definition str_in :: "string_lib \<Rightarrow> block \<Rightarrow> nat \<Rightarrow> string \<Rightarrow> cpp_string" where
  "str_in L b cap cs =
     \<lparr>s_block = b, s_mem = cs @ NUL # replicate (cap - length cs) (unset L), s_size = length cs\<rparr>"

text \<open>A string in the object \<open>me\<close>.\<close>

definition str_new :: "string_lib \<Rightarrow> nat \<Rightarrow> string \<Rightarrow> (nat, cpp_string) prog" where
  "str_new L me cs n =
     (if length cs \<le> local_capacity L then (Inr (str_in L (Local me) (local_capacity L) cs), n)
      else (Inr (str_in L (Heap n) (length cs) cs), Suc n))"

definition str_reserve :: "string_lib \<Rightarrow> nat \<Rightarrow> cpp_string \<Rightarrow> (nat, cpp_string) prog" where
  "str_reserve L k s n =
     (if k \<le> capacity s then (Inr s, n)
      else (Inr (str_in L (Heap n) (new_capacity L (capacity s) k) (str_text s)), Suc n))"

definition str_append :: "string_lib \<Rightarrow> string \<Rightarrow> cpp_string \<Rightarrow> (nat, cpp_string) prog" where
  "str_append L cs s n =
     (let k = s_size s + length cs
      in if k \<le> capacity s then
           (Inr (s\<lparr>s_mem := str_text s @ cs @ NUL # drop (Suc k) (s_mem s), s_size := k\<rparr>), n)
         else (Inr (str_in L (Heap n) (new_capacity L (capacity s) k) (str_text s @ cs)), Suc n))"

definition str_cleared :: "cpp_string \<Rightarrow> cpp_string" where
  "str_cleared s = s\<lparr>s_mem := (s_mem s)[0 := NUL], s_size := 0\<rparr>"

text \<open>
  Move construction into the object \<open>me\<close>: the string there and what is left in the object
  \<open>other\<close>. A block of its own changes hands, characters inside the object are copied.
\<close>

definition str_move :: "string_lib \<Rightarrow> nat \<Rightarrow> nat \<Rightarrow> cpp_string \<Rightarrow> cpp_string \<times> cpp_string" where
  "str_move L me other s =
     (case s_block s of
        Heap b \<Rightarrow> (s, str_in L (Local other) (local_capacity L) [])
      | Local b \<Rightarrow> (str_in L (Local me) (local_capacity L) (str_text s), str_cleared s))"

text \<open>
  Move assignment to \<open>this\<close>: characters inside the other object are copied to the memory that
  is there; a block of its own is exchanged for the one of \<open>this\<close>.
\<close>

definition str_move_assign :: "string_lib \<Rightarrow> nat \<Rightarrow> cpp_string \<Rightarrow> cpp_string \<Rightarrow> cpp_string \<times> cpp_string" where
  "str_move_assign L other this s =
     (case s_block s of
        Local b \<Rightarrow>
          (this\<lparr>s_mem := str_text s @ NUL # drop (Suc (s_size s)) (s_mem this), s_size := s_size s\<rparr>, str_cleared s)
      | Heap b \<Rightarrow>
          (s, case s_block this of
                Heap c \<Rightarrow> str_cleared this
              | Local c \<Rightarrow> str_in L (Local other) (local_capacity L) []))"

text \<open>What \<open>c_str()\<close> is read as: up to the first null, which has to be there.\<close>

definition c_str :: "cpp_string \<Rightarrow> string res" where
  "c_str s = (if NUL \<in> set (s_mem s) then Inr (takeWhile (\<lambda>c. c \<noteq> NUL) (s_mem s)) else Inl Undefined_behaviour)"

section \<open>The buffer\<close>

record string_buffer =
  sb_string :: cpp_string
  eback :: ptr
  gptr :: ptr
  egptr :: ptr
  pbase :: ptr
  pptr :: ptr
  epptr :: ptr

definition ptr_add :: "ptr \<Rightarrow> int \<Rightarrow> ptr" where
  "ptr_add p i = (fst p, snd p + i)"

definition ptr_diff :: "ptr \<Rightarrow> ptr \<Rightarrow> int res" where
  "ptr_diff p q = (if fst p = fst q then Inr (snd p - snd q) else Inl Undefined_behaviour)"

definition sb_data :: "string_buffer \<Rightarrow> ptr" where
  "sb_data sb = (s_block (sb_string sb), 0)"

definition sb_size :: "string_buffer \<Rightarrow> nat" where
  "sb_size sb = s_size (sb_string sb)"

definition sb_capacity :: "string_buffer \<Rightarrow> nat" where
  "sb_capacity sb = capacity (sb_string sb)"

definition sb_text :: "string_buffer \<Rightarrow> string" where
  "sb_text sb = str_text (sb_string sb)"

definition setg :: "ptr \<Rightarrow> ptr \<Rightarrow> ptr \<Rightarrow> string_buffer \<Rightarrow> string_buffer" where
  "setg b g e sb = sb\<lparr>eback := b, gptr := g, egptr := e\<rparr>"

definition setp :: "ptr \<Rightarrow> ptr \<Rightarrow> string_buffer \<Rightarrow> string_buffer" where
  "setp b e sb = sb\<lparr>pbase := b, pptr := b, epptr := e\<rparr>"

text \<open>A buffer on a string, as the constructors leave it.\<close>

definition buffer_on :: "cpp_string \<Rightarrow> string_buffer" where
  "buffer_on s =
     (let d = (s_block s, 0)
      in \<lparr>sb_string = s, eback = d, gptr = d, egptr = d,
          pbase = d, pptr = d, epptr = ptr_add d (int (capacity s))\<rparr>)"

definition sb_new :: "string_lib \<Rightarrow> nat \<Rightarrow> (nat, string_buffer) prog" where
  "sb_new L me = bind_prog (str_new L me []) (\<lambda>s. ret (buffer_on s))"

definition sb_of :: "string_lib \<Rightarrow> nat \<Rightarrow> string \<Rightarrow> (nat, string_buffer) prog" where
  "sb_of L me cs = bind_prog (str_new L me cs) (\<lambda>s. ret (buffer_on s))"

text \<open>Move construction: the pointers are those of the other buffer.\<close>

definition sb_move :: "string_lib \<Rightarrow> nat \<Rightarrow> nat \<Rightarrow> string_buffer \<Rightarrow> string_buffer \<times> string_buffer" where
  "sb_move L me other sb =
     (case str_move L me other (sb_string sb) of (s, t) \<Rightarrow>
        (\<lparr>sb_string = s, eback = eback sb, gptr = gptr sb, egptr = egptr sb,
          pbase = pptr sb, pptr = pptr sb, epptr = epptr sb\<rparr>, sb\<lparr>sb_string := t\<rparr>))"

definition sb_move_assign ::
  "string_lib \<Rightarrow> nat \<Rightarrow> string_buffer \<Rightarrow> string_buffer \<Rightarrow> string_buffer \<times> string_buffer" where
  "sb_move_assign L other this sb =
     (case str_move_assign L other (sb_string this) (sb_string sb) of (s, t) \<Rightarrow>
        (setp (pptr sb) (epptr sb) (setg (eback sb) (gptr sb) (egptr sb) (this\<lparr>sb_string := s\<rparr>)),
         sb\<lparr>sb_string := t\<rparr>))"

definition sb_reserve :: "string_lib \<Rightarrow> nat \<Rightarrow> string_buffer \<Rightarrow> (nat, string_buffer) prog" where
  "sb_reserve L k sb =
     bind_prog (str_reserve L k (sb_string sb)) (\<lambda>s.
     bind_prog (lift_res (ptr_diff (gptr sb) (sb_data sb))) (\<lambda>d.
       let sb1 = sb\<lparr>sb_string := s\<rparr>; p = sb_data sb1
       in ret (setp (ptr_add p (int (sb_size sb1))) (ptr_add p (int (sb_capacity sb1)))
            (setg p (ptr_add p d) (ptr_add p (int (sb_size sb1) - 1)) sb1))))"

text \<open>\<open>_get_size\<close>.\<close>

definition get_size :: "string_buffer \<Rightarrow> int res" where
  "get_size sb = ptr_diff (gptr sb) (sb_data sb)"

definition xsgetn :: "nat \<Rightarrow> string_buffer \<Rightarrow> (string \<times> string_buffer) res" where
  "xsgetn count sb =
     bind_res (get_size sb) (\<lambda>k.
       let copied = min (int count) k
       in bind_res (check (0 \<le> copied \<and> copied \<le> int (length (s_mem (sb_string sb)))) Undefined_behaviour)
            (\<lambda>_. Inr (take (nat copied) (s_mem (sb_string sb)),
               setg (sb_data sb) (ptr_add (gptr sb) copied) (ptr_add (sb_data sb) (int (sb_size sb) - 1)) sb)))"

definition xsputn :: "string_lib \<Rightarrow> string \<Rightarrow> string_buffer \<Rightarrow> (nat, nat \<times> string_buffer) prog" where
  "xsputn L cs sb =
     bind_prog (if sb_capacity sb < length cs + sb_size sb then sb_reserve L ((length cs + sb_size sb) * 2) sb else ret sb)
       (\<lambda>sb1. bind_prog (str_append L cs (sb_string sb1)) (\<lambda>s.
          let sb2 = sb1\<lparr>sb_string := s\<rparr>; p = sb_data sb2
          in ret (length cs,
               setp (ptr_add p (int (sb_size sb2))) (ptr_add p (int (sb_capacity sb2)))
                 (setg p (gptr sb2) (ptr_add p (int (sb_size sb2) - 1)) sb2))))"

text \<open>
  The operations of \<open>std::streambuf\<close> on single characters. They use the pointers; there is no
  \<open>overflow\<close> and no \<open>underflow\<close>, so \<open>None\<close> is the end of the file.
\<close>

definition sputc :: "char \<Rightarrow> string_buffer \<Rightarrow> (char option \<times> string_buffer) res" where
  "sputc c sb =
     (if fst (pptr sb) = fst (epptr sb) \<and> snd (pptr sb) < snd (epptr sb) then
        if fst (pptr sb) = s_block (sb_string sb) \<and> 0 \<le> snd (pptr sb) \<and> snd (pptr sb) < int (length (s_mem (sb_string sb)))
        then Inr (Some c, sb\<lparr>sb_string := (sb_string sb)\<lparr>s_mem := (s_mem (sb_string sb))[nat (snd (pptr sb)) := c]\<rparr>,
                           pptr := ptr_add (pptr sb) 1\<rparr>)
        else Inl Undefined_behaviour
      else Inr (None, sb))"

definition sbumpc :: "string_buffer \<Rightarrow> (char option \<times> string_buffer) res" where
  "sbumpc sb =
     (if fst (gptr sb) = fst (egptr sb) \<and> snd (gptr sb) < snd (egptr sb) then
        if fst (gptr sb) = s_block (sb_string sb) \<and> 0 \<le> snd (gptr sb) \<and> snd (gptr sb) < int (length (s_mem (sb_string sb)))
        then Inr (Some (s_mem (sb_string sb) ! nat (snd (gptr sb))), sb\<lparr>gptr := ptr_add (gptr sb) 1\<rparr>)
        else Inl Undefined_behaviour
      else Inr (None, sb))"

section \<open>Strings\<close>

definition str_fits :: "cpp_string \<Rightarrow> bool" where
  "str_fits s \<longleftrightarrow> s_size s < length (s_mem s)"

definition str_ok :: "cpp_string \<Rightarrow> bool" where
  "str_ok s \<longleftrightarrow> str_fits s \<and> s_mem s ! s_size s = NUL"

lemma str_ok_fits: "str_ok s \<Longrightarrow> str_fits s"
  by (simp add: str_ok_def)

lemma str_in_simps [simp]:
  "str_text (str_in L b cap cs) = cs" "s_size (str_in L b cap cs) = length cs" "s_block (str_in L b cap cs) = b"
  "capacity (str_in L b cap cs) = max cap (length cs)" "str_ok (str_in L b cap cs)" "str_fits (str_in L b cap cs)"
  by (auto simp: str_in_def str_text_def capacity_def str_ok_def str_fits_def nth_append)

lemma str_text_length [simp]: "str_fits s \<Longrightarrow> length (str_text s) = s_size s"
  by (simp add: str_fits_def str_text_def)

lemma str_mem:
  "str_ok s \<Longrightarrow> s_mem s = str_text s @ NUL # drop (Suc (s_size s)) (s_mem s)"
  by (metis str_ok_def str_fits_def str_text_def id_take_nth_drop)

lemma c_str_text: "str_ok s \<Longrightarrow> NUL \<notin> set (str_text s) \<Longrightarrow> c_str s = Inr (str_text s)"
proof -
  assume "str_ok s" "NUL \<notin> set (str_text s)"
  then obtain r where m: "s_mem s = str_text s @ NUL # r" using str_mem by blast
  have "takeWhile (\<lambda>c. c \<noteq> NUL) (str_text s @ NUL # r) = str_text s"
    using \<open>NUL \<notin> set (str_text s)\<close> by (subst takeWhile_append2) auto
  then show "c_str s = Inr (str_text s)" by (simp add: c_str_def m)
qed

lemma str_new_ok:
  obtains s n' where "str_new L me cs n = (Inr s, n')" "str_ok s" "str_text s = cs"
  by (metis str_new_def str_in_simps(1,5))

lemma str_append_in_place:
  assumes "str_fits s" "s_size s + length cs \<le> capacity s"
  obtains s' where "str_append L cs s n = (Inr s', n)" "str_ok s'" "str_text s' = str_text s @ cs"
    "s_block s' = s_block s" "s_size s' = s_size s + length cs" "capacity s' = capacity s"
proof
  let ?s = "s\<lparr>s_mem := str_text s @ cs @ NUL # drop (Suc (s_size s + length cs)) (s_mem s), s_size := s_size s + length cs\<rparr>"
  show "str_append L cs s n = (Inr ?s, n)" using assms by (simp add: str_append_def Let_def)
  show "str_ok ?s" using assms(1) by (simp add: str_ok_def str_fits_def nth_append str_text_def)
  show "str_text ?s = str_text s @ cs" using assms(1) by (simp add: str_text_def str_fits_def)
  show "capacity ?s = capacity s" using assms by (simp add: capacity_def str_fits_def str_text_def)
qed simp_all

text \<open>The law of the standard library.\<close>

locale string_impl =
  fixes L :: string_lib
  assumes grows: "k \<le> new_capacity L c k"
begin

lemma reserve_ok:
  assumes "str_fits s"
  obtains s' n' where "str_reserve L k s n = (Inr s', n')" "str_fits s'" "str_text s' = str_text s" "k \<le> capacity s'"
    "s_size s' = s_size s"
proof (cases "k \<le> capacity s")
  case True
  with assms that [of s n] show ?thesis by (simp add: str_reserve_def)
next
  case False
  with assms grows [of k "capacity s"] that [of "str_in L (Heap n) (new_capacity L (capacity s) k) (str_text s)" "Suc n"]
  show ?thesis by (simp add: str_reserve_def le_max_iff_disj)
qed

end

text \<open>As the GNU library has it.\<close>

definition libstdcpp :: "char \<Rightarrow> string_lib" where
  "libstdcpp u = \<lparr>local_capacity = 15,
     new_capacity = (\<lambda>old k. if old < k \<and> k < 2 * old then 2 * old else k), unset = u\<rparr>"

interpretation gnu: string_impl "libstdcpp u" for u
  by unfold_locales (simp add: libstdcpp_def)

section \<open>Writing\<close>

definition sb_ok :: "string_buffer \<Rightarrow> bool" where
  "sb_ok sb \<longleftrightarrow> str_fits (sb_string sb) \<and> fst (gptr sb) = s_block (sb_string sb) \<and> 0 \<le> snd (gptr sb)"

lemma buffer_on_simps [simp]:
  "sb_text (buffer_on s) = str_text s" "sb_ok (buffer_on s) = str_fits s" "sb_string (buffer_on s) = s"
  "gptr (buffer_on s) = (s_block s, 0)"
  by (simp_all add: buffer_on_def sb_text_def sb_ok_def Let_def)

lemma set_simps [simp]:
  "sb_string (setg b g e sb) = sb_string sb" "gptr (setg b g e sb) = g" "egptr (setg b g e sb) = e"
  "sb_string (setp b e sb) = sb_string sb" "gptr (setp b e sb) = gptr sb" "egptr (setp b e sb) = egptr sb"
  "pptr (setp b e sb) = b" "epptr (setp b e sb) = e"
  by (simp_all add: setg_def setp_def)

lemmas sb_defs = sb_data_def sb_size_def sb_capacity_def sb_text_def ptr_add_def

text \<open>A buffer that was written to: where its pointers are.\<close>

definition sb_written :: "string_buffer \<Rightarrow> bool" where
  "sb_written sb \<longleftrightarrow>
     sb_ok sb \<and> str_ok (sb_string sb) \<and> egptr sb = (s_block (sb_string sb), int (sb_size sb) - 1) \<and>
     pptr sb = (s_block (sb_string sb), int (sb_size sb)) \<and> epptr sb = (s_block (sb_string sb), int (sb_capacity sb))"

context string_impl
begin

lemma sb_reserve_ok:
  assumes "sb_ok sb"
  obtains sb' n' where "sb_reserve L k sb n = (Inr sb', n')" "sb_ok sb'" "sb_text sb' = sb_text sb" "k \<le> sb_capacity sb'"
    "snd (gptr sb') = snd (gptr sb)" "sb_size sb' = sb_size sb"
proof -
  obtain s n' where s: "str_reserve L k (sb_string sb) n = (Inr s, n')" "str_fits s" "str_text s = sb_text sb"
      "k \<le> capacity s" "s_size s = sb_size sb"
    using reserve_ok [of "sb_string sb" k n] assms by (auto simp: sb_ok_def sb_defs)
  define sb' where "sb' = (let sb1 = sb\<lparr>sb_string := s\<rparr>; p = sb_data sb1
       in setp (ptr_add p (int (sb_size sb1))) (ptr_add p (int (sb_capacity sb1)))
            (setg p (ptr_add p (snd (gptr sb))) (ptr_add p (int (sb_size sb1) - 1)) sb1))"
  have "sb_reserve L k sb n = (Inr sb', n')"
    using s(1) assms by (simp add: sb_reserve_def bind_prog_def ptr_diff_def sb_ok_def sb_defs Let_def sb'_def)
  moreover have "sb_ok sb'" "sb_text sb' = sb_text sb" "k \<le> sb_capacity sb'" "snd (gptr sb') = snd (gptr sb)"
      "sb_size sb' = sb_size sb"
    using s assms by (simp_all add: sb'_def sb_ok_def sb_defs Let_def)
  ultimately show ?thesis using that by blast
qed

lemma xsputn_ok:
  assumes "sb_ok sb"
  obtains sb' n' where "xsputn L cs sb n = (Inr (length cs, sb'), n')" "sb_written sb'" "sb_text sb' = sb_text sb @ cs"
    "snd (gptr sb') = snd (gptr sb)"
    "if length cs + sb_size sb \<le> sb_capacity sb then sb_capacity sb' = sb_capacity sb
     else (length cs + sb_size sb) * 2 \<le> sb_capacity sb'"
proof -
  obtain sb1 n1 where sb1: "(if sb_capacity sb < length cs + sb_size sb then sb_reserve L ((length cs + sb_size sb) * 2) sb
      else ret sb) n = (Inr sb1, n1)" "sb_ok sb1" "sb_text sb1 = sb_text sb" "sb_size sb1 + length cs \<le> sb_capacity sb1"
      "snd (gptr sb1) = snd (gptr sb)"
      "if length cs + sb_size sb \<le> sb_capacity sb then sb_capacity sb1 = sb_capacity sb
       else (length cs + sb_size sb) * 2 \<le> sb_capacity sb1"
  proof (cases "sb_capacity sb < length cs + sb_size sb")
    case True
    then show ?thesis using sb_reserve_ok [OF assms, of "(length cs + sb_size sb) * 2" n] that by fastforce
  next
    case False
    with assms that [of sb n] show ?thesis by simp
  qed
  obtain s where s: "str_append L cs (sb_string sb1) n1 = (Inr s, n1)" "str_ok s" "str_text s = sb_text sb1 @ cs"
      "s_block s = s_block (sb_string sb1)" "capacity s = sb_capacity sb1"
    using str_append_in_place [of "sb_string sb1" cs L n1] sb1(2,4) unfolding sb_ok_def sb_defs by blast
  define sb' where "sb' = (let sb2 = sb1\<lparr>sb_string := s\<rparr>; p = sb_data sb2
          in setp (ptr_add p (int (sb_size sb2))) (ptr_add p (int (sb_capacity sb2)))
                 (setg p (gptr sb2) (ptr_add p (int (sb_size sb2) - 1)) sb2))"
  have "xsputn L cs sb n = (Inr (length cs, sb'), n1)"
    unfolding xsputn_def bind_prog_def sb1(1) by (simp add: s(1) sb'_def Let_def bind_prog_def)
  moreover have "sb_written sb'" "sb_text sb' = sb_text sb @ cs" "snd (gptr sb') = snd (gptr sb)"
      "sb_capacity sb' = sb_capacity sb1"
    using s sb1 by (simp_all add: sb'_def sb_written_def sb_ok_def sb_defs Let_def str_ok_fits)
  ultimately show ?thesis using that sb1(6) by metis
qed

end

text \<open>Several writes, and reading character by character.\<close>

fun put_all :: "string_lib \<Rightarrow> string list \<Rightarrow> string_buffer \<Rightarrow> (nat, string_buffer) prog" where
  "put_all L [] sb = ret sb"
| "put_all L (cs # css) sb = bind_prog (xsputn L cs sb) (\<lambda>(k, sb'). put_all L css sb')"

fun read_chars :: "nat \<Rightarrow> string_buffer \<Rightarrow> (char option list \<times> string_buffer) res" where
  "read_chars 0 sb = Inr ([], sb)"
| "read_chars (Suc k) sb =
     bind_res (sbumpc sb) (\<lambda>(c, sb'). bind_res (read_chars k sb') (\<lambda>(cs, sb''). Inr (c # cs, sb'')))"

context string_impl
begin

lemma put_all_ok:
  assumes "sb_ok sb"
  shows "\<exists>sb' n'. put_all L css sb n = (Inr sb', n') \<and> sb_ok sb' \<and> 
    (css \<noteq> [] \<longrightarrow> sb_written sb') \<and> (str_ok (sb_string sb) \<longrightarrow> str_ok (sb_string sb')) \<and>
    sb_text sb' = sb_text sb @ concat css \<and> snd (gptr sb') = snd (gptr sb)"
  using assms
proof (induction css arbitrary: sb n)
  case (Cons cs css)
  obtain sb1 n1 where sb1: "xsputn L cs sb n = (Inr (length cs, sb1), n1)" "sb_written sb1"
      "sb_text sb1 = sb_text sb @ cs" "snd (gptr sb1) = snd (gptr sb)"
    using xsputn_ok [OF Cons.prems] by blast
  then have "sb_ok sb1" "str_ok (sb_string sb1)" by (simp_all add: sb_written_def)
  with Cons.IH [of sb1 n1] sb1 show ?case
    by (cases "css = []") (auto simp: bind_prog_def)
qed simp

lemma sb_of_ok:
  obtains sb n' where "sb_of L me cs n = (Inr sb, n')" "sb_ok sb" "sb_text sb = cs" "snd (gptr sb) = 0"
    "str_ok (sb_string sb)"
proof -
  obtain s n' where "str_new L me cs n = (Inr s, n')" "str_ok s" "str_text s = cs" by (rule str_new_ok)
  with that [of "buffer_on s" n'] show ?thesis by (simp add: sb_of_def bind_prog_def str_ok_fits)
qed

end

text \<open>
  C37: what is written to a string buffer is its text. A buffer made from a string, followed by
  any writes of strings, has the string and the written strings as its text, in order; nothing
  fails, however the memory is reallocated, and \<open>c_str()\<close> is the text when that has no null.
\<close>

theorem buffer_text:
  assumes "string_impl L"
  shows "\<exists>sb n'. bind_prog (sb_of L me cs) (put_all L css) n = (Inr sb, n') \<and> sb_text sb = cs @ concat css \<and>
    (NUL \<notin> set (sb_text sb) \<longrightarrow> c_str (sb_string sb) = Inr (sb_text sb))"
proof -
  obtain sb n1 where sb: "sb_of L me cs n = (Inr sb, n1)" "sb_ok sb" "sb_text sb = cs" "str_ok (sb_string sb)"
    using string_impl.sb_of_ok [OF assms] by blast
  obtain sb' n' where sb': "put_all L css sb n1 = (Inr sb', n')" "sb_text sb' = cs @ concat css"
      "str_ok (sb_string sb')"
    using string_impl.put_all_ok [OF assms sb(2)] sb(3,4) by blast
  with sb(1) show ?thesis
    using c_str_text [of "sb_string sb'"] by (auto simp: bind_prog_def sb_ok_def sb_text_def)
qed

theorem buffer_text_witness:
  "\<exists>sb n'. bind_prog (sb_of (libstdcpp NUL) 0 ''file.cc:'') (put_all (libstdcpp NUL) [''12'', '': NotFound: '']) 0 = (Inr sb, n') \<and>
     sb_text sb = ''file.cc:12: NotFound: '' \<and> c_str (sb_string sb) = Inr ''file.cc:12: NotFound: ''"
  using buffer_text [OF gnu.string_impl_axioms [of NUL], where me = 0 and cs = "''file.cc:''"
    and css = "[''12'', '': NotFound: '']" and n = 0] by auto

section \<open>Single characters\<close>

lemma read_chars_written:
  assumes "sb_ok sb" "egptr sb = (s_block (sb_string sb), int (sb_size sb) - 1)" "snd (gptr sb) = int g" "g < sb_size sb"
  shows "read_chars k sb =
    Inr (map Some (take k (drop g (butlast (sb_text sb)))) @ replicate (k - (sb_size sb - 1 - g)) None,
      sb\<lparr>gptr := (s_block (sb_string sb), int (min (g + k) (sb_size sb - 1)))\<rparr>)"
  using assms
proof (induction k arbitrary: sb g)
  case 0
  then show ?case by (cases "gptr sb") (auto simp: sb_ok_def min_def)
next
  case (Suc k)
  let ?b = "s_block (sb_string sb)"
  have g: "gptr sb = (?b, int g)" using Suc.prems by (cases "gptr sb") (simp add: sb_ok_def)
  have len: "length (sb_text sb) = sb_size sb" using Suc.prems by (simp add: sb_ok_def sb_text_def sb_size_def)
  show ?case
  proof (cases "g < sb_size sb - 1")
    case True
    let ?sb = "sb\<lparr>gptr := (?b, int (Suc g))\<rparr>"
    have mem: "s_mem (sb_string sb) ! g = butlast (sb_text sb) ! g"
      using True len by (simp add: nth_butlast sb_text_def str_text_def)
    have "sbumpc sb = Inr (Some (butlast (sb_text sb) ! g), ?sb)"
      using Suc.prems g True by (simp add: sbumpc_def mem sb_ok_def str_fits_def sb_size_def ptr_add_def)
    moreover have "read_chars k ?sb =
        Inr (map Some (take k (drop (Suc g) (butlast (sb_text sb)))) @ replicate (k - (sb_size sb - 1 - Suc g)) None,
          ?sb\<lparr>gptr := (?b, int (min (Suc g + k) (sb_size sb - 1)))\<rparr>)"
      using Suc.IH [of ?sb "Suc g"] Suc.prems True by (simp add: sb_ok_def sb_size_def sb_text_def)
    moreover have "drop g (butlast (sb_text sb)) = butlast (sb_text sb) ! g # drop (Suc g) (butlast (sb_text sb))"
      using True len by (intro Cons_nth_drop_Suc [symmetric]) simp
    moreover have "Suc k - (sb_size sb - 1 - g) = k - (sb_size sb - 1 - Suc g)" using True by simp
    ultimately show ?thesis by simp
  next
    case False
    then have last: "g = sb_size sb - 1" using Suc.prems(4) by simp
    have "\<not> int g < int (sb_size sb) - 1" using False by linarith
    then have "sbumpc sb = Inr (None, sb)" using Suc.prems(2) g by (simp add: sbumpc_def sb_size_def)
    with Suc.IH [OF Suc.prems] last len show ?thesis by simp
  qed
qed

lemma xsgetn_after:
  assumes "sb_ok sb" "gptr sb = (s_block (sb_string sb), int g)" "g \<le> sb_size sb"
  shows "\<exists>sb'. xsgetn count sb = Inr (take (min count g) (sb_text sb), sb') \<and>
    snd (gptr sb') = int (g + min count g)"
proof -
  have le: "min count g \<le> s_size (sb_string sb)" using assms(3) by (simp add: sb_size_def min.coboundedI2)
  have "g \<le> length (s_mem (sb_string sb))"
    using assms(1,3) by (simp add: sb_ok_def str_fits_def sb_size_def)
  moreover have "take (min count g) (s_mem (sb_string sb)) = take (min count g) (sb_text sb)"
    using le by (simp add: sb_text_def str_text_def min_def)
  moreover have "nat (min (int count) (int g)) = min count g" by linarith
  ultimately show ?thesis
    using assms(2) by (simp add: xsgetn_def get_size_def ptr_diff_def sb_data_def Let_def ptr_add_def min_le_iff_disj)
qed

text \<open>
  Reading from and putting single characters into a buffer that was written to. Reading
  character by character gives the text but for its last character, then the end of the file.
  \<open>sgetn\<close> gives nothing that has not been read: it copies the beginning of the text again, as
  much as has been read. And a character that is put with \<open>sputc\<close> is accepted when there is
  capacity, but is not in the text, and the next write of a string overwrites it.
\<close>

theorem single_characters:
  assumes "string_impl L" "concat css \<noteq> []"
  shows "\<exists>sb n'. bind_prog (sb_new L me) (put_all L css) n = (Inr sb, n') \<and> sb_text sb = concat css \<and>
    (\<forall>k. \<exists>sb'. read_chars k sb = Inr (map Some (take k (butlast (concat css))) @
           replicate (k - (length (concat css) - 1)) None, sb') \<and>
         (\<forall>count. \<exists>sb''. xsgetn count sb' =
            Inr (take (min count (min k (length (concat css) - 1))) (concat css), sb''))) \<and>
    (\<forall>c cs m. length (concat css) < sb_capacity sb \<longrightarrow>
       (\<exists>sb' sb'' m'. sputc c sb = Inr (Some c, sb') \<and> sb_text sb' = concat css \<and>
         xsputn L cs sb' m = (Inr (length cs, sb''), m') \<and> sb_text sb'' = concat css @ cs))"
proof -
  obtain sb0 n0 where sb0: "sb_new L me n = (Inr sb0, n0)" "sb_ok sb0" "sb_text sb0 = []" "snd (gptr sb0) = 0"
    using string_impl.sb_of_ok [OF assms(1), of me "[]" n] unfolding sb_new_def sb_of_def by blast
  obtain sb n' where sb: "put_all L css sb0 n0 = (Inr sb, n')" "sb_written sb" "sb_text sb = concat css"
      "snd (gptr sb) = 0"
    using string_impl.put_all_ok [OF assms(1) sb0(2), of css n0] sb0(3,4) assms(2) by auto
  let ?b = "s_block (sb_string sb)"
  have ok: "sb_ok sb" and len: "sb_size sb = length (concat css)"
    using sb(2,3) by (auto simp: sb_written_def sb_ok_def sb_size_def sb_text_def dest: str_text_length)
  have pos: "0 < sb_size sb" using len assms(2) by (metis length_greater_0_conv)
  have eg: "egptr sb = (?b, int (sb_size sb) - 1)" "snd (gptr sb) = int 0"
    using sb(2,4) by (simp_all add: sb_written_def)
  have "\<exists>sb'. read_chars k sb = Inr (map Some (take k (butlast (concat css))) @
           replicate (k - (length (concat css) - 1)) None, sb') \<and>
         (\<forall>count. \<exists>sb''. xsgetn count sb' =
            Inr (take (min count (min k (length (concat css) - 1))) (concat css), sb''))" for k
  proof (intro exI conjI allI)
    let ?sb = "sb\<lparr>gptr := (?b, int (min k (sb_size sb - 1)))\<rparr>"
    show "read_chars k sb = Inr (map Some (take k (butlast (concat css))) @
           replicate (k - (length (concat css) - 1)) None, ?sb)"
      using read_chars_written [OF ok eg pos, of k] unfolding sb(3) len by (simp only: drop_0 diff_zero add_0)
    fix count
    have "sb_ok ?sb" "min k (sb_size sb - 1) \<le> sb_size ?sb" "sb_text ?sb = concat css"
      using ok sb(3) by (simp_all add: sb_ok_def sb_size_def sb_text_def min.coboundedI2)
    from xsgetn_after [OF this(1) _ this(2), of count] this(3) len
    show "xsgetn count ?sb = Inr (take (min count (min k (length (concat css) - 1))) (concat css),
        snd (projr (xsgetn count ?sb)))" by auto
  qed
  moreover have "\<exists>sb' sb'' m'. sputc c sb = Inr (Some c, sb') \<and> sb_text sb' = concat css \<and>
         xsputn L cs sb' m = (Inr (length cs, sb''), m') \<and> sb_text sb'' = concat css @ cs"
    if cap: "length (concat css) < sb_capacity sb" for c cs m
  proof -
    let ?s = "sb_string sb"
    let ?sb = "sb\<lparr>sb_string := ?s\<lparr>s_mem := (s_mem ?s)[sb_size sb := c]\<rparr>, pptr := (?b, int (sb_size sb) + 1)\<rparr>"
    have "sputc c sb = Inr (Some c, ?sb)"
      using sb(2) cap len
      by (simp add: sputc_def sb_written_def ptr_add_def sb_capacity_def capacity_def less_diff_conv)
    moreover have "sb_text ?sb = concat css"
      using sb(3) by (simp add: sb_text_def str_text_def sb_size_def)
    moreover have "sb_ok ?sb" using ok by (simp add: sb_ok_def str_fits_def)
    ultimately show ?thesis using string_impl.xsputn_ok [OF assms(1), of ?sb cs m] by metis
  qed
  ultimately show ?thesis using sb0(1) sb(1,3) by (auto simp: bind_prog_def)
qed

theorem single_characters_witness:
  "\<exists>sb n' sb'. bind_prog (sb_new (libstdcpp NUL) 0) (put_all (libstdcpp NUL) [''abc'']) 0 = (Inr sb, n') \<and>
     sb_text sb = ''abc'' \<and> read_chars 4 sb = Inr ([Some (CHR ''a''), Some (CHR ''b''), None, None], sb') \<and>
     (\<exists>sb''. xsgetn 5 sb' = Inr (''ab'', sb''))"
proof -
  have ne: "concat [''abc''] \<noteq> []" by simp
  obtain sb n' where sb: "bind_prog (sb_new (libstdcpp NUL) 0) (put_all (libstdcpp NUL) [''abc'']) 0 = (Inr sb, n')"
      "sb_text sb = concat [''abc'']"
      "\<forall>k. \<exists>sb'. read_chars k sb = Inr (map Some (take k (butlast (concat [''abc'']))) @
           replicate (k - (length (concat [''abc'']) - 1)) None, sb') \<and>
         (\<forall>count. \<exists>sb''. xsgetn count sb' =
            Inr (take (min count (min k (length (concat [''abc'']) - 1))) (concat [''abc'']), sb''))"
    using single_characters [OF gnu.string_impl_axioms [of NUL] ne, where me = 0 and n = 0] by (elim exE conjE)
  then obtain sb' where "read_chars 4 sb = Inr ([Some (CHR ''a''), Some (CHR ''b''), None, None], sb')"
      "\<forall>count. \<exists>sb''. xsgetn count sb' = Inr (take (min count 2) ''abc'', sb'')"
    using spec [OF sb(3), of 4] by (auto simp: numeral_eq_Suc)
  moreover from spec [OF this(2), of 5] have "\<exists>sb''. xsgetn 5 sb' = Inr (''ab'', sb'')" by (simp add: numeral_eq_Suc)
  ultimately show ?thesis using sb(1,2) by auto
qed

end
