(* ===== verification/Error_Objects.thy ===== *)
theory Error_Objects
  imports String_Buffer
begin

text \<open>
  Error objects, \<open>src/lw/err/error.h\<close>, \<open>error.cpp\<close>, \<open>canonical.h\<close> and \<open>macros.h\<close>: the message
  of an error, written through a stream, and the stack of the errors it wraps.

  Elsewhere in the development an error is its class. Here it is the object with its buffer;
  every buffer is an object with a number, drawn from the counter that numbers blocks of memory.
  Parameters are the string library and what the library's output stream hands to its buffer for
  a single character, \<open>co\<close>: a string of length one or the character itself, which differs
  between versions of the GNU library.
\<close>

section \<open>Stacks\<close>

record source_location =
  file_name :: string
  loc_line :: nat

datatype error_stack =
  Stack (stack_id: nat) (stack_location: source_location) (stack_buffer: string_buffer)
    (stack_previous: "error_stack option")

definition new_object :: "(nat, nat) prog" where
  "new_object n = (Inr n, Suc n)"

definition stack_new :: "string_lib \<Rightarrow> source_location \<Rightarrow> (nat, error_stack) prog" where
  "stack_new L loc =
     bind_prog new_object (\<lambda>me. bind_prog (sb_new L me) (\<lambda>sb. ret (Stack me loc sb None)))"

fun stack_copy :: "string_lib \<Rightarrow> error_stack \<Rightarrow> (nat, error_stack) prog" where
  "stack_copy L (Stack i loc sb None) =
     bind_prog new_object (\<lambda>me. bind_prog (sb_of L me (sb_text sb)) (\<lambda>sb'. ret (Stack me loc sb' None)))"
| "stack_copy L (Stack i loc sb (Some p)) =
     bind_prog new_object (\<lambda>me. bind_prog (sb_of L me (sb_text sb)) (\<lambda>sb'.
       bind_prog (stack_copy L p) (\<lambda>p'. ret (Stack me loc sb' (Some p')))))"

text \<open>The default move construction: the new stack and what is left.\<close>

definition stack_move :: "string_lib \<Rightarrow> error_stack \<Rightarrow> (nat, error_stack \<times> error_stack) prog" where
  "stack_move L st =
     bind_prog new_object (\<lambda>me.
       case sb_move L me (stack_id st) (stack_buffer st) of (sb, left) \<Rightarrow>
         ret (Stack me (stack_location st) sb (stack_previous st),
              Stack (stack_id st) (stack_location st) left None))"

text \<open>
  Copy assignment: \<open>memcpy\<close> copies as many bytes as the buffer that is assigned to has, from
  the memory of the other one.
\<close>

definition copy_memory :: "cpp_string \<Rightarrow> nat \<Rightarrow> cpp_string \<Rightarrow> cpp_string res" where
  "copy_memory src k s =
     (if k \<le> length (s_mem src) \<and> k \<le> length (s_mem s)
      then Inr (s\<lparr>s_mem := take k (s_mem src) @ drop k (s_mem s)\<rparr>) else Inl Undefined_behaviour)"

definition stack_assign :: "string_lib \<Rightarrow> error_stack \<Rightarrow> error_stack \<Rightarrow> (nat, error_stack) prog" where
  "stack_assign L this rhs =
     bind_prog (sb_reserve L (sb_size (stack_buffer rhs)) (stack_buffer this)) (\<lambda>sb.
     bind_prog (lift_res (copy_memory (sb_string (stack_buffer rhs)) (sb_size sb) (sb_string sb))) (\<lambda>s.
     bind_prog (case stack_previous rhs of
         None \<Rightarrow> ret (stack_previous this)
       | Some p \<Rightarrow> bind_prog (stack_copy L p) (\<lambda>p'. ret (Some p'))) (\<lambda>prev.
       ret (Stack (stack_id this) (stack_location rhs) (sb\<lparr>sb_string := s\<rparr>) prev))))"

definition stack_move_assign :: "string_lib \<Rightarrow> error_stack \<Rightarrow> error_stack \<Rightarrow> error_stack \<times> error_stack" where
  "stack_move_assign L this rhs =
     (case sb_move_assign L (stack_id rhs) (stack_buffer this) (stack_buffer rhs) of (sb, left) \<Rightarrow>
        (Stack (stack_id this) (stack_location rhs) sb (stack_previous rhs),
         Stack (stack_id rhs) (stack_location rhs) left None))"

definition stack_message :: "error_stack \<Rightarrow> string" where
  "stack_message st = sb_text (stack_buffer st)"

text \<open>An iterator points to a stack, or nowhere at the end.\<close>

definition stack_begin :: "error_stack \<Rightarrow> error_stack option" where
  "stack_begin st = Some st"

definition stack_end :: "error_stack option" where
  "stack_end = None"

definition iter_next :: "error_stack option \<Rightarrow> error_stack option" where
  "iter_next it = (case it of None \<Rightarrow> None | Some st \<Rightarrow> stack_previous st)"

definition iter_deref :: "error_stack option \<Rightarrow> error_stack res" where
  "iter_deref it = (case it of None \<Rightarrow> Inl Undefined_behaviour | Some st \<Rightarrow> Inr st)"

section \<open>Errors\<close>

text \<open>What an output stream hands to its buffer.\<close>

datatype piece = Write string | Put char

record error_object =
  error_class :: error
  error_stack_of :: error_stack
  stream_good :: bool

fun error_name :: "error \<Rightarrow> string" where
  "error_name Aborted = ''Aborted''"
| "error_name AlreadyExists = ''AlreadyExists''"
| "error_name Cancelled = ''Cancelled''"
| "error_name DeadlineExceeded = ''DeadlineExceeded''"
| "error_name FailedPrecondition = ''FailedPrecondition''"
| "error_name Internal = ''Internal''"
| "error_name InvalidArgument = ''InvalidArgument''"
| "error_name NotFound = ''NotFound''"
| "error_name OutOfRange = ''OutOfRange''"
| "error_name PermissionDenied = ''PermissionDenied''"
| "error_name ResourceExhausted = ''ResourceExhausted''"
| "error_name Unavailable = ''Unavailable''"
| "error_name Unimplemented = ''Unimplemented''"

definition with_buffer :: "string_buffer \<Rightarrow> error_object \<Rightarrow> error_object" where
  "with_buffer sb e =
     e\<lparr>error_stack_of := (case error_stack_of e of Stack i loc b p \<Rightarrow> Stack i loc sb p)\<rparr>"

text \<open>
  \<open>_stream << ...\<close>. A stream whose buffer has refused a character is bad and writes no more.
\<close>

definition stream_out :: "string_lib \<Rightarrow> piece \<Rightarrow> error_object \<Rightarrow> (nat, error_object) prog" where
  "stream_out L x e =
     (if stream_good e then
        case x of
          Write cs \<Rightarrow> bind_prog (xsputn L cs (stack_buffer (error_stack_of e))) (\<lambda>(k, sb). ret (with_buffer sb e))
        | Put c \<Rightarrow> bind_prog (lift_res (sputc c (stack_buffer (error_stack_of e)))) (\<lambda>(r, sb).
            ret ((with_buffer sb e)\<lparr>stream_good := r \<noteq> None\<rparr>))
      else ret e)"

fun stream_all :: "string_lib \<Rightarrow> piece list \<Rightarrow> error_object \<Rightarrow> (nat, error_object) prog" where
  "stream_all L [] e = ret e"
| "stream_all L (x # xs) e = bind_prog (stream_out L x e) (stream_all L xs)"

definition error_new ::
  "string_lib \<Rightarrow> (char \<Rightarrow> piece) \<Rightarrow> error \<Rightarrow> source_location \<Rightarrow> (nat, error_object) prog" where
  "error_new L co cls loc =
     bind_prog (stack_new L loc) (\<lambda>st.
       stream_all L [Write (file_name loc), co (CHR '':''), Write (nat_to_string (loc_line loc)), Write '': '',
           Write (error_name cls), Write '': '']
         \<lparr>error_class = cls, error_stack_of = st, stream_good = True\<rparr>)"

text \<open>\<open>err << rhs\<close> for another error.\<close>

definition stream_error :: "string_lib \<Rightarrow> error_object \<Rightarrow> error_object \<Rightarrow> (nat, error_object) prog" where
  "stream_error L rhs e = stream_out L (Write (stack_message (error_stack_of rhs))) e"

definition error_copy :: "string_lib \<Rightarrow> error_object \<Rightarrow> (nat, error_object) prog" where
  "error_copy L other =
     bind_prog (stack_copy L (error_stack_of other)) (\<lambda>st. ret (other\<lparr>error_stack_of := st, stream_good := True\<rparr>))"

definition error_move :: "string_lib \<Rightarrow> error_object \<Rightarrow> (nat, error_object \<times> error_object) prog" where
  "error_move L other =
     bind_prog (stack_move L (error_stack_of other)) (\<lambda>(st, left).
       ret (other\<lparr>error_stack_of := st, stream_good := True\<rparr>, other\<lparr>error_stack_of := left\<rparr>))"

definition error_assign :: "string_lib \<Rightarrow> error_object \<Rightarrow> error_object \<Rightarrow> (nat, error_object) prog" where
  "error_assign L this other =
     bind_prog (stack_assign L (error_stack_of this) (error_stack_of other)) (\<lambda>st. ret (this\<lparr>error_stack_of := st\<rparr>))"

text \<open>\<open>rdbuf\<close> clears the state of the stream.\<close>

definition error_move_assign :: "string_lib \<Rightarrow> error_object \<Rightarrow> error_object \<Rightarrow> error_object \<times> error_object" where
  "error_move_assign L this other =
     (case stack_move_assign L (error_stack_of this) (error_stack_of other) of (st, left) \<Rightarrow>
        (this\<lparr>error_stack_of := st, stream_good := True\<rparr>, other\<lparr>error_stack_of := left\<rparr>))"

definition error_what :: "error_object \<Rightarrow> string res" where
  "error_what e = c_str (sb_string (stack_buffer (error_stack_of e)))"

definition what_string :: "error_object \<Rightarrow> string" where
  "what_string e = stack_message (error_stack_of e)"

definition where_of :: "error_object \<Rightarrow> source_location" where
  "where_of e = stack_location (error_stack_of e)"

text \<open>\<open>_set_previous\<close> takes its argument by value and moves it to a new object.\<close>

definition set_previous :: "string_lib \<Rightarrow> error_stack \<Rightarrow> error_object \<Rightarrow> (nat, error_object) prog" where
  "set_previous L prev e =
     bind_prog (stack_move L prev) (\<lambda>(p, left).
       ret (e\<lparr>error_stack_of :=
         (case error_stack_of e of Stack i loc sb q \<Rightarrow> Stack i loc sb (Some p))\<rparr>))"

definition wrap ::
  "string_lib \<Rightarrow> (char \<Rightarrow> piece) \<Rightarrow> error \<Rightarrow> source_location \<Rightarrow> error_object \<Rightarrow> (nat, error_object) prog" where
  "wrap L co cls loc sub =
     bind_prog (error_new L co cls loc) (\<lambda>e.
     bind_prog (stack_copy L (error_stack_of sub)) (\<lambda>p. set_previous L p e))"

definition wrap_move ::
  "string_lib \<Rightarrow> (char \<Rightarrow> piece) \<Rightarrow> error \<Rightarrow> source_location \<Rightarrow> error_object \<Rightarrow>
   (nat, error_object \<times> error_object) prog" where
  "wrap_move L co cls loc sub =
     bind_prog (error_new L co cls loc) (\<lambda>e.
     bind_prog (stack_move L (error_stack_of sub)) (\<lambda>(p, left).
     bind_prog (set_previous L p e) (\<lambda>e'. ret (e', sub\<lparr>error_stack_of := left\<rparr>))))"

text \<open>\<open>LW_CHECK_NULL\<close> and \<open>LW_CHECK_NULL_INTERNAL\<close> on the argument with the given text.\<close>

definition lw_check_null ::
  "string_lib \<Rightarrow> (char \<Rightarrow> piece) \<Rightarrow> source_location \<Rightarrow> string \<Rightarrow> bool \<Rightarrow> (nat, error_object option) prog" where
  "lw_check_null L co loc arg null =
     (if null then
        bind_prog (error_new L co InvalidArgument loc) (\<lambda>e.
        bind_prog (stream_all L [Write arg, Write '' must not be null. ''] e) (\<lambda>e'. ret (Some e')))
      else ret None)"

definition lw_check_null_internal ::
  "string_lib \<Rightarrow> (char \<Rightarrow> piece) \<Rightarrow> source_location \<Rightarrow> piece list \<Rightarrow> bool \<Rightarrow> (nat, error_object option) prog" where
  "lw_check_null_internal L co loc text null =
     (if null then
        bind_prog (error_new L co Internal loc) (\<lambda>e. bind_prog (stream_all L text e) (\<lambda>e'. ret (Some e')))
      else ret None)"

section \<open>What a stack holds\<close>

fun stack_entries :: "error_stack \<Rightarrow> (source_location \<times> string) list" where
  "stack_entries (Stack i loc sb None) = [(loc, sb_text sb)]"
| "stack_entries (Stack i loc sb (Some p)) = (loc, sb_text sb) # stack_entries p"

lemma stack_previous_size: "stack_previous st = Some p \<Longrightarrow> size p < size st"
  by (cases st) auto

text \<open>A loop over a stack with its iterators.\<close>

function visit_from :: "error_stack option \<Rightarrow> (source_location \<times> string) list" where
  "visit_from it =
     (if it = stack_end then []
      else case iter_deref it of
          Inl e \<Rightarrow> []
        | Inr st \<Rightarrow> (stack_location st, stack_message st) # visit_from (iter_next it))"
  by pat_completeness auto

termination
  by (relation "measure (case_option 0 (\<lambda>st. Suc (size st)))")
    (auto simp: stack_end_def iter_next_def iter_deref_def dest: stack_previous_size split: option.splits)

declare visit_from.simps [simp del]

lemma visit_stack: "visit_from (stack_begin st) = stack_entries st"
proof (induction st rule: stack_entries.induct)
  case (1 i loc sb)
  show ?case
    by (simp add: visit_from.simps [of "Some _"] visit_from.simps [of None] stack_begin_def stack_end_def
        iter_deref_def iter_next_def stack_message_def)
next
  case (2 i loc sb p)
  then show ?case
    by (simp add: visit_from.simps [of "Some (Stack _ _ _ _)"] stack_begin_def stack_end_def iter_deref_def
        iter_next_def stack_message_def)
qed

lemma stack_entries_Cons:
  "stack_entries st = (stack_location st, stack_message st) #
     (case stack_previous st of None \<Rightarrow> [] | Some p \<Rightarrow> stack_entries p)"
  by (cases st rule: stack_entries.cases) (simp_all add: stack_message_def)

lemma str_move_text: "str_text (fst (str_move L me other s)) = str_text s"
  "str_text (snd (str_move L me other s)) = []"
  by (simp_all add: str_move_def str_cleared_def split: block.split) (simp add: str_text_def)

lemma stack_move_ok:
  obtains st' left n' where "stack_move L st n = (Inr (st', left), n')" "stack_entries st' = stack_entries st"
    "stack_message left = []" "stack_previous left = None"
proof -
  obtain s t where st: "str_move L n (stack_id st) (sb_string (stack_buffer st)) = (s, t)" by force
  with str_move_text [of L n "stack_id st" "sb_string (stack_buffer st)"]
  have "str_text s = stack_message st" "str_text t = []" by (simp_all add: stack_message_def sb_text_def)
  with st that show ?thesis
    by (simp add: stack_move_def new_object_def bind_prog_def sb_move_def stack_entries_Cons stack_message_def sb_text_def)
qed

context string_impl
begin

lemma stack_new_ok:
  obtains st n' where "stack_new L loc n = (Inr st, n')" "stack_entries st = [(loc, [])]" "sb_ok (stack_buffer st)"
    "stack_previous st = None"
proof -
  obtain sb n' where "sb_of L n [] (Suc n) = (Inr sb, n')" "sb_ok sb" "sb_text sb = []" by (rule sb_of_ok)
  with that show ?thesis
    by (simp add: stack_new_def new_object_def bind_prog_def sb_new_def sb_of_def)
qed

lemma stack_copy_ok:
  "\<exists>st' n'. stack_copy L st n = (Inr st', n') \<and> stack_entries st' = stack_entries st \<and> sb_ok (stack_buffer st')"
proof (induction st arbitrary: n rule: stack_entries.induct)
  case (1 i loc sb)
  obtain sb' n' where "sb_of L n (sb_text sb) (Suc n) = (Inr sb', n')" "sb_ok sb'" "sb_text sb' = sb_text sb"
    by (rule sb_of_ok)
  then show ?case by (simp add: bind_prog_def new_object_def)
next
  case (2 i loc sb p)
  obtain sb' n1 where sb': "sb_of L n (sb_text sb) (Suc n) = (Inr sb', n1)" "sb_ok sb'" "sb_text sb' = sb_text sb"
    by (rule sb_of_ok)
  obtain p' n' where "stack_copy L p n1 = (Inr p', n')" "stack_entries p' = stack_entries p"
    using "2.IH" [of n1] by blast
  with sb' show ?case by (simp add: bind_prog_def new_object_def)
qed

end

text \<open>Writing strings to an error.\<close>

definition writable :: "error_object \<Rightarrow> bool" where
  "writable e \<longleftrightarrow> stream_good e \<and> sb_ok (stack_buffer (error_stack_of e))"

lemma with_buffer_simps:
  "stack_entries (error_stack_of (with_buffer sb e)) =
     (stack_location (error_stack_of e), sb_text sb) # tl (stack_entries (error_stack_of e))"
  "stack_buffer (error_stack_of (with_buffer sb e)) = sb" "stream_good (with_buffer sb e) = stream_good e"
  "error_class (with_buffer sb e) = error_class e"
  by (cases "error_stack_of e"; simp add: with_buffer_def stack_entries_Cons stack_message_def)+

context string_impl
begin

lemma stream_all_ok:
  assumes "writable e"
  shows "\<exists>e' n'. stream_all L (map Write css) e n = (Inr e', n') \<and> writable e' \<and> error_class e' = error_class e \<and>
    stack_entries (error_stack_of e') =
      (where_of e, what_string e @ concat css) # tl (stack_entries (error_stack_of e)) \<and>
    (css \<noteq> [] \<longrightarrow> sb_written (stack_buffer (error_stack_of e')))"
  using assms
proof (induction css arbitrary: e n)
  case Nil
  then show ?case by (simp add: where_of_def what_string_def stack_entries_Cons)
next
  case (Cons cs css)
  obtain sb n1 where sb: "xsputn L cs (stack_buffer (error_stack_of e)) n = (Inr (length cs, sb), n1)"
      "sb_written sb" "sb_text sb = what_string e @ cs"
    using xsputn_ok [of "stack_buffer (error_stack_of e)" cs n] Cons.prems
    unfolding writable_def what_string_def stack_message_def by blast
  let ?e = "with_buffer sb e"
  have "writable ?e" using Cons.prems sb(2) by (simp add: writable_def with_buffer_simps sb_written_def)
  from Cons.IH [OF this, of n1] obtain e' n' where e': "stream_all L (map Write css) ?e n1 = (Inr e', n')" "writable e'"
      "error_class e' = error_class e" "stack_entries (error_stack_of e') =
        (where_of ?e, what_string ?e @ concat css) # tl (stack_entries (error_stack_of ?e))"
      "css \<noteq> [] \<longrightarrow> sb_written (stack_buffer (error_stack_of e'))"
    by (auto simp: with_buffer_simps)
  have w: "where_of ?e = where_of e" "what_string ?e = what_string e @ cs"
    using sb(3) by (cases "error_stack_of e"; simp add: where_of_def what_string_def with_buffer_def stack_message_def)+
  have "stream_all L (map Write (cs # css)) e n = (Inr e', n')"
    using Cons.prems sb(1) e'(1) by (simp add: stream_out_def bind_prog_def writable_def)
  moreover have "sb_written (stack_buffer (error_stack_of e'))"
    using e'(1,5) sb(2) by (cases "css = []") (auto simp: with_buffer_simps)
  ultimately show ?case using e'(2-4) w by (auto simp: with_buffer_simps)
qed

end

text \<open>The beginning of every message.\<close>

definition error_header :: "error \<Rightarrow> source_location \<Rightarrow> string" where
  "error_header cls loc = file_name loc @ '':'' @ nat_to_string (loc_line loc) @ '': '' @ error_name cls @ '': ''"

context string_impl
begin

lemma error_new_ok:
  assumes "co (CHR '':'') = Write '':''"
  obtains e n' where "error_new L co cls loc n = (Inr e, n')" "writable e" "error_class e = cls"
    "stack_entries (error_stack_of e) = [(loc, error_header cls loc)]" "sb_written (stack_buffer (error_stack_of e))"
proof -
  obtain st n1 where st: "stack_new L loc n = (Inr st, n1)" "stack_entries st = [(loc, [])]" "sb_ok (stack_buffer st)"
    using stack_new_ok by blast
  let ?e = "\<lparr>error_class = cls, error_stack_of = st, stream_good = True\<rparr>"
  let ?css = "[file_name loc, '':'', nat_to_string (loc_line loc), '': '', error_name cls, '': '']"
  have "writable ?e" using st(3) by (simp add: writable_def)
  then obtain e n' where e: "stream_all L (map Write ?css) ?e n1 = (Inr e, n')" "writable e" "error_class e = cls"
      "stack_entries (error_stack_of e) = (where_of ?e, what_string ?e @ concat ?css) # tl (stack_entries st)"
      "sb_written (stack_buffer (error_stack_of e))"
    using stream_all_ok [of ?e ?css n1] by (auto simp del: stream_all.simps concat.simps)
  have "where_of ?e = loc" "what_string ?e = []"
    using st(2) by (simp_all add: where_of_def what_string_def stack_entries_Cons)
  with e st that show ?thesis
    using assms by (simp add: error_new_def bind_prog_def [of "stack_new L loc"] error_header_def)
qed

end

section \<open>Properties\<close>


definition ex_error :: "string \<Rightarrow> error_object" where
  "ex_error cs = \<lparr>error_class = NotFound, error_stack_of = Stack 0 \<lparr>file_name = ''a.cc'', loc_line = 3\<rparr>
     (buffer_on (str_in (libstdcpp NUL) (Local 0) 15 cs)) None, stream_good = True\<rparr>"

lemma ex_error_simps:
  "what_string (ex_error cs) = cs" "sb_ok (stack_buffer (error_stack_of (ex_error cs)))"
  "stack_previous (error_stack_of (ex_error cs)) = None" "where_of (ex_error cs) = \<lparr>file_name = ''a.cc'', loc_line = 3\<rparr>"
  "stack_entries (error_stack_of (ex_error cs)) = [(\<lparr>file_name = ''a.cc'', loc_line = 3\<rparr>, cs)]"
  "s_mem (sb_string (stack_buffer (error_stack_of (ex_error cs)))) = cs @ NUL # replicate (15 - length cs) NUL"
  by (simp_all add: ex_error_def what_string_def stack_message_def where_of_def sb_ok_def) (simp add: str_in_def libstdcpp_def)


text \<open>
  Copy assignment of errors is broken. The message assigned to takes as many characters
  from the memory of the other message as it had itself: a longer message is cut, and for a
  shorter one the bytes behind it are copied or read outside of the memory. When the other error
  wraps nothing, the stack that was there stays.
\<close>

theorem error_assign_outcome:
  assumes "string_impl L" "sb_ok (stack_buffer (error_stack_of this))"
    and k: "k = length (what_string this)" and m: "m = s_mem (sb_string (stack_buffer (error_stack_of other)))"
  shows "if k \<le> length m
    then \<exists>e n'. error_assign L this other n = (Inr e, n') \<and> what_string e = take k m \<and> where_of e = where_of other \<and>
      tl (stack_entries (error_stack_of e)) =
        tl (stack_entries (error_stack_of (if stack_previous (error_stack_of other) = None then this else other)))
    else \<exists>n'. error_assign L this other n = (Inl Undefined_behaviour, n')"
proof -
  let ?t = "error_stack_of this" and ?o = "error_stack_of other"
  obtain sb n1 where sb: "sb_reserve L (sb_size (stack_buffer ?o)) (stack_buffer ?t) n = (Inr sb, n1)" "sb_ok sb"
      "sb_size sb = sb_size (stack_buffer ?t)"
    using string_impl.sb_reserve_ok [OF assms(1,2)] by blast
  have size: "sb_size sb = k" "k \<le> length (s_mem (sb_string sb))"
    using sb(2,3) assms(2) k
    by (simp_all add: sb_ok_def str_fits_def sb_size_def what_string_def stack_message_def sb_text_def str_text_def)
  show ?thesis
  proof (cases "k \<le> length m")
    case True
    let ?s = "(sb_string sb)\<lparr>s_mem := take k m @ drop k (s_mem (sb_string sb))\<rparr>"
    obtain pr n' where pr: "(case stack_previous ?o of
         None \<Rightarrow> ret (stack_previous ?t)
       | Some p \<Rightarrow> bind_prog (stack_copy L p) (\<lambda>p'. ret (Some p'))) n1 = (Inr pr, n')"
      "(case pr of None \<Rightarrow> [] | Some p \<Rightarrow> stack_entries p) =
         tl (stack_entries (error_stack_of (if stack_previous ?o = None then this else other)))"
    proof (cases "stack_previous ?o")
      case None
      with that [of "stack_previous ?t" n1] show ?thesis by (simp add: stack_entries_Cons [of ?t])
    next
      case (Some p)
      with that string_impl.stack_copy_ok [OF assms(1), of p n1] show ?thesis
        by (auto simp: bind_prog_def stack_entries_Cons [of ?o])
    qed
    let ?e = "this\<lparr>error_stack_of := Stack (stack_id ?t) (stack_location ?o) (sb\<lparr>sb_string := ?s\<rparr>) pr\<rparr>"
    have "error_assign L this other n = (Inr ?e, n')"
      using size True pr(1) unfolding error_assign_def stack_assign_def bind_prog_def sb(1)
      by (simp add: copy_memory_def m)
    moreover have "what_string ?e = take k m"
      using size True by (simp add: what_string_def stack_message_def sb_text_def str_text_def sb_size_def)
    moreover have "tl (stack_entries (error_stack_of ?e)) =
        tl (stack_entries (error_stack_of (if stack_previous ?o = None then this else other)))"
      using pr(2) by (simp add: stack_entries_Cons [of "Stack _ _ _ _"])
    ultimately show ?thesis using True by (simp add: where_of_def)
  next
    case False
    then show ?thesis
      using size unfolding error_assign_def stack_assign_def bind_prog_def sb(1) by (simp add: copy_memory_def m)
  qed
qed

theorem error_assign_outcome_witness:
  "\<exists>e n'. error_assign (libstdcpp NUL) (ex_error ''ab'') (ex_error ''wxyz'') 1 = (Inr e, n') \<and> what_string e = ''wx''"
  using error_assign_outcome [OF gnu.string_impl_axioms [of NUL] ex_error_simps(2) [of "''ab''"] refl refl,
      where other = "ex_error ''wxyz''" and n = 1]
  by (auto simp: ex_error_simps)

section \<open>Streams that put single characters\<close>

text \<open>
  Where the stream hands a single character to \<open>sputc\<close>, the colon behind the file name is
  lost; and when the file name fills the memory of a short string exactly, the stream is bad
  from then on and the message is the file name alone.
\<close>

lemma stream_put:
  assumes "stream_good e" "sb_written (stack_buffer (error_stack_of e))"
  shows "\<exists>e'. stream_out L (Put c) e n = (Inr e', n) \<and>
    stack_entries (error_stack_of e') = stack_entries (error_stack_of e) \<and>
    (if length (what_string e) < sb_capacity (stack_buffer (error_stack_of e)) then writable e' else \<not> stream_good e')"
proof -
  let ?sb = "stack_buffer (error_stack_of e)"
  let ?s = "sb_string ?sb"
  have size: "length (what_string e) = sb_size ?sb" "sb_size ?sb < length (s_mem ?s)"
    using assms(2)
    by (auto simp: what_string_def stack_message_def sb_text_def sb_size_def sb_written_def sb_ok_def str_fits_def
        dest: str_text_length)
  show ?thesis
  proof (cases "sb_size ?sb < sb_capacity ?sb")
    case True
    let ?sb' = "?sb\<lparr>sb_string := ?s\<lparr>s_mem := (s_mem ?s)[sb_size ?sb := c]\<rparr>, pptr := ptr_add (pptr ?sb) 1\<rparr>"
    have "sputc c ?sb = Inr (Some c, ?sb')"
      using assms(2) True size(2) by (simp add: sputc_def sb_written_def)
    moreover have "sb_text ?sb' = sb_text ?sb" by (simp add: sb_text_def str_text_def sb_size_def)
    moreover have "sb_ok ?sb'" using assms(2) by (simp add: sb_written_def sb_ok_def str_fits_def)
    ultimately show ?thesis
      using assms(1) True size(1)
      by (simp add: stream_out_def bind_prog_def writable_def with_buffer_simps stack_entries_Cons [of "error_stack_of e"]
          stack_message_def)
  next
    case False
    then have "sputc c ?sb = Inr (None, ?sb)" using assms(2) by (simp add: sputc_def sb_written_def)
    with assms(1) False size(1) show ?thesis
      by (simp add: stream_out_def bind_prog_def with_buffer_simps stack_entries_Cons [of "error_stack_of e"]
          stack_message_def)
  qed
qed

lemma stream_all_bad: "\<not> stream_good e \<Longrightarrow> stream_all L xs e n = (Inr e, n)"
  by (induction xs) (simp_all add: stream_out_def)

lemma put_header:
  fixes u defines "L \<equiv> libstdcpp u"
  shows "\<exists>e n'. error_new L Put cls loc n = (Inr e, n') \<and>
    what_string e = (if length (file_name loc) = 15 then file_name loc
      else file_name loc @ nat_to_string (loc_line loc) @ '': '' @ error_name cls @ '': '')"
proof -
  let ?sb = "buffer_on (str_in L (Local n) 15 [])"
  let ?e = "\<lparr>error_class = cls, error_stack_of = Stack n loc ?sb None, stream_good = True\<rparr>"
  let ?css = "[nat_to_string (loc_line loc), '': '', error_name cls, '': '']"
  note impl = gnu.string_impl_axioms [of u, folded L_def]
  have new: "stack_new L loc n = (Inr (Stack n loc ?sb None), Suc n)"
    by (simp add: stack_new_def new_object_def bind_prog_def sb_new_def str_new_def L_def libstdcpp_def)
  have sb: "sb_ok ?sb" "sb_size ?sb = 0" "sb_capacity ?sb = 15" "sb_text ?sb = []"
    by (simp_all add: sb_size_def sb_capacity_def)
  obtain sb1 n1 where sb1: "xsputn L (file_name loc) ?sb (Suc n) = (Inr (length (file_name loc), sb1), n1)" "sb_written sb1"
      "sb_text sb1 = file_name loc"
      "if length (file_name loc) \<le> 15 then sb_capacity sb1 = 15 else length (file_name loc) * 2 \<le> sb_capacity sb1"
    using string_impl.xsputn_ok [OF impl sb(1), of "file_name loc" "Suc n"]
    unfolding sb(2-4) add_0_right append_Nil by blast
  let ?e1 = "with_buffer sb1 ?e"
  have e1: "stream_out L (Write (file_name loc)) ?e (Suc n) = (Inr ?e1, n1)"
    using sb1(1) by (simp add: stream_out_def bind_prog_def)
  have w1: "stream_good ?e1" "sb_written (stack_buffer (error_stack_of ?e1))" "what_string ?e1 = file_name loc"
      "stack_buffer (error_stack_of ?e1) = sb1"
    using sb1(2,3) by (simp_all add: with_buffer_def what_string_def stack_message_def)
  obtain e2 where e2: "stream_out L (Put (CHR '':'')) ?e1 n1 = (Inr e2, n1)"
      "stack_entries (error_stack_of e2) = stack_entries (error_stack_of ?e1)"
      "if length (file_name loc) < sb_capacity sb1 then writable e2 else \<not> stream_good e2"
    using stream_put [OF w1(1,2), of L "CHR '':''" n1] w1(3,4) by auto
  have w2: "what_string e2 = file_name loc"
    using e2(2) w1(3) by (simp add: what_string_def stack_entries_Cons)
  have new_eq: "error_new L Put cls loc n = stream_all L (map Write ?css) e2 n1"
    by (simp add: error_new_def bind_prog_def new e1 e2(1))
  show ?thesis
  proof (cases "length (file_name loc) = 15")
    case True
    with sb1(4) e2(3) have "\<not> stream_good e2" by simp
    with new_eq w2 True show ?thesis by (simp add: stream_all_bad del: stream_all.simps)
  next
    case False
    then have "writable e2" using sb1(4) e2(3) by (auto split: if_splits)
    from string_impl.stream_all_ok [OF impl this, of ?css n1] new_eq w2 False show ?thesis
      by (auto simp: what_string_def stack_entries_Cons)
  qed
qed

end
