(* ===== verification/Async_Generator.thy ===== *)
theory Async_Generator
  imports Futures
begin

text \<open>
  Asynchronous generators, \<open>AsyncGenerator\<close> of \<open>src/lw/co/generator.h\<close>, over the promises of
  \<open>Futures\<close>. A generator shares with its coroutine whether that is done, the promise of the
  last call of \<open>next\<close> and the last value. The operations are the calls of the consumer and the
  hooks that the compiler calls when the coroutine yields, returns or throws.

  Abstractly every call of \<open>next\<close> makes a cell that the coroutine may write, and only the last
  of them; the futures are cells as in \<open>Futures\<close>.
\<close>

section \<open>Generators\<close>

record 't async_state =
  ag_done :: bool
  ag_next :: promise
  ag_value :: "'t option"

type_synonym ('t, 'h, 'q) async_world = "'t async_state \<times> (bool, 'h, 'q) world"

definition async_new :: "(bool, 'h, 'q) world \<Rightarrow> ('t, 'h, 'q) async_world" where
  "async_new w = (case promise_new w of (p, w1) \<Rightarrow> (\<lparr>ag_done = False, ag_next = p, ag_value = None\<rparr>, w1))"

definition async_next :: "('h \<Rightarrow> ('q, unit) prog) \<Rightarrow> (('t, 'h, 'q) async_world, nat) prog" where
  "async_next sch sw =
     (case sw of (s, w) \<Rightarrow>
        if ag_done s then
          case make_resolved_future sch (Inr False) w of (r, w') \<Rightarrow> (r, (s, w'))
        else
          case promise_new w of (p, w1) \<Rightarrow>
            (case get_future p of (r, p') \<Rightarrow> (r, (s\<lparr>ag_next := p'\<rparr>, w1))))"

definition async_value :: "'t async_state \<Rightarrow> 't res" where
  "async_value s = (case ag_value s of None \<Rightarrow> Inl Undefined_behaviour | Some v \<Rightarrow> Inr v)"

text \<open>The hooks of the coroutine: what they tell to the promise of the last \<open>next\<close>.\<close>

definition tell :: "('h \<Rightarrow> ('q, unit) prog) \<Rightarrow> bool res \<Rightarrow> (('t, 'h, 'q) async_world, unit) prog" where
  "tell sch out sw =
     (case sw of (s, w) \<Rightarrow>
        case (case out of Inr b \<Rightarrow> set_value_of sch (ag_next s) b w | Inl e \<Rightarrow> set_exception sch (ag_next s) e w) of
          (r, w') \<Rightarrow> (r, (s, w')))"

definition return_void :: "('h \<Rightarrow> ('q, unit) prog) \<Rightarrow> (('t, 'h, 'q) async_world, unit) prog" where
  "return_void sch sw = (case sw of (s, w) \<Rightarrow> tell sch (Inr False) (s\<lparr>ag_done := True\<rparr>, w))"

definition yield_value :: "('h \<Rightarrow> ('q, unit) prog) \<Rightarrow> 't \<Rightarrow> (('t, 'h, 'q) async_world, unit) prog" where
  "yield_value sch v sw = (case sw of (s, w) \<Rightarrow> tell sch (Inr True) (s\<lparr>ag_value := Some v\<rparr>, w))"

text \<open>
  \<open>yield_value\<close> of a future, when the future is there: its value is yielded, its exception is
  the outcome of the \<open>co_yield\<close>.
\<close>

definition yield_future :: "('h \<Rightarrow> ('q, unit) prog) \<Rightarrow> 't res \<Rightarrow> (('t, 'h, 'q) async_world, unit) prog" where
  "yield_future sch out sw = (case out of Inl e \<Rightarrow> (Inl e, sw) | Inr v \<Rightarrow> yield_value sch v sw)"

definition unhandled_exception :: "('h \<Rightarrow> ('q, unit) prog) \<Rightarrow> fault \<Rightarrow> (('t, 'h, 'q) async_world, unit) prog" where
  "unhandled_exception sch e = tell sch (Inl e)"

section \<open>Operations\<close>

datatype ('t, 'h) agop =
    Next | Yields_value 't | Yields_future "'t res" | Returns_void | Throws fault
  | Awaits nat "(bool, 'h) fop"

datatype agans = Future_at "nat res" | Told "unit res" | Saw "bool fanswer" | No_future

fun consumer_op :: "(bool, 'h) fop \<Rightarrow> bool" where
  "consumer_op (Fulfil out) = False"
| "consumer_op x = True"

text \<open>A consumer awaits the futures it was given.\<close>

fun async_step ::
  "('h \<Rightarrow> ('q, unit) prog) \<Rightarrow> ('t, 'h) agop \<Rightarrow> ('t, 'h, 'q) async_world \<Rightarrow> agans \<times> ('t, 'h, 'q) async_world" where
  "async_step sch Next sw = (case async_next sch sw of (r, sw') \<Rightarrow> (Future_at r, sw'))"
| "async_step sch (Yields_value v) sw = (case yield_value sch v sw of (r, sw') \<Rightarrow> (Told r, sw'))"
| "async_step sch (Yields_future out) sw = (case yield_future sch out sw of (r, sw') \<Rightarrow> (Told r, sw'))"
| "async_step sch Returns_void sw = (case return_void sch sw of (r, sw') \<Rightarrow> (Told r, sw'))"
| "async_step sch (Throws e) sw = (case unhandled_exception sch e sw of (r, sw') \<Rightarrow> (Told r, sw'))"
| "async_step sch (Awaits i x) (s, w) =
     (if i < next_state w \<and> consumer_op x then
        case future_step id sch \<lparr>future_obtained = True, promise_addr = Some i\<rparr> i x w of (a, w') \<Rightarrow> (Saw a, (s, w'))
      else (No_future, (s, w)))"

section \<open>The cells of the calls of next\<close>

record ('t, 'h, 'q) slots =
  sl_done :: bool
  sl_value :: "'t option"
  sl_last :: nat
  sl_cells :: "(bool, 'h) cell list"
  sl_sched :: 'q

definition cell_op ::
  "('h \<Rightarrow> ('q, unit) prog) \<Rightarrow> nat \<Rightarrow> (bool, 'h) fop \<Rightarrow> ('t, 'h, 'q) slots \<Rightarrow> bool fanswer \<times> ('t, 'h, 'q) slots" where
  "cell_op sch i x m =
     (case cell_step id sch x (sl_cells m ! i, sl_sched m) of
        (a, (c, q)) \<Rightarrow> (a, m\<lparr>sl_cells := (sl_cells m)[i := c], sl_sched := q\<rparr>))"

fun done_of :: "bool fanswer \<Rightarrow> unit res" where
  "done_of (A_done r) = r"
| "done_of a = Inr ()"

definition slots_tell ::
  "('h \<Rightarrow> ('q, unit) prog) \<Rightarrow> bool res \<Rightarrow> ('t, 'h, 'q) slots \<Rightarrow> agans \<times> ('t, 'h, 'q) slots" where
  "slots_tell sch out m = (case cell_op sch (sl_last m) (Fulfil out) m of (a, m') \<Rightarrow> (Told (done_of a), m'))"

fun slots_step ::
  "('h \<Rightarrow> ('q, unit) prog) \<Rightarrow> ('t, 'h) agop \<Rightarrow> ('t, 'h, 'q) slots \<Rightarrow> agans \<times> ('t, 'h, 'q) slots" where
  "slots_step sch Next m =
     (Future_at (Inr (length (sl_cells m))),
      if sl_done m then m\<lparr>sl_cells := sl_cells m @ [Full (Inr False)]\<rparr>
      else m\<lparr>sl_cells := sl_cells m @ [Empty None], sl_last := length (sl_cells m)\<rparr>)"
| "slots_step sch (Yields_value v) m = slots_tell sch (Inr True) (m\<lparr>sl_value := Some v\<rparr>)"
| "slots_step sch (Yields_future (Inr v)) m = slots_tell sch (Inr True) (m\<lparr>sl_value := Some v\<rparr>)"
| "slots_step sch (Yields_future (Inl e)) m = (Told (Inl e), m)"
| "slots_step sch Returns_void m = slots_tell sch (Inr False) (m\<lparr>sl_done := True\<rparr>)"
| "slots_step sch (Throws e) m = slots_tell sch (Inl e) m"
| "slots_step sch (Awaits i x) m =
     (if i < length (sl_cells m) \<and> consumer_op x then case cell_op sch i x m of (a, m') \<Rightarrow> (Saw a, m')
      else (No_future, m))"

definition slots_of :: "('t, 'h, 'q) async_world \<Rightarrow> ('t, 'h, 'q) slots" where
  "slots_of sw =
     (case sw of (s, w) \<Rightarrow>
        \<lparr>sl_done = ag_done s, sl_value = ag_value s, sl_last = the (promise_addr (ag_next s)),
         sl_cells = map (\<lambda>a. cell_of (the (shared w a))) [0..<next_state w], sl_sched = sched w\<rparr>)"

text \<open>Every promise made so far has a state of its own, and the last one is among them.\<close>

definition states_ok :: "(bool, 'h, 'q) world \<Rightarrow> bool" where
  "states_ok w \<longleftrightarrow>
     (\<forall>a<next_state w. \<exists>s. shared w a = Some s \<and> state_ok s \<and> chain_state s = None)"

definition async_ok :: "('t, 'h, 'q) async_world \<Rightarrow> bool" where
  "async_ok sw \<longleftrightarrow>
     (case sw of (s, w) \<Rightarrow> states_ok w \<and> (\<exists>a<next_state w. promise_addr (ag_next s) = Some a))"

lemma states_linked:
  assumes "states_ok w" "a < next_state w" "promise_addr p = Some a"
  shows "linked p a w"
proof -
  obtain s where s: "shared w a = Some s" "state_ok s" "chain_state s = None"
    using assms(1,2) by (auto simp: states_ok_def)
  then have "chain_end (shared w) a = Some a" by (subst chain_end.simps) simp
  with s assms(3) show ?thesis by (auto simp: linked_def)
qed

text \<open>An operation on one promise leaves the others alone.\<close>

lemma schedule_task_shared [simp]:
  "shared (snd (schedule_task sch a w)) = shared w" "next_state (snd (schedule_task sch a w)) = next_state w"
  by (simp_all add: schedule_task_def split: option.split prod.split)

lemma set_state_frame:
  assumes "linked p f w"
  shows "(\<forall>a. a \<noteq> f \<longrightarrow> shared (snd (set_state sch p (\<lambda>b. update_state b g) w)) a = shared w a) \<and>
    next_state (snd (set_state sch p (\<lambda>b. update_state b g) w)) = next_state w"
proof -
  obtain s where s: "shared w f = Some s" using assms by (auto elim: linkedE)
  show ?thesis by (simp add: set_state_linked [OF assms s])
qed

lemma future_step_frame:
  assumes "linked p f w" "future_step mv sch p f x w = (a, w')"
  shows "\<forall>b. b \<noteq> f \<longrightarrow> shared w' b = shared w b" "next_state w' = next_state w"
proof -
  obtain s where s: "shared w f = Some s" "chain_end (shared w) f = Some f" using assms by (auto elim: linkedE)
  have "(\<forall>b. b \<noteq> f \<longrightarrow> shared w' b = shared w b) \<and> next_state w' = next_state w"
  proof (cases x)
    case (Fulfil out)
    have "\<exists>g. w' = snd (set_state sch p (\<lambda>b. update_state b g) w)"
    proof (cases out)
      case (Inl e)
      with Fulfil assms(2) have "w' = snd (set_state sch p (\<lambda>b. update_state b (\<lambda>s. s\<lparr>state_exception := Some e\<rparr>)) w)"
        by (simp add: set_exception_def split: prod.splits)
      then show ?thesis by blast
    next
      case (Inr v)
      with Fulfil assms(2) have "w' = snd (set_state sch p (\<lambda>b. update_state b (\<lambda>s. s\<lparr>state_value := Some v\<rparr>)) w)"
        by (simp add: set_value_of_def do_set_value_def split: prod.splits)
      then show ?thesis by blast
    qed
    then obtain g where "w' = snd (set_state sch p (\<lambda>b. update_state b g) w)" ..
    with set_state_frame [OF assms(1), of sch g] show ?thesis by simp
  qed (use assms(2) s in \<open>auto simp: await_ready_def await_suspend_def await_resume_def split: if_splits option.splits\<close>)
  then show "\<forall>b. b \<noteq> f \<longrightarrow> shared w' b = shared w b" "next_state w' = next_state w" by simp_all
qed

lemma future_step_cells:
  assumes ok: "states_ok w" and i: "i < next_state w" and p: "promise_addr p = Some i"
  obtains w' where "future_step id sch p i x w =
      (fst (cell_step id sch x (cell_of (the (shared w i)), sched w)), w')"
    "states_ok w'" "next_state w' = next_state w"
    "(cell_of (the (shared w' i)), sched w') = snd (cell_step id sch x (cell_of (the (shared w i)), sched w))"
    "\<forall>a. a \<noteq> i \<longrightarrow> shared w' a = shared w a"
proof -
  note l = states_linked [OF ok i p]
  obtain w' where w': "future_step id sch p i x w = (fst (cell_step id sch x (cell_at i w)), w')"
      "cell_at i w' = snd (cell_step id sch x (cell_at i w))" "linked p i w'"
    using future_simulates [OF l] by blast
  note frame = future_step_frame [OF l w'(1)]
  obtain s where "shared w' i = Some s" "state_ok s" "chain_state s = None" using w'(3) by (auto elim: linkedE)
  then have "states_ok w'" using ok frame unfolding states_ok_def by metis
  with that w' frame show ?thesis by (simp add: cell_at_def)
qed

lemma cell_op_simulates:
  assumes ok: "states_ok w" and i: "i < next_state w" and p: "promise_addr p = Some i"
  obtains w' where "future_step id sch p i x w = (fst (cell_op sch i x (slots_of (s, w))), w')"
    "states_ok w'" "next_state w' = next_state w" "slots_of (s, w') = snd (cell_op sch i x (slots_of (s, w)))"
proof -
  let ?c = "cell_of (the (shared w i))"
  obtain w' where w': "future_step id sch p i x w = (fst (cell_step id sch x (?c, sched w)), w')"
    "states_ok w'" "next_state w' = next_state w"
    "(cell_of (the (shared w' i)), sched w') = snd (cell_step id sch x (?c, sched w))"
    "\<forall>a. a \<noteq> i \<longrightarrow> shared w' a = shared w a"
    using future_step_cells [OF assms] by blast
  obtain a c q where acq: "cell_step id sch x (?c, sched w) = (a, (c, q))" by (metis surj_pair)
  have op: "cell_op sch i x (slots_of (s, w)) = (a, (slots_of (s, w))\<lparr>sl_cells := (sl_cells (slots_of (s, w)))[i := c], sl_sched := q\<rparr>)"
    using i acq by (simp add: cell_op_def slots_of_def)
  have "map (\<lambda>a. cell_of (the (shared w' a))) [0..<next_state w] =
      (map (\<lambda>a. cell_of (the (shared w a))) [0..<next_state w])[i := c]"
    using w'(4,5) acq i by (intro nth_equalityI) (auto simp: nth_list_update)
  then have "slots_of (s, w') = snd (cell_op sch i x (slots_of (s, w)))"
    using w'(3,4) acq by (simp add: op) (simp add: slots_of_def)
  with w' acq op that show ?thesis by simp
qed

lemma tell_simulates:
  assumes ok: "async_ok (s, w)"
  shows "\<exists>sw. (case tell sch out (s, w) of (r, sw') \<Rightarrow> (Told r, sw')) = (fst (slots_tell sch out (slots_of (s, w))), sw) \<and>
    slots_of sw = snd (slots_tell sch out (slots_of (s, w))) \<and> async_ok sw"
proof -
  obtain a where a: "states_ok w" "a < next_state w" "promise_addr (ag_next s) = Some a"
    using ok by (auto simp: async_ok_def)
  obtain w' where w': "future_step id sch (ag_next s) a (Fulfil out) w = (fst (cell_op sch a (Fulfil out) (slots_of (s, w))), w')"
      "states_ok w'" "next_state w' = next_state w"
      "slots_of (s, w') = snd (cell_op sch a (Fulfil out) (slots_of (s, w)))"
    using cell_op_simulates [OF a, of sch "Fulfil out" s] by blast
  have last: "sl_last (slots_of (s, w)) = a" using a(3) by (simp add: slots_of_def)
  have "async_ok (s, w')" using a w'(2,3) by (auto simp: async_ok_def)
  with w' show ?thesis
    by (cases out) (auto simp: tell_def slots_tell_def last split: prod.splits)
qed

lemma promise_new_slots:
  assumes "states_ok w" "promise_new w = (p, w1)"
  shows "states_ok w1" "p = \<lparr>future_obtained = False, promise_addr = Some (next_state w)\<rparr>"
    "next_state w1 = Suc (next_state w)"
    "slots_of (s, w1) = (slots_of (s, w))\<lparr>sl_cells := sl_cells (slots_of (s, w)) @ [Empty None]\<rparr>"
proof -
  have w1: "w1 = w\<lparr>shared := (shared w)(next_state w \<mapsto> new_state), next_state := Suc (next_state w)\<rparr>"
    and p: "p = \<lparr>future_obtained = False, promise_addr = Some (next_state w)\<rparr>"
    using assms(2) by (simp_all add: promise_new_def)
  have new: "state_ok new_state" "chain_state new_state = None" "cell_of new_state = Empty None"
    by (simp_all add: new_state_def state_ok_def cell_of_def)
  show "states_ok w1" using assms(1) new by (auto simp: w1 states_ok_def less_Suc_eq)
  show "p = \<lparr>future_obtained = False, promise_addr = Some (next_state w)\<rparr>" by (rule p)
  show "next_state w1 = Suc (next_state w)" by (simp add: w1)
  show "slots_of (s, w1) = (slots_of (s, w))\<lparr>sl_cells := sl_cells (slots_of (s, w)) @ [Empty None]\<rparr>"
    by (simp add: w1 slots_of_def new(3))
qed

lemma next_simulates:
  assumes ok: "async_ok (s, w)"
  shows "\<exists>sw. async_step sch Next (s, w) = (fst (slots_step sch Next (slots_of (s, w))), sw) \<and>
    slots_of sw = snd (slots_step sch Next (slots_of (s, w))) \<and> async_ok sw"
proof -
  let ?n = "next_state w" and ?m = "slots_of (s, w)"
  obtain p w1 where new: "promise_new w = (p, w1)" by force
  have st: "states_ok w" using ok by (simp add: async_ok_def)
  note pn = promise_new_slots [OF st new]
  have len: "length (sl_cells ?m) = ?n" and don: "sl_done ?m = ag_done s" by (simp_all add: slots_of_def)
  show ?thesis
  proof (cases "ag_done s")
    case False
    let ?p = "p\<lparr>future_obtained := True\<rparr>"
    have "async_step sch Next (s, w) = (Future_at (Inr ?n), (s\<lparr>ag_next := ?p\<rparr>, w1))"
      using False pn(2) by (simp add: async_next_def new get_future_def)
    moreover have "slots_of (s\<lparr>ag_next := ?p\<rparr>, w1) = ?m\<lparr>sl_cells := sl_cells ?m @ [Empty None], sl_last := ?n\<rparr>"
      using pn(2) pn(4) [of s] by (auto simp: slots_of_def)
    moreover have "async_ok (s\<lparr>ag_next := ?p\<rparr>, w1)" using pn by (simp add: async_ok_def)
    ultimately show ?thesis using False len don by simp
  next
    case True
    have i: "?n < next_state w1" "promise_addr p = Some ?n" using pn by simp_all
    obtain w2 where w2: "future_step id sch p ?n (Fulfil (Inr False)) w1 =
          (fst (cell_op sch ?n (Fulfil (Inr False)) (slots_of (s, w1))), w2)"
        "states_ok w2" "next_state w2 = next_state w1"
        "slots_of (s, w2) = snd (cell_op sch ?n (Fulfil (Inr False)) (slots_of (s, w1)))"
      using cell_op_simulates [OF pn(1) i, of sch "Fulfil (Inr False)" s] by blast
    have op: "cell_op sch ?n (Fulfil (Inr False)) (slots_of (s, w1)) =
        (A_done (Inr ()), ?m\<lparr>sl_cells := sl_cells ?m @ [Full (Inr False)]\<rparr>)"
      using len by (simp add: cell_op_def pn(4) nth_append list_update_append)
    have "set_value_of sch p False w1 = (Inr (), w2)"
      using w2(1) op by (auto split: prod.splits)
    then have "make_resolved_future sch (Inr False) w = (Inr ?n, w2)"
      using pn(2) by (simp add: make_resolved_future_def new get_future_def)
    then have "async_step sch Next (s, w) = (Future_at (Inr ?n), (s, w2))"
      using True by (simp add: async_next_def)
    moreover have "async_ok (s, w2)" using ok w2(2,3) pn(3) by (auto simp: async_ok_def less_Suc_eq)
    ultimately show ?thesis using True len don w2(4) op by simp
  qed
qed

lemma async_simulates:
  assumes "async_ok sw"
  shows "\<exists>sw'. async_step sch x sw = (fst (slots_step sch x (slots_of sw)), sw') \<and>
    slots_of sw' = snd (slots_step sch x (slots_of sw)) \<and> async_ok sw'"
proof -
  obtain s w where sw: "sw = (s, w)" by (cases sw)
  have ok: "async_ok (s, w)" "async_ok (s\<lparr>ag_value := v\<rparr>, w)" "async_ok (s\<lparr>ag_done := b\<rparr>, w)" for v b
    using assms by (simp_all add: sw async_ok_def)
  have upd: "slots_of (s\<lparr>ag_value := v\<rparr>, w) = (slots_of (s, w))\<lparr>sl_value := v\<rparr>"
    "slots_of (s\<lparr>ag_done := b\<rparr>, w) = (slots_of (s, w))\<lparr>sl_done := b\<rparr>" for v b
    by (simp_all add: slots_of_def)
  show ?thesis
  proof (cases x)
    case Next
    with next_simulates [OF ok(1)] show ?thesis by (simp add: sw)
  next
    case (Yields_value v)
    with tell_simulates [OF ok(2) [of "Some v"], of sch "Inr True"] show ?thesis
      by (simp add: sw yield_value_def upd)
  next
    case (Yields_future out)
    with tell_simulates [OF ok(2) [of "Some (projr out)"], of sch "Inr True"] assms show ?thesis
      by (cases out) (simp_all add: sw yield_future_def yield_value_def upd)
  next
    case Returns_void
    with tell_simulates [OF ok(3) [of True], of sch "Inr False"] show ?thesis
      by (simp add: sw return_void_def upd)
  next
    case (Throws e)
    with tell_simulates [OF ok(1), of sch "Inl e"] show ?thesis by (simp add: sw unhandled_exception_def)
  next
    case (Awaits i y)
    have len: "length (sl_cells (slots_of (s, w))) = next_state w" by (simp add: slots_of_def)
    show ?thesis
    proof (cases "i < next_state w \<and> consumer_op y")
      case True
      let ?p = "\<lparr>future_obtained = True, promise_addr = Some i\<rparr>"
      have st: "states_ok w" using ok(1) by (simp add: async_ok_def)
      obtain w' where w': "future_step id sch ?p i y w = (fst (cell_op sch i y (slots_of (s, w))), w')"
          "states_ok w'" "next_state w' = next_state w" "slots_of (s, w') = snd (cell_op sch i y (slots_of (s, w)))"
        using cell_op_simulates [OF st, of i ?p sch y s] True by auto
      then have "async_ok (s, w')" using ok(1) by (auto simp: async_ok_def)
      with w' True Awaits show ?thesis by (simp add: sw len split: prod.splits)
    next
      case False
      with Awaits assms show ?thesis by (auto simp: sw len)
    qed
  qed
qed

interpretation async_slots: simulation "async_step sch" "slots_step sch" slots_of async_ok
  by unfold_locales (rule async_simulates)

text \<open>The generator that was just made.\<close>

definition slots_start :: "(bool, 'h, 'q) world \<Rightarrow> ('t, 'h, 'q) slots" where
  "slots_start w =
     \<lparr>sl_done = False, sl_value = None, sl_last = next_state w,
      sl_cells = map (\<lambda>a. cell_of (the (shared w a))) [0..<next_state w] @ [Empty None], sl_sched = sched w\<rparr>"

lemma slots_of_new: "slots_of (async_new w) = slots_start w"
  by (simp add: async_new_def promise_new_def slots_of_def slots_start_def) (simp add: new_state_def cell_of_def)

lemma async_generator_cells_aux:
  assumes "states_ok w"
  shows "\<exists>sw. run_ops (async_step sch) xs (async_new w) = (fst (run_ops (slots_step sch) xs (slots_start w)), sw) \<and>
    slots_of sw = snd (run_ops (slots_step sch) xs (slots_start w))"
proof -
  obtain p w1 where new: "promise_new w = (p, w1)" by force
  have "async_ok (async_new w)"
    using promise_new_slots [OF assms new] by (simp add: async_ok_def async_new_def new)
  from async_slots.run_simulates [OF this] show ?thesis unfolding slots_of_new by blast
qed

text \<open>
  C26: an asynchronous generator is a row of cells. Whatever the consumer and the coroutine
  do, in any order, every call is answered as by the cells: \<open>next\<close> opens a new cell, or
  answers false when the coroutine has returned; what the coroutine yields, returns or throws
  goes to the cell of the last call of \<open>next\<close> and is refused with \<open>FailedPrecondition\<close> when
  that has been written, so a second value before the next call is not delivered.
\<close>

theorem async_generator_cells:
  assumes "states_ok w"
  shows "\<exists>sw. run_ops (async_step sch) xs (async_new w) = (fst (run_ops (slots_step sch) xs (slots_start w)), sw) \<and>
    slots_of sw = snd (run_ops (slots_step sch) xs (slots_start w))"
  using async_generator_cells_aux [OF assms] by blast

theorem async_generator_cells_witness:
  "\<exists>sw. run_ops (async_step (\<lambda>h q. (Inr (), q @ [h])))
      [Yields_value 5, Next, Awaits 1 (Suspend (9 :: nat)), Yields_value (6 :: int), Yields_value 7, Awaits 1 Resume]
      (async_new \<lparr>shared = Map.empty, next_state = 0, sched = []\<rparr>) =
    ([Told (Inr ()), Future_at (Inr 1), Saw (A_bool (Inr True)), Told (Inr ()), Told (Inl (Err FailedPrecondition)),
      Saw (A_value (Inr True))], sw)"
proof -
  let ?w = "\<lparr>shared = Map.empty, next_state = 0, sched = []\<rparr> :: (bool, nat, nat list) world"
  have "states_ok ?w" by (simp add: states_ok_def)
  from async_generator_cells [OF this, of "\<lambda>h q. (Inr (), q @ [h])"
      "[Yields_value 5, Next, Awaits 1 (Suspend 9), Yields_value (6 :: int), Yields_value 7, Awaits 1 Resume]"]
  show ?thesis by (auto simp: slots_tell_def cell_op_def slots_start_def)
qed

text \<open>
  The coroutine is not resumed by its consumer. Everything that the scheduler is asked to run
  was suspended on a future of the generator; a coroutine that has yielded a plain value is
  suspended on none, and none of the operations asks for it.
\<close>

fun suspends :: "('t, 'h) agop \<Rightarrow> 'h set" where
  "suspends (Awaits i (Suspend h)) = {h}"
| "suspends x = {}"

fun waiter :: "('v, 'h) cell \<Rightarrow> 'h set" where
  "waiter (Empty (Some h)) = {h}"
| "waiter c = {}"

definition enqueue :: "'h \<Rightarrow> ('h list, unit) prog" where
  "enqueue h q = (Inr (), q @ [h])"

definition handles :: "('t, 'h, 'h list) slots \<Rightarrow> 'h set" where
  "handles m = set (sl_sched m) \<union> (\<Union>c\<in>set (sl_cells m). waiter c)"

lemma cell_step_handles:
  "cell_step mv enqueue x (c, q) = (a, (c', q')) \<Longrightarrow>
   set q' \<union> waiter c' \<subseteq> set q \<union> waiter c \<union> (case x of Suspend h \<Rightarrow> {h} | _ \<Rightarrow> {})"
  by (cases "(mv, enqueue :: 'b \<Rightarrow> ('b list, unit) prog, x, c, q)" rule: cell_step.cases) (auto simp: enqueue_def)

lemma cell_op_handles:
  assumes "i < length (sl_cells m)" "cell_op enqueue i x m = (a, m')"
  shows "handles m' \<subseteq> handles m \<union> (case x of Suspend h \<Rightarrow> {h} | _ \<Rightarrow> {})" "length (sl_cells m') = length (sl_cells m)"
    "sl_last m' = sl_last m"
proof -
  obtain c q where cq: "cell_step id enqueue x (sl_cells m ! i, sl_sched m) = (a, (c, q))"
      "m' = m\<lparr>sl_cells := (sl_cells m)[i := c], sl_sched := q\<rparr>"
    using assms(2) by (auto simp: cell_op_def split: prod.splits)
  have "waiter (sl_cells m ! i) \<subseteq> handles m" using assms(1) by (auto simp: handles_def)
  moreover have "set (sl_sched m) \<subseteq> handles m" by (auto simp: handles_def)
  moreover have "handles m' \<subseteq> set q \<union> waiter c \<union> handles m"
    using set_update_subset_insert [of "sl_cells m" i c] by (auto simp: handles_def cq(2))
  ultimately show "handles m' \<subseteq> handles m \<union> (case x of Suspend h \<Rightarrow> {h} | _ \<Rightarrow> {})"
    using cell_step_handles [OF cq(1)] by blast
qed (use assms(2) in \<open>auto simp: cell_op_def split: prod.splits\<close>)

lemma slots_tell_handles:
  assumes "sl_last m < length (sl_cells m)" "slots_tell enqueue out m = (a, m')"
  shows "handles m' \<subseteq> handles m \<and> sl_last m' < length (sl_cells m')"
proof -
  obtain b where "cell_op enqueue (sl_last m) (Fulfil out) m = (b, m')"
    using assms(2) by (auto simp: slots_tell_def split: prod.splits)
  from cell_op_handles [OF assms(1) this] assms(1) show ?thesis by simp
qed

lemma handles_update [simp]:
  "handles (m\<lparr>sl_value := v\<rparr>) = handles m" "handles (m\<lparr>sl_done := b\<rparr>) = handles m"
  by (simp_all add: handles_def)

lemma slots_step_handles:
  assumes "sl_last m < length (sl_cells m)" "slots_step enqueue x m = (a, m')"
  shows "handles m' \<subseteq> handles m \<union> suspends x \<and> sl_last m' < length (sl_cells m')"
proof (cases x)
  case Next
  with assms show ?thesis by (auto simp: handles_def split: if_splits)
next
  case (Yields_future out)
  with assms slots_tell_handles [of "m\<lparr>sl_value := Some (projr out)\<rparr>"] show ?thesis by (cases out) auto
next
  case (Awaits i y)
  show ?thesis
  proof (cases "i < length (sl_cells m) \<and> consumer_op y")
    case True
    with Awaits assms(2) obtain b where "cell_op enqueue i y m = (b, m')" by (auto split: prod.splits)
    from cell_op_handles [OF _ this] True assms(1) Awaits show ?thesis by (cases y) auto
  next
    case False
    with Awaits assms show ?thesis by auto
  qed
next
  case (Yields_value v)
  with assms slots_tell_handles [of "m\<lparr>sl_value := Some v\<rparr>"] show ?thesis by auto
next
  case Returns_void
  with assms slots_tell_handles [of "m\<lparr>sl_done := True\<rparr>"] show ?thesis by auto
next
  case (Throws e)
  with assms slots_tell_handles [of m] show ?thesis by auto
qed

lemma slots_run_handles:
  "sl_last m < length (sl_cells m) \<Longrightarrow> run_ops (slots_step enqueue) xs m = (as, m') \<Longrightarrow>
   handles m' \<subseteq> handles m \<union> \<Union> (suspends ` set xs)"
proof (induction xs arbitrary: m as)
  case (Cons x xs)
  obtain a m1 as1 where "slots_step enqueue x m = (a, m1)" "run_ops (slots_step enqueue) xs m1 = (as1, m')"
    using Cons.prems(2) by (auto simp: Let_def split: prod.splits)
  with slots_step_handles [OF Cons.prems(1), of x a m1] Cons.IH [of m1 as1] show ?case by auto
qed simp

definition empty_world :: "(bool, 'h, 'h list) world" where
  "empty_world = \<lparr>shared = Map.empty, next_state = 0, sched = []\<rparr>"

lemma coroutine_not_resumed:
  assumes "run_ops (async_step enqueue) xs (async_new empty_world) = (as, (s, w))"
  shows "set (sched w) \<subseteq> \<Union> (suspends ` set xs)"
proof -
  have ok: "states_ok (empty_world :: (bool, 'b, 'b list) world)" by (simp add: states_ok_def empty_world_def)
  let ?m = "slots_start empty_world :: ('a, 'b, 'b list) slots"
  have m: "sl_last ?m < length (sl_cells ?m)" "handles ?m = {}"
    by (simp_all add: empty_world_def slots_start_def handles_def)
  have "snd (run_ops (slots_step enqueue) xs ?m) = slots_of (s, w)"
    using async_generator_cells_aux [OF ok, of enqueue xs] assms by auto
  then obtain as' where "run_ops (slots_step enqueue) xs ?m = (as', slots_of (s, w))" by (metis prod.collapse)
  from slots_run_handles [OF m(1) this] m(2) show ?thesis by (auto simp: handles_def slots_of_def)
qed

end
