(* ===== verification/Void_Futures.thy ===== *)
theory Void_Futures
  imports Futures
begin

text \<open>
  The specialisations of futures and promises for \<open>void\<close>, \<open>src/lw/co/future.h\<close>: there is no
  value and no chain, a state that is set without an exception is a success. The store of
  shared states and the awaiting half are those of \<open>Futures\<close>.
\<close>

definition void_set ::
  "('h \<Rightarrow> ('q, unit) prog) \<Rightarrow> promise \<Rightarrow> ((unit, 'h) promise_state \<Rightarrow> (unit, 'h) promise_state) \<Rightarrow>
   ((unit, 'h, 'q) world, unit) prog" where
  "void_set sch p g w =
     (case promise_addr p of
        None \<Rightarrow> (Inl Undefined_behaviour, w)
      | Some a \<Rightarrow>
          bind_prog (claim_state_set a)
            (\<lambda>_. bind_prog (modify (\<lambda>w. w\<lparr>shared := update_state a g (shared w)\<rparr>)) (\<lambda>_. schedule_task sch a)) w)"

definition void_set_value :: "('h \<Rightarrow> ('q, unit) prog) \<Rightarrow> promise \<Rightarrow> ((unit, 'h, 'q) world, unit) prog" where
  "void_set_value sch p = void_set sch p id"

definition void_set_exception ::
  "('h \<Rightarrow> ('q, unit) prog) \<Rightarrow> promise \<Rightarrow> fault \<Rightarrow> ((unit, 'h, 'q) world, unit) prog" where
  "void_set_exception sch p e = void_set sch p (\<lambda>s. s\<lparr>state_exception := Some e\<rparr>)"

definition void_await_resume :: "nat \<Rightarrow> ((unit, 'h, 'q) world, unit) prog" where
  "void_await_resume f w =
     (case shared w f of
        None \<Rightarrow> (Inl Undefined_behaviour, w)
      | Some s \<Rightarrow>
          if \<not> state_set s then (Inl (Err FailedPrecondition), w)
          else case state_exception s of Some e \<Rightarrow> (Inl e, w) | None \<Rightarrow> (Inr (), w))"

definition void_make_resolved_future ::
  "('h \<Rightarrow> ('q, unit) prog) \<Rightarrow> ((unit, 'h, 'q) world, nat) prog" where
  "void_make_resolved_future sch w =
     (case promise_new w of (p, w1) \<Rightarrow>
        (case void_set_value sch p w1 of (Inl e, w2) \<Rightarrow> (Inl e, w2) | (Inr _, w2) \<Rightarrow> (fst (get_future p), w2)))"

fun void_step ::
  "('h \<Rightarrow> ('q, unit) prog) \<Rightarrow> promise \<Rightarrow> nat \<Rightarrow> (unit, 'h) fop \<Rightarrow>
   (unit, 'h, 'q) world \<Rightarrow> unit fanswer \<times> (unit, 'h, 'q) world" where
  "void_step sch p f Is_ready w = (case await_ready f w of (r, w') \<Rightarrow> (A_bool r, w'))"
| "void_step sch p f (Suspend h) w = (case await_suspend f h w of (r, w') \<Rightarrow> (A_bool r, w'))"
| "void_step sch p f Resume w = (case void_await_resume f w of (r, w') \<Rightarrow> (A_value r, w'))"
| "void_step sch p f (Fulfil (Inr v)) w = (case void_set_value sch p w of (r, w') \<Rightarrow> (A_done r, w'))"
| "void_step sch p f (Fulfil (Inl e)) w = (case void_set_exception sch p e w of (r, w') \<Rightarrow> (A_done r, w'))"

section \<open>A cell without a value\<close>

definition void_cell_of :: "(unit, 'h) promise_state \<Rightarrow> (unit, 'h) cell" where
  "void_cell_of s =
     (if state_set s then Full (case state_exception s of Some e \<Rightarrow> Inl e | None \<Rightarrow> Inr ())
      else Empty (if future_suspended s then state_handle s else None))"

definition void_state_ok :: "(unit, 'h) promise_state \<Rightarrow> bool" where
  "void_state_ok s \<longleftrightarrow>
     (\<not> state_set s \<longrightarrow> state_exception s = None) \<and> (future_suspended s \<longrightarrow> state_handle s \<noteq> None)"

definition void_at :: "nat \<Rightarrow> (unit, 'h, 'q) world \<Rightarrow> (unit, 'h) cell \<times> 'q" where
  "void_at f w = (void_cell_of (the (shared w f)), sched w)"

definition void_ok :: "nat \<Rightarrow> (unit, 'h, 'q) world \<Rightarrow> bool" where
  "void_ok f w \<longleftrightarrow> (\<exists>s. shared w f = Some s \<and> void_state_ok s)"

lemma void_set_at:
  assumes "shared w f = Some s" "promise_addr p = Some f"
  shows "void_set sch p g w =
    (if state_set s then (Inl (Err FailedPrecondition), w)
     else schedule_task sch f (w\<lparr>shared := (shared w)(f \<mapsto> g (s\<lparr>state_set := True\<rparr>))\<rparr>))"
  using assms by (simp add: void_set_def claim_state_set_def update_state_def bind_prog_def)

lemma void_fulfil_simulates:
  assumes s: "shared w f = Some s" "void_state_ok s" and p: "promise_addr p = Some f"
    and g: "\<And>s. state_set s \<Longrightarrow> state_exception s = None \<Longrightarrow> void_cell_of (g s) = Full out"
      "\<And>s. state_set (g s) = state_set s" "\<And>s. future_suspended (g s) = future_suspended s"
      "\<And>s. state_handle (g s) = state_handle s"
  shows "\<exists>w'. (case void_set sch p g w of (r, w') \<Rightarrow> (A_done r, w')) =
      (fst (cell_step id sch (Fulfil out) (void_at f w)), w') \<and>
    void_at f w' = snd (cell_step id sch (Fulfil out) (void_at f w)) \<and> void_ok f w'"
proof (cases "state_set s")
  case True
  with s show ?thesis by (simp add: void_set_at [OF s(1) p] void_at_def void_cell_of_def void_ok_def)
next
  case False
  let ?s = "g (s\<lparr>state_set := True\<rparr>)"
  have "void_cell_of ?s = Full out" "void_state_ok ?s"
    using g s(2) False by (simp_all add: void_state_ok_def)
  with s g(3,4) False show ?thesis
    by (auto simp: void_set_at [OF s(1) p] schedule_task_def void_at_def void_ok_def void_cell_of_def [of s]
        void_state_ok_def split: prod.splits)
qed

lemma void_simulates:
  assumes "void_ok f w" "promise_addr p = Some f"
  shows "\<exists>w'. void_step sch p f x w = (fst (cell_step id sch x (void_at f w)), w') \<and>
    void_at f w' = snd (cell_step id sch x (void_at f w)) \<and> void_ok f w'"
proof -
  obtain s where s: "shared w f = Some s" "void_state_ok s" using assms(1) by (auto simp: void_ok_def)
  show ?thesis
  proof (cases x)
    case Is_ready
    with s show ?thesis by (auto simp: await_ready_def void_at_def void_cell_of_def void_ok_def)
  next
    case (Suspend h)
    with s show ?thesis
      by (cases "state_set s") (auto simp: await_suspend_def void_at_def void_cell_of_def void_ok_def void_state_ok_def)
  next
    case Resume
    with s show ?thesis
      by (intro exI [of _ w]) (auto simp: void_await_resume_def void_at_def void_cell_of_def void_ok_def split: option.splits)
  next
    case (Fulfil out)
    show ?thesis
    proof (cases out)
      case (Inl e)
      with Fulfil void_fulfil_simulates [OF s assms(2), of "\<lambda>s. s\<lparr>state_exception := Some e\<rparr>" out sch]
      show ?thesis by (simp add: void_set_exception_def void_cell_of_def)
    next
      case (Inr v)
      with Fulfil void_fulfil_simulates [OF s assms(2), of id out sch]
      show ?thesis by (simp add: void_set_value_def void_cell_of_def)
    qed
  qed
qed

interpretation void_cell: simulation "void_step sch \<lparr>future_obtained = b, promise_addr = Some f\<rparr> f"
    "cell_step id sch" "void_at f" "void_ok f"
  by unfold_locales (rule void_simulates, simp_all)

text \<open>A new promise and its future are a cell, as they are for other types.\<close>

lemma void_promise_is_cell:
  "case promise_new w of (p, w1) \<Rightarrow>
     (case get_future p of
        (Inl e, p') \<Rightarrow> False
      | (Inr f, p') \<Rightarrow>
          (case run_ops (void_step sch p' f) xs w1 of (answers, w2) \<Rightarrow>
             (answers, void_at f w2) = run_ops (cell_step id sch) xs (Empty None, sched w)))"
proof -
  let ?f = "next_state w" and ?w = "snd (promise_new w)"
  have "void_ok ?f ?w" "void_at ?f ?w = (Empty None, sched w)"
    by (simp_all add: void_ok_def void_at_def promise_new_def new_state_def void_state_ok_def void_cell_of_def)
  then show ?thesis
    using void_cell.run_simulates [where f = ?f and c = ?w and b = True and sch = sch and xs = xs]
    by (auto simp: promise_new_def get_future_def split: prod.splits)
qed

lemma void_resolved_future:
  "\<exists>w'. void_make_resolved_future sch w = (Inr (next_state w), w') \<and> void_await_resume (next_state w) w' = (Inr (), w')"
  by (simp add: void_make_resolved_future_def promise_new_def void_set_value_def void_set_def new_state_def
      claim_state_set_def update_state_def bind_prog_def schedule_task_def get_future_def void_await_resume_def)

end
