(* ===== verification/Logging.thy ===== *)
theory Logging
  imports Error_Objects
begin

text \<open>
  Logging, \<open>src/lw/log/log.h\<close> and \<open>log.cpp\<close>. A log statement asks for a writer, which is null
  when the level is switched off by the flags, and writes the values streamed into it and the
  end of the line when it is destroyed. A sink is where a statement is started; its stream is a
  state of any type with the operation that writes text, and the default sink's is the text of
  the standard output. Printing an error to a stream is a function to \<open>option\<close>, as it calls
  itself without end.
\<close>

record log_flags =
  enable_trace_logs :: bool
  enable_debug_logs :: bool
  enable_logs :: bool
  enable_error_stacks :: bool

definition log_defaults :: log_flags where
  "log_defaults = \<lparr>enable_trace_logs = False, enable_debug_logs = False, enable_logs = True, enable_error_stacks = True\<rparr>"

text \<open>\<open>LogLevel\<close> is an enumeration without a fixed type: other numbers can be cast to it.\<close>

abbreviation "TRACE \<equiv> 0 :: nat"
abbreviation "DEBUG \<equiv> 1 :: nat"
abbreviation "INFO \<equiv> 2 :: nat"
abbreviation "WARN \<equiv> 3 :: nat"
abbreviation "ERROR \<equiv> 4 :: nat"

definition level_name :: "nat \<Rightarrow> string" where
  "level_name level =
     (if level = TRACE then ''Trace'' else if level = DEBUG then ''Debug'' else if level = INFO then ''Info''
      else if level = WARN then ''Warn'' else if level = ERROR then ''Error'' else ''Unknown'')"

record 'o log_sink =
  start_log :: "nat \<Rightarrow> source_location \<Rightarrow> 'o \<Rightarrow> 'o"
  put_text :: "string \<Rightarrow> 'o \<Rightarrow> 'o"

definition default_log_sink :: "string log_sink" where
  "default_log_sink =
     \<lparr>start_log = (\<lambda>level loc out.
        out @ [level_name level ! 0] @ '':'' @ file_name loc @ '':'' @ nat_to_string (loc_line loc) @ '': ''),
      put_text = (\<lambda>cs out. out @ cs)\<rparr>"

text \<open>\<open>Logger\<close>: the sink that was set, or the default one.\<close>

definition logger_sink :: "string log_sink option \<Rightarrow> string log_sink" where
  "logger_sink s = (case s of Some k \<Rightarrow> k | None \<Rightarrow> default_log_sink)"

text \<open>A writer that is not null, with its line started.\<close>

definition log_started :: "log_flags \<Rightarrow> 'o log_sink \<Rightarrow> nat \<Rightarrow> source_location \<Rightarrow> 'o \<Rightarrow> bool \<times> 'o" where
  "log_started fl k level loc out =
     (if \<not> enable_logs fl then (False, out)
      else if level = DEBUG \<and> \<not> enable_debug_logs fl then (False, out)
      else if level = TRACE \<and> (\<not> enable_trace_logs fl \<or> \<not> enable_debug_logs fl) then (False, out)
      else (True, start_log k level loc out))"

definition writer_put :: "'o log_sink \<Rightarrow> string \<Rightarrow> bool \<times> 'o \<Rightarrow> bool \<times> 'o" where
  "writer_put k cs w = (case w of (stream, out) \<Rightarrow> (stream, if stream then put_text k cs out else out))"

definition writer_destroy :: "'o log_sink \<Rightarrow> bool \<times> 'o \<Rightarrow> 'o" where
  "writer_destroy k w = (case w of (stream, out) \<Rightarrow> if stream then put_text k [CHR 0x0A] out else out)"

text \<open>\<open>log(level) << v1 << ... << vn;\<close>\<close>

definition log_statement :: "log_flags \<Rightarrow> 'o log_sink \<Rightarrow> nat \<Rightarrow> source_location \<Rightarrow> string list \<Rightarrow> 'o \<Rightarrow> 'o" where
  "log_statement fl k level loc vs out = writer_destroy k (fold (writer_put k) vs (log_started fl k level loc out))"

text \<open>\<open>operator<<(std::ostream&, const Error&)\<close>.\<close>

definition stack_line :: "string \<Rightarrow> string" where
  "stack_line msg = ''  -> '' @ msg @ [CHR 0x0A]"

partial_function (option) print_error :: "log_flags \<Rightarrow> error_object \<Rightarrow> string \<Rightarrow> string option" where
  "print_error fl e out =
     (if enable_error_stacks fl
      then Some (foldl (\<lambda>o' (loc, msg). o' @ stack_line msg) out (visit_from (stack_begin (error_stack_of e)))
             @ [CHR 0x0A])
      else print_error fl e out)"

section \<open>What is written\<close>

definition log_enabled :: "log_flags \<Rightarrow> nat \<Rightarrow> bool" where
  "log_enabled fl level \<longleftrightarrow> enable_logs fl \<and>
     (level \<le> DEBUG \<longrightarrow> enable_debug_logs fl) \<and> (level = TRACE \<longrightarrow> enable_trace_logs fl)"

lemma log_started_enabled:
  "log_started fl k level loc out = (if log_enabled fl level then (True, start_log k level loc out) else (False, out))"
  by (auto simp: log_started_def log_enabled_def le_Suc_eq)

lemma fold_writer_put:
  "fold (writer_put k) vs (b, out) = (b, if b then fold (put_text k) vs out else out)"
  by (induction vs arbitrary: out) (simp_all add: writer_put_def)

lemma level_name_nonempty: "level_name level \<noteq> []"
  by (simp add: level_name_def)

lemma fold_append: "fold (\<lambda>cs out. out @ cs) vs out = out @ concat vs"
  by (induction vs arbitrary: out) simp_all

text \<open>
  A log statement writes one line, or nothing when the level is switched off; trace needs
  the flag of debug as well.
\<close>

lemma log_statement_line:
  "log_statement fl (logger_sink None) level loc vs out =
     (if log_enabled fl level
      then out @ [hd (level_name level)] @ '':'' @ file_name loc @ '':'' @ nat_to_string (loc_line loc) @ '': '' @
        concat vs @ [CHR 0x0A]
      else out)"
  by (simp add: log_statement_def log_started_enabled fold_writer_put writer_destroy_def logger_sink_def
      default_log_sink_def fold_append hd_conv_nth level_name_nonempty)

lemma print_error_disabled: "\<not> enable_error_stacks fl \<Longrightarrow> print_error fl e out = None"
proof -
  assume off: "\<not> enable_error_stacks fl"
  have "enable_error_stacks fl" if "print_error fl e out = Some y" for y
    using that by (induction rule: print_error.raw_induct [rotated, consumes 1]) (auto split: if_splits)
  with off show ?thesis by (cases "print_error fl e out") blast+
qed

lemma foldl_lines:
  "foldl (\<lambda>o' (loc, msg). o' @ stack_line msg) out es =
   out @ concat (map (\<lambda>(loc, msg). stack_line msg) es)"
  by (induction es arbitrary: out) (auto split: prod.splits)

text \<open>
  Printing an error to a stream writes a line for every message of its stack, the error
  itself first and what it wraps below, and an empty line; with the flag for error stacks
  switched off it never returns.
\<close>

theorem print_error_outcome:
  "print_error fl e out =
     (if enable_error_stacks fl
      then Some (out @ concat (map (\<lambda>(loc, msg). stack_line msg) (stack_entries (error_stack_of e))) @ [CHR 0x0A])
      else None)"
proof (cases "enable_error_stacks fl")
  case True
  then show ?thesis by (subst print_error.simps) (simp add: foldl_lines visit_stack)
qed (simp add: print_error_disabled)

end
