(* ===== verification/Task_Completion.thy ===== *)
theory Task_Completion
  imports Event_Loop
begin

text \<open>
  Waiting for a task, \<open>src/lw/co/await.h\<close>: a coroutine that awaits \<open>task_completion(task)\<close> hands
  the task to the scheduler with a callback that schedules the coroutine again. The callback of
  the task's state is the handle of that coroutine. \<open>task_ends\<close> is what the compiler's code
  does when the body of the task returns or throws.
\<close>

text \<open>The answer is whether the coroutine was suspended.\<close>

definition task_completion ::
  "'k poll_kernel \<Rightarrow> bool \<Rightarrow> 'h \<Rightarrow> 'h \<Rightarrow> 'h task_state \<Rightarrow>
   ('h, 'k, 'p) scheduler \<Rightarrow> (bool res \<times> 'h task_state) \<times> ('h, 'k, 'p) scheduler" where
  "task_completion K is_done handle coro t s =
     (if is_done then ((Inr False, t), s)
      else case schedule_task_then K handle coro t s of
          ((Inl f, t'), s') \<Rightarrow> ((Inl f, t'), s')
        | ((Inr u, t'), s') \<Rightarrow> ((Inr True, t'), s'))"

text \<open>What the callback throws reaches the handler around the body.\<close>

definition task_ends ::
  "'k poll_kernel \<Rightarrow> unit res \<Rightarrow> 'h task_state \<Rightarrow>
   ('h, 'k, 'p) scheduler \<Rightarrow> 'h task_state \<times> ('h, 'k, 'p) scheduler" where
  "task_ends K out t s =
     (case out of
        Inl e \<Rightarrow> (task_unhandled_exception e t, s)
      | Inr u \<Rightarrow>
          (case task_return_void t of
             (None, t') \<Rightarrow> (t', s)
           | (Some coro, t') \<Rightarrow>
               (case add_to_queue K coro s of
                  (Inl f, s') \<Rightarrow> (task_unhandled_exception f t', s')
                | (Inr u, s') \<Rightarrow> (t', s'))))"

lemma schedule_keeps_order:
  assumes "event_kernel K V" "sched_ok V s" "add_to_queue K h s = (Inr (), s')"
  shows "queued s' = queued s @ [h] \<and> sched_ok V s'"
proof -
  from assms(2) have "base_ok V s" by (simp add: sched_ok_def)
  from event_kernel.add_to_queue_ok [OF assms(1) this assms(3)]
  show ?thesis using advances_sched_ok [OF assms(2)] by blast
qed

text \<open>
  C40: a coroutine that waits for a task is resumed only if the task returns. Waiting puts the
  task last in the queue; when the task returns, the waiting coroutine is put last in the
  queue, unless the queue refuses it, which is then the error of the task; when the task
  throws, nothing is scheduled, and the coroutine keeps waiting.
\<close>

theorem task_completion_outcome:
  assumes K: "event_kernel K V" and s: "sched_ok V s" "sched_ok V s2"
    and wait: "task_completion K False handle coro task_new s = ((Inr True, t1), s1)"
    and ends: "task_ends K out t1 s2 = (t2, s3)"
  shows "queued s1 = queued s @ [handle] \<and> sched_ok V s1 \<and>
    (case out of
       Inl e \<Rightarrow> s3 = s2 \<and> task_get t2 = Inl e
     | Inr u \<Rightarrow>
         (case fst (add_to_queue K coro s2) of
            Inl f \<Rightarrow> task_get t2 = Inl f
          | Inr u \<Rightarrow> task_get t2 = Inr () \<and> queued s3 = queued s2 @ [coro] \<and> sched_ok V s3))"
proof -
  have add: "add_to_queue K handle s = (Inr (), s1)" and t1: "t1 = task_then coro task_new"
    using wait by (auto simp: task_completion_def schedule_task_then_def split: prod.splits sum.splits)
  obtain r s' where r: "add_to_queue K coro s2 = (r, s')" by force
  have "case out of
       Inl e \<Rightarrow> s3 = s2 \<and> task_get t2 = Inl e
     | Inr u \<Rightarrow> (case r of Inl f \<Rightarrow> task_get t2 = Inl f | Inr u \<Rightarrow> task_get t2 = Inr () \<and> s3 = s')"
    using ends r by (auto simp: task_ends_def t1 task_then_def task_new_def task_return_void_def
        task_unhandled_exception_def task_get_def task_valid_def split: sum.splits)
  moreover have "queued s' = queued s2 @ [coro] \<and> sched_ok V s'" if "r = Inr ()"
    using schedule_keeps_order [OF K s(2)] r that by simp
  ultimately show ?thesis
    using schedule_keeps_order [OF K s(1) add] r by (auto split: sum.splits)
qed

theorem task_completion_outcome_witness:
  "let ((r1, t1), s1) = task_completion loop_kernel False 3 9 task_new two_scheduled;
       (t2, s2) = task_ends loop_kernel (Inr ()) t1 two_scheduled;
       (t3, s3) = task_ends loop_kernel (Inl (Err Internal)) t1 two_scheduled
   in r1 = Inr True \<and> queued s1 = [7, 8, 3] \<and> queued s2 = [7, 8, 9] \<and> queued s3 = [7, 8] \<and> task_get t3 = Inl (Err Internal)"
proof -
  let ?w = "task_completion loop_kernel False 3 9 task_new two_scheduled"
  let ?t = "snd (fst ?w)"
  let ?e = "\<lambda>out. task_ends loop_kernel out ?t two_scheduled"
  have a: "fst (add_to_queue loop_kernel 3 two_scheduled) = Inr ()" "fst (add_to_queue loop_kernel 9 two_scheduled) = Inr ()"
    by code_simp+
  have w: "?w = ((Inr True, ?t), snd ?w)"
    using a(1) by (auto simp: task_completion_def schedule_task_then_def split: prod.splits sum.splits)
  note ok = task_completion_outcome [OF loop.event_kernel_axioms two_scheduled_ok(1) two_scheduled_ok(1) w]
  have "queued (snd ?w) = [7, 8, 3] \<and> queued (snd (?e (Inr ()))) = [7, 8, 9]"
    using ok [of "Inr ()" "fst (?e (Inr ()))" "snd (?e (Inr ()))"] a by (simp add: two_scheduled_ok)
  moreover have "queued (snd (?e (Inl (Err Internal)))) = [7, 8] \<and> task_get (fst (?e (Inl (Err Internal)))) = Inl (Err Internal)"
    using ok [of "Inl (Err Internal)" "fst (?e (Inl (Err Internal)))" "snd (?e (Inl (Err Internal)))"]
    by (simp add: two_scheduled_ok)
  ultimately show ?thesis using w by (auto simp: Let_def split: prod.splits)
qed

end
