(* ===== verification/Tls_Context.thy ===== *)
theory Tls_Context
  imports System_Errors
begin

text \<open>
  The objects of OpenSSL behind a TLS stream, \<open>src/lw/net/internal/tls_context.cpp\<close>: a context
  is made from the options and makes clients, each a connection with two memory BIOs. OpenSSL
  is a parameter, the record \<open>openssl\<close> of the calls the code makes on a state of any type;
  objects are numbers. What is shown is that on every path, with any of the calls failing, an
  object is either handed to the caller or freed.
\<close>

datatype connection_mode = CONNECT | ACCEPT

record tls_options =
  private_key :: string
  certificate :: string
  connection_mode_of :: connection_mode

record 'o openssl =
  ctx_new :: "connection_mode \<Rightarrow> 'o \<Rightarrow> nat option \<times> 'o"
  ctx_set_min_proto_version :: "nat \<Rightarrow> 'o \<Rightarrow> int \<times> 'o"
  ctx_use_certificate_file :: "nat \<Rightarrow> string \<Rightarrow> 'o \<Rightarrow> int \<times> 'o"
  ctx_use_private_key_file :: "nat \<Rightarrow> string \<Rightarrow> 'o \<Rightarrow> int \<times> 'o"
  ctx_check_private_key :: "nat \<Rightarrow> 'o \<Rightarrow> int \<times> 'o"
  ctx_free :: "nat \<Rightarrow> 'o \<Rightarrow> 'o"
  bio_new :: "'o \<Rightarrow> nat option \<times> 'o"
  bio_free :: "nat \<Rightarrow> 'o \<Rightarrow> 'o"
  ssl_new :: "nat option \<Rightarrow> 'o \<Rightarrow> nat option \<times> 'o"
  ssl_set_state :: "connection_mode \<Rightarrow> nat \<Rightarrow> 'o \<Rightarrow> 'o"
  ssl_set_bio :: "nat \<Rightarrow> nat \<Rightarrow> nat \<Rightarrow> 'o \<Rightarrow> 'o"
  ssl_free :: "nat \<Rightarrow> 'o \<Rightarrow> 'o"
  error_code :: "'o \<Rightarrow> 64 word"
  error_errno :: "'o \<Rightarrow> int"

record tls_context =
  context_mode :: connection_mode
  context_ptr :: "nat option"

record tls_client_impl =
  client_ptr :: "nat option"
  client_encrypted :: nat
  client_plaintext :: nat

text \<open>\<open>check_all_errors\<close> in the state after the call that failed.\<close>

definition throw_all :: "'o openssl \<Rightarrow> ('o, 'a) prog" where
  "throw_all X s = (Inl (check_all_errors (error_code X s) (error_errno X s)), s)"

definition context_setup_error :: "'o openssl \<Rightarrow> nat \<Rightarrow> ('o, 'a) prog" where
  "context_setup_error X c s = throw_all X (ctx_free X c s)"

definition context_destroy :: "'o openssl \<Rightarrow> tls_context \<Rightarrow> 'o \<Rightarrow> 'o" where
  "context_destroy X c s = (case context_ptr c of None \<Rightarrow> s | Some p \<Rightarrow> ctx_free X p s)"

text \<open>A call that has to answer \<open>good\<close>, or else the context is freed.\<close>

definition require :: "'o openssl \<Rightarrow> nat \<Rightarrow> (int \<Rightarrow> bool) \<Rightarrow> ('o \<Rightarrow> int \<times> 'o) \<Rightarrow> ('o, unit) prog" where
  "require X c good f s = (case f s of (r, s') \<Rightarrow> if good r then (Inr (), s') else context_setup_error X c s')"

definition from_options :: "'o openssl \<Rightarrow> tls_options \<Rightarrow> ('o, tls_context) prog" where
  "from_options X opts s =
     (case ctx_new X (connection_mode_of opts) s of
        (None, s1) \<Rightarrow> throw_all X s1
      | (Some c, s1) \<Rightarrow>
          bind_prog (require X c (\<lambda>r. r \<noteq> 0) (ctx_set_min_proto_version X c)) (\<lambda>_.
          bind_prog (require X c (\<lambda>r. r = 1) (ctx_use_certificate_file X c (certificate opts))) (\<lambda>_.
          bind_prog (require X c (\<lambda>r. r = 1) (ctx_use_private_key_file X c (private_key opts))) (\<lambda>_.
          bind_prog (require X c (\<lambda>r. r = 1) (ctx_check_private_key X c)) (\<lambda>_.
            ret \<lparr>context_mode = connection_mode_of opts, context_ptr = Some c\<rparr>)))) s1)"

definition make_client :: "'o openssl \<Rightarrow> tls_context \<Rightarrow> ('o, tls_client_impl) prog" where
  "make_client X ctx s =
     (case bio_new X s of
        (None, s1) \<Rightarrow> throw_all X s1
      | (Some e, s1) \<Rightarrow>
          (case bio_new X s1 of
             (None, s2) \<Rightarrow> throw_all X (bio_free X e s2)
           | (Some p, s2) \<Rightarrow>
               (case ssl_new X (context_ptr ctx) s2 of
                  (None, s3) \<Rightarrow> throw_all X (bio_free X p (bio_free X e s3))
                | (Some c, s3) \<Rightarrow>
                    (Inr \<lparr>client_ptr = Some c, client_encrypted = e, client_plaintext = p\<rparr>,
                     ssl_set_bio X c e p (ssl_set_state X (context_mode ctx) c s3)))))"

definition client_destroy :: "'o openssl \<Rightarrow> tls_client_impl \<Rightarrow> 'o \<Rightarrow> 'o" where
  "client_destroy X c s = (case client_ptr c of None \<Rightarrow> s | Some p \<Rightarrow> ssl_free X p s)"

section \<open>No object is lost\<close>

text \<open>
  What is documented of OpenSSL: \<open>live\<close> are the objects that exist, \<open>shared\<close> those that another
  object also holds a reference to (as a connection does to its context), \<open>bios\<close> the BIOs a
  connection owns, which are freed with it. A call that makes an object makes a new one or
  fails; the calls that configure one make and free none; freeing an object that is not shared
  ends it.
\<close>

definition makes_object ::
  "('o \<Rightarrow> nat set) \<Rightarrow> ('o \<Rightarrow> nat set) \<Rightarrow> ('o \<Rightarrow> nat option \<times> 'o) \<Rightarrow> bool" where
  "makes_object live shared f \<longleftrightarrow>
     (\<forall>s. case f s of
        (None, s') \<Rightarrow> live s' = live s \<and> shared s' \<subseteq> shared s
      | (Some a, s') \<Rightarrow> a \<notin> live s \<and> live s' = insert a (live s) \<and> a \<notin> shared s')"

definition keeps_objects :: "('o \<Rightarrow> nat set) \<Rightarrow> ('o \<Rightarrow> nat set) \<Rightarrow> ('o \<Rightarrow> 'o) \<Rightarrow> bool" where
  "keeps_objects live shared f \<longleftrightarrow> (\<forall>s. live (f s) = live s \<and> shared (f s) = shared s)"

definition openssl_ok ::
  "'o openssl \<Rightarrow> ('o \<Rightarrow> nat set) \<Rightarrow> ('o \<Rightarrow> nat set) \<Rightarrow> ('o \<Rightarrow> nat \<Rightarrow> nat set) \<Rightarrow> bool" where
  "openssl_ok X live shared bios \<longleftrightarrow>
     (\<forall>m. makes_object live shared (ctx_new X m)) \<and> makes_object live shared (bio_new X) \<and>
     (\<forall>c. makes_object live shared (ssl_new X c)) \<and>
     (\<forall>s. shared (snd (bio_new X s)) \<subseteq> shared s) \<and>
     (\<forall>c. keeps_objects live shared (snd \<circ> ctx_set_min_proto_version X c)) \<and>
     (\<forall>c p. keeps_objects live shared (snd \<circ> ctx_use_certificate_file X c p)) \<and>
     (\<forall>c p. keeps_objects live shared (snd \<circ> ctx_use_private_key_file X c p)) \<and>
     (\<forall>c. keeps_objects live shared (snd \<circ> ctx_check_private_key X c)) \<and>
     (\<forall>m c. keeps_objects live shared (ssl_set_state X m c)) \<and>
     (\<forall>c e p. keeps_objects live shared (ssl_set_bio X c e p)) \<and>
     (\<forall>c e p s. bios (ssl_set_bio X c e p s) c = {e, p}) \<and>
     (\<forall>c s. c \<notin> shared s \<longrightarrow> live (ctx_free X c s) = live s - {c}) \<and>
     (\<forall>b s. b \<notin> shared s \<longrightarrow> live (bio_free X b s) = live s - {b}) \<and>
     (\<forall>b s. shared (bio_free X b s) \<subseteq> shared s) \<and>
     (\<forall>c s. c \<notin> shared s \<longrightarrow> live (ssl_free X c s) = live s - {c} - bios s c)"

lemma makes_object_None:
  assumes "makes_object live shared f" "f s = (None, s')"
  shows "live s' = live s" "shared s' \<subseteq> shared s"
  using assms(1) [unfolded makes_object_def, rule_format, of s] assms(2) by simp_all

lemma makes_object_Some:
  assumes "makes_object live shared f" "f s = (Some a, s')"
  shows "a \<notin> live s" "live s' = insert a (live s)" "a \<notin> shared s'"
  using assms(1) [unfolded makes_object_def, rule_format, of s] assms(2) by simp_all

lemma keeps_objectsD:
  assumes "keeps_objects live shared (snd \<circ> f)" "f s = (x, s')"
  shows "live s' = live s" "shared s' = shared s"
  using assms(1) [unfolded keeps_objects_def, rule_format, of s] assms(2) by simp_all

text \<open>Code that frees an object of its own when it throws, and makes and frees nothing otherwise.\<close>

definition guards :: "('o \<Rightarrow> nat set) \<Rightarrow> ('o \<Rightarrow> nat set) \<Rightarrow> nat \<Rightarrow> ('o, 'a) prog \<Rightarrow> bool" where
  "guards live shared c m \<longleftrightarrow>
     (\<forall>s. c \<notin> shared s \<longrightarrow> (case m s of
        (Inl e, s') \<Rightarrow> live s' = live s - {c}
      | (Inr x, s') \<Rightarrow> live s' = live s \<and> shared s' = shared s))"

lemma guards_Inl:
  assumes "guards live shared c m" "c \<notin> shared s" "m s = (Inl e, s')"
  shows "live s' = live s - {c}"
  using assms(1) [unfolded guards_def, rule_format, of s] assms(2,3) by simp

lemma guards_Inr:
  assumes "guards live shared c m" "c \<notin> shared s" "m s = (Inr x, s')"
  shows "live s' = live s" "shared s' = shared s"
  using assms(1) [unfolded guards_def, rule_format, of s] assms(2,3) by simp_all

lemma guards_ret: "guards live shared c (ret x)"
  by (simp add: guards_def)

lemma guards_bind:
  assumes m: "guards live shared c m" and g: "\<And>x. guards live shared c (g x)"
  shows "guards live shared c (bind_prog m g)"
  unfolding guards_def
proof (intro allI impI)
  fix s assume c: "c \<notin> shared s"
  obtain r s1 where r: "m s = (r, s1)" by force
  show "case bind_prog m g s of (Inl e, s') \<Rightarrow> live s' = live s - {c}
    | (Inr x, s') \<Rightarrow> live s' = live s \<and> shared s' = shared s"
  proof (cases r)
    case (Inl e)
    with r guards_Inl [OF m c] show ?thesis by (simp add: bind_prog_def)
  next
    case (Inr y)
    with r guards_Inr [OF m c] have s1: "live s1 = live s" "shared s1 = shared s" by simp_all
    with c g [of y, unfolded guards_def, rule_format, of s1] r Inr show ?thesis
      by (simp add: bind_prog_def split: prod.splits sum.splits)
  qed
qed

lemma guards_require:
  assumes ok: "openssl_ok X live shared bios" and f: "keeps_objects live shared (snd \<circ> f)"
  shows "guards live shared c (require X c good f)"
  unfolding guards_def
proof (intro allI impI)
  fix s assume c: "c \<notin> shared s"
  obtain x s1 where x: "f s = (x, s1)" by force
  from keeps_objectsD [OF f x] have s1: "live s1 = live s" "shared s1 = shared s" .
  with ok c have "live (ctx_free X c s1) = live s - {c}" by (simp add: openssl_ok_def)
  with x s1 show "case require X c good f s of (Inl e, s') \<Rightarrow> live s' = live s - {c}
    | (Inr x, s') \<Rightarrow> live s' = live s \<and> shared s' = shared s"
    by (simp add: require_def context_setup_error_def throw_all_def)
qed

lemma from_options_objects:
  assumes ok: "openssl_ok X live shared bios"
  shows "case from_options X opts s of
      (Inl e, s') \<Rightarrow> live s' = live s
    | (Inr c, s') \<Rightarrow> live (context_destroy X c s') = live s \<and>
        (\<exists>a. context_ptr c = Some a \<and> a \<notin> live s \<and> live s' = insert a (live s))"
proof -
  obtain x s1 where x: "ctx_new X (connection_mode_of opts) s = (x, s1)" by force
  have mk: "makes_object live shared (ctx_new X (connection_mode_of opts))"
    using ok by (simp add: openssl_ok_def)
  have keep: "keeps_objects live shared (snd \<circ> ctx_set_min_proto_version X c)"
    "keeps_objects live shared (snd \<circ> ctx_use_certificate_file X c p)"
    "keeps_objects live shared (snd \<circ> ctx_use_private_key_file X c p)"
    "keeps_objects live shared (snd \<circ> ctx_check_private_key X c)" for c p
    using ok by (simp_all add: openssl_ok_def)
  show ?thesis
  proof (cases x)
    case None
    with x makes_object_None [OF mk] show ?thesis by (simp add: from_options_def throw_all_def)
  next
    case (Some c)
    let ?ctx = "\<lparr>context_mode = connection_mode_of opts, context_ptr = Some c\<rparr>"
    define m where "m = bind_prog (require X c (\<lambda>r. r \<noteq> 0) (ctx_set_min_proto_version X c)) (\<lambda>_.
          bind_prog (require X c (\<lambda>r. r = 1) (ctx_use_certificate_file X c (certificate opts))) (\<lambda>_.
          bind_prog (require X c (\<lambda>r. r = 1) (ctx_use_private_key_file X c (private_key opts))) (\<lambda>_.
          bind_prog (require X c (\<lambda>r. r = 1) (ctx_check_private_key X c)) (\<lambda>_. ret ?ctx))))"
    have run: "from_options X opts s = m s1" using x Some by (simp add: from_options_def m_def)
    have new: "c \<notin> live s" "live s1 = insert c (live s)" "c \<notin> shared s1"
      using makes_object_Some [OF mk] x Some by simp_all
    have g: "guards live shared c m"
      unfolding m_def by (intro guards_bind guards_ret guards_require [OF ok] keep)
    obtain r s' where r: "m s1 = (r, s')" by force
    show ?thesis
    proof (cases r)
      case (Inl e)
      with guards_Inl [OF g new(3)] r new show ?thesis by (simp add: run)
    next
      case (Inr y)
      with r have "y = ?ctx" by (auto simp: m_def bind_prog_eq_Inr_iff)
      moreover from Inr r guards_Inr [OF g new(3)] have s': "live s' = live s1" "shared s' = shared s1" by simp_all
      with ok new have "live (ctx_free X c s') = live s' - {c}" by (simp add: openssl_ok_def)
      ultimately show ?thesis using Inr r s' new by (simp add: run context_destroy_def)
    qed
  qed
qed

lemma make_client_objects:
  assumes ok: "openssl_ok X live shared bios"
  shows "case make_client X ctx s of
      (Inl e, s') \<Rightarrow> live s' = live s
    | (Inr c, s') \<Rightarrow> live (client_destroy X c s') = live s \<and>
        (\<exists>a. client_ptr c = Some a \<and> live s' = live s \<union> {a, client_encrypted c, client_plaintext c})"
proof -
  have bio: "makes_object live shared (bio_new X)" and ssl: "makes_object live shared (ssl_new X (context_ptr ctx))"
    using ok by (simp_all add: openssl_ok_def)
  have free: "b \<notin> shared t \<Longrightarrow> live (bio_free X b t) = live t - {b}" "shared (bio_free X b t) \<subseteq> shared t"
    "c \<notin> shared t \<Longrightarrow> live (ssl_free X c t) = live t - {c} - bios t c"
    "live (ssl_set_bio X c e p t) = live t" "shared (ssl_set_bio X c e p t) = shared t"
    "bios (ssl_set_bio X c e p t) c = {e, p}"
    "live (ssl_set_state X m c t) = live t" "shared (ssl_set_state X m c t) = shared t"
    "shared (snd (bio_new X t)) \<subseteq> shared t" for b c e p m t
    using ok by (simp_all add: openssl_ok_def keeps_objects_def)
  obtain x s1 where x: "bio_new X s = (x, s1)" by force
  obtain y s2 where y: "bio_new X s1 = (y, s2)" by force
  obtain z s3 where z: "ssl_new X (context_ptr ctx) s2 = (z, s3)" by force
  have s2: "shared s2 \<subseteq> shared s1" using free(9) [of s1] y by simp
  consider "x = None" | e where "x = Some e" "y = None" | e p where "x = Some e" "y = Some p" "z = None"
    | e p c where "x = Some e" "y = Some p" "z = Some c" by (cases x; cases y; cases z) auto
  then show ?thesis
  proof cases
    case 1
    with x makes_object_None [OF bio] show ?thesis by (simp add: make_client_def throw_all_def)
  next
    case (2 e)
    with x y makes_object_Some [OF bio, of s e s1] makes_object_None [OF bio, of s1 s2]
    have "live s2 = insert e (live s)" "e \<notin> live s" "e \<notin> shared s2" by auto
    with 2 x y show ?thesis by (simp add: make_client_def throw_all_def free(1))
  next
    case (3 e p)
    with x y z makes_object_Some [OF bio, of s e s1] makes_object_Some [OF bio, of s1 p s2]
      makes_object_None [OF ssl, of s2 s3] s2
    have s3: "live s3 = {e, p} \<union> live s" "e \<notin> live s" "p \<notin> live s" "e \<notin> shared s3" "p \<notin> shared s3" by auto
    then have "p \<notin> shared (bio_free X e s3)" using free(2) [of e s3] by blast
    with s3 have "live (bio_free X p (bio_free X e s3)) = live s" by (simp add: free(1)) blast
    with 3 x y z show ?thesis by (simp add: make_client_def throw_all_def)
  next
    case (4 e p c)
    let ?s = "ssl_set_bio X c e p (ssl_set_state X (context_mode ctx) c s3)"
    from 4 x y z makes_object_Some [OF bio, of s e s1] makes_object_Some [OF bio, of s1 p s2]
      makes_object_Some [OF ssl, of s2 c s3]
    have "live ?s = live s \<union> {c, e, p}" "live ?s - {c} - {e, p} = live s" "c \<notin> shared ?s"
      by (auto simp: free(4,5,7,8))
    with 4 x y z show ?thesis by (simp add: make_client_def client_destroy_def free(3,6))
  qed
qed

text \<open>
  C39: no object of OpenSSL is lost. Whichever of its calls fail, making a context or a client
  either succeeds, and then destroying the result frees all that was made, or throws, and then
  nothing that was made is left.
\<close>

theorem tls_objects_freed:
  assumes "openssl_ok X live shared bios"
  shows "(case from_options X opts s of
      (Inl e, s') \<Rightarrow> live s' = live s
    | (Inr c, s') \<Rightarrow> live (context_destroy X c s') = live s \<and>
        (\<exists>a. context_ptr c = Some a \<and> a \<notin> live s \<and> live s' = insert a (live s))) \<and>
    (case make_client X ctx s of
      (Inl e, s') \<Rightarrow> live s' = live s
    | (Inr c, s') \<Rightarrow> live (client_destroy X c s') = live s \<and>
        (\<exists>a. client_ptr c = Some a \<and> live s' = live s \<union> {a, client_encrypted c, client_plaintext c}))"
  using from_options_objects [OF assms] make_client_objects [OF assms] by (rule conjI)

section \<open>An OpenSSL to evaluate on\<close>

text \<open>Objects are numbered; the calls that make one and check something fail as scripted.\<close>

record toy_objects =
  toy_live :: "nat list"
  toy_owned :: "(nat \<times> nat list) list"
  toy_script :: "bool list"

definition toy_make :: "toy_objects \<Rightarrow> nat option \<times> toy_objects" where
  "toy_make s =
     (case toy_script s of
        True # bs \<Rightarrow> (Some (Suc (sum_list (toy_live s))),
          s\<lparr>toy_script := bs, toy_live := Suc (sum_list (toy_live s)) # toy_live s\<rparr>)
      | _ \<Rightarrow> (None, s))"

definition toy_check :: "toy_objects \<Rightarrow> int \<times> toy_objects" where
  "toy_check s = (case toy_script s of b # bs \<Rightarrow> (if b then 1 else 0, s\<lparr>toy_script := bs\<rparr>) | [] \<Rightarrow> (0, s))"

definition toy_drop :: "nat list \<Rightarrow> toy_objects \<Rightarrow> toy_objects" where
  "toy_drop as s = s\<lparr>toy_live := filter (\<lambda>a. a \<notin> set as) (toy_live s)\<rparr>"

definition toy_bios :: "toy_objects \<Rightarrow> nat \<Rightarrow> nat list" where
  "toy_bios s c = (case map_of (toy_owned s) c of None \<Rightarrow> [] | Some bs \<Rightarrow> bs)"

definition toy_openssl :: "toy_objects openssl" where
  "toy_openssl = \<lparr>ctx_new = (\<lambda>m. toy_make), ctx_set_min_proto_version = (\<lambda>c. toy_check),
     ctx_use_certificate_file = (\<lambda>c p. toy_check), ctx_use_private_key_file = (\<lambda>c p. toy_check),
     ctx_check_private_key = (\<lambda>c. toy_check), ctx_free = (\<lambda>c. toy_drop [c]), bio_new = toy_make, bio_free = (\<lambda>b. toy_drop [b]),
     ssl_new = (\<lambda>c. toy_make), ssl_set_state = (\<lambda>m c s. s),
     ssl_set_bio = (\<lambda>c e p s. s\<lparr>toy_owned := (c, [e, p]) # toy_owned s\<rparr>),
     ssl_free = (\<lambda>c s. toy_drop (c # toy_bios s c) s), error_code = (\<lambda>s. 0), error_errno = (\<lambda>s. 0)\<rparr>"

lemma toy_openssl_ok: "openssl_ok toy_openssl (\<lambda>s. set (toy_live s)) (\<lambda>s. {}) (\<lambda>s c. set (toy_bios s c))"
proof -
  have "Suc (sum_list xs) \<notin> set xs" for xs
    using member_le_sum_list [of "Suc (sum_list xs)" xs] by auto
  then have make: "makes_object (\<lambda>s. set (toy_live s)) (\<lambda>s. {}) toy_make"
    by (auto simp: makes_object_def toy_make_def split: list.splits bool.splits)
  have check: "keeps_objects (\<lambda>s. set (toy_live s)) (\<lambda>s. {}) (snd \<circ> toy_check)"
    by (simp add: keeps_objects_def toy_check_def split: list.split)
  have "set (toy_live (toy_drop as s)) = set (toy_live s) - set as" for as s
    by (auto simp: toy_drop_def)
  with make check show ?thesis
    by (simp add: openssl_ok_def toy_openssl_def keeps_objects_def toy_bios_def) blast
qed

theorem tls_objects_freed_witness:
  "(case from_options toy_openssl \<lparr>private_key = ''k'', certificate = ''c'', connection_mode_of = ACCEPT\<rparr>
       \<lparr>toy_live = [4], toy_owned = [], toy_script = [True, True, True, False]\<rparr> of
     (Inl e, s') \<Rightarrow> set (toy_live s') = {4} | (Inr c, s') \<Rightarrow> False) \<and>
   (case make_client toy_openssl \<lparr>context_mode = ACCEPT, context_ptr = Some 4\<rparr>
       \<lparr>toy_live = [4], toy_owned = [], toy_script = [True, True, True]\<rparr> of
     (Inl e, s') \<Rightarrow> False | (Inr c, s') \<Rightarrow> set (toy_live (client_destroy toy_openssl c s')) = {4})"
proof -
  let ?s = "\<lparr>toy_live = [4], toy_owned = [], toy_script = [True, True, True, False]\<rparr>"
  let ?t = "\<lparr>toy_live = [4], toy_owned = [], toy_script = [True, True, True]\<rparr>"
  let ?o = "\<lparr>private_key = ''k'', certificate = ''c'', connection_mode_of = ACCEPT\<rparr>"
  let ?c = "\<lparr>context_mode = ACCEPT, context_ptr = Some 4\<rparr>"
  note eval = from_options_def make_client_def toy_openssl_def toy_make_def toy_check_def require_def
    bind_prog_def context_setup_error_def throw_all_def
  have "isl (fst (from_options toy_openssl ?o ?s))" "\<not> isl (fst (make_client toy_openssl ?c ?t))"
    by (simp_all add: eval)
  then show ?thesis
    using tls_objects_freed [OF toy_openssl_ok, where opts = ?o and s = ?s and ctx = ?c, THEN conjunct1]
      tls_objects_freed [OF toy_openssl_ok, where opts = ?o and s = ?t and ctx = ?c, THEN conjunct2]
    by (cases "fst (from_options toy_openssl ?o ?s)"; cases "fst (make_client toy_openssl ?c ?t)")
      (simp_all add: split_beta)
qed

end
