(* ===== verification/Routers.thy ===== *)
theory Routers
  imports Tls Tls_Context
begin

text \<open>
  The interface of routers, \<open>src/lw/net/router.cpp\<close>, and the router that puts TLS before another
  one, \<open>src/lw/net/tls_router.h\<close>. Routes are registered in a table of the process, by the hash
  code of the type of their router; a route is its address, \<open>None\<close> the null pointer. The base
  router is a parameter of the TLS router.
\<close>

section \<open>Registered routes\<close>

type_synonym route_table = "nat \<rightharpoonup> nat set"

text \<open>\<open>operator[]\<close> makes an entry when there is none.\<close>

definition get_router_routes :: "nat \<Rightarrow> route_table \<Rightarrow> nat set \<times> route_table" where
  "get_router_routes router_id m =
     (case m router_id of None \<Rightarrow> ({}, m(router_id \<mapsto> {})) | Some rs \<Rightarrow> (rs, m))"

definition register_route :: "nat \<Rightarrow> nat option \<Rightarrow> (route_table, unit) prog" where
  "register_route router_id route m =
     (case route of
        None \<Rightarrow> (Inl (Err InvalidArgument), m)
      | Some r \<Rightarrow> (case get_router_routes router_id m of (rs, m') \<Rightarrow> (Inr (), m'(router_id \<mapsto> insert r rs))))"

definition get_registered_routes :: "nat \<Rightarrow> route_table \<Rightarrow> nat set" where
  "get_registered_routes router_id m = fst (get_router_routes router_id m)"

lemma get_registered_routes_cases:
  "get_registered_routes i m = (case m i of None \<Rightarrow> {} | Some rs \<Rightarrow> rs)"
  by (simp add: get_registered_routes_def get_router_routes_def split: option.split)

lemma register_route_adds:
  "get_registered_routes i (snd (register_route j r m)) =
   get_registered_routes i m \<union> {a. i = j \<and> r = Some a}"
  by (auto simp: get_registered_routes_cases register_route_def get_router_routes_def split: option.splits)

text \<open>
  A router gets the routes registered for its type, whatever the order of the registrations and
  however often one is repeated; a null pointer is refused and adds nothing.
\<close>

lemma registered_routes:
  "get_registered_routes i (fold (\<lambda>(j, r) m. snd (register_route j r m)) regs m) =
   get_registered_routes i m \<union> {a. (i, Some a) \<in> set regs}"
proof (induction regs arbitrary: m)
  case (Cons x regs)
  then show ?case by (cases x) (auto simp: register_route_adds)
qed simp

section \<open>TLS streams from a factory\<close>

text \<open>\<open>wrap_stream\<close>: a client of the factory's context over the stream, with the write buffer of the flag.\<close>

definition wrap_stream ::
  "'o openssl \<Rightarrow> nat \<Rightarrow> tls_context \<Rightarrow> 'r \<Rightarrow> ('o, (tls_client_impl, 'r) tls) prog" where
  "wrap_stream X tls_buffer_size ctx stream =
     bind_prog (make_client X ctx)
       (\<lambda>c. ret \<lparr>tls_client = c, tls_raw = stream, tls_buffer = tls_buffer_size\<rparr>)"

definition stream_destroy :: "'o openssl \<Rightarrow> (tls_client_impl, 'r) tls \<Rightarrow> 'o \<Rightarrow> 'o" where
  "stream_destroy X t s = client_destroy X (tls_client t) s"

lemma wrap_stream_objects:
  assumes "openssl_ok X objects shared_objects bios" "wrap_stream X n ctx stream s = (r, s')"
  shows "case r of
      Inl e \<Rightarrow> objects s' = objects s
    | Inr t \<Rightarrow> tls_raw t = stream \<and> tls_buffer t = n \<and> objects (stream_destroy X t s') = objects s"
  using make_client_objects [OF assms(1), where ctx = ctx and s = s] assms(2)
  by (auto simp: wrap_stream_def bind_prog_def stream_destroy_def split: prod.splits sum.splits)

section \<open>The TLS router\<close>

text \<open>The options of a router and those it makes its factory with.\<close>

record tls_router_options =
  router_private_key :: string
  router_certificate :: string

definition router_tls_options :: "tls_router_options \<Rightarrow> tls_options" where
  "router_tls_options opts =
     \<lparr>private_key = router_private_key opts, certificate = router_certificate opts, connection_mode_of = ACCEPT\<rparr>"

definition tls_router_new :: "'o openssl \<Rightarrow> tls_router_options \<Rightarrow> ('o, tls_context) prog" where
  "tls_router_new X opts = from_options X (router_tls_options opts)"

text \<open>\<open>run\<close> on what the factory answers for the connection; \<open>base\<close> is the run of the other router.\<close>

definition tls_router_run ::
  "'s ssl \<Rightarrow> 'r raw \<Rightarrow> (('s, 'r) tls \<Rightarrow> unit res option) \<Rightarrow> ('s, 'r) tls res \<Rightarrow> unit res option" where
  "tls_router_run S R base wrapped =
     Option.bind (tls_wrap_connection S R wrapped) (\<lambda>r.
       case r of
         Inl f \<Rightarrow> Some (Inl f)
       | Inr None \<Rightarrow> Some (Inr ())
       | Inr (Some t) \<Rightarrow> base t)"

text \<open>
  The base router is run on a connection whose handshake is finished, or on one whose handshake
  failed with an error of the library: that one is closed and handed on as well.
\<close>

lemma tls_router_serves:
  assumes "tls_handshake S R t = Some (Inr (), t')"
  shows "tls_router_run S R base (Inr t) = base t' \<and> ssl_is_init_finished S (tls_client t')"
  using assms tls_handshake_completed [OF assms]
  by (simp add: tls_router_run_def tls_wrap_connection_def)

lemma tls_router_failed_handshake:
  assumes "tls_handshake S R t = Some (Inl (Err e), t')"
    and "raw_good R (tls_raw t')" "raw_close R (tls_raw t') = (Inr (), r)"
  shows "tls_router_run S R base (Inr t) = base (t'\<lparr>tls_raw := r\<rparr>)"
  using assms by (simp add: tls_router_run_def tls_wrap_connection_def on_raw_def)

lemma tls_router_failed_wrap:
  "tls_router_run S R base (Inl (Err e)) = Some (Inl Undefined_behaviour)"
  by (simp add: tls_router_run_def tls_wrap_connection_def)

end
