(* ===== verification/Serialized_Value.thy ===== *)
theory Serialized_Value
  imports Json_Roundtrip
begin

text \<open>
  Reading of parsed values, \<open>src/lw/io/serializer/serialized_value.h\<close> over the interface of
  tokens in \<open>parser.h\<close>. The interface is the record \<open>deserialization_token\<close> of its virtual
  functions and the locale \<open>token_interface\<close> of what they promise; the tokens of the JSON
  parser implement it. \<open>as<T>()\<close> is one function for each kind of \<open>T\<close>; integers are converted to
  the width of \<open>T\<close> as C++ does it, modulo its range.
\<close>

section \<open>The interface\<close>

datatype kind = Is_null | Is_boolean | Is_char | Is_signed | Is_unsigned | Is_floating | Is_string | Is_list | Is_object

record ('t, 'd) deserialization_token =
  size_of :: "'t \<Rightarrow> nat res"
  is_of :: "kind \<Rightarrow> 't \<Rightarrow> bool"
  has_key_of :: "'t \<Rightarrow> string \<Rightarrow> bool"
  get_key_of :: "'t \<Rightarrow> string \<Rightarrow> 't res"
  has_index_of :: "'t \<Rightarrow> nat \<Rightarrow> bool"
  get_index_of :: "'t \<Rightarrow> nat \<Rightarrow> 't res"
  get_boolean_of :: "'t \<Rightarrow> bool res"
  get_char_of :: "'t \<Rightarrow> char res"
  get_signed_of :: "'t \<Rightarrow> int res"
  get_unsigned_of :: "'t \<Rightarrow> int res"
  get_floating_of :: "'t \<Rightarrow> 'd res"
  get_string_of :: "'t \<Rightarrow> string res"

definition value_is :: "('t, 'd) deserialization_token \<Rightarrow> kind \<Rightarrow> 't \<Rightarrow> bool" where
  "value_is T q t = is_of T q t"

definition value_has :: "('t, 'd) deserialization_token \<Rightarrow> 't \<Rightarrow> string \<Rightarrow> bool" where
  "value_has T t key = has_key_of T t key"

definition value_has_index :: "('t, 'd) deserialization_token \<Rightarrow> 't \<Rightarrow> nat \<Rightarrow> bool" where
  "value_has_index T t i = has_index_of T t i"

text \<open>\<open>get\<close>, with \<open>as<T>()\<close> of the member as the argument \<open>as\<close>.\<close>

definition value_get :: "('t, 'd) deserialization_token \<Rightarrow> ('t \<Rightarrow> 'a res) \<Rightarrow> 't \<Rightarrow> string \<Rightarrow> 'a res" where
  "value_get T as t key = bind_res (get_key_of T t key) as"

definition value_get_or ::
  "('t, 'd) deserialization_token \<Rightarrow> ('t \<Rightarrow> 'a res) \<Rightarrow> 't \<Rightarrow> string \<Rightarrow> 'a \<Rightarrow> 'a res" where
  "value_get_or T as t key default_value =
     (if has_key_of T t key then bind_res (get_key_of T t key) as else Inr default_value)"

definition value_get_index :: "('t, 'd) deserialization_token \<Rightarrow> ('t \<Rightarrow> 'a res) \<Rightarrow> 't \<Rightarrow> nat \<Rightarrow> 'a res" where
  "value_get_index T as t i = bind_res (get_index_of T t i) as"

definition value_get_index_or ::
  "('t, 'd) deserialization_token \<Rightarrow> ('t \<Rightarrow> 'a res) \<Rightarrow> 't \<Rightarrow> nat \<Rightarrow> 'a \<Rightarrow> 'a res" where
  "value_get_index_or T as t i default_value =
     (if has_index_of T t i then bind_res (get_index_of T t i) as else Inr default_value)"

section \<open>Conversions\<close>

definition to_signed :: "nat \<Rightarrow> int \<Rightarrow> int" where
  "to_signed w i = (i + 2 ^ (w - 1)) mod 2 ^ w - 2 ^ (w - 1)"

definition to_unsigned :: "nat \<Rightarrow> int \<Rightarrow> int" where
  "to_unsigned w i = i mod 2 ^ w"

datatype target = To_null | To_bool | To_char | To_signed nat | To_unsigned nat | To_floating | To_string

datatype 'd read_value = R_null | R_bool bool | R_char char | R_int int | R_floating 'd | R_string string

text \<open>\<open>narrow\<close> converts a \<open>double\<close> to the floating point type asked for.\<close>

fun value_as :: "('d \<Rightarrow> 'd) \<Rightarrow> ('t, 'd) deserialization_token \<Rightarrow> target \<Rightarrow> 't \<Rightarrow> 'd read_value res" where
  "value_as narrow T To_null t = Inr R_null"
| "value_as narrow T To_bool t = bind_res (get_boolean_of T t) (\<lambda>b. Inr (R_bool b))"
| "value_as narrow T To_char t = bind_res (get_char_of T t) (\<lambda>c. Inr (R_char c))"
| "value_as narrow T (To_signed w) t = bind_res (get_signed_of T t) (\<lambda>i. Inr (R_int (to_signed w i)))"
| "value_as narrow T (To_unsigned w) t = bind_res (get_unsigned_of T t) (\<lambda>i. Inr (R_int (to_unsigned w i)))"
| "value_as narrow T To_floating t = bind_res (get_floating_of T t) (\<lambda>d. Inr (R_floating (narrow d)))"
| "value_as narrow T To_string t = bind_res (get_string_of T t) (\<lambda>s. Inr (R_string s))"

text \<open>A conversion keeps the number exactly when it is in the range of the type.\<close>

lemma to_signed_exact:
  assumes "0 < w"
  shows "to_signed w i = i \<longleftrightarrow> - (2 ^ (w - 1)) \<le> i \<and> i < 2 ^ (w - 1)"
proof -
  have w: "(2 :: int) ^ w = 2 * 2 ^ (w - 1)" using assms by (cases w) simp_all
  have "to_signed w i = i \<longleftrightarrow> (i + 2 ^ (w - 1)) mod 2 ^ w = i + 2 ^ (w - 1)" by (auto simp: to_signed_def)
  also have "\<dots> \<longleftrightarrow> 0 \<le> i + 2 ^ (w - 1) \<and> i + 2 ^ (w - 1) < 2 ^ w"
    by (metis mod_pos_pos_trivial pos_mod_bound pos_mod_sign zero_less_numeral zero_less_power)
  finally show ?thesis using w by linarith
qed

lemma to_unsigned_exact: "to_unsigned w i = i \<longleftrightarrow> 0 \<le> i \<and> i < 2 ^ w"
  unfolding to_unsigned_def
  by (metis mod_pos_pos_trivial pos_mod_bound pos_mod_sign zero_less_numeral zero_less_power)

section \<open>What the interface promises\<close>

locale token_interface =
  fixes T :: "('t, 'd) deserialization_token"
  assumes has_key_law: "has_key_of T t key \<longleftrightarrow> (\<exists>u. get_key_of T t key = Inr u)"
    and has_index_law: "has_index_of T t i \<longleftrightarrow> (\<exists>u. get_index_of T t i = Inr u)"
    and boolean_law: "is_of T Is_boolean t \<longleftrightarrow> (\<exists>b. get_boolean_of T t = Inr b)"
    and char_law: "is_of T Is_char t \<longleftrightarrow> (\<exists>c. get_char_of T t = Inr c)"
    and string_law: "is_of T Is_string t \<longleftrightarrow> (\<exists>s. get_string_of T t = Inr s)"
    and signed_law: "get_signed_of T t = Inr n \<Longrightarrow> is_of T Is_signed t"
    and unsigned_law: "get_unsigned_of T t = Inr n \<Longrightarrow> is_of T Is_unsigned t"
    and floating_law: "get_floating_of T t = Inr d \<Longrightarrow> is_of T Is_floating t"
begin

lemma checked_conversion:
  "value_is T Is_boolean t \<Longrightarrow> \<exists>b. value_as narrow T To_bool t = Inr (R_bool b)"
  "value_is T Is_char t \<Longrightarrow> \<exists>c. value_as narrow T To_char t = Inr (R_char c)"
  "value_is T Is_string t \<Longrightarrow> \<exists>s. value_as narrow T To_string t = Inr (R_string s)"
  using boolean_law [of t] char_law [of t] string_law [of t] by (auto simp: value_is_def)

lemma conversion_checked:
  "value_as narrow T (To_signed w) t = Inr x \<Longrightarrow> value_is T Is_signed t"
  "value_as narrow T (To_unsigned w) t = Inr x \<Longrightarrow> value_is T Is_unsigned t"
  "value_as narrow T To_floating t = Inr x \<Longrightarrow> value_is T Is_floating t"
  using signed_law unsigned_law floating_law by (auto simp: value_is_def bind_res_eq_Inr_iff)

lemma get_or_default:
  "value_get_or T as t key d = (case get_key_of T t key of Inl e \<Rightarrow> Inr d | Inr u \<Rightarrow> as u)"
  using has_key_law by (simp add: value_get_or_def split: sum.split)

lemma get_index_or_default:
  "value_get_index_or T as t i d = (case get_index_of T t i of Inl e \<Rightarrow> Inr d | Inr u \<Rightarrow> as u)"
  using has_index_law by (simp add: value_get_index_or_def split: sum.split)

end

text \<open>The tokens of the JSON parser; \<open>behind\<close> gives what follows a token in the document.\<close>

fun tok_is :: "kind \<Rightarrow> token \<Rightarrow> bool" where
  "tok_is Is_null t = tok_is_null t"
| "tok_is Is_boolean t = tok_is_boolean t"
| "tok_is Is_char t = tok_is_char t"
| "tok_is Is_signed t = tok_is_signed_integer t"
| "tok_is Is_unsigned t = tok_is_unsigned_integer t"
| "tok_is Is_floating t = tok_is_floating_point t"
| "tok_is Is_string t = tok_is_string t"
| "tok_is Is_list t = tok_is_list t"
| "tok_is Is_object t = tok_is_object t"

definition json_token_ops ::
  "(string \<Rightarrow> nat \<times> 'd) \<Rightarrow> 'd \<Rightarrow> (token \<Rightarrow> string) \<Rightarrow> (token, 'd) deserialization_token" where
  "json_token_ops strtod huge_val behind =
     \<lparr>size_of = tok_size, is_of = tok_is, has_key_of = tok_has_key, get_key_of = tok_get_key, has_index_of = tok_has_index, get_index_of = tok_get_index,
      get_boolean_of = tok_get_boolean, get_char_of = tok_get_char, get_signed_of = tok_get_signed_integer,
      get_unsigned_of = tok_get_unsigned_integer,
      get_floating_of = (\<lambda>t. tok_get_floating_point strtod huge_val (behind t) t), get_string_of = tok_get_string\<rparr>"

lemma json_token_has:
  "tok_has_key t key \<longleftrightarrow> (\<exists>u. tok_get_key t key = Inr u)"
  "tok_has_index t i \<longleftrightarrow> (\<exists>u. tok_get_index t i = Inr u)"
  by (cases t; simp)+

lemma json_token_is:
  "tok_is_boolean t \<longleftrightarrow> (\<exists>b. tok_get_boolean t = Inr b)"
  "tok_is_char t \<longleftrightarrow> (\<exists>c. tok_get_char t = Inr c)"
  "tok_is_string t \<longleftrightarrow> (\<exists>s. tok_get_string t = Inr s)"
  "tok_get_signed_integer t = Inr i \<Longrightarrow> tok_is_signed_integer t"
  "tok_get_unsigned_integer t = Inr i \<Longrightarrow> tok_is_unsigned_integer t"
  "tok_get_floating_point strtod huge_val rest t = Inr d \<Longrightarrow> tok_is_floating_point t"
  by (cases t; simp split: if_splits)+

interpretation json_tokens: token_interface "json_token_ops strtod huge_val behind"
  for strtod huge_val behind
  by unfold_locales (auto simp: json_token_ops_def json_token_has json_token_is)

section \<open>Fields of a written object\<close>

text \<open>What reading gives for the types that fit the value that was written.\<close>

fun read_back :: "target \<Rightarrow> 'd ser_value \<Rightarrow> 'd read_value option" where
  "read_back To_null v = Some R_null"
| "read_back To_bool (Boolean b) = Some (R_bool b)"
| "read_back To_char (Character c) = Some (R_char c)"
| "read_back (To_signed w) (Signed i) =
     (if int64_min \<le> i \<and> i \<le> int64_max then Some (R_int (to_signed w i)) else None)"
| "read_back (To_unsigned w) (Unsigned i) =
     (if 0 \<le> i \<and> i \<le> uint64_max then Some (R_int (to_unsigned w i)) else None)"
| "read_back To_string (String s) = Some (R_string s)"
| "read_back _ _ = None"

lemma value_as_token:
  "read_back tg v = Some x \<Longrightarrow>
   value_as narrow (json_token_ops strtod huge_val behind) tg (token_of sd v) = Inr x"
  by (induction tg v rule: read_back.induct)
    (auto simp: json_token_ops_def token_of_getters simp del: token_of.simps split: if_splits)



end
