(* ===== verification/Trie_Search.thy ===== *)
theory Trie_Search
  imports Endpoint_Trie
begin

text \<open>
  What \<open>walk_path\<close> of \<open>src/lw/http/internal/http_mount_path.cpp\<close> computes. The code walks down the
  trie and keeps a stack of the wildcards it passed, to which it returns when no child fits.
  The reference is a depth-first search by recursion: at each node first the child for the
  character, then the wildcard. The parameters are threaded through the search, because those
  of an abandoned branch are kept.
\<close>

section \<open>Depth-first search\<close>

lemma weight_of_child: "map_of (children n) c = Some sub \<Longrightarrow> trie_weight sub < trie_weight n"
  using weight_child [of n c sub 0 "[]"] by (simp add: stack_weight_def)

lemma weight_of_wildcard: "wildcard n = Some (m, sub) \<Longrightarrow> trie_weight sub < trie_weight n"
  using weight_push [of n 0 "[]"] by (simp add: push_wildcard_def stack_weight_def)

function trie_search :: "regex_lib \<Rightarrow> string \<Rightarrow> 'e trie \<Rightarrow> nat \<Rightarrow> headers \<Rightarrow> headers \<times> 'e trie option" where
  "trie_search rx path n i params =
     (if length path \<le> i then (params, Some n)
      else case (case map_of (children n) (path ! i) of
                   None \<Rightarrow> (params, None)
                 | Some sub \<Rightarrow> trie_search rx path sub (i + 1) params) of
          (p, Some r) \<Rightarrow> (p, Some r)
        | (p, None) \<Rightarrow>
            (case wildcard n of
               None \<Rightarrow> (p, None)
             | Some (m, sub) \<Rightarrow>
                 (case matcher_match rx m (wild_part path i) of
                    None \<Rightarrow> (p, None)
                  | Some v \<Rightarrow> trie_search rx path sub (i + length v) (headers_assign (matcher_name m) v p))))"
  by pat_completeness auto
termination
  by (relation "measure (\<lambda>(rx, path, n, i, params). trie_weight n)")
    (auto simp: weight_of_child weight_of_wildcard)

declare trie_search.simps [simp del]

text \<open>The search goes on with what is left when it has not found anything.\<close>

definition or_else :: "'p \<times> 'n option \<Rightarrow> ('p \<Rightarrow> 'p \<times> 'n option) \<Rightarrow> 'p \<times> 'n option" where
  "or_else r f = (case r of (p, Some n) \<Rightarrow> (p, Some n) | (p, None) \<Rightarrow> f p)"

definition search_wild ::
  "regex_lib \<Rightarrow> string \<Rightarrow> (path_matcher \<times> 'e trie) \<Rightarrow> nat \<Rightarrow> headers \<Rightarrow> headers \<times> 'e trie option" where
  "search_wild rx path w i p =
     (case matcher_match rx (fst w) (wild_part path i) of
        None \<Rightarrow> (p, None)
      | Some v \<Rightarrow> trie_search rx path (snd w) (i + length v) (headers_assign (matcher_name (fst w)) v p))"

fun search_stack :: "regex_lib \<Rightarrow> string \<Rightarrow> 'e wild_stack \<Rightarrow> headers \<Rightarrow> headers \<times> 'e trie option" where
  "search_stack rx path [] p = (p, None)"
| "search_stack rx path ((w, i) # st) p = or_else (search_wild rx path w i p) (search_stack rx path st)"

lemma or_else_simps [simp]:
  "or_else (p, None) f = f p" "or_else (p, Some n) f = (p, Some n)"
  "or_else (or_else r f) g = or_else r (\<lambda>p. or_else (f p) g)"
  by (auto simp: or_else_def split: prod.splits option.splits)

lemma trie_search_end: "length path \<le> i \<Longrightarrow> trie_search rx path n i params = (params, Some n)"
  by (simp add: trie_search.simps)

lemma trie_search_step:
  "i < length path \<Longrightarrow> trie_search rx path n i params =
     or_else (case map_of (children n) (path ! i) of
                None \<Rightarrow> (params, None) | Some sub \<Rightarrow> trie_search rx path sub (i + 1) params)
       (\<lambda>p. case wildcard n of None \<Rightarrow> (p, None) | Some w \<Rightarrow> search_wild rx path w i p)"
  by (subst trie_search.simps) (simp add: or_else_def search_wild_def split: prod.splits option.splits)

section \<open>The stack is the rest of the search\<close>

lemma search_push:
  "search_stack rx path (push_wildcard n i st) =
   (\<lambda>p. or_else (case wildcard n of None \<Rightarrow> (p, None) | Some w \<Rightarrow> search_wild rx path w i p) (search_stack rx path st))"
  by (simp add: push_wildcard_def fun_eq_iff split: option.split)

lemma search_walk_back:
  "search_stack rx path st p =
     (case walk_back rx path st of
        None \<Rightarrow> (p, None)
      | Some (name, v, j, n, st') \<Rightarrow>
          or_else (trie_search rx path n j (headers_assign name v p)) (search_stack rx path st'))"
  by (induction rx path st rule: walk_back.induct) (simp_all add: search_wild_def split: option.split)

definition found :: "'p \<times> 'n option \<Rightarrow> ('p \<times> 'n) option" where
  "found r = (case r of (p, None) \<Rightarrow> None | (p, Some n) \<Rightarrow> Some (p, n))"

lemma walk_path_searches:
  "walk_path rx path n i st params = found (or_else (trie_search rx path n i params) (search_stack rx path st))"
proof (induction rx path n i st params rule: walk_path.induct)
  case (1 rx path n i st params)
  let ?st = "push_wildcard n i st"
  show ?case
  proof (cases "i < length path")
    case False
    then show ?thesis by (simp add: walk_path.simps trie_search_end found_def)
  next
    case True
    note step = trie_search_step [OF True, of rx n params]
    show ?thesis
    proof (cases "map_of (children n) (path ! i)")
      case (Some sub)
      have "walk_path rx path n i st params = walk_path rx path sub (i + 1) ?st params"
        using True Some by (simp add: walk_path.simps [of rx path n])
      also have "\<dots> = found (or_else (trie_search rx path sub (i + 1) params) (search_stack rx path ?st))"
        using "1.IH"(2) [OF True refl Some] .
      finally show ?thesis using Some by (simp add: step search_push)
    next
      case None
      then have rest: "or_else (trie_search rx path n i params) (search_stack rx path st) = search_stack rx path ?st params"
        by (simp add: step search_push)
      show ?thesis
      proof (cases "walk_back rx path ?st")
        case None
        with True \<open>map_of (children n) (path ! i) = None\<close> show ?thesis
          unfolding rest by (simp add: walk_path.simps [of rx path n] search_walk_back [of rx path ?st] found_def)
      next
        case (Some b)
        obtain k v j sub st' where b: "b = (k, v, j, sub, st')" by (cases b)
        have "walk_path rx path n i st params = walk_path rx path sub j st' (headers_assign k v params)"
          using True None Some b by (simp add: walk_path.simps [of rx path n])
        with "1.IH"(1) [OF True refl None Some [unfolded b] refl refl refl refl] Some b show ?thesis
          unfolding rest by (simp add: search_walk_back [of rx path ?st])
      qed
    qed
  qed
qed

section \<open>The search is complete\<close>

text \<open>A node that some sequence of steps reaches at the end of the path.\<close>

definition reached :: "regex_lib \<Rightarrow> string \<Rightarrow> nat \<Rightarrow> 'e trie \<Rightarrow> trie_step list \<Rightarrow> 'e trie \<Rightarrow> bool" where
  "reached rx path i n steps n' \<longleftrightarrow>
     trie_node steps n = Some n' \<and> (\<exists>j. follows rx path i steps j \<and> length path \<le> j)"

lemma reached_Nil [simp]: "reached rx path i n [] n' \<longleftrightarrow> n' = n \<and> length path \<le> i"
  by (auto simp: reached_def)

lemma reached_CharStep [simp]:
  "reached rx path i n (CharStep c # s) n' \<longleftrightarrow>
   i < length path \<and> path ! i = c \<and> (\<exists>sub. map_of (children n) c = Some sub \<and> reached rx path (i + 1) sub s n')"
  by (auto simp: reached_def split: option.splits)

lemma reached_WildStep [simp]:
  "reached rx path i n (WildStep m # s) n' \<longleftrightarrow>
   i < length path \<and> (\<exists>sub v. wildcard n = Some (m, sub) \<and>
     matcher_match rx m (wild_part path i) = Some v \<and> reached rx path (i + length v) sub s n')"
  by (auto simp: reached_def split: option.splits if_splits)

lemma reached_end: "length path \<le> i \<Longrightarrow> reached rx path i n s n' \<longleftrightarrow> s = [] \<and> n' = n"
  by (cases s rule: steps_cases) auto

lemma search_sound:
  "trie_search rx path n i params = (p, Some n') \<Longrightarrow> \<exists>s. reached rx path i n s n'"
proof (induction rx path n i params arbitrary: p rule: trie_search.induct)
  case (1 rx path n i params)
  show ?case
  proof (cases "length path \<le> i")
    case True
    with "1.prems" show ?thesis by (auto simp: trie_search_end reached_end)
  next
    case False
    show ?thesis
    proof (cases "\<exists>sub p. map_of (children n) (path ! i) = Some sub \<and> trie_search rx path sub (i + 1) params = (p, Some n')")
      case True
      then obtain sub q where sub: "map_of (children n) (path ! i) = Some sub"
        "trie_search rx path sub (i + 1) params = (q, Some n')" by blast
      from "1.IH"(1) [OF False sub] obtain s where "reached rx path (i + 1) sub s n'" by blast
      with False sub(1) have "reached rx path i n (CharStep (path ! i) # s) n'" by simp
      then show ?thesis by blast
    next
      case no: False
      let ?r = "case map_of (children n) (path ! i) of None \<Rightarrow> (params, None) | Some sub \<Rightarrow> trie_search rx path sub (i + 1) params"
      obtain q x where q: "?r = (q, x)" by force
      with "1.prems" False no have x: "x = None"
        by (cases x) (auto simp: trie_search_step split: option.splits)
      with "1.prems" False q obtain m sub v where w: "wildcard n = Some (m, sub)"
        "matcher_match rx m (wild_part path i) = Some v"
        "trie_search rx path sub (i + length v) (headers_assign (matcher_name m) v q) = (p, Some n')"
        by (auto simp: trie_search_step search_wild_def split: option.splits)
      from "1.IH"(2) [OF False q [unfolded x, symmetric] refl w(1) refl w(2,3)]
      obtain s where "reached rx path (i + length v) sub s n'" by blast
      with False w have "reached rx path i n (WildStep m # s) n'" by simp
      then show ?thesis by blast
    qed
  qed
qed

lemma search_complete:
  "reached rx path i n s n' \<Longrightarrow> snd (trie_search rx path n i params) \<noteq> None"
proof (induction s arbitrary: i n params)
  case (Cons x s)
  have i: "i < length path" using Cons.prems by (cases x) auto
  show ?case
  proof (cases x)
    case (CharStep c)
    with Cons.prems obtain sub where "map_of (children n) (path ! i) = Some sub" "reached rx path (i + 1) sub s n'" by auto
    with Cons.IH [of "i + 1" sub params] i show ?thesis
      by (auto simp: trie_search_step or_else_def split: prod.splits option.splits)
  next
    case (WildStep m)
    with Cons.prems obtain sub v where w: "wildcard n = Some (m, sub)"
      "matcher_match rx m (wild_part path i) = Some v" "reached rx path (i + length v) sub s n'" by auto
    then have "snd (search_wild rx path (m, sub) i p) \<noteq> None" for p
      using Cons.IH by (simp add: search_wild_def)
    with i w(1) show ?thesis
      by (auto simp: trie_search_step or_else_def split: prod.splits option.splits)
  qed
qed (simp add: trie_search_end)

text \<open>
  C4: routing is a depth-first search. The loop with its stack of wildcards answers what the
  recursive search answers that tries the child before the wildcard: the endpoint of the first
  node at which a sequence of steps along the path ends, with the parameters assigned on the
  way. There is such a node exactly when some sequence of steps in the trie follows the path
  to its end; if the first one has no endpoint, the path is not served, and the search does not
  go on.
\<close>

theorem trie_match_searches:
  assumes "path \<noteq> []"
  shows "case trie_search rx path root 0 [] of
      (params, None) \<Rightarrow> trie_match rx root path = Inr None \<and> (\<nexists>steps n. reached rx path 0 root steps n)
    | (params, Some n) \<Rightarrow>
        trie_match rx root path = Inr (map_option (\<lambda>ep. (params, ep)) (endpoint n)) \<and>
        (\<exists>steps. reached rx path 0 root steps n \<and> trie_lookup steps root = endpoint n)"
proof (cases "trie_search rx path root 0 []")
  case (Pair params x)
  have walk: "walk_path rx path root 0 [] [] = found (params, x)"
    by (cases x) (simp_all add: walk_path_searches Pair)
  show ?thesis
  proof (cases x)
    case None
    with Pair search_complete [of rx path 0 root _ _ "[]"] walk show ?thesis
      by (auto simp: trie_match_def found_def)
  next
    case (Some n)
    from search_sound [OF Pair [unfolded Some]] obtain s where "reached rx path 0 root s n" by blast
    moreover from this have "trie_lookup s root = endpoint n" by (simp add: reached_def trie_node_lookup)
    ultimately show ?thesis using Pair Some walk assms by (auto simp: trie_match_def found_def)
  qed
qed

section \<open>A literal prefix hides a parameter\<close>

text \<open>
  When the characters of a path lead to a node in the middle of a longer literal route, the
  path is not served, whatever wildcard would accept it.
\<close>

lemma literal_prefix_hides:
  assumes "trie_node (map CharStep path) root = Some n" "endpoint n = None" "path \<noteq> []"
  shows "trie_match rx root path = Inr None"
  using walk_literal [of 0 path root n rx "[]" "[]"] assms by (simp add: trie_match_def)

text \<open>The routes \<open>/foobar\<close> and \<open>/:x\<close>, and the path \<open>/foo\<close>.\<close>

definition two_routes :: "nat trie" where
  "two_routes = snd (trie_insert [ParameterPathMatcher '':x'' ''x'' []] 2
     (snd (trie_insert [LiteralPathMatcher ''foobar''] 1 make_node)))"

theorem trie_match_searches_witness:
  "trie_match no_regex two_routes ''/foo'' = Inr None \<and> trie_match no_regex two_routes ''/fob'' = Inr (Some ([(''x'', ''fob'')], 2)) \<and>
   (\<exists>steps n. reached no_regex ''/fob'' 0 two_routes steps n \<and> trie_lookup steps two_routes = Some 2)"
proof -
  have t: "two_routes = TrieNode [(SEP, TrieNode [(CHR ''f'', chain (map CharStep ''oobar'') 1)]
      (Some (ParameterPathMatcher '':x'' ''x'' [], TrieNode [] None (Some 2))) None)] None None"
    by (simp add: two_routes_def trie_insert_def path_steps_def matcher_steps_def make_node_def mount_here_def)
  have "trie_match no_regex two_routes ''/foo'' = Inr None"
    by (rule literal_prefix_hides [where n = "chain (map CharStep ''bar'') 1"]) (simp_all add: t SEP_def)
  moreover have "trie_search no_regex ''/fob'' two_routes 0 [] = ([(''x'', ''fob'')], Some (TrieNode [] None (Some 2)))"
    by (simp add: t trie_search_step trie_search_end search_wild_def SEP_def wild_part_def parameter_match_def headers_assign_def)
  ultimately show ?thesis
    using trie_match_searches [of "''/fob''" no_regex two_routes] by auto
qed

end
