(* ===== verification/Http_Stream.thy ===== *)
theory Http_Stream
  imports Http_Router Co_Reader
begin

text \<open>
  The HTTP router on a stream of bytes: \<open>run_request\<close>, \<open>run_once\<close> and \<open>run\<close> of
  \<open>src/lw/http/http.cpp\<close> over the reader of \<open>io/co/co.h\<close>, with the body of a request read from the
  same reader (\<open>http_request.cpp\<close>). A stream is a source with a write and a close operation on
  the same state (\<open>CoStream\<close>); the locale \<open>duplex\<close> is its contract, which sockets satisfy.

  Every request gets a reader of its own. \<open>Http_Router\<close> has the same functions on the text of
  the header; that this is what they do on the bytes is the refinement shown here.
\<close>

section \<open>Text and bytes\<close>

definition bytes_of :: "string \<Rightarrow> byte list" where
  "bytes_of s = map (\<lambda>c. word_of_nat (code c)) s"

definition text_of :: "byte list \<Rightarrow> string" where
  "text_of bs = map (\<lambda>b. char_of (unat b)) bs"

lemma unat_code [simp]: "unat (word_of_nat (code c) :: byte) = code c"
  using code_less_256 [of c] by (simp add: unat_of_nat)

lemma text_of_bytes [simp]: "text_of (bytes_of s) = s"
  by (simp add: text_of_def bytes_of_def comp_def) (simp add: code_def)

lemma bytes_of_append [simp]: "bytes_of (s @ t) = bytes_of s @ bytes_of t"
  by (simp add: bytes_of_def)

lemma bytes_of_simps [simp]: "bytes_of [] = []" "length (bytes_of s) = length s" "bytes_of s = [] \<longleftrightarrow> s = []"
  by (simp_all add: bytes_of_def)

lemma bytes_of_Cons [simp]: "bytes_of (c # s) = word_of_nat (code c) # bytes_of s"
  by (simp add: bytes_of_def)

lemma byte_of_CRLF [simp]: "(word_of_nat (code CR) :: byte) = 13" "(word_of_nat (code LF) :: byte) = 10"
  by (simp_all add: code_def)

lemma byte_of_char: "(word_of_nat (code c) :: byte) = 13 \<longleftrightarrow> c = CR"
proof -
  have "(word_of_nat (code c) :: byte) = 13 \<longleftrightarrow> unat (word_of_nat (code c) :: byte) = unat (13 :: byte)"
    by (simp only: word_unat_eq_iff)
  also have "\<dots> \<longleftrightarrow> code c = 13" by simp
  also have "\<dots> \<longleftrightarrow> code c = code CR" by (simp add: code_def)
  finally show ?thesis by simp
qed

lemma no_CR_bytes: "13 \<in> set (bytes_of s) \<longleftrightarrow> CR \<in> set s"
  by (auto simp: bytes_of_def image_iff byte_of_char eq_commute [of 13])

section \<open>Requests on a stream\<close>

record 's stream =
  st_source :: "'s source"
  st_write :: "byte list \<Rightarrow> ('s, nat) prog"
  st_close :: "('s, unit) prog"

definition on_source :: "('s, 'a) prog \<Rightarrow> ('s reader, 'a) prog" where
  "on_source m rd = (case m (rd_source rd) of (r, s) \<Rightarrow> (r, rd\<lparr>rd_source := s\<rparr>))"

text \<open>A buffer that was read, as a string.\<close>

definition read_text :: "buffer \<Rightarrow> ('s reader, string) prog" where
  "read_text w rd = (map_res text_of (buffer_contents (rd_heap rd) w), rd)"

abbreviation header_end :: "byte list" where "header_end \<equiv> [13, 10, 13, 10]"

definition stream_header :: "'s stream \<Rightarrow> reader_flags \<Rightarrow> (nat \<Rightarrow> byte) \<Rightarrow> ('s reader, string) prog" where
  "stream_header T fl junk = bind_prog (read_until (st_source T) fl junk header_end 0) read_text"

text \<open>\<open>HttpRequest::body\<close>.\<close>

definition stream_body ::
  "'s stream \<Rightarrow> reader_flags \<Rightarrow> (nat \<Rightarrow> byte) \<Rightarrow> http_request \<Rightarrow> ('s reader, string) prog" where
  "stream_body T fl junk req =
     bind_prog (lift_res (body req)) (\<lambda>b.
       case b of
         Resolved_empty \<Rightarrow> ret []
       | Read_bytes n \<Rightarrow> bind_prog (read (st_source T) fl junk (unat n)) read_text)"

text \<open>\<open>try_read_header\<close>: the handler catches what reading throws as well.\<close>

definition stream_try_header ::
  "'s stream \<Rightarrow> reader_flags \<Rightarrow> (nat \<Rightarrow> byte) \<Rightarrow> string \<Rightarrow> http_request \<Rightarrow> http_response \<Rightarrow>
   ('s reader, bool \<times> http_request \<times> http_response) prog" where
  "stream_try_header T fl junk what req res rd =
     (case stream_header T fl junk rd of
        (Inl f, rd') \<Rightarrow>
          (if f = Err InvalidArgument then Inr (False, req, respond_failure BAD_REQUEST what res) else Inl f, rd')
      | (Inr raw, rd') \<Rightarrow> (try_read_header what raw req res, rd'))"

definition stream_finish :: "'s stream \<Rightarrow> http_request \<Rightarrow> http_response \<Rightarrow> ('s reader, unit) prog" where
  "stream_finish T req res =
     bind_prog (lift_res (serialize res)) (\<lambda>b.
     bind_prog (on_source (st_write T (bytes_of b))) (\<lambda>_.
       if \<not> keep_alive req then on_source (st_close T) else ret ()))"

text \<open>A handler may read the body while it runs.\<close>

type_synonym 's stream_handler =
  "http_method \<Rightarrow> (http_request \<Rightarrow> http_response \<Rightarrow> ('s reader, http_response) prog) option"

definition stream_call ::
  "'s stream_handler \<Rightarrow> http_method \<Rightarrow> http_request \<Rightarrow> http_response \<Rightarrow> ('s reader, http_response) prog" where
  "stream_call h m req res = (case h m of None \<Rightarrow> ret (default_behavior res) | Some f \<Rightarrow> f req res)"

text \<open>
  \<open>run_request\<close>, behind the header and as a whole; \<open>handler_of\<close> is the handler that an endpoint
  of the trie makes.
\<close>

definition stream_answer ::
  "'s stream \<Rightarrow> regex_lib \<Rightarrow> ('e \<Rightarrow> 's stream_handler) \<Rightarrow> 'e trie \<Rightarrow> http_request \<Rightarrow> http_response \<Rightarrow>
   ('s reader, unit) prog" where
  "stream_answer T rx handler_of trie request response =
     bind_prog (lift_res (trie_match rx trie (rq_path request))) (\<lambda>match_results.
       case match_results of
         None \<Rightarrow> stream_finish T request (respond_failure NOT_FOUND ''Not Found.'' response)
       | Some (parameters, ep) \<Rightarrow>
           (let request' = set_route_params parameters request
            in bind_prog (case method_named (rq_method request') of
                 None \<Rightarrow> ret (respond_failure BAD_REQUEST ''Unknown method.'' response)
               | Some m \<Rightarrow> stream_call (handler_of ep) m request' response)
               (stream_finish T request')))"

definition stream_request ::
  "'s stream \<Rightarrow> reader_flags \<Rightarrow> (nat \<Rightarrow> byte) \<Rightarrow> regex_lib \<Rightarrow> ('e \<Rightarrow> 's stream_handler) \<Rightarrow> 'e trie \<Rightarrow> string \<Rightarrow>
   ('s reader, unit) prog" where
  "stream_request T fl junk rx handler_of trie what =
     bind_prog (stream_try_header T fl junk what http_request_new http_response_new) (\<lambda>(ok, request, response).
       if \<not> ok then stream_finish T request response
       else stream_answer T rx handler_of trie request response)"

text \<open>\<open>run_once\<close>: the reader lives as long as the request.\<close>

definition stream_once ::
  "'s stream \<Rightarrow> reader_flags \<Rightarrow> (nat \<Rightarrow> byte) \<Rightarrow> regex_lib \<Rightarrow> ('e \<Rightarrow> 's stream_handler) \<Rightarrow> 'e trie \<Rightarrow> string \<Rightarrow>
   ('s, unit) prog" where
  "stream_once T fl junk rx handler_of trie what s =
     (case stream_request T fl junk rx handler_of trie what (reader_new fl junk s \<lparr>blocks = Map.empty, fresh = 0\<rparr>) of
        (r, rd) \<Rightarrow> (r, rd_source rd))"

text \<open>
  The loop of \<open>run\<close>, which may go on for ever. \<open>what\<close> is the text of the error that reading
  throws in a state.
\<close>

partial_function (option) stream_run ::
  "'s stream \<Rightarrow> reader_flags \<Rightarrow> (nat \<Rightarrow> byte) \<Rightarrow> regex_lib \<Rightarrow> ('e \<Rightarrow> 's stream_handler) \<Rightarrow> 'e trie \<Rightarrow> ('s \<Rightarrow> string) \<Rightarrow>
   's \<Rightarrow> (unit res \<times> 's) option" where
  "stream_run T fl junk rx handler_of trie what s =
     (if \<not> src_good (st_source T) s then Some (Inr (), s)
      else case stream_once T fl junk rx handler_of trie (what s) s of
          (Inr u, s') \<Rightarrow> stream_run T fl junk rx handler_of trie what s'
        | (Inl f, s') \<Rightarrow>
            (case f of
               Err e \<Rightarrow>
                 if src_good (st_source T) s' then
                   case st_close T s' of
                     (Inl g, s2) \<Rightarrow> Some (Inl g, s2)
                   | (Inr u, s2) \<Rightarrow> stream_run T fl junk rx handler_of trie what s2
                 else stream_run T fl junk rx handler_of trie what s'
             | _ \<Rightarrow> Some (Inl f, s')))"

section \<open>The end of a header\<close>

text \<open>The scan for the end of the header stops behind the empty line of a request.\<close>

lemma scan_line:
  "13 \<notin> set l \<Longrightarrow> scan header_end 0 (l @ 13 # 10 # xs) = map_option (\<lambda>k. length l + 2 + k) (scan header_end 2 xs)"
  by (induction l; cases "scan header_end 2 xs") (auto simp: numeral_2_eq_2)

lemma scan_lines:
  "\<forall>l\<in>set ls. l \<noteq> [] \<and> 13 \<notin> set l \<Longrightarrow>
   scan header_end 2 (concat (map (\<lambda>l. l @ [13, 10]) ls) @ 13 # 10 # rest) =
   Some (length (concat (map (\<lambda>l. l @ [13, 10]) ls)) + 2)"
proof (induction ls)
  case Nil
  show ?case by (simp add: numeral_3_eq_3 numeral_2_eq_2)
next
  case (Cons l ls)
  then obtain x l' where l: "l = x # l'" "x \<noteq> 13" "13 \<notin> set l'" by (cases l) auto
  have "scan header_end 2 (x # ys) = map_option Suc (scan header_end 0 ys)" for ys
    using l(2) by (simp add: numeral_2_eq_2)
  with Cons l show ?case by (simp add: scan_line)
qed

lemma word_no_CR: "word_ok w \<Longrightarrow> CR \<notin> set w"
  by (auto simp: word_ok_def list_all_iff)

lemma request_header_end:
  assumes "request_ok m p ps v hs"
  shows "scan header_end 0 (bytes_of (request_text m p ps v hs) @ rest) = Some (length (request_text m p ps v hs))"
proof -
  let ?line = "m @ '' '' @ target_text p ps @ '' '' @ v"
  let ?ls = "map (\<lambda>h. bytes_of (fst h @ '': '' @ snd h)) hs"
  have "CR \<notin> set ?line"
    using assms by (auto simp: request_ok_def target_text_def dest: word_no_CR)
  then have first: "13 \<notin> set (bytes_of ?line)" by (simp add: no_CR_bytes del: bytes_of_append bytes_of_Cons)
  have "\<forall>l\<in>set ?ls. l \<noteq> [] \<and> 13 \<notin> set l"
    using assms by (auto simp: request_ok_def list_all_iff header_pair_ok_def no_CR_bytes simp del: bytes_of_append bytes_of_Cons)
  note rest = scan_lines [OF this, of rest]
  have hl: "bytes_of (concat (map header_line hs)) = concat (map (\<lambda>l. l @ [13, 10]) ?ls)"
    by (induction hs) (simp_all add: header_line_def)
  let ?B = "bytes_of ?line" and ?L = "concat (map (\<lambda>l. l @ [13, 10]) ?ls)"
  have "bytes_of (request_text m p ps v hs) @ rest = ?B @ 13 # 10 # ?L @ 13 # 10 # rest"
    unfolding request_text_def by (simp add: hl)
  moreover have "length (request_text m p ps v hs) = length ?B + 2 + (length ?L + 2)"
    using arg_cong [OF hl, of length] by (simp add: request_text_def)
  moreover have "scan header_end 0 (?B @ 13 # 10 # ?L @ 13 # 10 # rest) = Some (length ?B + 2 + (length ?L + 2))"
    by (simp only: scan_line [OF first] rest option.map)
  ultimately show ?thesis by (simp only:)
qed

section \<open>The contract of a stream\<close>

text \<open>
  While there is something to come, a read returns some of it, in order; a write is sent as a
  whole; a closed stream is not good. Reading and writing do not disturb each other.
\<close>

locale duplex =
  fixes T :: "'s stream" and incoming sent :: "'s \<Rightarrow> byte list" and ok :: "'s \<Rightarrow> bool"
  assumes stream_reads: "ok s \<Longrightarrow> 0 < n \<Longrightarrow> incoming s \<noteq> [] \<Longrightarrow>
      \<exists>m s'. 0 < m \<and> m \<le> n \<and> m \<le> length (incoming s) \<and>
        src_read (st_source T) n s = (Inr (take m (incoming s)), s') \<and> incoming s' = drop m (incoming s) \<and>
        sent s' = sent s \<and> ok s'"
    and stream_good: "ok s \<Longrightarrow> src_good (st_source T) s"
    and stream_writes: "ok s \<Longrightarrow> bs \<noteq> [] \<Longrightarrow>
      \<exists>n s'. st_write T bs s = (Inr n, s') \<and> sent s' = sent s @ bs \<and> incoming s' = incoming s \<and> ok s'"
    and stream_closes: "ok s \<Longrightarrow>
      \<exists>s'. st_close T s = (Inr (), s') \<and> sent s' = sent s \<and> \<not> src_good (st_source T) s'"

sublocale duplex \<subseteq> source: co_source "st_source T" incoming "\<lambda>s. ok s \<and> sent s = x" for x
proof
  fix s :: 's and n :: nat assume ok: "ok s \<and> sent s = x" and n: "0 < n" and inc: "incoming s \<noteq> []"
  from stream_reads [OF conjunct1 [OF ok] n inc] ok
  show "\<exists>m s'. 0 < m \<and> m \<le> n \<and> m \<le> length (incoming s) \<and>
      src_read (st_source T) n s = (Inr (take m (incoming s)), s') \<and>
      incoming s' = drop m (incoming s) \<and> ok s' \<and> sent s' = x" by metis
qed (simp add: stream_good)

definition reader_room :: "reader_flags \<Rightarrow> bool" where
  "reader_room fl \<longleftrightarrow> 0 < initial_read_buffer_size fl \<and> maximum_read_buffer_size fl \<le> 2 ^ 63 \<and>
     initial_read_buffer_size fl + read_block_size fl \<le> maximum_read_buffer_size fl"

lemma reader_new_ready:
  assumes "reader_room fl" "ok s"
  shows "ready ok fl (read_block_size fl) (reader_new fl junk s h)" "window (reader_new fl junk s h) = []"
    "rd_source (reader_new fl junk s h) = s"
proof -
  show "window (reader_new fl junk s h) = []" and s: "rd_source (reader_new fl junk s h) = s"
    using reader_ok_new [of fl junk s h] assms(1) by (simp_all add: reader_room_def reader_new_def buffer_alloc_def new_array_def)
  have "cap (rd_buffer (reader_new fl junk s h)) = initial_read_buffer_size fl"
    "cap (rd_write (reader_new fl junk s h)) = 0" "cap (rd_read (reader_new fl junk s h)) = 0"
    by (simp_all add: reader_new_def buffer_alloc_def new_array_def buffer_default_def)
  then show "ready ok fl (read_block_size fl) (reader_new fl junk s h)"
    using reader_ok_new [of fl junk s h] assms s by (simp add: ready_def has_room_def reader_room_def)
qed

text \<open>A handler that does not read the body.\<close>

definition no_body :: "handler \<Rightarrow> 's stream_handler" where
  "no_body h m = map_option (\<lambda>f req res. lift_res (f req res)) (h m)"

lemma stream_call_no_body: "stream_call (no_body h) m req res = lift_res (call_handler h m req res)"
  by (auto simp: stream_call_def no_body_def call_handler_def ret_def lift_res_def fun_eq_iff split: option.split)

context duplex
begin

lemma header_is_read:
  assumes "reader_room fl" "ok s" "scan header_end 0 (incoming s) = Some k" "k \<le> read_block_size fl"
  shows "\<exists>rd. stream_header T fl junk (reader_new fl junk s h) = (Inr (text_of (take k (incoming s))), rd) \<and>
    reader_ok rd \<and> ok (rd_source rd) \<and> sent (rd_source rd) = sent s \<and>
    window rd @ incoming (rd_source rd) = drop k (incoming s)"
proof -
  let ?rd = "reader_new fl junk s h"
  note new = reader_new_ready [OF assms(1), of "\<lambda>s'. ok s' \<and> sent s' = sent s" s junk h]
  have p: "pending incoming ?rd = incoming s" using new(2,3) assms(2) by (simp add: pending_def)
  have r: "ready (\<lambda>s'. ok s' \<and> sent s' = sent s) fl (read_block_size fl) ?rd" using new(1) assms(2) by simp
  have i: "0 \<le> cap (rd_read ?rd)" by simp
  obtain w rd where w: "read_until_loop (st_source T) fl junk header_end (read_block_size fl) 0 0 ?rd = (Inr w, rd)"
    "buffer_contents (rd_heap rd) w = Inr (take k (incoming s))"
    "pending incoming rd = drop k (incoming s)" "reader_ok rd" "ok (rd_source rd)" "sent (rd_source rd) = sent s"
    using source.read_until_loop_scan [OF r, of header_end 0 0 k junk] assms(3,4) p by auto
  then have "stream_header T fl junk ?rd = (Inr (text_of (take k (incoming s))), rd)"
    by (simp add: stream_header_def read_until_def bind_prog_def read_text_def)
  with w show ?thesis by (auto simp: pending_def)
qed

text \<open>
  \<open>served c s s'\<close>: the stream went from \<open>s\<close> to \<open>s'\<close> while the connection \<open>c\<close> of \<open>Http_Router\<close>
  was written, and closed where that one was.
\<close>

definition served :: "connection \<Rightarrow> 's \<Rightarrow> 's \<Rightarrow> bool" where
  "served c s s' \<longleftrightarrow> sent s' = sent s @ bytes_of (concat (cn_written c)) \<and>
     (if cn_good c then ok s' \<and> incoming s' = incoming s else \<not> src_good (st_source T) s')"

definition answers :: "('s reader, unit) prog \<Rightarrow> (connection, unit) prog \<Rightarrow> bool" where
  "answers m n \<longleftrightarrow>
     (\<forall>rd. ok (rd_source rd) \<longrightarrow> (case n \<lparr>cn_good = True, cn_written = []\<rparr> of (r, c) \<Rightarrow>
        \<exists>s'. m rd = (r, rd\<lparr>rd_source := s'\<rparr>) \<and> served c (rd_source rd) s'))"

lemma answersD:
  "answers m n \<Longrightarrow> ok (rd_source rd) \<Longrightarrow>
   case n \<lparr>cn_good = True, cn_written = []\<rparr> of (r, c) \<Rightarrow>
     \<exists>s'. m rd = (r, rd\<lparr>rd_source := s'\<rparr>) \<and> served c (rd_source rd) s'"
  by (simp add: answers_def)

lemma serialize_not_empty: "serialize res = Inr b \<Longrightarrow> b \<noteq> []"
  by (auto simp: serialize_def write_response_def status_line_def bind_res_eq_Inr_iff)

lemma answers_finish: "answers (stream_finish T req res) (finish_request req res)"
  unfolding answers_def
proof (intro allI impI)
  fix rd :: "'s reader" assume ok: "ok (rd_source rd)"
  show "case finish_request req res \<lparr>cn_good = True, cn_written = []\<rparr> of (r, c) \<Rightarrow>
      \<exists>s'. stream_finish T req res rd = (r, rd\<lparr>rd_source := s'\<rparr>) \<and> served c (rd_source rd) s'"
  proof (cases "serialize res")
    case (Inl f)
    with ok show ?thesis
      by (auto simp: finish_request_def stream_finish_def served_def intro!: exI [of _ "rd_source rd"])
  next
    case (Inr b)
    from stream_writes [OF ok, of "bytes_of b"] serialize_not_empty [OF Inr] obtain n s1 where
      s1: "st_write T (bytes_of b) (rd_source rd) = (Inr n, s1)" "sent s1 = sent (rd_source rd) @ bytes_of b"
      "incoming s1 = incoming (rd_source rd)" "ok s1" by auto
    from stream_closes [OF s1(4)] obtain s2 where
      s2: "st_close T s1 = (Inr (), s2)" "sent s2 = sent s1" "\<not> src_good (st_source T) s2" by blast
    from Inr s1 s2 show ?thesis
      by (cases "keep_alive req")
        (auto simp: finish_request_def stream_finish_def bind_prog_def on_source_def served_def conn_write_def conn_close_def)
  qed
qed

lemma answers_lift:
  assumes "\<And>x. r = Inr x \<Longrightarrow> answers (m x) (n x)"
  shows "answers (bind_prog (lift_res r) m) (bind_prog (lift_res r) n)"
proof (cases r)
  case (Inl f)
  then show ?thesis by (auto simp: answers_def served_def intro!: exI [of _ "rd_source rd" for rd])
next
  case (Inr x)
  from assms [OF this] show ?thesis unfolding answers_def Inr by simp
qed

lemma answers_ret: "answers (m x) (n x) \<Longrightarrow> answers (bind_prog (ret x) m) (bind_prog (lift_res (Inr x)) n)"
  by (simp add: answers_def)

text \<open>What follows the header, for a handler that leaves the body alone.\<close>

lemma answers_answer:
  "answers (stream_answer T rx (\<lambda>f. no_body (fa_handler f)) trie request response)
     (bind_prog (lift_res (trie_match rx trie (rq_path request))) (\<lambda>match_results.
        case match_results of
          None \<Rightarrow> finish_request request (respond_failure NOT_FOUND ''Not Found.'' response)
        | Some (parameters, factory) \<Rightarrow>
            (let request' = set_route_params parameters request
             in bind_prog (lift_res (case method_named (rq_method request') of
                  None \<Rightarrow> Inr (respond_failure BAD_REQUEST ''Unknown method.'' response)
                | Some m \<Rightarrow> call_handler (fa_handler factory) m request' response))
                (finish_request request'))))"
  unfolding stream_answer_def
proof (rule answers_lift)
  fix x
  show "answers
     (case x of None \<Rightarrow> stream_finish T request (respond_failure NOT_FOUND ''Not Found.'' response)
      | Some (parameters, ep) \<Rightarrow>
          (let request' = set_route_params parameters request
           in bind_prog (case method_named (rq_method request') of
                None \<Rightarrow> ret (respond_failure BAD_REQUEST ''Unknown method.'' response)
              | Some m \<Rightarrow> stream_call (no_body (fa_handler ep)) m request' response)
              (stream_finish T request')))
     (case x of None \<Rightarrow> finish_request request (respond_failure NOT_FOUND ''Not Found.'' response)
      | Some (parameters, factory) \<Rightarrow>
          (let request' = set_route_params parameters request
           in bind_prog (lift_res (case method_named (rq_method request') of
                None \<Rightarrow> Inr (respond_failure BAD_REQUEST ''Unknown method.'' response)
              | Some m \<Rightarrow> call_handler (fa_handler factory) m request' response))
              (finish_request request')))"
  proof (cases x)
    case None
    then show ?thesis by (simp add: answers_finish)
  next
    case (Some pf)
    obtain ps f where pf: "pf = (ps, f)" by force
    let ?q = "set_route_params ps request"
    show ?thesis
    proof (cases "method_named (rq_method ?q)")
      case None
      then show ?thesis by (simp add: Some pf Let_def answers_finish answers_ret)
    next
      case M: (Some m)
      have "answers (bind_prog (lift_res (call_handler (fa_handler f) m ?q response)) (stream_finish T ?q))
        (bind_prog (lift_res (call_handler (fa_handler f) m ?q response)) (finish_request ?q))"
        by (rule answers_lift) (rule answers_finish)
      then show ?thesis by (simp add: Some pf M Let_def stream_call_no_body)
    qed
  qed
qed

text \<open>A request whose handler leaves the body alone, behind its header.\<close>

lemma request_answers:
  assumes "stream_header T fl junk rd0 = (Inr raw, rd)" "ok (rd_source rd)"
  shows "case run_request rx trie what raw \<lparr>cn_good = True, cn_written = []\<rparr> of (r, c) \<Rightarrow>
    \<exists>s'. stream_request T fl junk rx (\<lambda>f. no_body (fa_handler f)) trie what rd0 = (r, rd\<lparr>rd_source := s'\<rparr>) \<and>
      served c (rd_source rd) s'"
proof -
  let ?H = "\<lambda>f. no_body (fa_handler f)"
  let ?header = "lift_res (try_read_header what raw http_request_new http_response_new)"
  let ?rest = "\<lambda>(ok, request, response). if \<not> ok then stream_finish T request response
       else stream_answer T rx ?H trie request response"
  have ans: "answers (bind_prog ?header ?rest) (run_request rx trie what raw)"
    unfolding run_request_def
  proof (rule answers_lift, goal_cases)
    case (1 x)
    obtain good req res where x: "x = (good, req, res)" by (cases x) auto
    show ?case
    proof (cases good)
      case True
      then have good: "(\<not> good) = False" by simp
      show ?thesis unfolding x prod.case good if_False by (rule answers_answer)
    qed (simp add: x answers_finish)
  qed
  have run: "stream_request T fl junk rx ?H trie what rd0 = bind_prog ?header ?rest rd"
    using assms(1) by (simp add: stream_request_def bind_prog_def stream_try_header_def)
  show ?thesis unfolding run by (rule answersD [OF ans assms(2)])
qed

lemma once_serves:
  assumes "reader_room fl" "ok s" "scan header_end 0 (incoming s) = Some k" "k \<le> read_block_size fl"
  shows "case run_request rx trie what (text_of (take k (incoming s))) \<lparr>cn_good = True, cn_written = []\<rparr> of (r, c) \<Rightarrow>
    \<exists>s'. stream_once T fl junk rx (\<lambda>f. no_body (fa_handler f)) trie what s = (r, s') \<and>
      sent s' = sent s @ bytes_of (concat (cn_written c)) \<and>
      (if cn_good c then ok s' \<and> (\<exists>lost. drop k (incoming s) = lost @ incoming s') else \<not> src_good (st_source T) s')"
proof -
  from header_is_read [OF assms, of junk "\<lparr>blocks = Map.empty, fresh = 0\<rparr>"] obtain rd where
    rd: "stream_header T fl junk (reader_new fl junk s \<lparr>blocks = Map.empty, fresh = 0\<rparr>) = (Inr (text_of (take k (incoming s))), rd)"
    "ok (rd_source rd)" "sent (rd_source rd) = sent s" "window rd @ incoming (rd_source rd) = drop k (incoming s)" by blast
  obtain r c where rc: "run_request rx trie what (text_of (take k (incoming s))) \<lparr>cn_good = True, cn_written = []\<rparr> = (r, c)"
    by force
  with request_answers [OF rd(1,2), of rx trie what] obtain s' where
    s': "stream_request T fl junk rx (\<lambda>f. no_body (fa_handler f)) trie what (reader_new fl junk s \<lparr>blocks = Map.empty, fresh = 0\<rparr>) =
      (r, rd\<lparr>rd_source := s'\<rparr>)" "served c (rd_source rd) s'" by auto
  have "stream_once T fl junk rx (\<lambda>f. no_body (fa_handler f)) trie what s = (r, s')"
    using s'(1) by (simp add: stream_once_def)
  moreover have "sent s' = sent s @ bytes_of (concat (cn_written c))"
    using s'(2) rd(3) by (simp add: served_def)
  moreover have "if cn_good c then ok s' \<and> (\<exists>lost. drop k (incoming s) = lost @ incoming s') else \<not> src_good (st_source T) s'"
  proof (cases "cn_good c")
    case True
    with s'(2) have "ok s'" "incoming s' = incoming (rd_source rd)" by (simp_all add: served_def)
    with True rd(4) show ?thesis by metis
  qed (use s'(2) in \<open>simp add: served_def\<close>)
  ultimately show ?thesis unfolding rc by blast
qed

end

section \<open>Sockets as streams\<close>

definition socket_stream :: "'k kernel \<Rightarrow> 'k sock stream" where
  "socket_stream K = \<lparr>st_source = socket_source K,
     st_write = (\<lambda>bytes s. case send K (Some bytes) s of None \<Rightarrow> (Inl Does_not_return, s) | Some x \<Rightarrow> x),
     st_close = close_socket K\<rparr>"

lemma socket_stream_good [simp]: "src_good (st_source (socket_stream K)) s = is_open s"
  by (simp add: socket_stream_def socket_source_def)

text \<open>A kernel whose descriptor delivers and takes bytes without mixing the two directions.\<close>

locale duplex_kernel = recv_kernel K fd incoming rdelay
  for K :: "'k kernel" and fd :: int and incoming :: "'k \<Rightarrow> byte list" and rdelay :: "'k \<Rightarrow> nat" +
  fixes wire :: "'k \<Rightarrow> byte list" and lim :: nat and sdelay :: "'k \<Rightarrow> nat"
  assumes takes: "takes_messages K fd lim wire sdelay" and lim: "0 < lim" and fd: "0 < fd"
    and send_keeps: "incoming (snd (k_send K fd bs k)) = incoming k"
    and recv_keeps: "wire (snd (k_recv K fd n k)) = wire k"
    and wait_keeps: "incoming (k_wait K fd k) = incoming k" "wire (k_wait K fd k) = wire k"
    and close_keeps: "wire (k_close K fd k) = wire k"
begin

lemma do_send_incoming:
  "do_send K' fd' bs k = Some x \<Longrightarrow> K' = K \<Longrightarrow> fd' = fd \<Longrightarrow> incoming (snd x) = incoming k"
proof (induction K' fd' bs k x rule: do_send.raw_induct [rotated, consumes 1, case_names step])
  case (step loop K' fd' bs k x)
  obtain n k1 where n: "k_send K fd bs k = (n, k1)" by force
  then have k1: "incoming k1 = incoming k" using send_keeps [of bs k] by simp
  have rec: "incoming (snd y) = incoming k2" if "loop K fd bs' k2 = Some y" for bs' k2 y
    using step.IH [OF that] by simp
  let ?h = "length bs div 2"
  have x: "(if 0 < n then Some (Inr (nat n), k1)
      else if should_wait (k_errno K k1) then loop K fd bs (k_wait K fd k1)
      else if k_errno K k1 = EMSGSIZE then
        (if length bs < 2 then Some (Inl (Err ResourceExhausted), k1)
         else Option.bind (loop K fd (take ?h bs) k1) (\<lambda>(first_send, k1). case first_send of
            Inl f \<Rightarrow> Some (Inl f, k1)
          | Inr n1 \<Rightarrow> Option.bind (loop K fd (drop ?h bs) k1) (\<lambda>(second_send, k2).
              Some (map_res (\<lambda>n2. n1 + n2) second_send, k2))))
      else Some (Inl (system_failure (k_errno K k1)), k1)) = Some x"
    using step.hyps by (simp only: step.prems n prod.case Let_def)
  show ?case
  proof (cases "0 < n \<or> should_wait (k_errno K k1) \<or> k_errno K k1 \<noteq> EMSGSIZE \<or> length bs < 2")
    case True
    with x rec [of bs "k_wait K fd k1"] k1 wait_keeps(1) [of k1] show ?thesis by (auto split: if_splits)
  next
    case False
    with x obtain r1 k2 where y: "loop K fd (take ?h bs) k1 = Some (r1, k2)"
      and rest: "(case r1 of Inl f \<Rightarrow> Some (Inl f, k2) | Inr n1 \<Rightarrow> Option.bind (loop K fd (drop ?h bs) k2)
         (\<lambda>(second_send, k2). Some (map_res (\<lambda>n2. n1 + n2) second_send, k2))) = Some x"
      by (auto simp: bind_eq_Some_conv)
    from rec [OF y] k1 have k2: "incoming k2 = incoming k" by simp
    show ?thesis
    proof (cases r1)
      case (Inl f)
      with rest k2 show ?thesis by auto
    next
      case (Inr n1)
      with rest obtain r2 k3 where "loop K fd (drop ?h bs) k2 = Some (r2, k3)" "snd x = k3"
        by (auto simp: bind_eq_Some_conv)
      with rec [of "drop ?h bs" k2] k2 show ?thesis by auto
    qed
  qed
qed

lemma do_recv_wire:
  "do_recv K' n s = Some x \<Longrightarrow> K' = K \<Longrightarrow> socket_fd s = fd \<Longrightarrow> wire (os (snd x)) = wire (os s)"
proof (induction K' n s x rule: do_recv.raw_induct [rotated, consumes 1, case_names step])
  case (step loop K' n s x)
  obtain m bs k1 where m: "k_recv K fd n (os s) = ((m, bs), k1)" by (metis surj_pair)
  then have k1: "wire k1 = wire (os s)" using recv_keeps [of n "os s"] by simp
  show ?case
  proof (cases "m < 0 \<and> should_wait (k_errno K k1)")
    case True
    then have "loop K n (s\<lparr>os := k_wait K fd k1\<rparr>) = Some x" using step.hyps m step.prems by auto
    from step.IH [OF this] step.prems k1 wait_keeps(2) show ?thesis by simp
  next
    case False
    then show ?thesis
      using step.hyps m step.prems k1 close_keeps fd
      by (auto simp: close_socket_def split: if_splits)
  qed
qed

end

sublocale duplex_kernel \<subseteq> duplex "socket_stream K" "\<lambda>s. incoming (os s)" "\<lambda>s. wire (os s)"
    "\<lambda>s. socket_fd s = fd"
proof
  fix s :: "'k sock" assume ok: "socket_fd s = fd"
  show "src_good (st_source (socket_stream K)) s"
    using ok fd by (simp add: socket_stream_def socket_source_def is_open_def)
  show "\<exists>m s'. 0 < m \<and> m \<le> n \<and> m \<le> length (incoming (os s)) \<and>
      src_read (st_source (socket_stream K)) n s = (Inr (take m (incoming (os s))), s') \<and>
      incoming (os s') = drop m (incoming (os s)) \<and> wire (os s') = wire (os s) \<and> socket_fd s' = fd"
    if n: "0 < n" and inc: "incoming (os s) \<noteq> []" for n
  proof -
    from do_recv_some [OF n ok inc] obtain m k' where m: "0 < m" "m \<le> n" "m \<le> length (incoming (os s))"
      "do_recv K n s = Some (Inr (take m (incoming (os s))), s\<lparr>os := k'\<rparr>)" "incoming k' = drop m (incoming (os s))" by auto
    have "wire k' = wire (os s)" using do_recv_wire [OF m(4) refl ok] by simp
    moreover have "src_read (st_source (socket_stream K)) n s = (Inr (take m (incoming (os s))), s\<lparr>os := k'\<rparr>)"
      using m(4) n ok fd by (simp add: socket_stream_def socket_source_def receive_def is_open_def)
    ultimately show ?thesis using m ok by (intro exI [of _ m] exI [of _ "s\<lparr>os := k'\<rparr>"]) simp
  qed
  show "\<exists>n s'. st_write (socket_stream K) bs s = (Inr n, s') \<and> wire (os s') = wire (os s) @ bs \<and>
      incoming (os s') = incoming (os s) \<and> socket_fd s' = fd" if bs: "bs \<noteq> []" for bs
  proof -
    from do_send_all [OF takes lim bs, of "os s"] obtain k' where
      k': "do_send K fd bs (os s) = Some (Inr (length bs), k')" "wire k' = wire (os s) @ bs" by blast
    have "incoming k' = incoming (os s)" using do_send_incoming [OF k'(1) refl refl] by simp
    moreover have "st_write (socket_stream K) bs s = (Inr (length bs), s\<lparr>os := k'\<rparr>)"
      using k'(1) ok bs fd by (simp add: socket_stream_def send_def is_open_def)
    ultimately show ?thesis using k'(2) ok by (intro exI [of _ "length bs"] exI [of _ "s\<lparr>os := k'\<rparr>"]) simp
  qed
  show "\<exists>s'. st_close (socket_stream K) s = (Inr (), s') \<and> wire (os s') = wire (os s) \<and>
      \<not> src_good (st_source (socket_stream K)) s'"
    using ok fd close_keeps by (simp add: socket_stream_def socket_source_def close_socket_def is_open_def)
qed

interpretation pipe_duplex: duplex_kernel "pipe_kernel (Suc lim)" 3 "\<lambda>k. concat (p_packets k)" p_recv_busy
    p_sent "Suc lim" p_send_busy for lim
  by unfold_locales
    (rule pipe_takes_messages, auto simp: pipe_kernel_def pipe_send_def pipe_recv_def pipe_wait_def Let_def split: prod.splits)

section \<open>What a request on a stream does\<close>

text \<open>
  C10: a request on a stream is answered as its header says. When the bytes that arrive on a
  stream that keeps its contract complete a header within the block limit, \<open>run_once\<close> on the
  stream ends as \<open>run_request\<close> does on the text of that header, for every trie of endpoints whose
  handlers leave the body alone: the same result, exactly the bytes of the buffers written there
  are sent, in order, and the stream is closed exactly if the connection is. Otherwise it goes on
  with a suffix of what followed the header: the reader of the request takes what it had read
  ahead with it.
\<close>

theorem stream_once_refines:
  assumes "duplex T incoming sent ok" "reader_room fl" "ok s" "scan header_end 0 (incoming s) = Some k"
    "k \<le> read_block_size fl"
  shows "case run_request rx trie what (text_of (take k (incoming s))) \<lparr>cn_good = True, cn_written = []\<rparr> of (r, c) \<Rightarrow>
    \<exists>s'. stream_once T fl junk rx (\<lambda>f. no_body (fa_handler f)) trie what s = (r, s') \<and>
      sent s' = sent s @ bytes_of (concat (cn_written c)) \<and>
      (if cn_good c then ok s' \<and> (\<exists>lost. drop k (incoming s) = lost @ incoming s') else \<not> src_good (st_source T) s')"
  by (rule duplex.once_serves [OF assms])

text \<open>A socket on which packets are under way, and a reader of small blocks.\<close>

definition wired :: "byte list list \<Rightarrow> pipe sock" where
  "wired ps = \<lparr>socket_fd = 3, os = \<lparr>p_errno = 0, p_sent = [], p_send_busy = 1, p_packets = ps,
     p_recv_busy = 2, p_descriptors = [3]\<rparr>\<rparr>"

definition small_blocks :: reader_flags where
  "small_blocks = \<lparr>initial_read_buffer_size = 4, maximum_read_buffer_size = 200, read_block_size = 50\<rparr>"

lemma wired_simps [simp]: "socket_fd (wired ps) = 3" "p_packets (os (wired ps)) = ps" "p_sent (os (wired ps)) = []"
  by (simp_all add: wired_def)

lemma small_blocks_simps [simp]: "reader_room small_blocks" "read_block_size small_blocks = 50"
  by (simp_all add: small_blocks_def reader_room_def)

definition bad_request_text :: string where
  "bad_request_text = ''HTTP/1.1 400 Bad Request'' @ CRLF @ ''Content-Type: text/plain'' @ CRLF @
     ''Content-Length: 3'' @ CRLF @ CRLF @ ''bad''"

lemma empty_request:
  "run_request no_regex make_node ''bad'' [CR, LF, CR, LF] \<lparr>cn_good = True, cn_written = []\<rparr> =
   (Inr (), \<lparr>cn_good = False, cn_written = [bad_request_text]\<rparr>)"
  by code_simp

theorem stream_once_refines_witness:
  "\<exists>s'. stream_once (socket_stream (pipe_kernel (Suc 15))) small_blocks (\<lambda>i. 0) no_regex
      (\<lambda>f. no_body (fa_handler f)) (make_node :: factory trie) ''bad'' (wired [[13, 10, 13], [10]]) = (Inr (), s') \<and>
    p_sent (os s') = bytes_of bad_request_text \<and> \<not> is_open s'"
proof -
  have first: "text_of [13, 10, 13, 10] = [CR, LF, CR, LF]"
    by (metis text_of_bytes bytes_of_Cons bytes_of_simps(1) byte_of_CRLF)
  have found: "scan header_end 0 (concat (p_packets (os (wired [[13, 10, 13], [10]])))) = Some 4" by simp
  from stream_once_refines [OF pipe_duplex.duplex_axioms [of 15] small_blocks_simps(1) _ found, where rx = no_regex and
      trie = make_node and what = "''bad''" and junk = "\<lambda>i. 0"]
  show ?thesis
    by (simp add: first empty_request)
qed

end
