(* ===== verification/Http_Loop.thy ===== *)
theory Http_Loop
  imports Http_Stream
begin

text \<open>
  The loop of \<open>HttpRouter::run\<close> on a stream (\<open>src/lw/http/http.cpp\<close>): it ends for every finite
  input, whatever the peer sends, and what a reader had read ahead is lost between two requests.
  \<open>finite_stream\<close> is the contract the loop rests on, which sockets satisfy.
\<close>

section \<open>What is left to read\<close>

text \<open>A stream is closed, or open with fewer than \<open>n\<close> bytes left.\<close>

definition within :: "'s source \<Rightarrow> ('s \<Rightarrow> bool) \<Rightarrow> ('s \<Rightarrow> nat) \<Rightarrow> nat \<Rightarrow> 's \<Rightarrow> bool" where
  "within S ok left n s \<longleftrightarrow> \<not> src_good S s \<or> ok s \<and> left s < n"

definition keeps :: "'s source \<Rightarrow> ('s \<Rightarrow> bool) \<Rightarrow> ('s \<Rightarrow> nat) \<Rightarrow> ('s reader, 'a) prog \<Rightarrow> bool" where
  "keeps S ok left m \<longleftrightarrow>
     (\<forall>n rd. within S ok left n (rd_source rd) \<longrightarrow> within S ok left n (rd_source (snd (m rd))))"

lemma keepsD: "keeps S ok left m \<Longrightarrow> m rd = (r, rd') \<Longrightarrow> within S ok left n (rd_source rd) \<Longrightarrow> within S ok left n (rd_source rd')"
  unfolding keeps_def by (metis snd_conv)

lemma keepsI:
  "(\<And>n rd r rd'. m rd = (r, rd') \<Longrightarrow> within S ok left n (rd_source rd) \<Longrightarrow> within S ok left n (rd_source rd')) \<Longrightarrow>
   keeps S ok left m"
  unfolding keeps_def by (metis prod.collapse)

definition handlers_keep :: "'s source \<Rightarrow> ('s \<Rightarrow> bool) \<Rightarrow> ('s \<Rightarrow> nat) \<Rightarrow> ('e \<Rightarrow> 's stream_handler) \<Rightarrow> bool" where
  "handlers_keep S ok left handler_of \<longleftrightarrow>
     (\<forall>ep m f req res. handler_of ep m = Some f \<longrightarrow> keeps S ok left (f req res))"

named_theorems keeps_intros

lemma keeps_same: "(\<And>rd. rd_source (snd (m rd)) = rd_source rd) \<Longrightarrow> keeps S ok left m"
  by (simp add: keeps_def)

lemma keeps_lift [keeps_intros]: "keeps S ok left (lift_res r)"
  by (rule keeps_same) simp

lemma keeps_ret [keeps_intros]: "keeps S ok left (ret x)"
  by (rule keeps_same) simp

lemma keeps_bind [keeps_intros]:
  assumes "keeps S ok left m" "\<And>x. keeps S ok left (f x)"
  shows "keeps S ok left (bind_prog m f)"
proof (rule keepsI)
  fix n rd r rd' assume run: "bind_prog m f rd = (r, rd')" and n: "within S ok left n (rd_source rd)"
  obtain r1 rd1 where m: "m rd = (r1, rd1)" by force
  from keepsD [OF assms(1) m n] have n1: "within S ok left n (rd_source rd1)" .
  show "within S ok left n (rd_source rd')"
  proof (cases r1)
    case (Inl e)
    with run m n1 show ?thesis by (simp add: bind_prog_def)
  next
    case (Inr x)
    with run m have "f x rd1 = (r, rd')" by (simp add: bind_prog_def)
    from keepsD [OF assms(2) this n1] show ?thesis .
  qed
qed

lemma keeps_read_text [keeps_intros]: "keeps S ok left (read_text w)"
  by (rule keeps_same) (simp add: read_text_def)

lemma keeps_on_source:
  "(\<And>n s. within S ok left n s \<Longrightarrow> within S ok left n (snd (m s))) \<Longrightarrow> keeps S ok left (on_source m)"
  by (rule keepsI) (fastforce simp: on_source_def split: prod.splits)

text \<open>Making room and taking a result leave the source alone.\<close>

lemma adjust_buffers_source: "rd_source (snd (adjust_buffers fl junk n rd)) = rd_source rd"
  by (auto simp: adjust_buffers_def realloc_buffers_def Let_def bind_res_def map_res_def
      split: sum.splits prod.splits option.splits)

lemma take_result_source: "rd_source (snd (take_result n rd)) = rd_source rd"
  by (simp add: take_result_def split: sum.split)

lemma load_buffer_source:
  assumes "load_buffer S fl junk n rd = (r, rd')"
  shows "rd_source rd' = rd_source rd \<and> r \<noteq> Inr () \<or>
    (\<exists>a. src_read S n (rd_source rd) = (a, rd_source rd') \<and> (r = Inr () \<longrightarrow> (\<exists>bs. a = Inr bs)))"
proof -
  obtain r1 rd1 where adj: "(if cap (rd_write rd) < n then adjust_buffers fl junk n rd else (Inr (), rd)) = (r1, rd1)"
    by force
  have s: "rd_source rd1 = rd_source rd"
    using adj adjust_buffers_source [of fl junk n rd] by (auto split: if_splits)
  show ?thesis
  proof (cases r1)
    case (Inl f)
    with assms adj s show ?thesis by (auto simp: load_buffer_def)
  next
    case (Inr u)
    obtain a s' where "src_read S n (rd_source rd) = (a, s')" by force
    with assms adj s Inr show ?thesis
      by (cases a) (auto simp: load_buffer_def split: sum.splits)
  qed
qed

section \<open>What was read ahead\<close>

text \<open>When the header is in the window already, the source is not asked.\<close>

lemma window_scan:
  assumes "reader_ok rd" "has_room fl (limit - cap (rd_read rd)) rd" "scan header_end 0 (window rd) = Some k" "k \<le> limit"
  shows "\<exists>w rd'. read_until_loop S fl junk header_end limit 0 0 rd = (Inr w, rd') \<and>
    buffer_contents (rd_heap rd') w = Inr (take k (window rd)) \<and> window rd' = drop k (window rd) \<and>
    reader_ok rd' \<and> rd_source rd' = rd_source rd"
proof -
  have quiet: "co_source S (\<lambda>s. []) (\<lambda>s. s = rd_source rd)" by unfold_locales simp_all
  have "ready (\<lambda>s. s = rd_source rd) fl limit rd" using assms(1,2) by (simp add: ready_def)
  from co_source.read_until_loop_scan [OF quiet this, of header_end 0 0 k junk] assms(3,4)
  show ?thesis by (auto simp: pending_def)
qed

context duplex
begin

text \<open>When the first read delivers everything that has arrived, the reader keeps what follows the header.\<close>

lemma one_piece_header:
  assumes "reader_room fl" "ok s" "src_read (st_source T) (read_block_size fl) s = (Inr (incoming s), s1)"
    and found: "scan header_end 0 (incoming s) = Some k" "k \<le> read_block_size fl"
  shows "incoming s1 = [] \<and> sent s1 = sent s \<and> ok s1 \<and>
    (\<exists>rd. stream_header T fl junk (reader_new fl junk s \<lparr>blocks = Map.empty, fresh = 0\<rparr>) =
        (Inr (text_of (take k (incoming s))), rd) \<and>
      reader_ok rd \<and> window rd = drop k (incoming s) \<and> rd_source rd = s1)"
proof -
  let ?l = "read_block_size fl" and ?rd = "reader_new fl junk s \<lparr>blocks = Map.empty, fresh = 0\<rparr>"
  have some: "incoming s \<noteq> []" using scan_bounds [OF found(1)] by auto
  note new = reader_new_ready [OF assms(1), of ok s junk "\<lparr>blocks = Map.empty, fresh = 0\<rparr>", OF assms(2)]
  have cap0: "cap (rd_read ?rd) = 0" by (simp add: reader_new_def buffer_alloc_def new_array_def buffer_default_def)
  have k: "0 < k" "k \<le> length (incoming s)" using scan_bounds [OF found(1)] by auto
  then have True: "0 < ?l" using found(2) by simp
  from stream_reads [OF assms(2) True some] assms(3) obtain m where
    m: "m \<le> ?l" "m \<le> length (incoming s)" "incoming s = take m (incoming s)" "incoming s1 = drop m (incoming s)" "ok s1"
    "sent s1 = sent s"
    by auto
  then have len: "length (incoming s) = m" by (metis length_take min.absorb2)
  with m have s1: "incoming s1 = []" by simp
  have rd_ok: "reader_ok ?rd" "has_room fl ?l ?rd" using new(1) cap0 by (simp_all add: ready_def)
  from load_buffer_ok [OF rd_ok True, of "st_source T" "incoming s" s1 junk] assms(3) new(2,3) len m(1) obtain rd1 where
    rd1: "load_buffer (st_source T) fl junk ?l ?rd = (Inr (), rd1)" "reader_ok rd1" "window rd1 = incoming s"
    "rd_source rd1 = s1" "has_room fl (?l - m) rd1" by auto
  have cap1: "cap (rd_read rd1) = m" using reader_window(2) [OF rd1(2)] rd1(3) len by simp
  have "read_until_loop (st_source T) fl junk header_end ?l 0 0 ?rd = read_until_loop (st_source T) fl junk header_end ?l 0 0 rd1"
    using True cap0 cap1 rd1(1) k len stream_good [OF assms(2)] new(3)
    by (subst (1 2) read_until_loop.simps) (simp add: reader_good_def buffer_empty_def)
  moreover from window_scan [OF rd1(2), of fl ?l k "st_source T" junk] rd1(3-5) cap1 found k len m(1) obtain w rd' where
    "read_until_loop (st_source T) fl junk header_end ?l 0 0 rd1 = (Inr w, rd')"
    "buffer_contents (rd_heap rd') w = Inr (take k (incoming s))" "rd_source rd' = s1" "reader_ok rd'"
    "window rd' = drop k (incoming s)" by auto
  ultimately have "stream_header T fl junk ?rd = (Inr (text_of (take k (incoming s))), rd') \<and>
      reader_ok rd' \<and> window rd' = drop k (incoming s) \<and> rd_source rd' = s1"
    by (simp add: stream_header_def read_until_def bind_prog_def read_text_def)
  with s1 m(5,6) show ?thesis by blast
qed

text \<open>
  It is gone with the reader: a second request that came in the same piece is never seen,
  although the stream stays open for it.
\<close>

lemma read_ahead_lost:
  assumes "reader_room fl" "ok s" "src_read (st_source T) (read_block_size fl) s = (Inr (incoming s), s1)"
    and found: "scan header_end 0 (incoming s) = Some k" "k \<le> read_block_size fl"
    and answered: "run_request rx trie what (text_of (take k (incoming s))) \<lparr>cn_good = True, cn_written = []\<rparr> = (r, c)"
    and kept: "cn_good c"
  shows "\<exists>s'. stream_once T fl junk rx (\<lambda>f. no_body (fa_handler f)) trie what s = (r, s') \<and> ok s' \<and> incoming s' = []"
proof -
  from one_piece_header [OF assms(1-3) found, of junk] obtain rd where
    h: "stream_header T fl junk (reader_new fl junk s \<lparr>blocks = Map.empty, fresh = 0\<rparr>) = (Inr (text_of (take k (incoming s))), rd)"
    "rd_source rd = s1" "incoming s1 = []" "ok s1" by blast
  from request_answers [OF h(1), of rx trie what] h(2-4) answered kept show ?thesis
    by (auto simp: stream_once_def served_def)
qed

end

text \<open>A body that has been read ahead is taken from the window.\<close>

lemma body_in_window:
  assumes "body req = Inr (Read_bytes n)" "reader_ok rd" "0 < unat n" "unat n \<le> length (window rd)"
  shows "\<exists>rd'. stream_body T fl junk req rd = (Inr (text_of (take (unat n) (window rd))), rd') \<and> rd_source rd' = rd_source rd"
proof -
  have len: "unat n \<le> cap (rd_read rd)" using reader_window(2) [OF assms(2)] assms(4) by simp
  from take_result_ok [OF assms(2) len assms(3)] obtain w rd' where
    "take_result (unat n) rd = (Inr w, rd')" "buffer_contents (rd_heap rd') w = Inr (take (unat n) (window rd))"
    "rd_source rd' = rd_source rd" by blast
  with len assms(1) show ?thesis
    by (simp add: stream_body_def read_def bind_prog_def read_text_def min_absorb1)
qed

text \<open>The body of a request is what one read delivers, however much was announced.\<close>

lemma body_is_one_read:
  assumes "body req = Inr (Read_bytes n)" "reader_ok rd" "has_room fl (unat n) rd" "cap (rd_read rd) = 0"
    and read: "src_read (st_source T) (unat n) (rd_source rd) = (Inr bs, s')" "bs \<noteq> []" "length bs \<le> unat n"
  shows "\<exists>rd'. stream_body T fl junk req rd = (Inr (text_of bs), rd')"
proof -
  have pos: "0 < unat n" "0 < length bs" using read(2,3) by (auto simp: Suc_le_eq neq_Nil_conv)
  from load_buffer_ok [OF assms(2,3) pos(1) read(1,3), of junk] obtain rd1 where
    rd1: "load_buffer (st_source T) fl junk (unat n) rd = (Inr (), rd1)" "reader_ok rd1" "window rd1 = window rd @ bs" by blast
  have "window rd = []" using reader_window(2) [OF assms(2)] assms(4) by simp
  with rd1(3) reader_window(2) [OF rd1(2)] have w: "window rd1 = bs" "cap (rd_read rd1) = length bs" by simp_all
  from take_result_ok [OF rd1(2), of "length bs"] w pos(2) obtain w' rd' where
    "take_result (length bs) rd1 = (Inr w', rd')" "buffer_contents (rd_heap rd') w' = Inr bs" by auto
  with rd1(1) w pos read(3) assms(1,4) show ?thesis
    by (cases "unat n") (simp_all add: stream_body_def read_def bind_prog_def read_text_def min_absorb2)
qed

section \<open>Streams that end\<close>

text \<open>
  Reading, writing and closing leave an open stream in order or close it, do not reopen a closed
  one and add nothing to what is left to read; a read that returns has taken some of it or closed
  the stream, an open stream can be closed.
\<close>

locale finite_stream =
  fixes T :: "'s stream" and ok :: "'s \<Rightarrow> bool" and left :: "'s \<Rightarrow> nat"
  assumes read_within: "within (st_source T) ok left n s \<Longrightarrow> within (st_source T) ok left n (snd (src_read (st_source T) k s))"
    and write_within: "within (st_source T) ok left n s \<Longrightarrow> within (st_source T) ok left n (snd (st_write T bs s))"
    and close_within: "within (st_source T) ok left n s \<Longrightarrow> within (st_source T) ok left n (snd (st_close T s))"
    and read_less: "ok s \<Longrightarrow> 0 < k \<Longrightarrow> src_read (st_source T) k s = (Inr bs, s') \<Longrightarrow>
      within (st_source T) ok left (left s) s'"
    and close_ends: "st_close T s = (Inr (), s') \<Longrightarrow> \<not> src_good (st_source T) s'"
    and close_works: "ok s \<Longrightarrow> src_good (st_source T) s \<Longrightarrow> fst (st_close T s) = Inr ()"
begin

abbreviation "S \<equiv> st_source T"
abbreviation "below \<equiv> within S ok left"
abbreviation "tame \<equiv> keeps S ok left"

lemma load_buffer_tame: "tame (load_buffer S fl junk k)"
proof (rule keepsI)
  fix n rd r rd' assume "load_buffer S fl junk k rd = (r, rd')" "below n (rd_source rd)"
  with load_buffer_source [OF this(1)] read_within [of n "rd_source rd" k] show "below n (rd_source rd')" by auto
qed

lemma take_result_tame: "tame (take_result k)"
  by (rule keeps_same) (rule take_result_source)

lemma read_until_loop_tame:
  "read_until_loop S fl junk str limit i pos rd = (r, rd') \<Longrightarrow> below n (rd_source rd) \<Longrightarrow> below n (rd_source rd')"
proof (induction "limit - i" arbitrary: i pos rd rule: less_induct)
  case less
  obtain r1 rd1 where load: "(if cap (rd_read rd) \<le> i then load_buffer S fl junk (limit - i) rd else (Inr (), rd)) = (r1, rd1)"
    by force
  have n1: "below n (rd_source rd1)"
    using load less.prems(2) keepsD [OF load_buffer_tame] by (auto split: if_splits)
  have rec: "below n (rd_source rd')"
    if "i < limit" "read_until_loop S fl junk str limit (i + 1) pos' rd1 = (r, rd')" for pos'
    using less.hyps [OF _ that(2) n1] that(1) by simp
  have taken: "below n (rd_source rd')" if "take_result (i + 1) rd1 = (r, rd')"
    using keepsD [OF take_result_tame that n1] .
  show ?case
    using less.prems(1) load n1 less.prems(2) rec taken
    by (subst (asm) read_until_loop.simps) (auto split: if_splits sum.splits)
qed

lemma read_until_tame [keeps_intros]: "tame (read_until S fl junk str limit)"
  by (rule keepsI) (auto simp: read_until_def dest: read_until_loop_tame)

lemma read_tame [keeps_intros]: "tame (read S fl junk k)"
proof (rule keepsI)
  fix n rd r rd' assume run: "read S fl junk k rd = (r, rd')" and n: "below n (rd_source rd)"
  obtain r1 rd1 where load: "(if cap (rd_read rd) < k then load_buffer S fl junk (k - cap (rd_read rd)) rd else (Inr (), rd)) = (r1, rd1)"
    by force
  have n1: "below n (rd_source rd1)"
    using load n keepsD [OF load_buffer_tame] by (auto split: if_splits)
  from run load n1 keepsD [OF take_result_tame] show "below n (rd_source rd')"
    by (auto simp: read_def split: sum.splits)
qed

text \<open>Every part of a request keeps the stream, for handlers that do; reading the body does.\<close>

lemma stream_body_tame [keeps_intros]: "tame (stream_body T fl junk req)"
  unfolding stream_body_def
proof (rule keeps_bind [OF keeps_lift])
  show "tame (case b of Resolved_empty \<Rightarrow> ret [] | Read_bytes n \<Rightarrow> bind_prog (read S fl junk (unat n)) read_text)" for b
    by (cases b) (simp_all add: keeps_intros)
qed

lemma write_tame [keeps_intros]: "tame (on_source (st_write T bs))"
  by (rule keeps_on_source) (rule write_within)

lemma close_tame [keeps_intros]: "tame (on_source (st_close T))"
  by (rule keeps_on_source) (rule close_within)

lemma stream_finish_tame [keeps_intros]: "tame (stream_finish T req res)"
  unfolding stream_finish_def by (cases "keep_alive req") (simp_all add: keeps_intros)

lemma stream_header_tame [keeps_intros]: "tame (stream_header T fl junk)"
  unfolding stream_header_def by (intro keeps_intros)

lemma stream_answer_tame [keeps_intros]:
  assumes "handlers_keep S ok left handler_of"
  shows "tame (stream_answer T rx handler_of trie req res)"
  unfolding stream_answer_def
proof (rule keeps_bind [OF keeps_lift])
  have call: "tame (stream_call (handler_of ep) m q res)" for ep m q
    using assms by (auto simp: stream_call_def handlers_keep_def keeps_intros split: option.split)
  have "tame (case method_named m of None \<Rightarrow> ret (respond_failure BAD_REQUEST ''Unknown method.'' res)
      | Some m \<Rightarrow> stream_call (handler_of ep) m q res)" for m ep q
    by (cases "method_named m") (simp_all add: keeps_ret call)
  then show "tame (case x of None \<Rightarrow> stream_finish T req (respond_failure NOT_FOUND ''Not Found.'' res)
     | Some (parameters, ep) \<Rightarrow>
         (let request' = set_route_params parameters req
          in bind_prog (case method_named (rq_method request') of
               None \<Rightarrow> ret (respond_failure BAD_REQUEST ''Unknown method.'' res)
             | Some m \<Rightarrow> stream_call (handler_of ep) m request' res)
             (stream_finish T request')))" for x
    by (cases x) (auto simp: Let_def intro!: keeps_bind stream_finish_tame)
qed

text \<open>A header that is read without an error has used up some input, or the stream is closed.\<close>

lemma header_progress:
  assumes "stream_header T fl junk rd = (Inr raw, rd')" "cap (rd_read rd) = 0" "ok (rd_source rd)"
  shows "below (left (rd_source rd)) (rd_source rd')"
proof -
  let ?l = "read_block_size fl" and ?n = "left (rd_source rd)"
  obtain w r1 where loop: "read_until_loop S fl junk header_end ?l 0 0 rd = (Inr w, r1)"
    and s: "rd_source rd' = rd_source r1"
    using assms(1) by (auto simp: stream_header_def read_until_def bind_prog_def read_text_def split: sum.splits prod.splits)
  show ?thesis
  proof (cases "0 < ?l \<and> reader_good S rd")
    case False
    with loop assms(2) have "\<not> src_good S (rd_source r1)"
      by (subst (asm) read_until_loop.simps) (auto simp: reader_good_def split: if_splits)
    with s show ?thesis by (simp add: within_def)
  next
    case True
    obtain r2 rd2 where load: "load_buffer S fl junk (?l - 0) rd = (r2, rd2)" by force
    with loop assms(2) True have r2: "r2 = Inr ()"
      by (subst (asm) read_until_loop.simps) (auto split: sum.splits)
    from load_buffer_source [OF load] r2 obtain bs where
      bs: "src_read S (?l - 0) (rd_source rd) = (Inr bs, rd_source rd2)" by auto
    have n2: "below ?n (rd_source rd2)" using True by (intro read_less [OF assms(3) _ bs]) simp
    have taken: "below ?n (rd_source r1)" if "take_result (Suc 0) rd2 = (Inr w, r1)"
      using keepsD [OF take_result_tame that n2] .
    from loop load r2 assms(2) True n2 taken have "below ?n (rd_source r1)"
      by (subst (asm) read_until_loop.simps)
        (auto split: if_splits sum.splits dest: read_until_loop_tame)
    with s show ?thesis by simp
  qed
qed

lemma finish_closes:
  assumes "stream_finish T req res rd = (Inr (), rd')" "\<not> keep_alive req"
  shows "\<not> src_good S (rd_source rd')"
  using assms close_ends by (auto simp: stream_finish_def bind_prog_def on_source_def split: sum.splits prod.splits)

text \<open>So has a request that is served, and one that fails has added nothing.\<close>

lemma request_progress:
  assumes handlers: "handlers_keep S ok left handler_of"
    and run: "stream_request T fl junk rx handler_of trie what rd = (r, rd')"
    and start: "cap (rd_read rd) = 0" "ok (rd_source rd)"
  shows "below (Suc (left (rd_source rd))) (rd_source rd')"
    and "r = Inr () \<Longrightarrow> below (left (rd_source rd)) (rd_source rd')"
proof -
  let ?n = "left (rd_source rd)"
  let ?tail = "\<lambda>(good, request, response). if \<not> good then stream_finish T request response
     else stream_answer T rx handler_of trie request response"
  have tail: "tame (?tail x)" for x
    using stream_answer_tame [OF handlers] by (auto simp: stream_finish_tame split: prod.split)
  obtain h rd1 where h: "stream_header T fl junk rd = (h, rd1)" by force
  have n1: "below (Suc ?n) (rd_source rd1)"
    by (rule keepsD [OF stream_header_tame h]) (simp add: within_def start(2))
  have "below (Suc ?n) (rd_source rd') \<and> (r = Inr () \<longrightarrow> below ?n (rd_source rd'))"
  proof (cases h)
    case (Inr raw)
    from header_progress [OF h [unfolded Inr] start] have n: "below ?n (rd_source rd1)" .
    have "below k (rd_source rd')" if "below k (rd_source rd1)" for k
    proof (cases "try_read_header what raw http_request_new http_response_new")
      case (Inl e)
      with run h Inr that show ?thesis by (simp add: stream_request_def stream_try_header_def bind_prog_def)
    next
      case (Inr x)
      with run h \<open>h = Inr raw\<close> have "?tail x rd1 = (r, rd')"
        by (simp add: stream_request_def stream_try_header_def bind_prog_def)
      from keepsD [OF tail this that] show ?thesis .
    qed
    with n n1 show ?thesis by blast
  next
    case (Inl f)
    show ?thesis
    proof (cases "f = Err InvalidArgument")
      case False
      with run h Inl n1 show ?thesis by (auto simp: stream_request_def stream_try_header_def bind_prog_def)
    next
      case True
      let ?res = "respond_failure BAD_REQUEST what http_response_new"
      from run h Inl True have fin: "stream_finish T http_request_new ?res rd1 = (r, rd')"
        by (simp add: stream_request_def stream_try_header_def bind_prog_def)
      have "\<not> keep_alive http_request_new"
        by (simp add: keep_alive_def http_request_new_def has_header_def map_contains_def)
      with finish_closes [of http_request_new ?res rd1 rd'] fin have "r = Inr () \<Longrightarrow> \<not> src_good S (rd_source rd')"
        by simp
      with keepsD [OF stream_finish_tame fin n1] show ?thesis by (auto simp: within_def)
    qed
  qed
  then show "below (Suc ?n) (rd_source rd')" "r = Inr () \<Longrightarrow> below ?n (rd_source rd')" by auto
qed

lemma run_ends:
  assumes handlers: "handlers_keep S ok left handler_of"
  shows "below (Suc n) s \<Longrightarrow> \<exists>r s'. stream_run T fl junk rx handler_of trie what s = Some (r, s') \<and>
    (r = Inr () \<longrightarrow> \<not> src_good S s')"
proof (induction n arbitrary: s rule: less_induct)
  case (less n)
  show ?case
  proof (cases "src_good S s")
    case False
    then show ?thesis by (subst stream_run.simps) simp
  next
    case True
    with less.prems have ok: "ok s" "left s \<le> n" by (simp_all add: within_def)
    have again: "\<exists>r s'. stream_run T fl junk rx handler_of trie what s1 = Some (r, s') \<and> (r = Inr () \<longrightarrow> \<not> src_good S s')"
      if "below (left s) s1" for s1
    proof (cases "src_good S s1")
      case False
      then show ?thesis by (subst stream_run.simps) simp
    next
      case True
      with that less.IH [of "left s1" s1] ok(2) show ?thesis by (simp add: within_def)
    qed
    let ?rd = "reader_new fl junk s \<lparr>blocks = Map.empty, fresh = 0\<rparr>"
    obtain r rd' where q: "stream_request T fl junk rx handler_of trie (what s) ?rd = (r, rd')" by force
    have rd: "cap (rd_read ?rd) = 0" "rd_source ?rd = s"
      by (simp_all add: reader_new_def buffer_alloc_def new_array_def buffer_default_def)
    note progress = request_progress [OF handlers q rd(1), unfolded rd(2), OF ok(1)]
    have once: "stream_once T fl junk rx handler_of trie (what s) s = (r, rd_source rd')"
      using q by (simp add: stream_once_def)
    show ?thesis
    proof (cases r)
      case (Inr u)
      with progress(2) once True again [of "rd_source rd'"] show ?thesis by (subst stream_run.simps) simp
    next
      case (Inl f)
      show ?thesis
      proof (cases "\<exists>e. f = Err e")
        case False
        then show ?thesis using once True Inl by (subst stream_run.simps) (auto split: fault.split)
      next
        case e: True
        show ?thesis
        proof (cases "src_good S (rd_source rd')")
          case False
          with once True Inl e again [of "rd_source rd'"] show ?thesis
            by (subst stream_run.simps) (auto simp: within_def)
        next
          case open': True
          with progress(1) have "ok (rd_source rd')" by (simp add: within_def)
          with close_works open' obtain s2 where s2: "st_close T (rd_source rd') = (Inr (), s2)"
            by (metis prod.collapse)
          with close_ends have "\<not> src_good S s2" by blast
          with s2 once True Inl e open' again [of s2] show ?thesis
            by (subst stream_run.simps) (auto simp: within_def)
        qed
      qed
    qed
  qed
qed

end

section \<open>Sockets end\<close>

context duplex_kernel
begin

lemma read_socket:
  assumes "socket_fd s = fd" "0 < n"
  shows "\<exists>bs s'. src_read (st_source (socket_stream K)) n s = (Inr bs, s') \<and>
    (\<not> is_open s' \<or> socket_fd s' = fd \<and> length (incoming (os s')) < length (incoming (os s)))"
proof (cases "incoming (os s) = []")
  case True
  from do_recv_end [OF assms(2) fd assms(1) True] assms fd show ?thesis
    by (auto simp: socket_stream_def socket_source_def receive_def is_open_def)
next
  case False
  from do_recv_some [OF assms(2,1) False] obtain m k' where "0 < m" "m \<le> length (incoming (os s))"
    "do_recv K n s = Some (Inr (take m (incoming (os s))), s\<lparr>os := k'\<rparr>)" "incoming k' = drop m (incoming (os s))" by auto
  with assms fd show ?thesis
    by (auto simp: socket_stream_def socket_source_def receive_def is_open_def)
qed

lemma read_socket_refused:
  "\<not> is_open s \<or> n = 0 \<Longrightarrow> snd (src_read (st_source (socket_stream K)) n s) = s"
  by (auto simp: socket_stream_def socket_source_def receive_def)

lemma write_socket:
  "snd (st_write (socket_stream K) bs s) = s \<or>
   is_open s \<and> (\<exists>r k'. st_write (socket_stream K) bs s = (r, s\<lparr>os := k'\<rparr>) \<and> do_send K (socket_fd s) bs (os s) = Some (r, k'))"
  by (auto simp: socket_stream_def send_def split: option.split)

end

sublocale duplex_kernel \<subseteq> loop: finite_stream "socket_stream K" "\<lambda>s. socket_fd s = fd" "\<lambda>s. length (incoming (os s))"
proof
  fix n k :: nat and bs :: "byte list" and s s' :: "'k sock"
  let ?within = "within (st_source (socket_stream K)) (\<lambda>s. socket_fd s = fd) (\<lambda>s. length (incoming (os s)))"
  have within: "?within n s \<longleftrightarrow> \<not> is_open s \<or> socket_fd s = fd \<and> length (incoming (os s)) < n" for n s
    by (simp add: within_def)
  show "?within n (snd (src_read (st_source (socket_stream K)) k s))" if "?within n s"
  proof (cases "\<not> is_open s \<or> k = 0")
    case True
    with read_socket_refused that show ?thesis by simp
  next
    case False
    with that read_socket [of s k] show ?thesis by (auto simp: within)
  qed
  show "?within n (snd (st_write (socket_stream K) bs s))" if "?within n s"
    using write_socket [of bs s] that do_send_incoming [of K fd bs "os s"] by (fastforce simp: within is_open_def)
  show "?within n (snd (st_close (socket_stream K) s))" if "?within n s"
  proof -
    have "snd (st_close (socket_stream K) s) = s \<or> \<not> is_open (snd (st_close (socket_stream K) s))"
      by (simp add: socket_stream_def close_socket_def is_open_def)
    with that show ?thesis by (auto simp: within)
  qed
  show "?within (length (incoming (os s))) s'"
    if "socket_fd s = fd" "0 < k" "src_read (st_source (socket_stream K)) k s = (Inr bs, s')"
    using read_socket [OF that(1,2)] that(3) by (simp add: within)
  show "\<not> src_good (st_source (socket_stream K)) s'" if "st_close (socket_stream K) s = (Inr (), s')"
  proof -
    have "\<not> is_open s'"
      using that by (auto simp: socket_stream_def close_socket_def is_open_def split: if_splits)
    then show ?thesis by simp
  qed
  show "fst (st_close (socket_stream K) s) = Inr ()" if "socket_fd s = fd" "src_good (st_source (socket_stream K)) s"
    using that fd by (auto simp: socket_stream_def close_socket_def is_open_def)
qed


text \<open>A handler that answers with the body of the request.\<close>

definition echo_body :: "'s stream \<Rightarrow> reader_flags \<Rightarrow> (nat \<Rightarrow> byte) \<Rightarrow> 's stream_handler" where
  "echo_body T fl junk m =
     Some (\<lambda>req res. bind_prog (stream_body T fl junk req) (\<lambda>b. ret (set_body b res)))"

lemma echo_body_keeps: "finite_stream T ok left \<Longrightarrow> handlers_keep (st_source T) ok left (\<lambda>u. echo_body T fl junk)"
  by (auto simp: handlers_keep_def echo_body_def intro!: keeps_intros finite_stream.stream_body_tame)


end
