(* ===== verification/Http_Served.thy ===== *)
theory Http_Served
  imports Http_Loop Mount_Roundtrip
begin

text \<open>
  From the bytes of a request to the bytes of its answer: the parsers of \<open>http_request.cpp\<close>, the
  trie of \<open>http_mount_path.cpp\<close>, the router of \<open>http.cpp\<close> and the reader of \<open>io/co/co.h\<close> together,
  for the routes that consist of literal segments.
\<close>

section \<open>Requests for a literal route\<close>

text \<open>The request that a well-formed header describes.\<close>

definition described_request ::
  "string \<Rightarrow> string \<Rightarrow> (string \<times> string) list \<Rightarrow> string \<Rightarrow> (string \<times> string) list \<Rightarrow> nat \<Rightarrow> http_request" where
  "described_request m p qs v hs n = \<lparr>rq_raw_header = request_text m p qs v hs, rq_http_version = v,
     rq_method = m, rq_path = p, rq_raw_path = target_text p qs, rq_headers = insert_all hs [],
     rq_query_params = insert_all (with_blank qs) [], rq_route_params = [], rq_content_length = int n\<rparr>"

lemma described_request_simps [simp]:
  "rq_method (described_request m p qs v hs n) = m" "rq_path (described_request m p qs v hs n) = p"
  "rq_raw_path (described_request m p qs v hs n) = target_text p qs"
  "rq_headers (described_request m p qs v hs n) = insert_all hs []"
  "rq_content_length (described_request m p qs v hs n) = int n"
  "set_route_params [] (described_request m p qs v hs n) = described_request m p qs v hs n"
  by (simp_all add: described_request_def set_route_params_def)

definition literal_part :: "string \<Rightarrow> bool" where
  "literal_part p \<longleftrightarrow> part_ok p \<and> hd p \<noteq> CHR '':''"

lemma literal_route:
  assumes "list_all literal_part ps"
  shows "route_from [] (map LiteralPathMatcher ps)" "route_of (map LiteralPathMatcher ps) = url_of ps"
    "concat (map (\<lambda>m. SEP # chunk m) (map LiteralPathMatcher ps)) = url_of ps"
    "list_all is_literal (map LiteralPathMatcher ps)"
  using assms by (induction ps) (simp_all add: literal_part_def part_ok_def)

text \<open>Its header is read and its route is found.\<close>

lemma literal_request:
  assumes attached: "attach_routes rx fs router_new = (Inr (), ro)" "f \<in> set fs"
    and route: "fa_route f = url_of ps" "list_all literal_part ps"
    and request: "request_ok m (url_of ps) qs v hs" "announces hs n"
  shows "try_read_header what (request_text m (url_of ps) qs v hs) http_request_new http_response_new =
      Inr (True, described_request m (url_of ps) qs v hs n, http_response_new)"
    and "trie_match rx (ro_trie ro) (url_of ps) = Inr (Some ([], f))"
proof -
  let ?ms = "map LiteralPathMatcher ps"
  have "parse_endpoint rx (fa_route f) = Inr ?ms"
    using parse_route_text [OF literal_route(1) [OF route(2)], of rx] literal_route(2) [OF route(2)] route(1)
    by simp
  then show "trie_match rx (ro_trie ro) (url_of ps) = Inr (Some ([], f))"
    using attached_literal_match [OF attached _ literal_route(4) [OF route(2)]] literal_route(3) [OF route(2)]
    by simp
  show "try_read_header what (request_text m (url_of ps) qs v hs) http_request_new http_response_new =
      Inr (True, described_request m (url_of ps) qs v hs n, http_response_new)"
    using read_header_text [OF request] by (simp add: try_read_header_def described_request_def)
qed

text \<open>On the text of the header.\<close>

lemma literal_request_served:
  assumes attached: "attach_routes rx fs router_new = (Inr (), ro)" "f \<in> set fs"
    and route: "fa_route f = url_of ps" "list_all literal_part ps"
    and request: "request_ok m (url_of ps) qs v hs" "announces hs n"
    and handled: "method_named m = Some M"
      "call_handler (fa_handler f) M (described_request m (url_of ps) qs v hs n) http_response_new = Inr res"
      "serialize res = Inr b"
  shows "run_request rx (ro_trie ro) what (request_text m (url_of ps) qs v hs) c =
    (Inr (), if keep_alive (described_request m (url_of ps) qs v hs n) then conn_write b c
             else conn_close (conn_write b c))"
  using literal_request [OF attached route request] handled
  by (simp add: run_request_def finish_request_def)


definition hello_factory :: factory where
  "hello_factory = \<lparr>fa_route = ''/a'', fa_handler =
     (\<lambda>m. if m = Get then Some (\<lambda>req res. Inr (set_body (rq_raw_path req) res)) else None)\<rparr>"

lemma literal_attached:
  assumes "list_all literal_part ps" "ps \<noteq> []" "fa_route f = url_of ps"
  shows "\<exists>ro. attach_routes rx [f] router_new = (Inr (), ro)"
proof -
  have "parse_endpoint rx (url_of ps) = Inr (map LiteralPathMatcher ps)"
    using parse_route_text [OF literal_route(1) [OF assms(1)], of rx] literal_route(2) [OF assms(1)] by simp
  moreover have "fst (trie_insert (map LiteralPathMatcher ps) f make_node) = None"
    using assms(1,2) literal_route(3) [OF assms(1)] by (simp add: insert_chain)
  ultimately show ?thesis
    by (cases "trie_insert (map LiteralPathMatcher ps) f make_node")
      (simp add: attach_routes_def router_new_def assms(3))
qed

lemma plain_serialized: "rs_status_code r = 0 \<Longrightarrow> rs_status_message r = [] \<Longrightarrow> \<exists>b. serialize r = Inr b"
  by (simp add: status_message_def status_def default_status_message_def status_messages_def serialize_def write_response_def)


end
