(* ===== verification/Flag_Types.thy ===== *)
theory Flag_Types
  imports Flags
begin

text \<open>
  The types of command line flags (\<open>src/lw/flags/flags.h\<close>, \<open>src/lw/base/init.cpp\<close>): the value of a flag
  belongs to the C++ type it was declared with, numbers within its width, and \<open>init\<close> keeps that for
  every registered flag and all arguments.
\<close>

section \<open>Values of a type\<close>

fun value_typed :: "value_kind \<Rightarrow> 'f flag_val \<Rightarrow> bool" where
  "value_typed F_bool (V_bool b) = True"
| "value_typed (F_num t) (V_num i) = num_fits t i"
| "value_typed (F_float k) (V_float x) = True"
| "value_typed F_text (V_text s) = True"
| "value_typed F_duration (V_duration d) = int64_ok d"
| "value_typed _ _ = False"

text \<open>The same flag, up to what it has been set to.\<close>

definition same_flag :: "'f flag \<Rightarrow> 'f flag \<Rightarrow> bool" where
  "same_flag f g \<longleftrightarrow> g = f\<lparr>set_to := set_to g\<rparr>"

definition flag_typed :: "'f flag \<Rightarrow> bool" where
  "flag_typed f \<longleftrightarrow> value_typed (flag_type f) (default_value f) \<and> value_typed (flag_type f) (flag_value f)"

definition registry_typed :: "'f registry \<Rightarrow> bool" where
  "registry_typed reg \<longleftrightarrow> (\<forall>f \<in> ran reg. flag_typed f)"

definition registry_keeps :: "'f registry \<Rightarrow> 'f registry \<Rightarrow> bool" where
  "registry_keeps reg reg' \<longleftrightarrow> dom reg' = dom reg \<and>
     (\<forall>h f g. reg h = Some f \<longrightarrow> reg' h = Some g \<longrightarrow> same_flag f g \<and> (flag_typed f \<longrightarrow> flag_typed g))"

lemma registry_keeps_typed:
  assumes keep: "registry_keeps reg reg'" and typed: "registry_typed reg"
  shows "registry_typed reg'"
proof -
  have "flag_typed g" if g: "reg' h = Some g" for h g
  proof -
    from keep g obtain f where f: "reg h = Some f" by (metis domD domI registry_keeps_def)
    then have "flag_typed f" using typed by (auto simp: registry_typed_def ran_def)
    with keep f g show ?thesis unfolding registry_keeps_def by blast
  qed
  then show ?thesis by (auto simp: registry_typed_def ran_def)
qed

lemma same_flag_trans: "same_flag f g \<Longrightarrow> same_flag g h \<Longrightarrow> same_flag f h"
  by (cases f; cases g; cases h) (simp add: same_flag_def)

lemma registry_keeps_refl [simp]: "registry_keeps reg reg"
  by (simp add: registry_keeps_def same_flag_def)

lemma registry_keeps_trans:
  assumes "registry_keeps a b" "registry_keeps b c"
  shows "registry_keeps a c"
  unfolding registry_keeps_def
proof (intro conjI allI impI)
  show "dom c = dom a" using assms by (simp add: registry_keeps_def)
  fix h f g assume f: "a h = Some f" and g: "c h = Some g"
  then obtain m where "b h = Some m" using assms(1) by (metis domD domI registry_keeps_def)
  with f g assms have m: "same_flag f m" "same_flag m g" "flag_typed f \<longrightarrow> flag_typed m" "flag_typed m \<longrightarrow> flag_typed g"
    unfolding registry_keeps_def by blast+
  then show "same_flag f g" by (auto intro: same_flag_trans)
  show "flag_typed g" if "flag_typed f" using m(3,4) that by blast
qed

section \<open>Parsing\<close>

lemma parse_num_fits: "parse_num t v = Inr i \<Longrightarrow> num_fits t i"
  by (auto simp: parse_num_def from_chars_def num_fits_def Let_def split: prod.splits if_splits)

lemma parse_duration_loop_ok: "parse_duration_loop v d = Inr i \<Longrightarrow> int64_ok d \<Longrightarrow> int64_ok i"
proof (induction v d rule: parse_duration_loop.induct)
  case (1 v d)
  obtain k ec c where fc: "from_chars True int64_min int64_max v = (k, ec, c)" by (metis prod_cases3)
  note run = "1.prems"(1) [unfolded parse_duration_loop.simps [of v d] fc prod.case Let_def]
  show ?case
  proof (cases "v = []")
    case True
    with run "1.prems"(2) show ?thesis by simp
  next
    case False
    with run have ok: "k \<noteq> length v" "\<not> (k = 0 \<or> ec = Invalid_argument)" "ec \<noteq> Result_out_of_range"
      by (auto split: if_splits)
    obtain r where r: "nanos (take (unit_length v k 1) (drop k v)) = Some r"
      using run False ok by (auto split: option.splits)
    then obtain s where s: "add_duration d (the c) r = Inr s" "parse_duration_loop (drop (k + unit_length v k 1) v) s = Inr i"
      using run False ok by (auto simp: bind_res_eq_Inr_iff)
    have "int64_ok s" using s(1) by (auto simp: add_duration_def split: if_splits)
    from "1.IH" [OF False fc [symmetric] refl ok refl r s this] show ?thesis .
  qed
qed

lemma parse_method_typed: "parse_method lib T v = Inr x \<Longrightarrow> value_typed T x"
  by (cases T) (auto simp: map_res_eq_Inr_iff parse_num_fits parse_nanoseconds_def int64_ok_def [of 0]
      dest!: parse_duration_loop_ok)

section \<open>Registering and setting\<close>

lemma make_flag_typed:
  assumes "make_flag hash T tname n v descr reg = Inr reg'" "registry_typed reg" "value_typed T v"
  shows "registry_typed reg'"
  using assms by (auto simp: make_flag_def flags_register_def Let_def registry_typed_def flag_typed_def flag_value_def split: if_splits)

lemma parse_value_keeps:
  assumes "reg h = Some f" "parse_value lib v f = Inr g"
  shows "registry_keeps reg (reg(h \<mapsto> g))"
proof -
  from assms(2) obtain x where x: "parse_method lib (flag_type f) v = Inr x" "g = set_value x f"
    by (auto simp: parse_value_def map_res_eq_Inr_iff)
  have "same_flag f g" "flag_typed f \<longrightarrow> flag_typed g"
    using parse_method_typed [OF x(1)] x(2) by (simp_all add: same_flag_def set_value_def flag_typed_def flag_value_def)
  with assms(1) show ?thesis by (auto simp: registry_keeps_def same_flag_def)
qed

lemma flags_cli_set_keeps:
  assumes "flags_cli_set hash lib n val rest reg = Inr (reg', used)"
  shows "registry_keeps reg reg'"
  using assms parse_value_keeps
  by (auto simp: flags_cli_set_def Let_def map_res_eq_Inr_iff split: option.splits list.splits if_splits)

lemma init_arg_keeps: "registry_keeps (flag_map s) (flag_map (snd (init_arg hash lib i s)))"
  using flags_cli_set_keeps by (auto simp: init_arg_def split: sum.splits prod.splits)

lemma init_loop_keeps: "registry_keeps (flag_map s) (flag_map (snd (init_loop hash lib n i s)))"
proof (induction hash lib n i s rule: init_loop.induct)
  case (1 hash lib n i s)
  obtain r s1 where a: "init_arg hash lib i s = (r, s1)" by force
  have k: "registry_keeps (flag_map s) (flag_map s1)" using init_arg_keeps [of s hash lib i] a by simp
  show ?case
  proof (cases "i < n")
    case False
    then show ?thesis by (subst init_loop.simps) simp
  next
    case True
    show ?thesis
    proof (cases r)
      case (Inl e)
      with True a k show ?thesis by (subst init_loop.simps) simp
    next
      case (Inr used)
      from "1.IH" [OF True a [symmetric] Inr] k True a Inr show ?thesis
        by (subst init_loop.simps) (auto intro: registry_keeps_trans)
    qed
  qed
qed

lemma init_keeps:
  assumes "init hash lib order reg args = (r, s)"
  shows "registry_keeps reg (flag_map s)"
proof -
  let ?s0 = "\<lparr>flag_map = reg, argv = args, argc = length args, back_fill = 1\<rparr>"
  have "flag_map s = flag_map (snd (init_loop hash lib (length args) 1 ?s0))"
    using assms by (auto simp: init_def split: prod.splits sum.splits if_splits list.splits)
  with init_loop_keeps [of ?s0 hash lib "length args" 1] show ?thesis by simp
qed

text \<open>
  C25: command line flags keep their types. Whatever the arguments are and however \<open>init\<close> ends, it
  neither adds nor removes a flag, it changes no name, description, type or default value, and when
  every flag had a value of its declared type, numbers within their width, every flag still has.
\<close>

theorem init_keeps_types:
  assumes "registry_typed reg" "init hash lib order reg args = (r, s)"
  shows "registry_typed (flag_map s) \<and> dom (flag_map s) = dom reg \<and>
    (\<forall>h f g. reg h = Some f \<longrightarrow> flag_map s h = Some g \<longrightarrow> g = f\<lparr>set_to := set_to g\<rparr>)"
  using registry_keeps_typed [OF init_keeps [OF assms(2)] assms(1)] init_keeps [OF assms(2)]
  unfolding registry_keeps_def same_flag_def by blast

text \<open>One number that is set, and a word that is no flag.\<close>

definition sample_port :: "unit flag" where
  "sample_port = \<lparr>type_name = ''unsigned short'', flag_name = ''p'', description = [], flag_type = F_num T_ushort,
     default_value = V_num 80, set_to = None\<rparr>"

definition sample_init :: "(bool \<times> string) res \<times> unit init_state" where
  "sample_init = init (\<lambda>n. of_nat (length n)) sample_lib (\<lambda>reg. []) [1 \<mapsto> sample_port] [''x'', ''--p=9'', ''y'']"

lemma sample_init_value: "map_option flag_value (flag_map (snd sample_init) 1) = Some (V_num 9)"
  by code_simp

theorem init_keeps_types_witness:
  "registry_typed (flag_map (snd sample_init)) \<and>
   flag_map (snd sample_init) 1 = Some (sample_port\<lparr>set_to := Some (V_num 9)\<rparr>)"
proof -
  obtain r s where rs: "sample_init = (r, s)" by force
  have "registry_typed [1 \<mapsto> sample_port]"
    by (simp add: registry_typed_def sample_port_def flag_typed_def flag_value_def num_fits_def num_min_def num_max_def)
  note keep = init_keeps_types [OF this rs [unfolded sample_init_def]]
  from sample_init_value obtain g where g: "flag_map s 1 = Some g" "flag_value g = V_num 9" unfolding rs by auto
  with keep have "g = sample_port\<lparr>set_to := set_to g\<rparr>" by auto
  moreover from this g(2) have "set_to g = Some (V_num 9)"
    by (cases "set_to g") (auto simp: flag_value_def sample_port_def)
  ultimately show ?thesis using keep g(1) unfolding rs by simp
qed

end
