(* ===== verification/Echo_Server.thy ===== *)
theory Echo_Server
  imports Http_Served Server Routers Flag_Types
begin

text \<open>
  The example program \<open>src/examples/echo_server.cpp\<close>: its flags, its handler and \<open>main\<close>, composed
  of the models of \<open>lw::init\<close>, the routers, the server and the HTTP router.
\<close>

section \<open>Flags\<close>

definition echo_flags :: "hash \<Rightarrow> 'f registry \<Rightarrow> 'f registry res" where
  "echo_flags hash reg =
     bind_res (make_flag hash (F_num T_ushort) ''unsigned short'' ''port'' (V_num 8080)
       ''Port for the server to listen on for HTTP.'' reg) (\<lambda>reg.
     bind_res (make_flag hash F_text ''std::string'' ''tls_cert_path'' (V_text [])
       ''Path to the TLS certificate.'' reg) (\<lambda>reg.
     make_flag hash F_text ''std::string'' ''tls_key_path'' (V_text []) ''Path to the TLS private key.'' reg))"

text \<open>The values of the flags, which are objects of the program.\<close>

definition port_value :: "hash \<Rightarrow> 'f registry \<Rightarrow> nat res" where
  "port_value hash reg =
     (case map_option flag_value (reg (hash_flag_name hash ''port'')) of
        Some (V_num n) \<Rightarrow> Inr (nat n)
      | _ \<Rightarrow> Inl Undefined_behaviour)"

definition text_value :: "hash \<Rightarrow> 'f registry \<Rightarrow> string \<Rightarrow> string res" where
  "text_value hash reg name =
     (case map_option flag_value (reg (hash_flag_name hash name)) of
        Some (V_text t) \<Rightarrow> Inr t
      | _ \<Rightarrow> Inl Undefined_behaviour)"

text \<open>After \<open>init\<close> the flags can be read, and the port has 16 bits.\<close>

lemma make_flag_adds:
  "make_flag hash T tname n v descr reg = Inr reg' \<Longrightarrow>
   reg' = reg(hash_flag_name hash n \<mapsto> \<lparr>type_name = tname, flag_name = n, description = descr, flag_type = T,
     default_value = v, set_to = None\<rparr>) \<and> reg (hash_flag_name hash n) = None"
  by (auto simp: make_flag_def flags_register_def Let_def split: if_splits)

lemma flag_of_type:
  assumes "registry_keeps reg reg'" "registry_typed reg" "reg h = Some f"
  shows "\<exists>g. reg' h = Some g \<and> value_typed (flag_type f) (flag_value g)"
proof -
  from assms(1,3) obtain g where g: "reg' h = Some g" by (metis domD domI registry_keeps_def)
  with assms(1,3) have "same_flag f g" by (auto simp: registry_keeps_def)
  moreover from registry_keeps_typed [OF assms(1,2)] g have "flag_typed g" by (auto simp: registry_typed_def ran_def)
  ultimately have "value_typed (flag_type f) (flag_value g)" by (cases g) (auto simp: same_flag_def flag_typed_def)
  with g show ?thesis by blast
qed

lemma value_typed_text: "value_typed F_text v \<Longrightarrow> \<exists>t. v = V_text t"
  by (cases v) auto

lemma value_typed_num: "value_typed (F_num t) v \<Longrightarrow> \<exists>i. v = V_num i \<and> num_fits t i"
  by (cases v) auto

lemma echo_flags_read:
  assumes "echo_flags hash reg0 = Inr reg" "registry_typed reg0" "init hash lib order reg args = (r, st)"
  shows "\<exists>n. port_value hash (flag_map st) = Inr n \<and> n \<le> 65535"
    "\<exists>t. text_value hash (flag_map st) ''tls_cert_path'' = Inr t"
    "\<exists>t. text_value hash (flag_map st) ''tls_key_path'' = Inr t"
proof -
  from assms(1) obtain reg1 reg2 where
    r1: "make_flag hash (F_num T_ushort) ''unsigned short'' ''port'' (V_num 8080)
       ''Port for the server to listen on for HTTP.'' reg0 = Inr reg1" and
    r2: "make_flag hash F_text ''std::string'' ''tls_cert_path'' (V_text [])
       ''Path to the TLS certificate.'' reg1 = Inr reg2" and
    r3: "make_flag hash F_text ''std::string'' ''tls_key_path'' (V_text [])
       ''Path to the TLS private key.'' reg2 = Inr reg"
    by (auto simp: echo_flags_def bind_res_eq_Inr_iff)
  note typed = make_flag_typed [OF r3 make_flag_typed [OF r2 make_flag_typed [OF r1 assms(2)]]]
  have reg: "registry_typed reg"
    by (intro typed) (simp_all add: num_fits_def num_min_def num_max_def)
  note keep = flag_of_type [OF init_keeps [OF assms(3)] reg]
  note adds = make_flag_adds [OF r1] make_flag_adds [OF r2] make_flag_adds [OF r3]
  have port: "\<exists>f. reg (hash_flag_name hash ''port'') = Some f \<and> flag_type f = F_num T_ushort"
    and cert: "\<exists>f. reg (hash_flag_name hash ''tls_cert_path'') = Some f \<and> flag_type f = F_text"
    and key: "\<exists>f. reg (hash_flag_name hash ''tls_key_path'') = Some f \<and> flag_type f = F_text"
    using adds by auto
  from port obtain f where "reg (hash_flag_name hash ''port'') = Some f" "flag_type f = F_num T_ushort" by blast
  with keep [of "hash_flag_name hash ''port''" f] value_typed_num [of T_ushort]
  show "\<exists>n. port_value hash (flag_map st) = Inr n \<and> n \<le> 65535"
    by (fastforce simp: port_value_def num_fits_def num_min_def num_max_def)
  from cert obtain f where "reg (hash_flag_name hash ''tls_cert_path'') = Some f" "flag_type f = F_text" by blast
  with keep [of "hash_flag_name hash ''tls_cert_path''" f] value_typed_text
  show "\<exists>t. text_value hash (flag_map st) ''tls_cert_path'' = Inr t" by (fastforce simp: text_value_def)
  from key obtain f where "reg (hash_flag_name hash ''tls_key_path'') = Some f" "flag_type f = F_text" by blast
  with keep [of "hash_flag_name hash ''tls_key_path''" f] value_typed_text
  show "\<exists>t. text_value hash (flag_map st) ''tls_key_path'' = Inr t" by (fastforce simp: text_value_def)
qed

section \<open>The handler\<close>

definition echo_get :: "http_request \<Rightarrow> http_response \<Rightarrow> http_response" where
  "echo_get req res =
     set_body (rq_raw_path req)
       (set_response_header ''content-length'' (nat_to_string (length (rq_raw_path req))) res)"

definition echo_post ::
  "'s stream \<Rightarrow> reader_flags \<Rightarrow> (nat \<Rightarrow> byte) \<Rightarrow> http_request \<Rightarrow> http_response \<Rightarrow> ('s reader, http_response) prog" where
  "echo_post T fl junk req res =
     bind_prog (if has_header req ''content-length''
                then bind_prog (lift_res (header req ''content-length'')) (\<lambda>v. ret (set_response_header ''content-length'' v res))
                else ret res) (\<lambda>res.
     bind_prog (stream_body T fl junk req) (\<lambda>b. ret (set_body b res)))"

definition echo_handler :: "'s stream \<Rightarrow> reader_flags \<Rightarrow> (nat \<Rightarrow> byte) \<Rightarrow> 's stream_handler" where
  "echo_handler T fl junk m =
     (case m of
        Get \<Rightarrow> Some (\<lambda>req res. ret (echo_get req res))
      | Post \<Rightarrow> Some (echo_post T fl junk)
      | _ \<Rightarrow> None)"

text \<open>The route that is registered; its handlers are those of \<open>echo_handler\<close>.\<close>

definition echo_route :: factory where
  "echo_route = \<lparr>fa_route = ''/echo'', fa_handler = (\<lambda>m. None)\<rparr>"

section \<open>The program\<close>

datatype echo_router = Http_router | Https_router tls_context

definition echo_router_of :: "hash \<Rightarrow> 'f registry \<Rightarrow> 'o openssl \<Rightarrow> 'o \<Rightarrow> echo_router res" where
  "echo_router_of hash reg X ssl =
     bind_res (text_value hash reg ''tls_cert_path'') (\<lambda>cert.
     bind_res (text_value hash reg ''tls_key_path'') (\<lambda>key.
       if cert \<noteq> [] \<and> key \<noteq> []
       then map_res Https_router
         (fst (tls_router_new X \<lparr>router_private_key = key, router_certificate = cert\<rparr> ssl))
       else Inr Http_router))"

text \<open>Both routers attach the routes of the HTTP router.\<close>

definition echo_attach :: "regex_lib \<Rightarrow> echo_router \<Rightarrow> unit res" where
  "echo_attach rx r = fst (attach_routes rx [echo_route] router_new)"

text \<open>
  What happens to an exception: \<open>lw::Error\<close> and \<open>std::regex_error\<close> are runtime errors, the other
  exceptions of the standard library leave \<open>main\<close>.
\<close>

definition exit_code :: "unit res \<Rightarrow> int res" where
  "exit_code r =
     (case r of
        Inr u \<Rightarrow> Inr 0
      | Inl (Err e) \<Rightarrow> Inr (-1)
      | Inl Std_regex_error \<Rightarrow> Inr (-1)
      | Inl Std_out_of_range \<Rightarrow> Inl Terminates
      | Inl Std_bad_variant_access \<Rightarrow> Inl Terminates
      | Inl f \<Rightarrow> Inl f)"

text \<open>
  What \<open>main\<close> does with its server, from its construction to its destruction at the end of the
  block; \<open>loop\<close> is the event loop with the connections, \<open>conns\<close> their number in a router.
\<close>

definition echo_serve ::
  "hash \<Rightarrow> 'f registry \<Rightarrow> 'k kernel \<Rightarrow> int \<Rightarrow> ('k \<Rightarrow> unit res \<times> 'k) \<Rightarrow> (echo_router \<Rightarrow> nat) \<Rightarrow> regex_lib \<Rightarrow>
   'o openssl \<Rightarrow> 'o \<Rightarrow> ((echo_router, 'k) server, unit) prog \<Rightarrow> ('k, unit) prog" where
  "echo_serve hash reg K backlog stop_runner conns rx X ssl loop k =
     (case bind_prog (lift_res (echo_router_of hash reg X ssl)) (\<lambda>router.
           bind_prog (lift_res (port_value hash reg)) (\<lambda>port.
           bind_prog (attach_router (echo_attach rx) port (Some router)) (\<lambda>_.
           bind_prog (server_listen K backlog) (\<lambda>_.
           server_run loop)))) (server_new k) of
        (r, s) \<Rightarrow>
          (case server_destroy K stop_runner conns s of
             (Inl f, k') \<Rightarrow> (Inl f, k')
           | (Inr u, k') \<Rightarrow> (r, k')))"

definition echo_main ::
  "hash \<Rightarrow> 'f float_lib \<Rightarrow> ('f registry \<Rightarrow> 'f flag list) \<Rightarrow> 'f registry \<Rightarrow> 'k kernel \<Rightarrow> int \<Rightarrow>
   ('k \<Rightarrow> unit res \<times> 'k) \<Rightarrow> (echo_router \<Rightarrow> nat) \<Rightarrow> regex_lib \<Rightarrow> 'o openssl \<Rightarrow> 'o \<Rightarrow>
   ((echo_router, 'k) server, unit) prog \<Rightarrow> string list \<Rightarrow> ('k, int) prog" where
  "echo_main hash lib order reg K backlog stop_runner conns rx X ssl loop args k =
     (case init hash lib order reg args of
        (Inl f, st) \<Rightarrow> (exit_code (Inl f), k)
      | (Inr (go, out), st) \<Rightarrow>
          if \<not> go then (Inr 0, k)
          else (case echo_serve hash (flag_map st) K backlog stop_runner conns rx X ssl loop k of
                  (r, k') \<Rightarrow> (exit_code r, k')))"

section \<open>Serving\<close>

text \<open>Any stream handlers behind the header of a request for a literal route.\<close>

lemma literal_stream_request:
  assumes attached: "attach_routes rx fs router_new = (Inr (), ro)" "f \<in> set fs"
    and route: "fa_route f = url_of ps" "list_all literal_part ps"
    and request: "request_ok m (url_of ps) qs v hs" "announces hs n" "method_named m = Some M"
    and header: "stream_header T fl junk rd = (Inr (request_text m (url_of ps) qs v hs), rd1)"
  shows "stream_request T fl junk rx handler_of (ro_trie ro) what rd =
    bind_prog (stream_call (handler_of f) M (described_request m (url_of ps) qs v hs n) http_response_new)
      (stream_finish T (described_request m (url_of ps) qs v hs n)) rd1"
  using literal_request [OF attached route request(1,2)] header request(3)
  by (simp add: stream_request_def stream_try_header_def stream_answer_def bind_prog_def Let_def)

lemma echo_parts: "fa_route echo_route = url_of [''echo'']" "list_all literal_part [''echo'']"
  by (simp_all add: literal_part_def part_ok_def SEP_def echo_route_def)

lemma announced:
  assumes "announces hs n" "0 < n"
  shows "headers_find ''content-length'' (insert_all hs []) = Some (nat_to_string n)" "int n \<le> int64_max"
  using assms by (auto simp: announces_def split: option.splits)

text \<open>A body in the window of the reader is the answer.\<close>

lemma echo_post_answer:
  assumes "announces hs n" "0 < n" "reader_ok rd" "n \<le> length (window rd)"
  shows "\<exists>rd'. echo_post T fl junk (described_request m p qs v hs n) res rd =
      (Inr (set_body (text_of (take n (window rd))) (set_response_header ''content-length'' (nat_to_string n) res)), rd') \<and>
    rd_source rd' = rd_source rd"
proof -
  let ?q = "described_request m p qs v hs n" and ?w = "word_of_nat n :: size_t"
  note has = announced [OF assms(1,2)]
  have n: "unat ?w = n" using has(2) by (simp add: unat_of_nat)
  have b: "body ?q = Inr (Read_bytes ?w)"
    using n assms(2) by (auto simp: body_def content_length_def word_gt_0)
  have h: "has_header ?q ''content-length''" "header ?q ''content-length'' = Inr (nat_to_string n)"
    using has(1) by (simp_all add: has_header_def header_def map_contains_def map_at_def headers_find_def)
  from body_in_window [OF b assms(3), unfolded n, OF assms(2,4), of T fl junk] obtain rd' where
    "stream_body T fl junk ?q rd = (Inr (text_of (take n (window rd))), rd')" "rd_source rd' = rd_source rd" by blast
  with h show ?thesis by (simp add: echo_post_def bind_prog_def)
qed

text \<open>What a handler answers is sent.\<close>

lemma echo_answered:
  assumes stream: "duplex T incoming sent ok"
    and ro: "attach_routes rx [echo_route] router_new = (Inr (), ro)"
    and request: "request_ok m ''/echo'' qs v hs" "announces hs n" "method_named m = Some M"
    and header: "stream_header T fl junk (reader_new fl junk s \<lparr>blocks = Map.empty, fresh = 0\<rparr>) =
      (Inr (request_text m ''/echo'' qs v hs), rd)"
    and handler: "stream_call (echo_handler T fl junk) M (described_request m ''/echo'' qs v hs n) http_response_new rd =
        (Inr res, rd')" "ok (rd_source rd')" "sent (rd_source rd') = sent s" "serialize res = Inr a"
  shows "\<exists>s'. stream_once T fl junk rx (\<lambda>f. echo_handler T fl junk) (ro_trie ro) what s = (Inr (), s') \<and>
    sent s' = sent s @ bytes_of a \<and>
    (if keep_alive (described_request m ''/echo'' qs v hs n) then ok s' else \<not> src_good (st_source T) s')"
proof -
  let ?q = "described_request m ''/echo'' qs v hs n"
  have url: "url_of [''echo''] = ''/echo''" by (simp add: SEP_def)
  have "duplex.answers T incoming sent ok (stream_finish T ?q res) (finish_request ?q res)"
    by (rule duplex.answers_finish [OF stream])
  from duplex.answersD [OF stream this, of rd'] handler obtain s' where
    fin: "stream_finish T ?q res rd' = (Inr (), rd'\<lparr>rd_source := s'\<rparr>)" "sent s' = sent s @ bytes_of a"
    "if keep_alive ?q then ok s' else \<not> src_good (st_source T) s'"
    by (auto simp: finish_request_def duplex.served_def [OF stream] conn_write_def conn_close_def split: if_splits)
  note req = literal_stream_request [OF ro _ echo_parts request(1) [folded url] request(2,3), unfolded url, OF _ header,
      of "\<lambda>f. echo_handler T fl junk" what]
  have "stream_once T fl junk rx (\<lambda>f. echo_handler T fl junk) (ro_trie ro) what s = (Inr (), s')"
    using req handler(1) fin(1) by (simp add: stream_once_def bind_prog_def)
  with fin(2,3) show ?thesis by blast
qed

lemma echo_attached: "\<exists>ro. attach_routes rx [echo_route] router_new = (Inr (), ro)"
  using literal_attached [OF echo_parts(2) _ echo_parts(1)] by simp

lemma echo_serialized: "\<exists>a. serialize (set_body b (set_response_header k v http_response_new)) = Inr a"
  by (rule plain_serialized) (simp_all add: set_body_def set_response_header_def http_response_new_def headers_find_def)

text \<open>A GET is answered with the path and the query as they were sent, in whatever pieces.\<close>

lemma echo_get_served:
  assumes stream: "duplex T incoming sent ok" "reader_room fl" "ok s"
    and request: "request_ok ''GET'' ''/echo'' qs v hs" "announces hs n"
    and arrives: "incoming s = bytes_of (request_text ''GET'' ''/echo'' qs v hs) @ rest"
      "length (request_text ''GET'' ''/echo'' qs v hs) \<le> read_block_size fl"
  shows "\<exists>ro a s'. attach_routes rx [echo_route] router_new = (Inr (), ro) \<and>
    serialize (set_body (target_text ''/echo'' qs)
      (set_response_header ''content-length'' (nat_to_string (length (target_text ''/echo'' qs))) http_response_new)) = Inr a \<and>
    stream_once T fl junk rx (\<lambda>f. echo_handler T fl junk) (ro_trie ro) what s = (Inr (), s') \<and>
    sent s' = sent s @ bytes_of a"
proof -
  let ?t = "request_text ''GET'' ''/echo'' qs v hs"
  obtain ro where ro: "attach_routes rx [echo_route] router_new = (Inr (), ro)" using echo_attached by blast
  obtain a where a: "serialize (set_body (target_text ''/echo'' qs)
      (set_response_header ''content-length'' (nat_to_string (length (target_text ''/echo'' qs))) http_response_new)) = Inr a"
    using echo_serialized by blast
  have found: "scan header_end 0 (incoming s) = Some (length ?t)"
    unfolding arrives(1) by (rule request_header_end [OF request(1)])
  have header: "text_of (take (length ?t) (incoming s)) = ?t" unfolding arrives(1) by simp
  from duplex.header_is_read [OF stream found arrives(2), of junk "\<lparr>blocks = Map.empty, fresh = 0\<rparr>", unfolded header]
  obtain rd where rd: "stream_header T fl junk (reader_new fl junk s \<lparr>blocks = Map.empty, fresh = 0\<rparr>) = (Inr ?t, rd)"
    "ok (rd_source rd)" "sent (rd_source rd) = sent s" by blast
  have m: "method_named ''GET'' = Some Get" by (simp add: method_named_def)
  from echo_answered [OF stream(1) ro request m rd(1) _ rd(2,3) a, of what] ro a show ?thesis
    by (force simp: stream_call_def echo_handler_def echo_get_def)
qed

text \<open>
  C23: the echo server echoes. When the bytes of a well-formed \<open>POST /echo\<close>, with whatever query
  parameters and headers, and its non-empty body arrive in one piece, the answer that is sent has
  that body and the content length of the request, and the stream stays open exactly if the
  client asked for it.
\<close>

theorem echo_post_served:
  assumes stream: "duplex T incoming sent ok" "reader_room fl" "ok s"
      "src_read (st_source T) (read_block_size fl) s = (Inr (incoming s), s1)"
    and request: "request_ok ''POST'' ''/echo'' qs v hs" "announces hs (length b)" "b \<noteq> []"
    and arrives: "incoming s = bytes_of (request_text ''POST'' ''/echo'' qs v hs) @ bytes_of b @ rest"
      "length (request_text ''POST'' ''/echo'' qs v hs) \<le> read_block_size fl"
  shows "\<exists>ro a s'. attach_routes rx [echo_route] router_new = (Inr (), ro) \<and>
    serialize (set_body b (set_response_header ''content-length'' (nat_to_string (length b)) http_response_new)) = Inr a \<and>
    stream_once T fl junk rx (\<lambda>f. echo_handler T fl junk) (ro_trie ro) what s = (Inr (), s') \<and>
    sent s' = sent s @ bytes_of a \<and>
    (if keep_alive (described_request ''POST'' ''/echo'' qs v hs (length b)) then ok s' else \<not> src_good (st_source T) s')"
proof -
  let ?t = "request_text ''POST'' ''/echo'' qs v hs" and ?q = "described_request ''POST'' ''/echo'' qs v hs (length b)"
  let ?res = "set_body b (set_response_header ''content-length'' (nat_to_string (length b)) http_response_new)"
  obtain ro where ro: "attach_routes rx [echo_route] router_new = (Inr (), ro)" using echo_attached by blast
  obtain a where a: "serialize ?res = Inr a" using echo_serialized by blast
  have found: "scan header_end 0 (incoming s) = Some (length ?t)"
    unfolding arrives(1) by (rule request_header_end [OF request(1)])
  have header: "text_of (take (length ?t) (incoming s)) = ?t" "drop (length ?t) (incoming s) = bytes_of b @ rest"
    unfolding arrives(1) by simp_all
  from duplex.one_piece_header [OF stream found arrives(2), of junk, unfolded header] obtain rd where
    rd: "stream_header T fl junk (reader_new fl junk s \<lparr>blocks = Map.empty, fresh = 0\<rparr>) = (Inr ?t, rd)"
    "reader_ok rd" "window rd = bytes_of b @ rest" "rd_source rd = s1" "sent s1 = sent s" "ok s1" by blast
  have body: "0 < length b" "length b \<le> length (window rd)" using request(3) rd(3) by simp_all
  from echo_post_answer [OF request(2) body(1) rd(2) body(2)] obtain rd' where
    rd': "echo_post T fl junk ?q http_response_new rd = (Inr ?res, rd')" "rd_source rd' = s1"
    using rd(3,4) by force
  have m: "method_named ''POST'' = Some Post" by (simp add: method_named_def)
  have "stream_call (echo_handler T fl junk) Post ?q http_response_new rd = (Inr ?res, rd')"
    using rd'(1) by (simp add: stream_call_def echo_handler_def)
  from echo_answered [OF stream(1) ro request(1,2) m rd(1) this _ _ a, of what] rd'(2) rd(5,6) ro a show ?thesis
    by blast
qed

text \<open>A body of two bytes behind its header, in one packet.\<close>

definition echo_bytes :: "byte list" where
  "echo_bytes = bytes_of (request_text ''POST'' ''/echo'' [] ''HTTP/1.1'' [(''content-length'', ''2'')]) @ bytes_of ''hi'' @ [0]"

definition large_blocks :: reader_flags where
  "large_blocks = \<lparr>initial_read_buffer_size = 4, maximum_read_buffer_size = 900, read_block_size = 100\<rparr>"

theorem echo_post_served_witness:
  "\<exists>ro a s'. attach_routes no_regex [echo_route] router_new = (Inr (), ro) \<and>
    serialize (set_body ''hi'' (set_response_header ''content-length'' ''2'' http_response_new)) = Inr a \<and>
    stream_once (socket_stream (pipe_kernel (Suc 15))) large_blocks (\<lambda>i. 0) no_regex
      (\<lambda>f. echo_handler (socket_stream (pipe_kernel (Suc 15))) large_blocks (\<lambda>i. 0)) (ro_trie ro) []
      (wired [echo_bytes]\<lparr>os := os (wired [echo_bytes])\<lparr>p_recv_busy := 0\<rparr>\<rparr>) = (Inr (), s') \<and>
    p_sent (os s') = bytes_of a \<and> \<not> is_open s'"
proof -
  let ?T = "socket_stream (pipe_kernel (Suc 15))" and ?hs = "[(''content-length'', ''2'')]"
  let ?s = "wired [echo_bytes]\<lparr>os := os (wired [echo_bytes])\<lparr>p_recv_busy := 0\<rparr>\<rparr>"
  have len: "length echo_bytes = 45" by (simp add: echo_bytes_def request_text_def target_text_def header_line_def)
  have inc: "concat (p_packets (os ?s)) = echo_bytes" by simp
  obtain x xs where cons: "echo_bytes = x # xs" using len by (cases echo_bytes) auto
  have "next_packet 100 [echo_bytes] = (echo_bytes, [[]])"
    using len cons next_packet.simps(3) [of 100 x xs "[]"] by simp
  then have "k_recv (pipe_kernel (Suc 15)) 3 100 (os ?s) = ((45, echo_bytes), os ?s\<lparr>p_packets := [[]]\<rparr>)"
    using len by (simp add: pipe_kernel_def pipe_recv_def)
  then have "do_recv (pipe_kernel (Suc 15)) 100 ?s = Some (Inr echo_bytes, ?s\<lparr>os := os ?s\<lparr>p_packets := [[]]\<rparr>\<rparr>)"
    by (subst do_recv.simps) simp
  then have one: "src_read (st_source ?T) (read_block_size large_blocks) ?s =
      (Inr (concat (p_packets (os ?s))), ?s\<lparr>os := os ?s\<lparr>p_packets := [[]]\<rparr>\<rparr>)"
    by (simp add: large_blocks_def socket_stream_def socket_source_def receive_def is_open_def)
  have two: "nat_to_string (length ''hi'') = ''2''" by (simp add: nat_to_string.simps digit_char_def code_def flip: code_inject)
  have ok: "request_ok ''POST'' ''/echo'' [] ''HTTP/1.1'' ?hs" "announces ?hs (length ''hi'')"
    by (simp_all add: request_ok_def word_ok_def header_pair_ok_def announces_def insert_all_def headers_find_def headers_insert_def
        two [simplified] ci_less_def ci_compare_def size_difference_def char_simps)
  have room: "reader_room large_blocks" by (simp add: large_blocks_def reader_room_def)
  have arrives: "concat (p_packets (os ?s)) = bytes_of (request_text ''POST'' ''/echo'' [] ''HTTP/1.1'' ?hs) @ bytes_of ''hi'' @ [0]"
    by (simp add: inc echo_bytes_def)
  have short: "length (request_text ''POST'' ''/echo'' [] ''HTTP/1.1'' ?hs) \<le> read_block_size large_blocks"
    by (simp add: large_blocks_def request_text_def target_text_def header_line_def)
  have plain: "\<not> keep_alive (described_request ''POST'' ''/echo'' [] ''HTTP/1.1'' ?hs (length ''hi''))"
    by (simp add: keep_alive_def has_header_def header_def map_contains_def map_at_def insert_all_def headers_insert_def)
  from echo_post_served [where T = ?T and incoming = "\<lambda>s. concat (p_packets (os s))"
      and sent = "\<lambda>s. p_sent (os s)" and ok = "\<lambda>s. socket_fd s = 3" and s = ?s and rest = "[0]" and what = "[]"
      and junk = "\<lambda>i. 0" and rx = no_regex, OF pipe_duplex.duplex_axioms room _ one ok _ arrives short, unfolded two] plain
  obtain ro a s' where "attach_routes no_regex [echo_route] router_new = (Inr (), ro)"
    "serialize (set_body ''hi'' (set_response_header ''content-length'' ''2'' http_response_new)) = Inr a"
    "stream_once ?T large_blocks (\<lambda>i. 0) no_regex (\<lambda>f. echo_handler ?T large_blocks (\<lambda>i. 0)) (ro_trie ro) [] ?s = (Inr (), s')"
    "p_sent (os s') = bytes_of a" "\<not> is_open s'"
    by auto
  then show ?thesis by blast
qed

section \<open>The program and its descriptors\<close>

lemma server_ok_bind:
  assumes "server_ok fds S (snd (m s))" "\<And>x s1. m s = (Inr x, s1) \<Longrightarrow> server_ok fds S (snd (f x s1))"
  shows "server_ok fds S (snd (bind_prog m f s))"
  using assms by (cases "m s") (auto simp: bind_prog_def split: sum.split)


text \<open>The program on port 7, with an event loop that ends at once.\<close>

definition short_hash :: hash where
  "short_hash n = (case n of [] \<Rightarrow> 0 | c # cs \<Rightarrow> of_nat (code c + length cs))"

definition echo_registry :: "unit registry" where
  "echo_registry = (case echo_flags short_hash Map.empty of Inr reg \<Rightarrow> reg | Inl f \<Rightarrow> Map.empty)"

definition echo_run :: "pipe \<Rightarrow> int res \<times> pipe" where
  "echo_run = echo_main short_hash sample_lib (\<lambda>reg. []) echo_registry (pipe_kernel 2) 1 idle (\<lambda>r. 0) no_regex
     toy_openssl \<lparr>toy_live = [], toy_owned = [], toy_script = []\<rparr> idle [''echo'', ''--port=7'']"

lemma echo_run_ends: "fst (echo_run empty_pipe) = Inr 0"
  by code_simp


end
