(* ===== verification/Spec2Isabelle.thy ===== *)
theory Spec2Isabelle
  imports Json_Roundtrip Mount_Roundtrip Http_Router Buffers Blobs Flags Co_Reader Futures Event_Loop
    Generators Server Tls Resource_Progress Error_Objects
    Async_Generator Void_Futures Logging Task_Completion Routers Serialized_Value
    Trie_Search Echo_Server
begin

text \<open>
  A verification of liblw, a C++ library of coroutines, sockets, an HTTP server, JSON and
  command line flags. The sources are under \<open>src/lw\<close>; the coroutines and operations of the
  library are functions here, exceptions are values (\<open>fault\<close> in \<open>Prelude\<close>), and where the
  source is undefined, does not return or terminates the program, the model says so, so that
  its absence is a theorem.

  \<^bold>\<open>The program.\<close> A process registers flags and calls \<open>lw::init\<close> on its arguments. A server
  binds a socket for each port and runs the event loop of its thread; coroutines suspend on
  futures and descriptors and are resumed by that loop. Each accepted connection is handed to
  a router; the HTTP router reads a request through a buffered reader, looks its path up in a
  trie of route patterns, calls the handler mounted there and writes the serialized response.

  \<^bold>\<open>The theories\<close>, with the files they model and what they show.

  \<^item> \<open>Prelude\<close>: error classes, results, state with exceptions, characters, decimal numbers as
    the standard library reads and writes them, running sequences of operations, the locale
    \<open>simulation\<close> of an object that implements an abstract one.
  \<^item> \<open>Serializer\<close>, \<open>Json_Formatter\<close>, \<open>Json_Parser\<close>, \<open>Json_Roundtrip\<close>, \<open>Serialized_Value\<close>:
    \<open>io/serializer\<close> and \<open>mime/json.cpp\<close>. What the formatter writes and for which values; that
    parsing ends, with which outcome; that what is written is read back, also field by field
    through the interface of tokens (the locale \<open>token_interface\<close>).
  \<^item> \<open>Ordered_Map\<close>, \<open>Headers\<close>: \<open>std::map\<close> as an interface (a locale), \<open>base/strings.h\<close> and
    \<open>http/headers.h\<close> as its instance under the case-insensitive order.
  \<^item> \<open>Mount_Path\<close>, \<open>Mount_Roundtrip\<close>, \<open>Endpoint_Trie\<close>: \<open>http/internal/http_mount_path.cpp\<close>.
    The pattern parser as the state machine it is, patterns and their text, insertion into the
    trie as an update of a map from routes, soundness of matching.
  \<^item> \<open>Trie_Search\<close>: the walk through the trie, with its stack of wildcards, against a recursive
    depth-first search; what that finds and what it does not.
  \<^item> \<open>Http_Request\<close>, \<open>Http_Response\<close>, \<open>Http_Router\<close>: \<open>http/http_request.cpp\<close>,
    \<open>http_response.cpp\<close>, \<open>http_handler.h\<close>, \<open>http.cpp\<close>. Reading and writing of the texts, one
    response per request.
  \<^item> \<open>Http_Stream\<close>, \<open>Http_Loop\<close>, \<open>Http_Served\<close>: the same functions of \<open>http.cpp\<close> on the bytes of a
    stream, through the reader of \<open>Co_Reader\<close>. A request on a stream refines one on the text of
    its header (the locale \<open>duplex\<close>, with sockets as its instance); the loop of a connection ends
    (the locale \<open>finite_stream\<close>); a request from its bytes to the bytes of its answer.
  \<^item> \<open>Flag_Format\<close>, \<open>Flags\<close>, \<open>Flag_Types\<close>: \<open>flags/\<close> and \<open>base/init.cpp\<close>. Values as text, the
    in-place argument loop against a pass over the arguments, the types of the values.
  \<^item> \<open>Echo_Server\<close>: \<open>src/examples/echo_server.cpp\<close>, its handlers behind the router and its \<open>main\<close>
    over the models of \<open>init\<close>, the routers and the server.
  \<^item> \<open>Buffers\<close>, \<open>Circular_Queue\<close>, \<open>Blobs\<close>: \<open>memory/\<close> and \<open>format/blobs.cpp\<close>. Ownership of
    buffers over a heap of blocks; the queue against a bounded list (the locale
    \<open>bounded_queue\<close>); hexadecimal and base 64 views.
  \<^item> \<open>System_Errors\<close>, \<open>Socket\<close>, \<open>Co_Reader\<close>, \<open>Server\<close>: \<open>err/system.cpp\<close>, \<open>net/socket.cpp\<close>,
    \<open>io/co/co.h\<close>, \<open>io/co/co.cpp\<close>, \<open>net/server.cpp\<close>. Sending everything, no leaked
    descriptors, the reader against a scan of the stream, the life of a server.
  \<^item> \<open>Tls\<close>, \<open>Tls_Context\<close>, \<open>Routers\<close>: \<open>net/tls.cpp\<close>, \<open>net/internal/tls_client.cpp\<close> and
    \<open>tls_context.cpp\<close>, \<open>net/tls_router.h\<close>, \<open>net/router.cpp\<close>. Handshake, reading and writing
    over OpenSSL as a parameter and what a write puts on the wire; no object of OpenSSL is
    lost, whichever call fails; the table of routes and the router that puts TLS before another.
  \<^item> \<open>Futures\<close>, \<open>Void_Futures\<close>, \<open>Scheduler\<close>, \<open>Event_Loop\<close>, \<open>Task_Completion\<close>, \<open>Generators\<close>,
    \<open>Async_Generator\<close>: \<open>co/\<close>. A promise with its future as a cell, with a value or without,
    their accesses from two threads as a step relation, the queue of the scheduler that is
    never forgotten, waiting for a task, loops over generators and ranges, and asynchronous
    generators as a row of cells.
  \<^item> \<open>Tuples\<close>, \<open>Server_Resource\<close>, \<open>Resource_Progress\<close>: \<open>base/tuple.h\<close>, \<open>net/server_resource.h\<close> and
    \<open>.cpp\<close>, \<open>co::all\<close>. The calls that ask a context for resources as coroutines that wait for
    each other, in every order: each resource is made once, requests are served when the
    dependencies have no cycle, and what happens when a construction fails.
  \<^item> \<open>String_Buffer\<close>, \<open>Error_Objects\<close>, \<open>Logging\<close>: \<open>io/stream/buffer.cpp\<close>, \<open>err/error.h\<close>,
    \<open>error.cpp\<close>, \<open>canonical.h\<close>, \<open>macros.h\<close>, \<open>log/\<close>. The buffer with its pointers into a string that
    is reallocated, the messages and stacks of errors through copies, moves and wrapping, the
    lines of a log. The other theories keep of an error only its class.

  This theory holds what connects a promise to the event loop; requests from bytes to bytes are in
  \<open>Http_Served\<close>, the program as a whole is in \<open>Echo_Server\<close>.

  \<^bold>\<open>State and effects.\<close> Objects are records; a member function that may throw is a \<open>prog\<close>, a
  function from the object to the outcome and the object as it is then. Buffers live on an
  explicit heap, promises in an explicit store of shared states. Unordered maps are
  association lists in their iteration order. Machine integers keep their width where it
  matters: \<open>size_t\<close> as naturals with the wrap-around written out, 64-bit and 32-bit values with
  their bounds, bytes and events as words.

  \<^bold>\<open>Parameters.\<close> What is not in the repository is an argument: the operating system (the records
  \<open>kernel\<close> and \<open>poll_kernel\<close>), OpenSSL (\<open>ssl\<close> for a connection, \<open>openssl\<close> for the objects), the memory of strings
  (\<open>string_lib\<close>), regular expressions, conversion of floating point text, the hash and the
  iteration order of unordered maps, the order in which the arguments of a call are evaluated
  (\<open>await_all\<close>), the bodies of coroutines, handlers and factories. What a theorem needs to
  know of them is a named predicate or a locale (\<open>takes_messages\<close>, \<open>keeps_descriptors\<close>,
  \<open>recv_kernel\<close>, \<open>duplex_kernel\<close>, \<open>co_source\<close>, \<open>duplex\<close>, \<open>finite_stream\<close>, \<open>event_kernel\<close>, \<open>keeps_work\<close>, \<open>wire_stream\<close>, \<open>bio_queue\<close>, \<open>string_impl\<close>, \<open>openssl_ok\<close>), and each has an instance on which
  the theorems are evaluated.

  \<^bold>\<open>Loops.\<close> Loops over the input are recursive with a measure. Loops that wait for the kernel,
  follow links or run user code are partial functions to \<open>option\<close>, and that they return is
  proved where it is claimed. The only fuel is that of \<open>grow_size\<close>: a 64-bit number that is
  doubled is 0 after 64 rounds and stays 0, so a loop that has not ended then never does.

  \<^bold>\<open>Not modelled.\<close> Compile-time predicates on types (the concepts; those of the serializer ask for
  members of the template \<open>Serialize\<close> whose specializations they select, so that their answer is
  left to the compiler), abstract interface classes without code, declarations and the test doubles;
  what the compiler and the standard library do by themselves (frames of coroutines, clocks,
  formatting of numbers other than decimal ones). Data races on memory that is not atomic are
  modelled as interleavings of single accesses only. A TLS connection is modelled twice, by what its
  calls do to a stream (\<open>Tls\<close>) and by the objects it consists of (\<open>Tls_Context\<close>), not by both at
  once. A request on a stream runs from one suspension to the next without a pause: what other
  connections do meanwhile is not seen by it, since they share no state with it but the routes.

  \<^bold>\<open>Plan.\<close> The connections of a server as coroutines of its event loop, each with the loop of
  \<open>Http_Loop\<close>; a TLS stream as an instance of \<open>duplex\<close>.
\<close>

section \<open>From a promise to the event loop\<close>

lemma suspend_then_fulfil:
  assumes ok: "linked p f w" and waiting: "await_suspend f h w = (Inr True, w1)"
  shows "\<exists>w2. set_value_of sch p v w1 = (fst (sch h (sched w)), w2) \<and> sched w2 = snd (sch h (sched w)) \<and>
    fst (await_resume mv f w2) = Inr v"
proof -
  have step: "future_step mv sch p f (Suspend h) w = (A_bool (Inr True), w1)"
    using waiting by simp
  with future_simulates [OF ok, of mv sch "Suspend h"] have w1: "linked p f w1"
      "cell_step mv sch (Suspend h) (cell_at f w) = (A_bool (Inr True), cell_at f w1)"
    by (metis Pair_inject prod.collapse)+
  have "snd (cell_at f w) = sched w" by (simp add: cell_at_def)
  with w1(2) have at: "cell_at f w1 = (Empty (Some h), sched w)"
    by (cases "cell_at f w"; cases "fst (cell_at f w)") auto
  obtain w2 where w2: "future_step mv sch p f (Fulfil (Inr v)) w1 = (A_done (fst (sch h (sched w))), w2)"
      "cell_at f w2 = (Full (Inr v), snd (sch h (sched w)))" "linked p f w2"
    using future_simulates [OF w1(1), of mv sch "Fulfil (Inr v)"] at by auto
  obtain w4 where "future_step mv sch p f Resume w2 = (A_value (Inr v), w4)"
    using future_simulates [OF w2(3), of mv sch Resume] w2(2) by auto
  with w2 show ?thesis
    by (auto simp: cell_at_def split: prod.splits)
qed

text \<open>
  C2: a coroutine that waits for a future comes back with its value. When a coroutine is
  suspended on a future and the promise is then fulfilled on the same thread without an
  error, the coroutine is last in the queue of the thread's scheduler, the scheduler is in
  order, the event loop does not block before the queue has been drained, and what the
  coroutine reads when it is resumed is the value.
\<close>

theorem fulfilled_waiter_is_queued:
  assumes "event_kernel K V" "linked p f w" "sched_ok V (sched w)"
    and waiting: "await_suspend f h w = (Inr True, w1)"
    and fulfilled: "set_value_of (add_to_queue K) p v w1 = (Inr (), w2)"
  shows "queued (sched w2) = queued (sched w) @ [h] \<and> sched_ok V (sched w2) \<and>
    fst (p_wait K (epoll_fd (sched w2)) n (-1) (pk (sched w2))) \<noteq> None \<and>
    fst (await_resume mv f w2) = Inr v"
proof -
  have fst: "fst (add_to_queue K h (sched w)) = Inr ()" and q: "sched w2 = snd (add_to_queue K h (sched w))"
    and v: "fst (await_resume mv f w2) = Inr v"
    using suspend_then_fulfil [OF assms(2) waiting, of "add_to_queue K" v mv] fulfilled by auto
  then have "add_to_queue K h (sched w) = (Inr (), sched w2)" by (metis prod.collapse)
  from event_kernel.add_to_queue_ok [OF assms(1) _ this] assms(3)
  have "advances V (sched w) (sched w2)" "queued (sched w2) = queued (sched w) @ [h]"
    by (simp_all add: sched_ok_def)
  moreover from this(1) have "sched_ok V (sched w2)" by (rule advances_sched_ok [OF assms(3)])
  ultimately show ?thesis
    using event_kernel.wait_does_not_block [OF assms(1), of "sched w2" n] v by auto
qed

theorem fulfilled_waiter_is_queued_witness:
  "let w = \<lparr>shared = [0 \<mapsto> new_state], next_state = 1, sched = two_scheduled\<rparr>;
       p = \<lparr>future_obtained = True, promise_addr = Some 0\<rparr>;
       (r1, w1) = await_suspend 0 9 w;
       (r2, w2) = set_value_of (add_to_queue loop_kernel) p (5 :: nat) w1
   in r1 = Inr True \<and> r2 = Inr () \<and> queued (sched w2) = [7, 8, 9] \<and> fst (await_resume id 0 w2) = Inr 5"
proof -
  define w :: "(nat, nat, (nat, loop_os, nat list) scheduler) world" where
    "w = \<lparr>shared = [0 \<mapsto> new_state], next_state = 1, sched = two_scheduled\<rparr>"
  let ?p = "\<lparr>future_obtained = True, promise_addr = Some 0\<rparr>"
  let ?sch = "add_to_queue loop_kernel"
  have l: "linked ?p 0 w"
    by (simp add: w_def linked_def new_state_def state_ok_def chain_end.simps)
  have r1: "await_suspend 0 9 w = (Inr True, snd (await_suspend 0 9 w))"
    by (simp add: w_def await_suspend_def new_state_def)
  have "fst (?sch 9 two_scheduled) = Inr ()" by code_simp
  with suspend_then_fulfil [OF l r1, of ?sch 5 id]
  have r2: "set_value_of ?sch ?p 5 (snd (await_suspend 0 9 w)) = (Inr (), snd (set_value_of ?sch ?p 5 (snd (await_suspend 0 9 w))))"
    by (auto simp: w_def)
  have "sched_ok loop_view (sched w)" by (simp add: w_def two_scheduled_ok)
  from fulfilled_waiter_is_queued [OF loop.event_kernel_axioms l this r1 r2, of 32 id] r1 r2
  show ?thesis
    unfolding w_def [symmetric] Let_def
    by (auto simp: w_def two_scheduled_ok split: prod.splits)
qed

end
